(* ===== verification/Prelude.thy ===== *)
theory Prelude
  imports Main "HOL-Library.Word"
begin

unbundle bit_operations_syntax

text \<open>
  Shared vocabulary of the development: the machine integer types of \<^verbatim>\<open>types.h\<close>, the result
  of a kernel routine that may call \<^verbatim>\<open>panic\<close>, its sequencing, and the generic lemmas on lists,
  function updates and words that the component theories use.

  Conventions of the whole library.
  \<^item> \<^verbatim>\<open>uint\<close> and pointers are \<open>32 word\<close>: addition wraps, \<open>unat\<close> reads the value.
  \<^item> A routine that can reach \<^verbatim>\<open>panic(msg)\<close> returns an \<open>outcome\<close>; the message is kept.
  \<^item> Between \<^verbatim>\<open>acquire(&l)\<close> and \<^verbatim>\<open>release(&l)\<close> no other processor can enter a section of
    the same lock \<open>l\<close>, so a routine whose body is one such section is one transition of the
    model. The locks themselves, their interrupt discipline and the exclusion they give are modelled
    in the theory on spin locks.
\<close>

section \<open>Machine integers\<close>

type_synonym uchar = "8 word"
type_synonym ushort = "16 word"
type_synonym uint = "32 word"

lemma unat_uint_bound: "unat (a :: uint) < 4294967296"
  using unsigned_less [of a] by simp

lemma unat_of_nat_small: "n < 4294967296 \<Longrightarrow> unat (of_nat n :: uint) = n"
  by (simp add: unat_of_nat)

section \<open>Results of routines that may panic\<close>

text \<open>
  \<open>Ok x\<close> is a normal return; \<open>Panic m\<close> is a call of \<^verbatim>\<open>panic\<close>, which never
  returns. \<open>Hang\<close> is a call that does not come back: it waits for a lock or an event that the state at hand
  does not give, it runs with undefined behaviour (an index outside an array, a null pointer), or it is a loop that
  has used up its bound; a routine whose model uses a bound has a lemma that the bound is not reached.
\<close>

datatype 'a outcome = Ok 'a | Panic string | Hang

primrec andthen :: "'a outcome \<Rightarrow> ('a \<Rightarrow> 'b outcome) \<Rightarrow> 'b outcome" where
  "andthen (Ok x) f = f x"
| "andthen (Panic m) f = Panic m"
| "andthen Hang f = Hang"

named_theorems outcome_simps \<open>rewriting of sequenced outcomes\<close>

lemma andthen_eq_Ok [outcome_simps]:
  "andthen r f = Ok y \<longleftrightarrow> (\<exists>x. r = Ok x \<and> f x = Ok y)"
  by (cases r) auto

lemma andthen_eq_Hang [outcome_simps]:
  "andthen r f = Hang \<longleftrightarrow> r = Hang \<or> (\<exists>x. r = Ok x \<and> f x = Hang)"
  by (cases r) auto

text \<open>For recursion behind a call: the continuation is only needed for results of the call.\<close>

lemma andthen_cong: "r = r' \<Longrightarrow> (\<And>x. r' = Ok x \<Longrightarrow> f x = g x) \<Longrightarrow> andthen r f = andthen r' g"
  by (cases r') auto

text \<open>The same as elimination rules, with the case distinctions that follow a call. They take a run of a
  routine apart step by step.\<close>

named_theorems ok_elims \<open>elimination rules for successful runs\<close>

lemma andthen_OkE [ok_elims]: "andthen r f = Ok y \<Longrightarrow> (\<And>x. r = Ok x \<Longrightarrow> f x = Ok y \<Longrightarrow> P) \<Longrightarrow> P"
  by (auto simp: andthen_eq_Ok)

lemma case_prod_OkE [ok_elims]: "(case z of (a, b) \<Rightarrow> f a b) = Ok y \<Longrightarrow> (\<And>a b. z = (a, b) \<Longrightarrow> f a b = Ok y \<Longrightarrow> P) \<Longrightarrow> P"
  by (auto split: prod.splits)

lemma case_option_OkE [ok_elims]:
  "(case z of None \<Rightarrow> g | Some x \<Rightarrow> f x) = Ok y \<Longrightarrow> (z = None \<Longrightarrow> g = Ok y \<Longrightarrow> P) \<Longrightarrow> (\<And>x. z = Some x \<Longrightarrow> f x = Ok y \<Longrightarrow> P) \<Longrightarrow> P"
  by (cases z) auto

lemma if_OkE [ok_elims]: "(if c then a else b) = Ok y \<Longrightarrow> (c \<Longrightarrow> a = Ok y \<Longrightarrow> P) \<Longrightarrow> (\<not> c \<Longrightarrow> b = Ok y \<Longrightarrow> P) \<Longrightarrow> P"
  by (auto split: if_splits)

lemma andthen_Ok_right [simp]: "andthen r Ok = r"
  by (cases r) auto

lemma andthen_assoc: "andthen (andthen r f) g = andthen r (\<lambda>x. andthen (f x) g)"
  by (cases r) auto

text \<open>A counting loop whose body may panic.\<close>

primrec for_loop :: "nat list \<Rightarrow> (nat \<Rightarrow> 's \<Rightarrow> 's outcome) \<Rightarrow> 's \<Rightarrow> 's outcome" where
  "for_loop [] f s = Ok s"
| "for_loop (i # xs) f s = andthen (f i s) (for_loop xs f)"

lemma for_loop_append: "for_loop (xs @ ys) f s = andthen (for_loop xs f s) (for_loop ys f)"
proof (induction xs arbitrary: s)
  case (Cons i xs)
  then show ?case by (cases "f i s") simp_all
qed simp

end
