(* ===== verification/Mmu.thy ===== *)
theory Mmu
  imports Prelude
begin

text \<open>
  The memory layout of \<^verbatim>\<open>memlayout.h\<close> and the x86 paging and segmentation formats of
  \<^verbatim>\<open>mmu.h\<close>: the split of a virtual address, page rounding, page table entries, segment
  descriptors (\<^verbatim>\<open>SEG\<close>, \<^verbatim>\<open>SEG16\<close>) and interrupt gates (\<^verbatim>\<open>SETGATE\<close>).
  The lemmas give the arithmetic reading of the bit operations, which the page table theories use.
\<close>

section \<open>Memory layout\<close>

abbreviation (input) EXTMEM :: uint where "EXTMEM \<equiv> 0x100000"
abbreviation (input) PHYSTOP :: uint where "PHYSTOP \<equiv> 0xE000000"
abbreviation (input) DEVSPACE :: uint where "DEVSPACE \<equiv> 0xFE000000"
abbreviation (input) KERNBASE :: uint where "KERNBASE \<equiv> 0x80000000"
abbreviation (input) KERNLINK :: uint where "KERNLINK \<equiv> KERNBASE + EXTMEM"

definition V2P :: "uint \<Rightarrow> uint" where
  "V2P a = a - KERNBASE"

definition P2V :: "uint \<Rightarrow> uint" where
  "P2V a = a + KERNBASE"

lemma P2V_V2P [simp]: "P2V (V2P a) = a"
  by (simp add: P2V_def V2P_def)

lemma V2P_P2V [simp]: "V2P (P2V a) = a"
  by (simp add: P2V_def V2P_def)

lemma V2P_eq_iff [simp]: "V2P a = V2P b \<longleftrightarrow> a = b"
  by (simp add: V2P_def)

lemma P2V_eq_iff [simp]: "P2V a = P2V b \<longleftrightarrow> a = b"
  by (simp add: P2V_def)

section \<open>Virtual addresses and page table entries\<close>

abbreviation (input) NPDENTRIES :: nat where "NPDENTRIES \<equiv> 1024"
abbreviation (input) NPTENTRIES :: nat where "NPTENTRIES \<equiv> 1024"
abbreviation (input) PGSIZE :: uint where "PGSIZE \<equiv> 4096"
abbreviation (input) PGSHIFT :: nat where "PGSHIFT \<equiv> 12"
abbreviation (input) PTXSHIFT :: nat where "PTXSHIFT \<equiv> 12"
abbreviation (input) PDXSHIFT :: nat where "PDXSHIFT \<equiv> 22"

definition PDX :: "uint \<Rightarrow> uint" where
  "PDX va = drop_bit PDXSHIFT va AND 0x3FF"

definition PTX :: "uint \<Rightarrow> uint" where
  "PTX va = drop_bit PTXSHIFT va AND 0x3FF"

definition PGADDR :: "uint \<Rightarrow> uint \<Rightarrow> uint \<Rightarrow> uint" where
  "PGADDR d t off = push_bit PDXSHIFT d OR push_bit PTXSHIFT t OR off"

definition PGROUNDUP :: "uint \<Rightarrow> uint" where
  "PGROUNDUP sz = (sz + PGSIZE - 1) AND NOT (PGSIZE - 1)"

definition PGROUNDDOWN :: "uint \<Rightarrow> uint" where
  "PGROUNDDOWN a = a AND NOT (PGSIZE - 1)"

abbreviation (input) PTE_P :: uint where "PTE_P \<equiv> 0x001"
abbreviation (input) PTE_W :: uint where "PTE_W \<equiv> 0x002"
abbreviation (input) PTE_U :: uint where "PTE_U \<equiv> 0x004"
abbreviation (input) PTE_PS :: uint where "PTE_PS \<equiv> 0x080"

definition PTE_ADDR :: "uint \<Rightarrow> uint" where
  "PTE_ADDR pte = pte AND NOT 0xFFF"

definition PTE_FLAGS :: "uint \<Rightarrow> uint" where
  "PTE_FLAGS pte = pte AND 0xFFF"

subsection \<open>Arithmetic reading\<close>

lemma low10_mask: "(0x3FF :: uint) = mask 10"
  by (simp add: mask_eq_exp_minus_1)

lemma low12_mask: "(0xFFF :: uint) = mask 12"
  by (simp add: mask_eq_exp_minus_1)

lemma not_low12_mask: "(NOT 0xFFF :: uint) = NOT (mask 12)"
  by (simp add: mask_eq_exp_minus_1)

lemma low12_bits: "bit (0xFFF :: uint) n \<longleftrightarrow> n < 12"
  unfolding low12_mask by (auto simp: bit_simps)

lemma low10_bits: "bit (0x3FF :: uint) n \<longleftrightarrow> n < 10"
  unfolding low10_mask by (auto simp: bit_simps)

lemma round_as_shift: "a AND NOT 0xFFF = push_bit 12 (drop_bit 12 (a :: uint))"
proof (rule bit_word_eqI)
  fix n assume "n < LENGTH(32)"
  show "bit (a AND NOT 0xFFF) n = bit (push_bit 12 (drop_bit 12 a)) n"
    by (simp only: bit_and_iff bit_not_iff low12_bits) (auto simp: bit_simps)
qed

lemma PGROUNDDOWN_shift: "PGROUNDDOWN a = push_bit 12 (drop_bit 12 a)"
  using round_as_shift [of a] by (simp add: PGROUNDDOWN_def)

lemma PTE_ADDR_eq: "PTE_ADDR a = PGROUNDDOWN a"
  by (simp add: PTE_ADDR_def PGROUNDDOWN_def)

lemma unat_PGROUNDDOWN: "unat (PGROUNDDOWN a) = unat a div 4096 * 4096"
proof -
  have "unat a div 4096 * 4096 < 2 ^ 32"
    using unat_uint_bound [of a] by (simp; linarith)
  then show ?thesis
    by (simp add: PGROUNDDOWN_shift push_bit_eq_mult unat_word_ariths unat_drop_bit_eq
        drop_bit_eq_div)
qed

lemma unat_add_nowrap:
  "unat a + unat b < 4294967296 \<Longrightarrow> unat (a + b :: uint) = unat a + unat b"
  by (simp add: unat_word_ariths)

lemma unat_PGROUNDUP:
  assumes "unat a \<le> 0xFFFFF000"
  shows "unat (PGROUNDUP a) = (unat a + 4095) div 4096 * 4096"
proof -
  have "unat (a + 4095) = unat a + 4095"
    using assms by (subst unat_add_nowrap) simp_all
  moreover have "PGROUNDUP a = PGROUNDDOWN (a + 4095)"
    by (simp add: PGROUNDUP_def PGROUNDDOWN_def add.commute)
  ultimately show ?thesis
    by (simp add: unat_PGROUNDDOWN)
qed

lemma PGROUNDUP_bounds:
  assumes "unat a \<le> 0xFFFFF000"
  shows "unat a \<le> unat (PGROUNDUP a) \<and> unat (PGROUNDUP a) < unat a + 4096"
  using unat_PGROUNDUP [OF assms] div_mult_mod_eq [of "unat a + 4095" 4096]
    mod_less_divisor [of 4096 "unat a + 4095"] by linarith

lemma low10_and: "unat (a AND 0x3FF :: uint) = unat a mod 1024"
proof -
  have "a AND 0x3FF = take_bit 10 a"
    by (simp add: low10_mask take_bit_eq_mask)
  then show ?thesis
    by (simp add: take_bit_eq_mod unat_mod_distrib)
qed

lemma unat_PDX: "unat (PDX va) = unat va div 4194304"
proof -
  have "unat va div 4194304 < 1024"
    using unat_uint_bound [of va] by linarith
  then show ?thesis
    by (simp add: PDX_def low10_and drop_bit_eq_div unat_div_distrib)
qed

lemma unat_PTX: "unat (PTX va) = unat va div 4096 mod 1024"
  by (simp add: PTX_def low10_and drop_bit_eq_div unat_div_distrib)

lemma PDX_less: "unat (PDX va) < 1024"
  by (simp add: PDX_def low10_and)

lemma PTX_less: "unat (PTX va) < 1024"
  by (simp add: unat_PTX)

lemma same_page_iff: "PGROUNDDOWN a = PGROUNDDOWN b \<longleftrightarrow> PDX a = PDX b \<and> PTX a = PTX b"
proof
  assume "PGROUNDDOWN a = PGROUNDDOWN b"
  then have "unat a div 4096 = unat b div 4096"
    by (metis unat_PGROUNDDOWN mult_cancel2 zero_neq_numeral)
  moreover have "unat c div 4194304 = unat c div 4096 div 1024" for c :: uint
    by (simp add: div_mult2_eq [symmetric])
  ultimately show "PDX a = PDX b \<and> PTX a = PTX b"
    by (simp add: word_unat_eq_iff unat_PDX unat_PTX)
next
  assume "PDX a = PDX b \<and> PTX a = PTX b"
  then have "unat a div 4096 div 1024 = unat b div 4096 div 1024"
    and "unat a div 4096 mod 1024 = unat b div 4096 mod 1024"
    by (simp_all add: word_unat_eq_iff unat_PDX unat_PTX div_mult2_eq [symmetric])
  then have "unat a div 4096 = unat b div 4096"
    by (metis div_mult_mod_eq)
  then show "PGROUNDDOWN a = PGROUNDDOWN b"
    by (simp add: word_unat_eq_iff unat_PGROUNDDOWN)
qed

subsection \<open>Aligned addresses and entries\<close>

definition page_aligned :: "uint \<Rightarrow> bool" where
  "page_aligned a \<longleftrightarrow> a mod PGSIZE = 0"

lemma page_aligned_unat: "page_aligned a \<longleftrightarrow> unat a mod 4096 = 0"
  by (simp add: page_aligned_def word_unat_eq_iff unat_mod_distrib)

lemma page_aligned_round: "page_aligned a \<longleftrightarrow> PGROUNDDOWN a = a"
  unfolding page_aligned_unat word_unat_eq_iff unat_PGROUNDDOWN
  by (metis add_0_right div_mult_mod_eq mod_mult_self2_is_0)

lemma page_aligned_PGROUNDDOWN [simp]: "page_aligned (PGROUNDDOWN a)"
  by (simp add: page_aligned_unat unat_PGROUNDDOWN)

lemma page_aligned_PTE_ADDR [simp]: "page_aligned (PTE_ADDR a)"
  by (simp add: PTE_ADDR_eq)

lemma PGROUNDUP_alt: "PGROUNDUP a = PGROUNDDOWN (a + 4095)"
  by (simp add: PGROUNDUP_def PGROUNDDOWN_def add.commute)

lemma page_aligned_PGROUNDUP [simp]: "page_aligned (PGROUNDUP a)"
  by (simp add: PGROUNDUP_alt)

lemma PGROUNDUP_aligned:
  assumes "page_aligned a"
  shows "PGROUNDUP a = a"
proof -
  obtain q where q: "unat a = 4096 * q"
    using assms by (auto simp: page_aligned_unat mod_eq_0_iff_dvd)
  with unat_uint_bound [of a] have "unat a \<le> 0xFFFFF000" by simp
  from unat_PGROUNDUP [OF this] q show ?thesis by (simp add: word_unat_eq_iff)
qed

lemma page_aligned_low_bits:
  assumes "page_aligned a" and "n < 12"
  shows "\<not> bit a n"
proof -
  have "a = push_bit 12 (drop_bit 12 a)"
    using assms(1) by (simp add: page_aligned_round PGROUNDDOWN_shift)
  then have "bit a n = bit (push_bit 12 (drop_bit 12 a)) n" by simp
  then show ?thesis using assms(2) by (simp add: bit_simps)
qed

lemma low_bits_only:
  assumes "unat (f :: uint) < 2 ^ k" and "bit f n"
  shows "n < k"
proof (rule ccontr)
  assume "\<not> n < k"
  moreover have "unat (drop_bit k f) = 0"
    unfolding unat_drop_bit_eq drop_bit_eq_div [of k "unat f"] using assms(1) by simp
  then have "drop_bit k f = 0" by (simp only: unsigned_eq_0_iff)
  then have "\<not> bit (drop_bit k f) (n - k)" by simp
  ultimately show False using assms(2) by (simp add: bit_simps)
qed

lemma small_high_bits: "unat (f :: uint) < 4096 \<Longrightarrow> 12 \<le> n \<Longrightarrow> \<not> bit f n"
  using low_bits_only [of f 12 n] by auto

lemma PTE_ADDR_bits: "bit (PTE_ADDR a) n \<longleftrightarrow> bit a n \<and> 12 \<le> n"
  unfolding PTE_ADDR_eq PGROUNDDOWN_shift by (auto simp: bit_simps dest: bit_imp_le_length)

lemma PTE_FLAGS_bits: "bit (PTE_FLAGS a) n \<longleftrightarrow> bit a n \<and> n < 12"
  unfolding PTE_FLAGS_def by (simp only: bit_and_iff low12_bits)

lemma PTE_ADDR_make [simp]:
  assumes "page_aligned pa" and "unat f < 4096"
  shows "PTE_ADDR (pa OR f) = pa"
proof (rule bit_word_eqI)
  fix n assume "n < LENGTH(32)"
  show "bit (PTE_ADDR (pa OR f)) n = bit pa n"
    using page_aligned_low_bits [OF assms(1), of n] small_high_bits [OF assms(2), of n]
    by (cases "n < 12") (auto simp: PTE_ADDR_bits bit_or_iff)
qed

lemma PTE_FLAGS_make [simp]:
  assumes "page_aligned pa" and "unat f < 4096"
  shows "PTE_FLAGS (pa OR f) = f"
proof (rule bit_word_eqI)
  fix n assume "n < LENGTH(32)"
  show "bit (PTE_FLAGS (pa OR f)) n = bit f n"
    using page_aligned_low_bits [OF assms(1), of n] small_high_bits [OF assms(2), of n]
    by (cases "n < 12") (auto simp: PTE_FLAGS_bits bit_or_iff)
qed

lemma PTE_split: "PTE_ADDR pte OR PTE_FLAGS pte = pte"
  by (rule bit_word_eqI) (auto simp: PTE_ADDR_bits PTE_FLAGS_bits bit_or_iff)

lemma unat_PTE_FLAGS: "unat (PTE_FLAGS a) < 4096"
proof -
  have "PTE_FLAGS a = take_bit 12 a"
    by (simp add: PTE_FLAGS_def low12_mask take_bit_eq_mask)
  then show ?thesis
    by (simp add: take_bit_eq_mod unat_mod_distrib)
qed

definition pte_flag :: "uint \<Rightarrow> uint \<Rightarrow> bool" where
  "pte_flag f pte \<longleftrightarrow> pte AND f \<noteq> 0"

lemma pte_flag_P: "pte_flag PTE_P pte = bit pte 0"
  using and_exp_eq_0_iff_not_bit [of pte 0] by (simp only: pte_flag_def power_0) blast

lemma pte_flag_W: "pte_flag PTE_W pte = bit pte 1"
  using and_exp_eq_0_iff_not_bit [of pte 1] by (simp only: pte_flag_def power_one_right) blast

lemma pte_flag_U: "pte_flag PTE_U pte = bit pte 2"
proof -
  have "(2 :: uint) ^ 2 = 4" by simp
  then show ?thesis
    using and_exp_eq_0_iff_not_bit [of pte 2] by (simp only: pte_flag_def) blast
qed

lemmas pte_flag_bit = pte_flag_P pte_flag_W pte_flag_U

text \<open>Splitting a virtual address into its directory index, table index and page
  offset loses nothing, and building an address from indices below 1024 and an offset below the page
  size gives back exactly those parts.\<close>

theorem PGADDR_split:
  "PGADDR (PDX va) (PTX va) (va AND 0xFFF) = va \<and>
   (unat d < 1024 \<and> unat t < 1024 \<and> unat off < 4096 \<longrightarrow>
     PDX (PGADDR d t off) = d \<and> PTX (PGADDR d t off) = t \<and> PGADDR d t off AND 0xFFF = off)"
proof -
  have "PGADDR (PDX va) (PTX va) (va AND 0xFFF) = va" (is "?l = _")
  proof (rule bit_word_eqI)
    fix n assume "n < LENGTH(32)"
    then show "bit ?l n = bit va n"
      unfolding PGADDR_def PDX_def PTX_def bit_or_iff bit_push_bit_iff bit_and_iff bit_drop_bit_eq
        low12_bits low10_bits
      by (cases "n < 12"; cases "n < 22") auto
  qed
  moreover have "PDX (PGADDR d t off) = d \<and> PTX (PGADDR d t off) = t \<and> PGADDR d t off AND 0xFFF = off"
    if "unat d < 1024" "unat t < 1024" "unat off < 4096"
  proof -
    have d: "bit d n \<Longrightarrow> n < 10" and t: "bit t n \<Longrightarrow> n < 10" and off: "bit off n \<Longrightarrow> n < 12" for n
      using that low_bits_only [of d 10 n] low_bits_only [of t 10 n] low_bits_only [of off 12 n]
      by simp_all
    have "bit (PDX (PGADDR d t off)) n = bit d n" "bit (PTX (PGADDR d t off)) n = bit t n"
      "bit (PGADDR d t off AND 0xFFF) n = bit off n" if "n < 32" for n
      using d [of n] d [of "n - 10"] t [of n] t [of "10 + n"] off [of n]
        off [of "12 + n"] off [of "22 + n"] that
      unfolding PGADDR_def PDX_def PTX_def bit_or_iff bit_push_bit_iff bit_and_iff bit_drop_bit_eq
        low12_bits low10_bits
      by auto
    then show ?thesis by (auto intro!: bit_word_eqI)
  qed
  ultimately show ?thesis by blast
qed

theorem PGADDR_split_witness:
  "PDX (PGADDR 1 2 3) = 1 \<and> PTX (PGADDR 1 2 3) = 2 \<and> PGADDR 1 2 3 AND 0xFFF = 3"
  using PGADDR_split [of 0 1 2 3] by simp

section \<open>Segment descriptors\<close>

abbreviation (input) SEG_KCODE :: nat where "SEG_KCODE \<equiv> 1"
abbreviation (input) SEG_KDATA :: nat where "SEG_KDATA \<equiv> 2"
abbreviation (input) SEG_KCPU :: nat where "SEG_KCPU \<equiv> 3"
abbreviation (input) SEG_UCODE :: nat where "SEG_UCODE \<equiv> 4"
abbreviation (input) SEG_UDATA :: nat where "SEG_UDATA \<equiv> 5"
abbreviation (input) SEG_TSS :: nat where "SEG_TSS \<equiv> 6"
abbreviation (input) DPL_USER :: uint where "DPL_USER \<equiv> 3"
abbreviation (input) STA_X :: uint where "STA_X \<equiv> 0x8"
abbreviation (input) STA_W :: uint where "STA_W \<equiv> 0x2"
abbreviation (input) STA_R :: uint where "STA_R \<equiv> 0x2"
abbreviation (input) STS_T32A :: uint where "STS_T32A \<equiv> 0x9"
abbreviation (input) STS_IG32 :: uint where "STS_IG32 \<equiv> 0xE"
abbreviation (input) STS_TG32 :: uint where "STS_TG32 \<equiv> 0xF"

text \<open>A bit field of width \<open>w\<close> is a \<open>w word\<close>; storing into it truncates.\<close>

record segdesc =
  lim_15_0 :: "16 word"
  base_15_0 :: "16 word"
  base_23_16 :: "8 word"
  sd_type :: "4 word"
  sd_s :: "1 word"
  sd_dpl :: "2 word"
  sd_p :: "1 word"
  lim_19_16 :: "4 word"
  sd_avl :: "1 word"
  sd_rsv1 :: "1 word"
  sd_db :: "1 word"
  sd_g :: "1 word"
  base_31_24 :: "8 word"

definition SEG :: "uint \<Rightarrow> uint \<Rightarrow> uint \<Rightarrow> uint \<Rightarrow> segdesc" where
  "SEG typ base lim dpl =
     \<lparr>lim_15_0 = ucast (drop_bit 12 lim AND 0xffff), base_15_0 = ucast (base AND 0xffff),
      base_23_16 = ucast (drop_bit 16 base AND 0xff), sd_type = ucast typ, sd_s = 1,
      sd_dpl = ucast dpl, sd_p = 1, lim_19_16 = ucast (drop_bit 28 lim), sd_avl = 0, sd_rsv1 = 0,
      sd_db = 1, sd_g = 1, base_31_24 = ucast (drop_bit 24 base)\<rparr>"

definition SEG16 :: "uint \<Rightarrow> uint \<Rightarrow> uint \<Rightarrow> uint \<Rightarrow> segdesc" where
  "SEG16 typ base lim dpl =
     \<lparr>lim_15_0 = ucast (lim AND 0xffff), base_15_0 = ucast (base AND 0xffff),
      base_23_16 = ucast (drop_bit 16 base AND 0xff), sd_type = ucast typ, sd_s = 1,
      sd_dpl = ucast dpl, sd_p = 1, lim_19_16 = ucast (drop_bit 16 lim), sd_avl = 0, sd_rsv1 = 0,
      sd_db = 1, sd_g = 0, base_31_24 = ucast (drop_bit 24 base)\<rparr>"

text \<open>How the processor reads a descriptor: the scattered base and limit put together, the limit
  counted in pages when the granularity bit is set.\<close>

definition seg_base :: "segdesc \<Rightarrow> uint" where
  "seg_base d = ucast (base_15_0 d) OR push_bit 16 (ucast (base_23_16 d))
     OR push_bit 24 (ucast (base_31_24 d))"

definition seg_limit :: "segdesc \<Rightarrow> uint" where
  "seg_limit d =
     (let l = ucast (lim_15_0 d) OR push_bit 16 (ucast (lim_19_16 d))
      in if sd_g d = 1 then push_bit 12 l OR 0xFFF else l)"

section \<open>Interrupt gates\<close>

record gatedesc =
  off_15_0 :: "16 word"
  gd_cs :: "16 word"
  gd_args :: "5 word"
  gd_rsv1 :: "3 word"
  gd_type :: "4 word"
  gd_s :: "1 word"
  gd_dpl :: "2 word"
  gd_p :: "1 word"
  off_31_16 :: "16 word"

definition SETGATE :: "bool \<Rightarrow> uint \<Rightarrow> uint \<Rightarrow> uint \<Rightarrow> gatedesc" where
  "SETGATE istrap sel off d =
     \<lparr>off_15_0 = ucast (off AND 0xffff), gd_cs = ucast sel, gd_args = 0, gd_rsv1 = 0,
      gd_type = ucast (if istrap then STS_TG32 else STS_IG32), gd_s = 0, gd_dpl = ucast d, gd_p = 1,
      off_31_16 = ucast (drop_bit 16 off)\<rparr>"

definition gate_offset :: "gatedesc \<Rightarrow> uint" where
  "gate_offset g = ucast (off_15_0 g) OR push_bit 16 (ucast (off_31_16 g))"

lemma bits_ffff: "bit (0xffff :: uint) n \<longleftrightarrow> n < 16"
proof -
  have *: "(0xffff :: uint) = mask 16" by (simp add: mask_eq_exp_minus_1)
  show ?thesis unfolding * by (auto simp: bit_simps)
qed

lemma bits_ff: "bit (0xff :: uint) n \<longleftrightarrow> n < 8"
proof -
  have *: "(0xff :: uint) = mask 8" by (simp add: mask_eq_exp_minus_1)
  show ?thesis unfolding * by (auto simp: bit_simps)
qed

lemmas field_bits = bit_or_iff bit_and_iff bit_unsigned_iff bit_push_bit_iff bit_drop_bit_eq
  bits_ffff bits_ff low12_bits low10_bits

lemma base_fields:
  "ucast (ucast (b AND 0xffff) :: 16 word) OR push_bit 16 (ucast (ucast (drop_bit 16 b AND 0xff) :: 8 word))
     OR push_bit 24 (ucast (ucast (drop_bit 24 b) :: 8 word)) = (b :: uint)" (is "?l = _")
proof (rule bit_word_eqI)
  fix n assume "n < LENGTH(32)"
  then show "bit ?l n = bit b n"
    by (cases "n < 16"; cases "n < 24") (auto simp: field_bits simp del: bit_numeral_word_iff)
qed

lemma offset_fields:
  "ucast (ucast (b AND 0xffff) :: 16 word) OR push_bit 16 (ucast (ucast (drop_bit 16 b) :: 16 word))
     = (b :: uint)" (is "?l = _")
proof (rule bit_word_eqI)
  fix n assume "n < LENGTH(32)"
  then show "bit ?l n = bit b n"
    by (cases "n < 16") (auto simp: field_bits simp del: bit_numeral_word_iff)
qed

lemma limit_fields:
  "push_bit 12 (ucast (ucast (drop_bit 12 l AND 0xffff) :: 16 word)
     OR push_bit 16 (ucast (ucast (drop_bit 28 l) :: 4 word))) OR 0xFFF = (l OR 0xFFF :: uint)" (is "?l = _")
proof (rule bit_word_eqI)
  fix n assume "n < LENGTH(32)"
  then show "bit ?l n = bit (l OR 0xFFF) n"
    by (cases "n < 12"; cases "n < 28") (auto simp: field_bits simp del: bit_numeral_word_iff)
qed

text \<open>The processor reads back from the descriptors the kernel builds exactly the base it was
  given and, with page granularity, a limit that covers the last byte of the given limit's page;
  descriptors are present and carry the requested privilege level.\<close>

theorem SEG_decodes:
  "seg_base (SEG typ base lim dpl) = base \<and> seg_limit (SEG typ base lim dpl) = lim OR 0xFFF \<and>
   sd_p (SEG typ base lim dpl) = 1 \<and> sd_dpl (SEG typ base lim dpl) = ucast dpl"
  by (simp add: seg_base_def seg_limit_def SEG_def base_fields limit_fields [simplified])

lemma seg_base_SEG16: "seg_base (SEG16 typ base lim dpl) = base"
  by (simp add: seg_base_def SEG16_def base_fields)

lemma gate_offset_SETGATE: "gate_offset (SETGATE istrap sel off d) = off"
  by (simp add: gate_offset_def SETGATE_def offset_fields)

end
