(* ===== verification/Kalloc.thy ===== *)
theory Kalloc
  imports Mmu
begin

text \<open>
  The physical page allocator \<^verbatim>\<open>kalloc.c\<close> with the per-page reference counts that
  copy-on-write fork uses.

  The state \<open>kmem\<close> is the source's \<^verbatim>\<open>kmem\<close> structure together with the contents of
  physical memory, which the free list is threaded through: \<open>pages s v i\<close> is the \<open>i\<close>-th
  32-bit word of the page at kernel virtual address \<open>v\<close>. The linker symbol \<^verbatim>\<open>end\<close> is the
  constant field \<open>kend\<close>. Each routine body is one critical section of \<^verbatim>\<open>kmem.lock\<close> and so one
  transition; \<open>use_lock\<close> only says whether the boot code already takes the lock.

  The invariant \<open>kmem_inv s xs\<close> says that the linked list starting at \<open>freelist s\<close> is the
  list \<open>xs\<close> of distinct valid page addresses whose reference count is zero and that
  \<open>numFreePages\<close> is its length. The locale \<open>frame_allocator\<close> is the contract that the page table
  code relies on; it is interpreted on \<open>kalloc\<close> and \<open>kfree\<close>.
\<close>

section \<open>State and operations\<close>

record kmem =
  kend :: uint
  use_lock :: bool
  freelist :: uint
  numFreePages :: uint
  pg_refcount :: "uint \<Rightarrow> uint"
  pages :: "uint \<Rightarrow> uint \<Rightarrow> uint"

text \<open>\<^verbatim>\<open>memset(v, c, PGSIZE)\<close> on a page-aligned \<^verbatim>\<open>v\<close> stores the byte \<^verbatim>\<open>c\<close> in all four
  bytes of every word (the \<^verbatim>\<open>stosl\<close> branch of \<^verbatim>\<open>memset\<close>).\<close>

definition fill_word :: "uint \<Rightarrow> uint" where
  "fill_word c = (let c = c AND 0xFF in push_bit 24 c OR push_bit 16 c OR push_bit 8 c OR c)"

definition memset_page :: "uint \<Rightarrow> uint \<Rightarrow> kmem \<Rightarrow> kmem" where
  "memset_page v c s = s\<lparr>pages := (pages s)(v := (\<lambda>_. fill_word c))\<rparr>"

definition store_word :: "uint \<Rightarrow> uint \<Rightarrow> uint \<Rightarrow> kmem \<Rightarrow> kmem" where
  "store_word v i w s = s\<lparr>pages := (pages s)(v := (pages s v)(i := w))\<rparr>"

definition kfree :: "uint \<Rightarrow> kmem \<Rightarrow> kmem outcome" where
  "kfree v s =
     (if v mod PGSIZE \<noteq> 0 \<or> v < kend s \<or> V2P v \<ge> PHYSTOP then Panic ''kfree''
      else
        let i = drop_bit PGSHIFT (V2P v);
            s1 = (if pg_refcount s i > 0
                  then s\<lparr>pg_refcount := (pg_refcount s)(i := pg_refcount s i - 1)\<rparr> else s)
        in if pg_refcount s1 i = 0
           then
             let s2 = memset_page v 1 s1;
                 s3 = s2\<lparr>numFreePages := numFreePages s2 + 1\<rparr>;
                 s4 = store_word v 0 (freelist s3) s3
             in Ok (s4\<lparr>freelist := v\<rparr>)
           else Ok s1)"

definition kalloc :: "kmem \<Rightarrow> uint \<times> kmem" where
  "kalloc s =
     (let r = freelist s
      in if r \<noteq> 0
         then
           let s1 = s\<lparr>freelist := pages s r 0\<rparr>;
               s2 = s1\<lparr>numFreePages := numFreePages s1 - 1\<rparr>;
               i = drop_bit PGSHIFT (V2P r)
           in (r, s2\<lparr>pg_refcount := (pg_refcount s2)(i := 1)\<rparr>)
         else (r, s))"

definition getNumFreePages :: "kmem \<Rightarrow> uint" where
  "getNumFreePages s = numFreePages s"

definition decrementReferenceCount :: "uint \<Rightarrow> kmem \<Rightarrow> kmem outcome" where
  "decrementReferenceCount pa s =
     (if pa < V2P (kend s) \<or> pa \<ge> PHYSTOP then Panic ''decrementReferenceCount''
      else let i = drop_bit PGSHIFT pa
           in Ok (s\<lparr>pg_refcount := (pg_refcount s)(i := pg_refcount s i - 1)\<rparr>))"

definition incrementReferenceCount :: "uint \<Rightarrow> kmem \<Rightarrow> kmem outcome" where
  "incrementReferenceCount pa s =
     (if pa < V2P (kend s) \<or> pa \<ge> PHYSTOP then Panic ''incrementReferenceCount''
      else let i = drop_bit PGSHIFT pa
           in Ok (s\<lparr>pg_refcount := (pg_refcount s)(i := pg_refcount s i + 1)\<rparr>))"

definition getReferenceCount :: "uint \<Rightarrow> kmem \<Rightarrow> uint outcome" where
  "getReferenceCount pa s =
     (if pa < V2P (kend s) \<or> pa \<ge> PHYSTOP then Panic ''getReferenceCount''
      else Ok (pg_refcount s (drop_bit PGSHIFT pa)))"

text \<open>The loop of \<^verbatim>\<open>freerange\<close> advances a 32-bit pointer; there are \<open>2 ^ 20\<close> pages in the address
  space, which bounds it.\<close>

abbreviation (input) page_fuel :: nat where "page_fuel \<equiv> 1048576"

fun freerange_loop :: "nat \<Rightarrow> uint \<Rightarrow> uint \<Rightarrow> kmem \<Rightarrow> kmem outcome" where
  "freerange_loop 0 p vend s = Hang"
| "freerange_loop (Suc n) p vend s =
     (if p + PGSIZE \<le> vend
      then
        let s1 = s\<lparr>pg_refcount := (pg_refcount s)(drop_bit PGSHIFT (V2P p) := 0)\<rparr>
        in andthen (kfree p s1) (freerange_loop n (p + PGSIZE) vend)
      else Ok s)"

definition freerange :: "uint \<Rightarrow> uint \<Rightarrow> kmem \<Rightarrow> kmem outcome" where
  "freerange vstart vend s = freerange_loop page_fuel (PGROUNDUP vstart) vend s"

definition kinit1 :: "uint \<Rightarrow> uint \<Rightarrow> kmem \<Rightarrow> kmem outcome" where
  "kinit1 vstart vend s = freerange vstart vend (s\<lparr>use_lock := False, numFreePages := 0\<rparr>)"

definition kinit2 :: "uint \<Rightarrow> uint \<Rightarrow> kmem \<Rightarrow> kmem outcome" where
  "kinit2 vstart vend s = andthen (freerange vstart vend s) (\<lambda>s1. Ok (s1\<lparr>use_lock := True\<rparr>))"

section \<open>Invariant\<close>

text \<open>The frames the allocator manages: the addresses \<^verbatim>\<open>kfree\<close> accepts.\<close>

definition kframe :: "kmem \<Rightarrow> uint \<Rightarrow> bool" where
  "kframe s v \<longleftrightarrow> v mod PGSIZE = 0 \<and> kend s \<le> v \<and> V2P v < PHYSTOP"

definition refs :: "kmem \<Rightarrow> uint \<Rightarrow> nat" where
  "refs s v = unat (pg_refcount s (drop_bit PGSHIFT (V2P v)))"

primrec flist :: "(uint \<Rightarrow> uint \<Rightarrow> uint) \<Rightarrow> uint \<Rightarrow> uint list \<Rightarrow> bool" where
  "flist m p [] \<longleftrightarrow> p = 0"
| "flist m p (x # xs) \<longleftrightarrow> p = x \<and> x \<noteq> 0 \<and> flist m (m x 0) xs"

definition kmem_inv :: "kmem \<Rightarrow> uint list \<Rightarrow> bool" where
  "kmem_inv s xs \<longleftrightarrow>
     flist (pages s) (freelist s) xs \<and> distinct xs \<and>
     (\<forall>v \<in> set xs. kframe s v \<and> refs s v = 0) \<and> numFreePages s = of_nat (length xs)"

lemma flist_unique: "flist m p xs \<Longrightarrow> flist m p ys \<Longrightarrow> xs = ys"
proof (induction xs arbitrary: p ys)
  case Nil
  then show ?case by (cases ys) auto
next
  case (Cons x xs)
  then show ?case by (cases ys) auto
qed

lemma flist_upd [simp]: "v \<notin> set xs \<Longrightarrow> flist (m(v := f)) p xs = flist m p xs"
  by (induction xs arbitrary: p) auto

lemma kframe_nonzero: "kframe s v \<Longrightarrow> v \<noteq> 0"
  by (auto simp: kframe_def V2P_def)

lemma page_aligned_add_base: "page_aligned (w + KERNBASE) = page_aligned w"
proof -
  have "unat (w + KERNBASE) mod 4096 = (unat w + 4096 * 524288) mod 4096"
    by (simp add: unat_word_ariths mod_mod_cancel)
  then show ?thesis by (simp only: page_aligned_unat mod_mult_self2)
qed

lemma page_aligned_P2V [simp]: "page_aligned (P2V a) = page_aligned a"
  by (simp add: P2V_def page_aligned_add_base)

lemma page_aligned_V2P [simp]: "page_aligned (V2P a) = page_aligned a"
  by (metis P2V_V2P page_aligned_P2V)

lemma kframe_aligned: "kframe s v \<Longrightarrow> page_aligned v"
  by (simp add: kframe_def page_aligned_def)

lemma pfn_inj:
  assumes "kframe s u" and "kframe s' v" and "drop_bit PGSHIFT (V2P u) = drop_bit PGSHIFT (V2P v)"
  shows "u = v"
proof -
  have "PGROUNDDOWN (V2P u) = PGROUNDDOWN (V2P v)"
    using assms(3) by (simp add: PGROUNDDOWN_shift)
  then have "V2P u = V2P v"
    using assms(1,2) [THEN kframe_aligned] page_aligned_round [of "V2P u"] page_aligned_round [of "V2P v"]
    by simp
  then show ?thesis by simp
qed

lemma pfn_eq_iff:
  "kframe s u \<Longrightarrow> kframe s' v \<Longrightarrow>
     drop_bit PGSHIFT (V2P u) = drop_bit PGSHIFT (V2P v) \<longleftrightarrow> u = v"
  using pfn_inj by blast

lemma kframe_upd [simp]:
  "kframe (s\<lparr>use_lock := b\<rparr>) = kframe s"
  "kframe (s\<lparr>freelist := v\<rparr>) = kframe s"
  "kframe (s\<lparr>numFreePages := v\<rparr>) = kframe s"
  "kframe (s\<lparr>pg_refcount := c\<rparr>) = kframe s"
  "kframe (s\<lparr>pages := m\<rparr>) = kframe s"
  by (simp_all add: kframe_def fun_eq_iff)

lemma refs_upd [simp]:
  "refs (s\<lparr>use_lock := b\<rparr>) = refs s"
  "refs (s\<lparr>freelist := v\<rparr>) = refs s"
  "refs (s\<lparr>numFreePages := v\<rparr>) = refs s"
  "refs (s\<lparr>pages := m\<rparr>) = refs s"
  by (simp_all add: refs_def fun_eq_iff)

lemma kmem_inv_use_lock [simp]: "kmem_inv (s\<lparr>use_lock := b\<rparr>) xs = kmem_inv s xs"
  by (simp add: kmem_inv_def)

lemma kmem_inv_free: "kmem_inv s xs \<Longrightarrow> v \<in> set xs \<Longrightarrow> kframe s v \<and> refs s v = 0"
  by (simp add: kmem_inv_def)

text \<open>There are fewer than \<open>2 ^ 32\<close> pages, so the counter of free pages never wraps.\<close>

lemma frames_bounded:
  assumes "distinct xs" and "\<forall>v \<in> set xs. kframe s v"
  shows "length xs \<le> 57344"
proof -
  let ?f = "\<lambda>v. unat (drop_bit PGSHIFT (V2P v))"
  have "inj_on ?f (set xs)"
    using assms(2) by (auto simp: inj_on_def simp flip: word_unat_eq_iff intro: pfn_inj)
  moreover have "?f ` set xs \<subseteq> {..<57344}"
  proof
    fix n assume "n \<in> ?f ` set xs"
    then obtain v where v: "v \<in> set xs" "n = ?f v" by blast
    with assms(2) have "unat (V2P v) < 234881024"
      by (auto simp: kframe_def word_less_nat_alt)
    with v(2) show "n \<in> {..<57344}"
      by (simp add: drop_bit_eq_div unat_div_distrib)
  qed
  ultimately have "card (set xs) \<le> 57344"
    using card_inj_on_le [of ?f "set xs" "{..<57344}"] by simp
  then show ?thesis using distinct_card [OF assms(1)] by simp
qed

lemma kmem_inv_count:
  assumes "kmem_inv s xs"
  shows "unat (getNumFreePages s) = length xs"
proof -
  have "length xs \<le> 57344"
    using assms frames_bounded by (auto simp: kmem_inv_def)
  then show ?thesis
    using assms by (simp add: kmem_inv_def getNumFreePages_def unat_of_nat)
qed

section \<open>Behaviour of allocation and release\<close>

lemma kalloc_empty: "kmem_inv s [] \<Longrightarrow> kalloc s = (0, s)"
  by (simp add: kmem_inv_def kalloc_def)

lemma kalloc_eq:
  assumes "kmem_inv s (v # xs)"
  shows "kalloc s = (v, s\<lparr>freelist := pages s v 0, numFreePages := numFreePages s - 1,
           pg_refcount := (pg_refcount s)(drop_bit PGSHIFT (V2P v) := 1)\<rparr>)"
  using assms by (auto simp: kmem_inv_def kalloc_def Let_def)

lemma kalloc_refs:
  assumes "kmem_inv s (v # xs)" and "kalloc s = (r, s')" and "kframe s u"
  shows "refs s' u = (if u = v then 1 else refs s u)"
  using assms kmem_inv_free [OF assms(1), of v] pfn_eq_iff [of s u s v]
  by (auto simp: kalloc_eq refs_def)

lemma kalloc_inv:
  assumes "kmem_inv s (v # xs)" and "kalloc s = (r, s')"
  shows "r = v \<and> kmem_inv s' xs"
proof -
  have r: "r = v" and s': "s' = s\<lparr>freelist := pages s v 0, numFreePages := numFreePages s - 1,
      pg_refcount := (pg_refcount s)(drop_bit PGSHIFT (V2P v) := 1)\<rparr>"
    using assms(2) kalloc_eq [OF assms(1)] by auto
  have "refs s' u = 0" if "u \<in> set xs" for u
    using that assms(1) kalloc_refs [OF assms, of u] by (auto simp: kmem_inv_def)
  then show ?thesis
    using assms(1) r by (auto simp: s' kmem_inv_def kframe_def)
qed

lemma kfree_panic_iff:
  "kfree v s = Panic ''kfree'' \<longleftrightarrow> \<not> kframe s v"
  by (auto simp: kfree_def kframe_def Let_def not_less not_le)

lemma kfree_shared_eq:
  assumes "kframe s v" and "1 < refs s v"
  shows "kfree v s = Ok (s\<lparr>pg_refcount := (pg_refcount s)
           (drop_bit PGSHIFT (V2P v) := pg_refcount s (drop_bit PGSHIFT (V2P v)) - 1)\<rparr>)"
proof -
  let ?c = "pg_refcount s (drop_bit PGSHIFT (V2P v))"
  have "0 < ?c" "?c - 1 \<noteq> 0"
    using assms(2) by (auto simp: refs_def word_less_nat_alt)
  then show ?thesis
    using assms(1) by (simp add: kfree_def kframe_def Let_def not_less not_le)
qed

lemma kfree_last_eq:
  assumes "kframe s v" and "refs s v \<le> 1"
  shows "kfree v s = Ok (s\<lparr>freelist := v, numFreePages := numFreePages s + 1,
           pg_refcount := (pg_refcount s)(drop_bit PGSHIFT (V2P v) := 0),
           pages := (pages s)(v := (\<lambda>_. 0x01010101)(0 := freelist s))\<rparr>)"
proof -
  let ?c = "pg_refcount s (drop_bit PGSHIFT (V2P v))"
  have "?c = 0 \<or> ?c = 1"
    using assms(2) by (auto simp: refs_def word_unat_eq_iff le_Suc_eq)
  then show ?thesis
    using assms(1)
    by (auto simp: kfree_def kframe_def Let_def not_less not_le memset_page_def store_word_def
        fill_word_def fun_upd_idem)
qed

lemma kend_kfree: "kfree v s = Ok s' \<Longrightarrow> kend s' = kend s"
  by (auto simp: kfree_def Let_def memset_page_def store_word_def split: if_splits)

lemma kend_kalloc: "kalloc s = (r, s') \<Longrightarrow> kend s' = kend s"
  by (auto simp: kalloc_def Let_def split: if_splits)

lemma pages_kalloc: "kalloc s = (r, s') \<Longrightarrow> pages s' = pages s"
  by (auto simp: kalloc_def Let_def split: if_splits)

lemma kframe_cong: "kend s' = kend s \<Longrightarrow> kframe s' = kframe s"
  by (simp add: kframe_def fun_eq_iff)

lemma kfree_pages: "kfree v s = Ok s' \<Longrightarrow> u \<noteq> v \<Longrightarrow> pages s' u = pages s u"
  by (auto simp: kfree_def Let_def memset_page_def store_word_def split: if_splits)

lemma kfree_last:
  assumes "kmem_inv s xs" and "kframe s v" and "v \<notin> set xs" and "refs s v \<le> 1"
  shows "\<exists>s'. kfree v s = Ok s' \<and> kmem_inv s' (v # xs) \<and>
           (\<forall>u. kframe s u \<longrightarrow> refs s' u = (if u = v then 0 else refs s u))"
proof -
  let ?s = "s\<lparr>freelist := v, numFreePages := numFreePages s + 1,
           pg_refcount := (pg_refcount s)(drop_bit PGSHIFT (V2P v) := 0),
           pages := (pages s)(v := (\<lambda>_. 0x01010101)(0 := freelist s))\<rparr>"
  have r: "refs ?s u = (if u = v then 0 else refs s u)" if "kframe s u" for u
    using that assms(2) pfn_eq_iff [of s u s v] by (auto simp: refs_def)
  have "kmem_inv ?s (v # xs)"
    using assms r kframe_nonzero [OF assms(2)] by (auto simp: kmem_inv_def)
  with r show ?thesis
    using kfree_last_eq [OF assms(2,4)] by blast
qed

lemma kfree_shared:
  assumes "kmem_inv s xs" and "kframe s v" and "1 < refs s v"
  shows "\<exists>s'. kfree v s = Ok s' \<and> kmem_inv s' xs \<and>
           (\<forall>u. kframe s u \<longrightarrow> refs s' u = (if u = v then refs s v - 1 else refs s u))"
proof -
  let ?i = "drop_bit PGSHIFT (V2P v)"
  let ?s = "s\<lparr>pg_refcount := (pg_refcount s)(?i := pg_refcount s ?i - 1)\<rparr>"
  have "pg_refcount s ?i \<noteq> 0" using assms(3) by (auto simp: refs_def)
  then have "unat (pg_refcount s ?i - 1) = refs s v - 1"
    by (simp add: refs_def unat_minus_one)
  then have r: "refs ?s u = (if u = v then refs s v - 1 else refs s u)" if "kframe s u" for u
    using that assms(2) pfn_eq_iff [of s u s v] by (auto simp: refs_def)
  have "v \<notin> set xs" using assms(1,3) by (auto simp: kmem_inv_def)
  then have "kmem_inv ?s xs"
    using assms(1) r by (auto simp: kmem_inv_def)
  with r show ?thesis
    using kfree_shared_eq [OF assms(2,3)] by blast
qed

section \<open>The allocator as an interface\<close>

text \<open>What a client may rely on, whatever the representation: \<open>inv s xs\<close> says that the frames
  \<open>xs\<close> are the free ones.\<close>

locale frame_allocator =
  fixes alloc :: "'s \<Rightarrow> 'f \<times> 's"
    and free :: "'f \<Rightarrow> 's \<Rightarrow> 's outcome"
    and null :: 'f
    and frame :: "'s \<Rightarrow> 'f \<Rightarrow> bool"
    and count :: "'s \<Rightarrow> 'f \<Rightarrow> nat"
    and inv :: "'s \<Rightarrow> 'f list \<Rightarrow> bool"
  assumes alloc_none: "inv s [] \<Longrightarrow> alloc s = (null, s)"
    and alloc_some: "inv s (v # xs) \<Longrightarrow> \<exists>s'. alloc s = (v, s') \<and> inv s' xs \<and> frame s' = frame s \<and>
          (\<forall>u. frame s u \<longrightarrow> count s' u = (if u = v then 1 else count s u))"
    and free_one: "inv s xs \<Longrightarrow> frame s v \<Longrightarrow> count s v = 1 \<Longrightarrow>
          \<exists>s'. free v s = Ok s' \<and> inv s' (v # xs) \<and> frame s' = frame s \<and>
            (\<forall>u. frame s u \<longrightarrow> count s' u = (if u = v then 0 else count s u))"
    and free_more: "inv s xs \<Longrightarrow> frame s v \<Longrightarrow> 1 < count s v \<Longrightarrow>
          \<exists>s'. free v s = Ok s' \<and> inv s' xs \<and> frame s' = frame s \<and>
            (\<forall>u. frame s u \<longrightarrow> count s' u = (if u = v then count s v - 1 else count s u))"
    and inv_distinct: "inv s xs \<Longrightarrow> distinct xs"
    and inv_frame: "inv s xs \<Longrightarrow> v \<in> set xs \<Longrightarrow> frame s v \<and> count s v = 0 \<and> v \<noteq> null"
begin

lemma alloc_null_iff:
  assumes "inv s xs"
  shows "fst (alloc s) = null \<longleftrightarrow> xs = []"
proof (cases xs)
  case Nil
  then show ?thesis using assms alloc_none by simp
next
  case (Cons v ys)
  then show ?thesis
    using assms alloc_some [of s v ys] inv_frame [of s xs v] by auto
qed

lemma alloc_free:
  assumes "inv s (v # xs)"
  shows "\<exists>s1 s2. alloc s = (v, s1) \<and> free v s1 = Ok s2 \<and> inv s2 (v # xs) \<and>
           (\<forall>u. frame s u \<longrightarrow> count s2 u = count s u)"
proof -
  obtain s1 where s1: "alloc s = (v, s1)" "inv s1 xs" "frame s1 = frame s"
    "\<forall>u. frame s u \<longrightarrow> count s1 u = (if u = v then 1 else count s u)"
    using alloc_some [OF assms] by blast
  have v: "frame s v" "count s v = 0" using inv_frame [OF assms, of v] by auto
  then obtain s2 where "free v s1 = Ok s2" "inv s2 (v # xs)"
    "\<forall>u. frame s u \<longrightarrow> count s2 u = (if u = v then 0 else count s1 u)"
    using free_one [OF s1(2), of v] s1(3,4) by auto
  with s1 v show ?thesis by auto
qed

primrec alloc_n :: "nat \<Rightarrow> 's \<Rightarrow> 'f list \<times> 's" where
  "alloc_n 0 s = ([], s)"
| "alloc_n (Suc n) s = (let (v, s1) = alloc s; (vs, s2) = alloc_n n s1 in (v # vs, s2))"

lemma alloc_n_take:
  "inv s xs \<Longrightarrow> n \<le> length xs \<Longrightarrow>
     fst (alloc_n n s) = take n xs \<and> inv (snd (alloc_n n s)) (drop n xs)"
proof (induction n arbitrary: s xs)
  case (Suc n)
  then obtain v ys where xs: "xs = v # ys" by (cases xs) auto
  with Suc.prems obtain s1 where s1: "alloc s = (v, s1)" "inv s1 ys"
    using alloc_some by blast
  with Suc.IH [of s1 ys] Suc.prems xs show ?case
    by (auto split: prod.splits)
qed simp

lemma alloc_n_distinct:
  assumes "inv s xs" and "n \<le> length xs"
  shows "distinct (fst (alloc_n n s)) \<and> null \<notin> set (fst (alloc_n n s))"
  using assms alloc_n_take [OF assms] inv_distinct [of s xs] inv_frame [of s xs]
  by (auto dest: in_set_takeD)

end

interpretation kmem: frame_allocator kalloc kfree 0 kframe refs kmem_inv
proof unfold_locales
  fix s :: kmem and v xs
  assume inv: "kmem_inv s (v # xs)"
  obtain r s' where a: "kalloc s = (r, s')" by (cases "kalloc s")
  with kalloc_inv [OF inv a] kalloc_refs [OF inv a] kend_kalloc [OF a, THEN kframe_cong]
  show "\<exists>s'. kalloc s = (v, s') \<and> kmem_inv s' xs \<and> kframe s' = kframe s \<and>
      (\<forall>u. kframe s u \<longrightarrow> refs s' u = (if u = v then 1 else refs s u))"
    by simp
next
  fix s :: kmem and v xs
  assume a: "kmem_inv s xs" "kframe s v" "refs s v = 1"
  then have "v \<notin> set xs" by (auto simp: kmem_inv_def)
  with a kfree_last [of s xs v]
  show "\<exists>s'. kfree v s = Ok s' \<and> kmem_inv s' (v # xs) \<and> kframe s' = kframe s \<and>
      (\<forall>u. kframe s u \<longrightarrow> refs s' u = (if u = v then 0 else refs s u))"
    using kend_kfree kframe_cong by (metis order_refl)
next
  fix s :: kmem and v xs
  assume "kmem_inv s xs" "kframe s v" "1 < refs s v"
  then show "\<exists>s'. kfree v s = Ok s' \<and> kmem_inv s' xs \<and> kframe s' = kframe s \<and>
      (\<forall>u. kframe s u \<longrightarrow> refs s' u = (if u = v then refs s v - 1 else refs s u))"
    using kfree_shared [of s xs v] kend_kfree kframe_cong by metis
qed (use kalloc_empty kframe_nonzero in \<open>auto simp: kmem_inv_def\<close>)

section \<open>Boot\<close>

text \<open>The pages that \<^verbatim>\<open>freerange\<close> visits, in the order it frees them.\<close>

primrec page_range :: "nat \<Rightarrow> uint \<Rightarrow> uint list" where
  "page_range 0 p = []"
| "page_range (Suc k) p = p # page_range k (p + PGSIZE)"

lemma set_page_range: "set (page_range k p) = (\<lambda>i. p + of_nat i * PGSIZE) ` {..<k}"
proof (induction k arbitrary: p)
  case (Suc k)
  have "{..<Suc k} = insert 0 (Suc ` {..<k})" by (auto simp: image_iff less_Suc_eq_0_disj)
  with Suc show ?case by (simp add: image_image algebra_simps)
qed simp

lemma freerange_loop_ok:
  assumes "k < n" and "page_aligned p" and "kend s \<le> p" and "0x80000000 \<le> unat p"
    and "unat vend \<le> 0x8E000000" and "unat p \<le> 0x8E001000"
    and "k = 0 \<or> unat p + 4096 * k \<le> unat vend" and "unat vend < unat p + 4096 * Suc k"
    and "kmem_inv s xs" and "\<forall>v \<in> set xs. v < p \<or> vend \<le> v"
  shows "\<exists>s'. freerange_loop n p vend s = Ok s' \<and> kend s' = kend s \<and> use_lock s' = use_lock s \<and>
           kmem_inv s' (rev (page_range k p) @ xs)"
  using assms
proof (induction k arbitrary: n p s xs)
  case 0
  then obtain m where "n = Suc m" by (cases n) auto
  moreover have "unat (p + PGSIZE) = unat p + 4096"
    using 0 by (subst unat_add_nowrap) auto
  ultimately show ?case using 0 by (auto simp: word_le_nat_alt)
next
  case (Suc k)
  then obtain m where n: "n = Suc m" by (cases n) auto
  let ?s = "s\<lparr>pg_refcount := (pg_refcount s)(drop_bit PGSHIFT (V2P p) := 0)\<rparr>"
  have up: "unat (p + PGSIZE) = unat p + 4096"
    using Suc.prems by (subst unat_add_nowrap) auto
  have "unat (V2P p) = unat p - 0x80000000"
    using Suc.prems(4) by (simp add: V2P_def unat_sub word_le_nat_alt)
  then have f: "kframe s p"
    using Suc.prems by (auto simp: kframe_def page_aligned_def word_less_nat_alt)
  have "p \<notin> set xs" using Suc.prems(7,10) by (auto simp: word_less_nat_alt word_le_nat_alt)
  moreover have "kmem_inv ?s xs"
    using Suc.prems(9) by (auto simp: kmem_inv_def refs_def)
  moreover have "refs ?s p \<le> 1" by (simp add: refs_def)
  ultimately obtain s1 where s1: "kfree p ?s = Ok s1" "kmem_inv s1 (p # xs)"
    using kfree_last [of ?s xs p] f by auto
  have k1: "kend s1 = kend s" using kend_kfree [OF s1(1)] by simp
  have l1: "use_lock s1 = use_lock s"
    using s1(1) by (auto simp: kfree_def Let_def memset_page_def store_word_def split: if_splits)
  have "\<exists>s'. freerange_loop m (p + PGSIZE) vend s1 = Ok s' \<and> kend s' = kend s1 \<and>
      use_lock s' = use_lock s1 \<and> kmem_inv s' (rev (page_range k (p + PGSIZE)) @ p # xs)"
  proof (rule Suc.IH)
    show "k < m" using Suc.prems(1) n by simp
    show "page_aligned (p + PGSIZE)"
      using Suc.prems(2) up by (simp add: page_aligned_unat)
    show "kend s1 \<le> p + PGSIZE" using Suc.prems(3) k1 up by (simp add: word_le_nat_alt)
    show "\<forall>v\<in>set (p # xs). v < p + PGSIZE \<or> vend \<le> v"
      using Suc.prems(10) up by (auto simp: word_less_nat_alt)
  qed (use Suc.prems up s1(2) in auto)
  moreover have "p + PGSIZE \<le> vend" using Suc.prems(7) up by (auto simp: word_le_nat_alt)
  ultimately show ?case
    using n s1(1) k1 l1 by (auto simp: Let_def)
qed

text \<open>The number of whole pages between two addresses.\<close>

definition page_count :: "uint \<Rightarrow> uint \<Rightarrow> nat" where
  "page_count vstart vend = (unat vend - unat (PGROUNDUP vstart)) div 4096"

lemma freerange_ok:
  assumes "kend s \<le> vstart" and "KERNBASE \<le> vstart" and "vstart \<le> vend" and "vend \<le> P2V PHYSTOP"
    and "kmem_inv s xs" and "\<forall>v \<in> set xs. v < vstart \<or> vend \<le> v"
  shows "\<exists>s'. freerange vstart vend s = Ok s' \<and> kend s' = kend s \<and> use_lock s' = use_lock s \<and>
           kmem_inv s' (rev (page_range (page_count vstart vend) (PGROUNDUP vstart)) @ xs)"
proof -
  let ?p = "PGROUNDUP vstart" and ?k = "page_count vstart vend"
  have v: "0x80000000 \<le> unat vstart" "unat vstart \<le> unat vend" "unat vend \<le> 0x8E000000"
    using assms(2-4) by (simp_all add: word_le_nat_alt P2V_def)
  have p: "unat vstart \<le> unat ?p" "unat ?p < unat vstart + 4096"
    using v PGROUNDUP_bounds [of vstart] by auto
  show ?thesis unfolding freerange_def
  proof (rule freerange_loop_ok)
    show "kend s \<le> ?p" using assms(1) p(1) by (simp add: word_le_nat_alt)
    show "?k = 0 \<or> unat ?p + 4096 * ?k \<le> unat vend"
      unfolding page_count_def using div_times_less_eq_dividend [of "unat vend - unat ?p" 4096]
      by (cases "unat ?p \<le> unat vend") auto
    have "unat vend - unat ?p < 4096 * Suc ?k"
      unfolding page_count_def using dividend_less_div_times [of 4096 "unat vend - unat ?p"] by simp
    then show "unat vend < unat ?p + 4096 * Suc ?k" by simp
    show "\<forall>v\<in>set xs. v < ?p \<or> vend \<le> v"
      using assms(6) p(1) by (auto simp: word_less_nat_alt)
    show "?k < page_fuel" using v unfolding page_count_def by (simp add: div_less_iff_less_mult)
  qed (use v p assms(5) in auto)
qed

lemma length_page_range [simp]: "length (page_range k p) = k"
  by (induction k arbitrary: p) auto

lemma page_range_below:
  assumes "v \<in> set (page_range (page_count vstart vend) (PGROUNDUP vstart))"
    and "unat vend \<le> 0x8E000000"
  shows "v < vend"
proof -
  let ?p = "PGROUNDUP vstart"
  obtain i where i: "v = ?p + of_nat i * PGSIZE" "i < page_count vstart vend"
    using assms(1) unfolding set_page_range by blast
  have "4096 * Suc i \<le> 4096 * page_count vstart vend" using i(2) by simp
  also have "\<dots> \<le> unat vend - unat ?p" by (simp add: page_count_def)
  finally have *: "unat ?p + 4096 * Suc i \<le> unat vend" by simp
  then have "unat (of_nat i * PGSIZE) = 4096 * i"
    using assms(2) by (simp add: unat_word_ariths unat_of_nat)
  with * i(1) assms(2) have "unat v = unat ?p + 4096 * i"
    by (simp add: unat_add_nowrap)
  with * show ?thesis by (simp add: word_less_nat_alt)
qed

section \<open>Properties\<close>

text \<open>C20: \<^verbatim>\<open>kalloc\<close> returns the null pointer and changes nothing exactly when no page is free;
  otherwise it takes one page off the free list, gives it the reference count one, leaves every
  other page's count and the contents of memory alone, and the count of free pages drops by one.\<close>

theorem kalloc_spec:
  assumes "kmem_inv s xs" and "kalloc s = (r, s')"
  shows "(if xs = [] then r = 0 \<and> s' = s
          else kframe s r \<and> refs s r = 0 \<and> r \<notin> set (tl xs) \<and> kmem_inv s' (tl xs) \<and>
            pages s' = pages s \<and> unat (getNumFreePages s') + 1 = unat (getNumFreePages s) \<and>
            (\<forall>u. kframe s u \<longrightarrow> refs s' u = (if u = r then 1 else refs s u)))"
proof (cases xs)
  case Nil
  then show ?thesis using assms kmem.alloc_none by auto
next
  case (Cons v ys)
  with assms have inv: "kmem_inv s (v # ys)" by simp
  have r: "r = v \<and> kmem_inv s' ys" using kalloc_inv [OF inv assms(2)] .
  moreover have "distinct (v # ys)" using kmem.inv_distinct [OF inv] .
  ultimately show ?thesis
    using Cons kmem.inv_frame [OF inv, of v] kalloc_refs [OF inv assms(2)] pages_kalloc [OF assms(2)]
      kmem_inv_count [OF inv] kmem_inv_count [of s' ys] by auto
qed

text \<open>A machine whose kernel image ends at \<open>0x80100000\<close>, with two free pages.\<close>

definition small_kmem :: kmem where
  "small_kmem = \<lparr>kend = 0x80100000, use_lock = True, freelist = 0x80101000, numFreePages = 2,
     pg_refcount = (\<lambda>_. 0)(0x103 := 2, 0x104 := 1),
     pages = (\<lambda>_ _. 0)(0x80101000 := (\<lambda>_. 0)(0 := 0x80102000))\<rparr>"

lemma small_kmem_inv: "kmem_inv small_kmem [0x80101000, 0x80102000]"
  by (simp add: kmem_inv_def small_kmem_def kframe_def refs_def V2P_def)

theorem kalloc_spec_witness:
  "fst (kalloc small_kmem) = 0x80101000 \<and> kmem_inv (snd (kalloc small_kmem)) [0x80102000] \<and>
   refs (snd (kalloc small_kmem)) 0x80101000 = 1"
proof -
  have "fst (kalloc small_kmem) = 0x80101000"
    by (simp add: kalloc_def small_kmem_def Let_def)
  moreover from this have "kalloc small_kmem = (0x80101000, snd (kalloc small_kmem))"
    by (metis prod.collapse)
  ultimately show ?thesis
    using kalloc_spec [OF small_kmem_inv, of "0x80101000" "snd (kalloc small_kmem)"]
    by auto
qed



text \<open>C22: Boot. \<^verbatim>\<open>kinit1\<close> followed by \<^verbatim>\<open>kinit2\<close> on the two consecutive ranges that \<^verbatim>\<open>main\<close>
  passes (from the end of the kernel image to \<open>vmid\<close>, a page boundary, and from there to
  \<open>P2V(PHYSTOP)\<close>) terminates without panic, and the free list then holds every whole page of both
  ranges exactly once, with the right count, and the lock in use.\<close>

theorem kinit_boot:
  assumes "freelist s = 0" and "KERNBASE \<le> kend s" and "kend s \<le> vmid" and "page_aligned vmid"
    and "vmid \<le> P2V PHYSTOP"
  shows "\<exists>s1 s2 xs. kinit1 (kend s) vmid s = Ok s1 \<and> kinit2 vmid (P2V PHYSTOP) s1 = Ok s2 \<and>
           use_lock s2 \<and> kmem_inv s2 xs \<and>
           length xs = page_count (kend s) vmid + page_count vmid (P2V PHYSTOP) \<and>
           set xs = set (page_range (page_count (kend s) vmid) (PGROUNDUP (kend s))) \<union>
                    set (page_range (page_count vmid (P2V PHYSTOP)) vmid)"
proof -
  let ?s = "s\<lparr>use_lock := False, numFreePages := 0\<rparr>"
  let ?xs = "page_range (page_count (kend s) vmid) (PGROUNDUP (kend s))"
  let ?ys = "page_range (page_count vmid (P2V PHYSTOP)) vmid"
  have "kmem_inv ?s []" using assms(1) by (simp add: kmem_inv_def)
  then obtain s1 where s1: "kinit1 (kend s) vmid s = Ok s1" "kend s1 = kend s"
      "kmem_inv s1 (rev ?xs)"
    using freerange_ok [of ?s "kend s" vmid "[]"] assms by (auto simp: kinit1_def)
  have "\<forall>v \<in> set ?xs. v < vmid"
    using page_range_below [of _ "kend s" vmid] assms(5) by (auto simp: word_le_nat_alt P2V_def)
  moreover have "PGROUNDUP vmid = vmid" using assms(4) by (rule PGROUNDUP_aligned)
  ultimately obtain s2 where "kinit2 vmid (P2V PHYSTOP) s1 = Ok s2" "use_lock s2"
      "kmem_inv s2 (rev ?ys @ rev ?xs)"
    using freerange_ok [of s1 vmid "P2V PHYSTOP" "rev ?xs"] assms s1 order_trans [OF assms(2,3)]
    by (auto simp: kinit2_def)
  with s1 show ?thesis by (intro exI [of _ s1] exI [of _ s2] exI [of _ "rev ?ys @ rev ?xs"]) auto
qed

theorem kinit_boot_witness:
  "\<exists>s1 s2 xs. kinit1 0x801154A8 0x80400000 (small_kmem\<lparr>kend := 0x801154A8, freelist := 0\<rparr>) = Ok s1 \<and>
     kinit2 0x80400000 0x8E000000 s1 = Ok s2 \<and> use_lock s2 \<and> kmem_inv s2 xs \<and> length xs = 57066"
proof -
  have "page_count 0x801154A8 0x80400000 = 746" "page_count 0x80400000 0x8E000000 = 56320"
    by (simp_all add: page_count_def unat_PGROUNDUP)
  then show ?thesis
    using kinit_boot [of "small_kmem\<lparr>kend := 0x801154A8, freelist := 0\<rparr>" "0x80400000"]
    by (auto simp: small_kmem_def P2V_def page_aligned_def)
qed

end
