(* ===== verification/Vm.thy ===== *)
theory Vm
  imports Kalloc
begin

text \<open>
  Page tables and address spaces, \<^verbatim>\<open>vm.c\<close>, with copy-on-write fork.

  A page table pointer is the kernel virtual address of the page directory; a pointer to a page
  table entry is the pair of the page that holds it and its index there. All routines act on the
  physical memory of \<^verbatim>\<open>Kalloc\<close>. The few that also load \<^verbatim>\<open>cr3\<close> or the global \<^verbatim>\<open>kpgdir\<close> act on the
  record \<open>vm\<close>. Console messages (\<^verbatim>\<open>cprintf\<close>) are left out; a call of \<^verbatim>\<open>panic\<close> is the outcome
  \<open>Panic\<close>. The table \<^verbatim>\<open>kmap\<close> depends on the linker symbol \<^verbatim>\<open>data\<close> and is an argument of
  \<open>setupkvm\<close>; its value in the source is \<open>kmap_table data\<close>.

  Loops over addresses carry fuel, one step per page of the address space, and are shown never to
  run out of it.
\<close>

section \<open>Page table walks\<close>

type_synonym pte_ptr = "uint \<times> uint"

definition read_pte :: "pte_ptr \<Rightarrow> kmem \<Rightarrow> uint" where
  "read_pte p s = pages s (fst p) (snd p)"

definition write_pte :: "pte_ptr \<Rightarrow> uint \<Rightarrow> kmem \<Rightarrow> kmem" where
  "write_pte p w s = store_word (fst p) (snd p) w s"

definition walkpgdir :: "uint \<Rightarrow> uint \<Rightarrow> bool \<Rightarrow> kmem \<Rightarrow> pte_ptr option \<times> kmem" where
  "walkpgdir pgdir va alloc s =
     (let pde = (pgdir, PDX va)
      in if read_pte pde s AND PTE_P \<noteq> 0
         then (Some (P2V (PTE_ADDR (read_pte pde s)), PTX va), s)
         else if \<not> alloc then (None, s)
         else
           let (pgtab, s1) = kalloc s
           in if pgtab = 0 then (None, s1)
              else
                let s2 = memset_page pgtab 0 s1;
                    s3 = write_pte pde (V2P pgtab OR PTE_P OR PTE_W OR PTE_U) s2
                in (Some (pgtab, PTX va), s3))"

fun mappages_loop :: "nat \<Rightarrow> uint \<Rightarrow> uint \<Rightarrow> uint \<Rightarrow> uint \<Rightarrow> uint \<Rightarrow> kmem \<Rightarrow> (int \<times> kmem) outcome" where
  "mappages_loop 0 pgdir a last_page pa perm s = Hang"
| "mappages_loop (Suc n) pgdir a last_page pa perm s =
     (case walkpgdir pgdir a True s of
        (None, s1) \<Rightarrow> Ok (-1, s1)
      | (Some pte, s1) \<Rightarrow>
          if read_pte pte s1 AND PTE_P \<noteq> 0 then Panic ''remap''
          else
            let s2 = write_pte pte (pa OR perm OR PTE_P) s1
            in if a = last_page then Ok (0, s2)
               else mappages_loop n pgdir (a + PGSIZE) last_page (pa + PGSIZE) perm s2)"

definition mappages :: "uint \<Rightarrow> uint \<Rightarrow> uint \<Rightarrow> uint \<Rightarrow> uint \<Rightarrow> kmem \<Rightarrow> (int \<times> kmem) outcome" where
  "mappages pgdir va sz pa perm s =
     mappages_loop page_fuel pgdir (PGROUNDDOWN va) (PGROUNDDOWN (va + sz - 1)) pa perm s"

section \<open>Releasing an address space\<close>

fun deallocuvm_loop :: "nat \<Rightarrow> uint \<Rightarrow> uint \<Rightarrow> uint \<Rightarrow> kmem \<Rightarrow> kmem outcome" where
  "deallocuvm_loop 0 pgdir a oldsz s = Hang"
| "deallocuvm_loop (Suc n) pgdir a oldsz s =
     (if a < oldsz
      then
        (case walkpgdir pgdir a False s of
           (None, s1) \<Rightarrow> deallocuvm_loop n pgdir (a + (of_nat NPTENTRIES - 1) * PGSIZE + PGSIZE) oldsz s1
         | (Some pte, s1) \<Rightarrow>
             if read_pte pte s1 AND PTE_P \<noteq> 0
             then
               let pa = PTE_ADDR (read_pte pte s1)
               in if pa = 0 then Panic ''kfree''
                  else andthen (kfree (P2V pa) s1)
                         (\<lambda>s2. deallocuvm_loop n pgdir (a + PGSIZE) oldsz (write_pte pte 0 s2))
             else deallocuvm_loop n pgdir (a + PGSIZE) oldsz s1)
      else Ok s)"

definition deallocuvm :: "uint \<Rightarrow> uint \<Rightarrow> uint \<Rightarrow> kmem \<Rightarrow> (uint \<times> kmem) outcome" where
  "deallocuvm pgdir oldsz newsz s =
     (if newsz \<ge> oldsz then Ok (oldsz, s)
      else andthen (deallocuvm_loop page_fuel pgdir (PGROUNDUP newsz) oldsz s)
             (\<lambda>s1. Ok (newsz, s1)))"

text \<open>The loop of \<^verbatim>\<open>freevm\<close> over the directory; \<open>k\<close> entries are left to visit.\<close>

primrec freevm_loop :: "nat \<Rightarrow> uint \<Rightarrow> uint \<Rightarrow> kmem \<Rightarrow> kmem outcome" where
  "freevm_loop 0 pgdir i s = Ok s"
| "freevm_loop (Suc k) pgdir i s =
     (if pages s pgdir i AND PTE_P \<noteq> 0
      then andthen (kfree (P2V (PTE_ADDR (pages s pgdir i))) s) (freevm_loop k pgdir (i + 1))
      else freevm_loop k pgdir (i + 1) s)"

definition freevm :: "uint \<Rightarrow> kmem \<Rightarrow> kmem outcome" where
  "freevm pgdir s =
     (if pgdir = 0 then Panic ''freevm: no pgdir''
      else andthen (deallocuvm pgdir KERNBASE 0 s)
             (\<lambda>(_, s1). andthen (freevm_loop 1024 pgdir 0 s1) (kfree pgdir)))"

section \<open>The kernel part of an address space\<close>

record kmap_entry =
  virt :: uint
  phys_start :: uint
  phys_end :: uint
  perm :: uint

definition kmap_table :: "uint \<Rightarrow> kmap_entry list" where
  "kmap_table data =
     [\<lparr>virt = KERNBASE, phys_start = 0, phys_end = EXTMEM, perm = PTE_W\<rparr>,
      \<lparr>virt = KERNLINK, phys_start = V2P KERNLINK, phys_end = V2P data, perm = 0\<rparr>,
      \<lparr>virt = data, phys_start = V2P data, phys_end = PHYSTOP, perm = PTE_W\<rparr>,
      \<lparr>virt = DEVSPACE, phys_start = DEVSPACE, phys_end = 0, perm = PTE_W\<rparr>]"

fun setupkvm_loop :: "kmap_entry list \<Rightarrow> uint \<Rightarrow> kmem \<Rightarrow> (uint \<times> kmem) outcome" where
  "setupkvm_loop [] pgdir s = Ok (pgdir, s)"
| "setupkvm_loop (k # ks) pgdir s =
     andthen (mappages pgdir (virt k) (phys_end k - phys_start k) (phys_start k) (perm k) s)
       (\<lambda>(r, s1). if r < 0 then andthen (freevm pgdir s1) (\<lambda>s2. Ok (0, s2))
                  else setupkvm_loop ks pgdir s1)"

definition setupkvm :: "kmap_entry list \<Rightarrow> kmem \<Rightarrow> (uint \<times> kmem) outcome" where
  "setupkvm kmap s =
     (let (pgdir, s1) = kalloc s
      in if pgdir = 0 then Ok (0, s1)
         else
           let s2 = memset_page pgdir 0 s1
           in if P2V PHYSTOP > DEVSPACE then Panic ''PHYSTOP too high''
              else setupkvm_loop kmap pgdir s2)"

text \<open>Memory together with the page table register and the global \<^verbatim>\<open>kpgdir\<close>.\<close>

record vm =
  km :: kmem
  cr3 :: uint
  kpgdir :: uint

definition lcr3 :: "uint \<Rightarrow> vm \<Rightarrow> vm" where
  "lcr3 pa m = m\<lparr>cr3 := pa\<rparr>"

definition switchkvm :: "vm \<Rightarrow> vm" where
  "switchkvm m = lcr3 (V2P (kpgdir m)) m"

definition kvmalloc :: "kmap_entry list \<Rightarrow> vm \<Rightarrow> vm outcome" where
  "kvmalloc kmap m =
     andthen (setupkvm kmap (km m)) (\<lambda>(d, s). Ok (switchkvm (m\<lparr>km := s, kpgdir := d\<rparr>)))"

text \<open>The part of \<^verbatim>\<open>struct cpu\<close> that \<^verbatim>\<open>seginit\<close> and \<^verbatim>\<open>switchuvm\<close> set: the descriptor table, the
  task state fields, the loaded selectors and the two per-CPU pointers. The addresses of
  \<^verbatim>\<open>c->cpu\<close> and \<^verbatim>\<open>c->ts\<close> are arguments.\<close>

record seg_cpu =
  gdt :: "nat \<Rightarrow> segdesc"
  ss0 :: uint
  esp0 :: uint
  iomb :: uint
  tr :: uint
  gs :: uint
  cpu_self :: uint
  cpu_proc :: uint

definition seginit :: "uint \<Rightarrow> uint \<Rightarrow> seg_cpu \<Rightarrow> seg_cpu" where
  "seginit c cpu_field k =
     k\<lparr>gdt := (gdt k)
         (SEG_KCODE := SEG (STA_X OR STA_R) 0 0xffffffff 0,
          SEG_KDATA := SEG STA_W 0 0xffffffff 0,
          SEG_UCODE := SEG (STA_X OR STA_R) 0 0xffffffff DPL_USER,
          SEG_UDATA := SEG STA_W 0 0xffffffff DPL_USER,
          SEG_KCPU := SEG STA_W cpu_field 8 0),
       gs := push_bit 3 (of_nat SEG_KCPU), cpu_self := c, cpu_proc := 0\<rparr>"

text \<open>The process argument is \<^verbatim>\<open>None\<close> for the null pointer, otherwise its \<^verbatim>\<open>kstack\<close> and \<^verbatim>\<open>pgdir\<close>;
  \<open>cur_kstack\<close> is \<^verbatim>\<open>myproc()->kstack\<close>. \<^verbatim>\<open>sizeof(struct taskstate)\<close> is 104 and \<^verbatim>\<open>KSTACKSIZE\<close> 4096.\<close>

definition switchuvm ::
  "(uint \<times> uint) option \<Rightarrow> uint \<Rightarrow> uint \<Rightarrow> seg_cpu \<Rightarrow> vm \<Rightarrow> (seg_cpu \<times> vm) outcome" where
  "switchuvm p cur_kstack ts_addr k m =
     (case p of
        None \<Rightarrow> Panic ''switchuvm: no process''
      | Some (kstack, pgdir) \<Rightarrow>
          if kstack = 0 then Panic ''switchuvm: no kstack''
          else if pgdir = 0 then Panic ''switchuvm: no pgdir''
          else
            let d = SEG16 STS_T32A ts_addr 103 0;
                k1 = k\<lparr>gdt := (gdt k)(SEG_TSS := d\<lparr>sd_s := 0\<rparr>),
                       ss0 := push_bit 3 (of_nat SEG_KDATA), esp0 := cur_kstack + 4096, iomb := 0xFFFF,
                       tr := push_bit 3 (of_nat SEG_TSS)\<rparr>
            in Ok (k1, lcr3 (V2P pgdir) m))"

section \<open>Bytes of memory\<close>

definition load_byte :: "kmem \<Rightarrow> uint \<Rightarrow> uchar" where
  "load_byte s a = ucast (drop_bit (8 * (unat a mod 4)) (pages s (PGROUNDDOWN a) (drop_bit 2 (a AND 0xFFF))))"

definition set_byte :: "nat \<Rightarrow> uchar \<Rightarrow> uint \<Rightarrow> uint" where
  "set_byte k b w = (w AND NOT (push_bit (8 * k) 0xFF)) OR push_bit (8 * k) (ucast b)"

definition store_byte :: "uint \<Rightarrow> uchar \<Rightarrow> kmem \<Rightarrow> kmem" where
  "store_byte a b s =
     (let v = PGROUNDDOWN a; i = drop_bit 2 (a AND 0xFFF)
      in store_word v i (set_byte (unat a mod 4) b (pages s v i)) s)"

text \<open>\<^verbatim>\<open>memmove(dst, src, n)\<close> from a buffer that does not overlap the destination.\<close>

primrec store_bytes :: "uint \<Rightarrow> uchar list \<Rightarrow> kmem \<Rightarrow> kmem" where
  "store_bytes a [] s = s"
| "store_bytes a (b # bs) s = store_bytes (a + 1) bs (store_byte a b s)"

definition copy_page :: "uint \<Rightarrow> uint \<Rightarrow> kmem \<Rightarrow> kmem" where
  "copy_page dst src s = s\<lparr>pages := (pages s)(dst := pages s src)\<rparr>"

section \<open>User address spaces\<close>

definition inituvm :: "uint \<Rightarrow> uchar list \<Rightarrow> kmem \<Rightarrow> kmem outcome" where
  "inituvm pgdir init s =
     (if length init \<ge> 4096 then Panic ''inituvm: more than a page''
      else
        let (mem, s1) = kalloc s;
            s2 = memset_page mem 0 s1
        in andthen (mappages pgdir 0 PGSIZE (V2P mem) (PTE_W OR PTE_U) s2)
             (\<lambda>(_, s3). Ok (store_bytes mem init s3)))"

text \<open>\<^verbatim>\<open>readi\<close> of the inode being loaded is an argument: it takes the file offset and the byte count and
  returns the number of bytes read and the bytes, which go to the page; \<open>t\<close> is the file system state it acts on.\<close>

type_synonym 't readi_fun = "uint \<Rightarrow> uint \<Rightarrow> 't \<Rightarrow> ((int \<times> uchar list) \<times> 't) outcome"

fun loaduvm_loop ::
  "nat \<Rightarrow> 't readi_fun \<Rightarrow> uint \<Rightarrow> uint \<Rightarrow> uint \<Rightarrow> uint \<Rightarrow> uint \<Rightarrow> kmem \<Rightarrow> 't \<Rightarrow> (int \<times> kmem \<times> 't) outcome" where
  "loaduvm_loop 0 rd pgdir addr offset sz i s t = Hang"
| "loaduvm_loop (Suc k) rd pgdir addr offset sz i s t =
     (if i < sz
      then
        (case walkpgdir pgdir (addr + i) False s of
           (None, s1) \<Rightarrow> Panic ''loaduvm: address should exist''
         | (Some pte, s1) \<Rightarrow>
             let pa = PTE_ADDR (read_pte pte s1);
                 n = (if sz - i < PGSIZE then sz - i else PGSIZE)
             in andthen (rd (offset + i) n t)
                  (\<lambda>((r, dat), t1).
                     let s2 = store_bytes (P2V pa) dat s1
                     in if word_of_int r \<noteq> n then Ok (-1, s2, t1)
                        else loaduvm_loop k rd pgdir addr offset sz (i + PGSIZE) s2 t1))
      else Ok (0, s, t))"

definition loaduvm ::
  "'t readi_fun \<Rightarrow> uint \<Rightarrow> uint \<Rightarrow> uint \<Rightarrow> uint \<Rightarrow> kmem \<Rightarrow> 't \<Rightarrow> (int \<times> kmem \<times> 't) outcome" where
  "loaduvm rd pgdir addr offset sz s t =
     (if addr mod PGSIZE \<noteq> 0 then Panic ''loaduvm: addr must be page aligned''
      else loaduvm_loop (Suc page_fuel) rd pgdir addr offset sz 0 s t)"

fun allocuvm_loop :: "nat \<Rightarrow> uint \<Rightarrow> uint \<Rightarrow> uint \<Rightarrow> uint \<Rightarrow> kmem \<Rightarrow> (uint \<times> kmem) outcome" where
  "allocuvm_loop 0 pgdir oldsz newsz a s = Hang"
| "allocuvm_loop (Suc k) pgdir oldsz newsz a s =
     (if a < newsz
      then
        let (mem, s1) = kalloc s
        in if mem = 0
           then andthen (deallocuvm pgdir newsz oldsz s1) (\<lambda>(_, s2). Ok (0, s2))
           else andthen (mappages pgdir a PGSIZE (V2P mem) (PTE_W OR PTE_U) (memset_page mem 0 s1))
                  (\<lambda>(r, s2).
                     if r < 0
                     then andthen (deallocuvm pgdir newsz oldsz s2)
                            (\<lambda>(_, s3). andthen (kfree mem s3) (\<lambda>s4. Ok (0, s4)))
                     else allocuvm_loop k pgdir oldsz newsz (a + PGSIZE) s2)
      else Ok (newsz, s))"

definition allocuvm :: "uint \<Rightarrow> uint \<Rightarrow> uint \<Rightarrow> kmem \<Rightarrow> (uint \<times> kmem) outcome" where
  "allocuvm pgdir oldsz newsz s =
     (if newsz \<ge> KERNBASE then Ok (0, s)
      else if newsz < oldsz then Ok (oldsz, s)
      else allocuvm_loop page_fuel pgdir oldsz newsz (PGROUNDUP oldsz) s)"

definition clearpteu :: "uint \<Rightarrow> uint \<Rightarrow> kmem \<Rightarrow> kmem outcome" where
  "clearpteu pgdir uva s =
     (case walkpgdir pgdir uva False s of
        (None, s1) \<Rightarrow> Panic ''clearpteu''
      | (Some pte, s1) \<Rightarrow> Ok (write_pte pte (read_pte pte s1 AND NOT PTE_U) s1))"

fun copyuvm_original_loop :: "nat \<Rightarrow> uint \<Rightarrow> uint \<Rightarrow> uint \<Rightarrow> uint \<Rightarrow> kmem \<Rightarrow> (uint \<times> kmem) outcome" where
  "copyuvm_original_loop 0 pgdir d sz i s = Hang"
| "copyuvm_original_loop (Suc k) pgdir d sz i s =
     (if i < sz
      then
        (case walkpgdir pgdir i False s of
           (None, s1) \<Rightarrow> Panic ''copyuvm: pte should exist''
         | (Some pte, s1) \<Rightarrow>
             if read_pte pte s1 AND PTE_P = 0 then Panic ''copyuvm: page not present''
             else
               let pa = PTE_ADDR (read_pte pte s1);
                   flags = PTE_FLAGS (read_pte pte s1);
                   (mem, s2) = kalloc s1
               in if mem = 0 then andthen (freevm d s2) (\<lambda>s3. Ok (0, s3))
                  else
                    andthen (mappages d i PGSIZE (V2P mem) flags (copy_page mem (P2V pa) s2))
                      (\<lambda>(r, s3).
                         if r < 0
                         then andthen (kfree mem s3) (\<lambda>s4. andthen (freevm d s4) (\<lambda>s5. Ok (0, s5)))
                         else copyuvm_original_loop k pgdir d sz (i + PGSIZE) s3))
      else Ok (d, s))"

definition copyuvm_original :: "kmap_entry list \<Rightarrow> uint \<Rightarrow> uint \<Rightarrow> kmem \<Rightarrow> (uint \<times> kmem) outcome" where
  "copyuvm_original kmap pgdir sz s =
     andthen (setupkvm kmap s)
       (\<lambda>(d, s1). if d = 0 then Ok (0, s1)
                  else copyuvm_original_loop (Suc page_fuel) pgdir d sz 0 s1)"

fun copyuvm_loop :: "nat \<Rightarrow> uint \<Rightarrow> uint \<Rightarrow> uint \<Rightarrow> uint \<Rightarrow> kmem \<Rightarrow> (uint \<times> kmem) outcome" where
  "copyuvm_loop 0 pgdir d sz i s = Hang"
| "copyuvm_loop (Suc k) pgdir d sz i s =
     (if i < sz
      then
        (case walkpgdir pgdir i False s of
           (None, s1) \<Rightarrow> Panic ''copyuvm: pte should exist''
         | (Some pte, s1) \<Rightarrow>
             if read_pte pte s1 AND PTE_P = 0 then Panic ''copyuvm: page not present''
             else
               let s2 = write_pte pte (read_pte pte s1 AND NOT PTE_W) s1;
                   pa = PTE_ADDR (read_pte pte s2);
                   flags = PTE_FLAGS (read_pte pte s2)
               in andthen (mappages d i PGSIZE pa flags s2)
                    (\<lambda>(r, s3).
                       if r < 0 then andthen (freevm d s3) (\<lambda>s4. Ok (0, s4))
                       else andthen (incrementReferenceCount pa s3)
                              (copyuvm_loop k pgdir d sz (i + PGSIZE))))
      else Ok (d, s))"

definition copyuvm :: "kmap_entry list \<Rightarrow> uint \<Rightarrow> uint \<Rightarrow> vm \<Rightarrow> (uint \<times> vm) outcome" where
  "copyuvm kmap pgdir sz m =
     andthen (setupkvm kmap (km m))
       (\<lambda>(d, s1). if d = 0 then Ok (0, m\<lparr>km := s1\<rparr>)
                  else andthen (copyuvm_loop (Suc page_fuel) pgdir d sz 0 s1)
                         (\<lambda>(r, s2). Ok (r, lcr3 (V2P pgdir) (m\<lparr>km := s2\<rparr>))))"

section \<open>Access to user memory from the kernel\<close>

text \<open>\<^verbatim>\<open>uva2ka\<close> dereferences the result of \<^verbatim>\<open>walkpgdir\<close> without a null test. The load from the null
  pointer goes through the current address space, in kernel mode: \<open>null_load\<close> is the word the
  kernel reads at virtual address 0. If that page is not mapped, the page fault handler marks the
  process as killed and returns to the same instruction, which faults again: the outcome \<open>Hang\<close>.\<close>

definition null_load :: "vm \<Rightarrow> uint outcome" where
  "null_load m =
     (case walkpgdir (P2V (cr3 m)) 0 False (km m) of
        (None, s) \<Rightarrow> Hang
      | (Some pte, s) \<Rightarrow>
          if read_pte pte s AND PTE_P = 0 then Hang
          else Ok (pages s (P2V (PTE_ADDR (read_pte pte s))) 0))"

definition uva2ka :: "uint \<Rightarrow> uint \<Rightarrow> vm \<Rightarrow> uint outcome" where
  "uva2ka pgdir uva m =
     andthen (case walkpgdir pgdir uva False (km m) of
                (None, s) \<Rightarrow> null_load m
              | (Some pte, s) \<Rightarrow> Ok (read_pte pte s))
       (\<lambda>w. if w AND PTE_P = 0 then Ok 0
            else if w AND PTE_U = 0 then Ok 0
            else Ok (P2V (PTE_ADDR w)))"

text \<open>The buffer is a list of bytes of length \<^verbatim>\<open>len\<close>; every round consumes at least one byte.\<close>

function copyout :: "uint \<Rightarrow> uint \<Rightarrow> uchar list \<Rightarrow> vm \<Rightarrow> (int \<times> vm) outcome" where
  "copyout pgdir va buf m =
     (if buf = [] then Ok (0, m)
      else
        let va0 = PGROUNDDOWN va
        in andthen (uva2ka pgdir va0 m)
             (\<lambda>pa0.
                if pa0 = 0 then Ok (-1, m)
                else
                  let n = unat (PGSIZE - (va - va0));
                      n = (if n > length buf then length buf else n)
                  in copyout pgdir (va0 + PGSIZE) (drop n buf)
                       (m\<lparr>km := store_bytes (pa0 + (va - va0)) (take n buf) (km m)\<rparr>)))"
  by pat_completeness auto

lemma page_rest_pos: "0 < unat (PGSIZE - (va - PGROUNDDOWN va))"
proof -
  have le: "unat (PGROUNDDOWN va) \<le> unat va" by (simp add: unat_PGROUNDDOWN)
  then have "unat (va - PGROUNDDOWN va) = unat va - unat (PGROUNDDOWN va)"
    by (simp add: unat_sub word_le_nat_alt)
  then have "unat (va - PGROUNDDOWN va) < 4096"
    by (simp add: unat_PGROUNDDOWN)
  then have "va - PGROUNDDOWN va \<noteq> PGSIZE" by (auto simp: word_unat_eq_iff)
  then show ?thesis by (simp add: unat_gt_0)
qed

termination copyout
proof (relation "measure (\<lambda>(pgdir, va, buf, m). length buf)", goal_cases)
  case (2 pgdir va buf m va0 pa0 n na)
  then show ?case using page_rest_pos [of va] by (cases buf) auto
qed simp

declare copyout.simps [simp del]

section \<open>The copy-on-write fault\<close>

text \<open>\<^verbatim>\<open>pagefault\<close> is split where another CPU can interleave: up to the read of the reference count,
  and from there on. \<open>None\<close> in the first part stands for the path that marks the process as killed;
  in the second part that is the returned flag. The first argument is \<^verbatim>\<open>myproc()->pgdir\<close>, \<open>None\<close>
  if there is no process.\<close>

definition pagefault_check :: "uint option \<Rightarrow> uint \<Rightarrow> kmem \<Rightarrow> (pte_ptr \<times> uint \<times> uint) option outcome" where
  "pagefault_check proc va s =
     (case proc of
        None \<Rightarrow> Panic ''pagefault''
      | Some pgdir \<Rightarrow>
          if va \<ge> KERNBASE then Ok None
          else
            (case walkpgdir pgdir va False s of
               (None, _) \<Rightarrow> Ok None
             | (Some pte, s1) \<Rightarrow>
                 if read_pte pte s1 AND PTE_P = 0 \<or> read_pte pte s1 AND PTE_U = 0 then Ok None
                 else if read_pte pte s1 AND PTE_W \<noteq> 0 then Panic ''Page fault already writeable''
                 else
                   let pa = PTE_ADDR (read_pte pte s1)
                   in andthen (getReferenceCount pa s1) (\<lambda>refCount. Ok (Some (pte, pa, refCount)))))"

definition pagefault_resolve :: "uint \<Rightarrow> pte_ptr \<Rightarrow> uint \<Rightarrow> uint \<Rightarrow> vm \<Rightarrow> (bool \<times> vm) outcome" where
  "pagefault_resolve pgdir pte pa refCount m =
     (if refCount > 1
      then
        let (mem, s1) = kalloc (km m)
        in if mem = 0 then Ok (True, m\<lparr>km := s1\<rparr>)
           else
             let s2 = copy_page mem (P2V pa) s1;
                 s3 = write_pte pte (V2P mem OR PTE_P OR PTE_U OR PTE_W) s2
             in andthen (decrementReferenceCount pa s3)
                  (\<lambda>s4. Ok (False, lcr3 (V2P pgdir) (m\<lparr>km := s4\<rparr>)))
      else if refCount = 1
      then Ok (False, lcr3 (V2P pgdir)
             (m\<lparr>km := write_pte pte (read_pte pte (km m) OR PTE_W) (km m)\<rparr>))
      else Panic ''pagefault reference count wrong\<newline>'')"

definition pagefault :: "uint option \<Rightarrow> uint \<Rightarrow> vm \<Rightarrow> (bool \<times> vm) outcome" where
  "pagefault proc va m =
     andthen (pagefault_check proc va (km m))
       (\<lambda>r. case r of
              None \<Rightarrow> Ok (True, m)
            | Some (pte, pa, refCount) \<Rightarrow> pagefault_resolve (the proc) pte pa refCount m)"

end
