(* ===== verification/Vm_Spec.thy ===== *)
theory Vm_Spec
  imports Vm
begin

text \<open>
  What the page table routines of \<^verbatim>\<open>Vm\<close> do, in terms of an abstract address space: \<open>entry s d va\<close>
  is the page table entry that the directory \<open>d\<close> gives to the address \<open>va\<close> (zero where there is no
  page table), and \<open>pt_pages s d\<close> the set of pages the tables themselves occupy. \<open>pt_ok s d\<close> says
  that these pages are allocated, referenced once and pairwise different.

  \<open>kmem_wf\<close> strengthens the invariant of the allocator: the free list holds exactly the managed
  pages with reference count zero, so that no page is lost. It also says that the kernel image
  lies above \<open>KERNBASE\<close>.
\<close>

lemma flag_tests [simp]:
  "(w :: uint) AND PTE_P = 0 \<longleftrightarrow> even w"
  "w AND PTE_W = 0 \<longleftrightarrow> \<not> bit w 1"
  "w AND PTE_U = 0 \<longleftrightarrow> \<not> bit w 2"
  using pte_flag_bit [of w] by (auto simp: pte_flag_def bit_0)

section \<open>Frames and reference counts\<close>

definition kmem_wf :: "kmem \<Rightarrow> bool" where
  "kmem_wf s \<longleftrightarrow> KERNBASE < kend s \<and> (\<exists>xs. kmem_inv s xs \<and> set xs = {v. kframe s v \<and> refs s v = 0})"

lemma kmem_wf_pages:
  assumes "kmem_wf s" and "refs s v \<noteq> 0"
  shows "kmem_wf (s\<lparr>pages := (pages s)(v := f)\<rparr>)"
proof -
  from assms(1) obtain xs where xs: "kmem_inv s xs" "set xs = {v. kframe s v \<and> refs s v = 0}"
    by (auto simp: kmem_wf_def)
  with assms(2) have "v \<notin> set xs" by auto
  with xs assms(1) show ?thesis
    unfolding kmem_wf_def by (intro conjI exI [of _ xs]) (auto simp: kmem_inv_def)
qed

lemma kalloc_wf:
  assumes "kmem_wf s" and "kalloc s = (r, s')"
  shows "kmem_wf s' \<and> kend s' = kend s \<and> pages s' = pages s \<and>
    (if r = 0 then s' = s \<and> (\<forall>u. kframe s u \<longrightarrow> refs s u \<noteq> 0)
     else kframe s r \<and> refs s r = 0 \<and> (\<forall>u. kframe s u \<longrightarrow> refs s' u = (if u = r then 1 else refs s u)))"
proof -
  from assms(1) obtain xs where xs: "kmem_inv s xs" "set xs = {v. kframe s v \<and> refs s v = 0}"
    by (auto simp: kmem_wf_def)
  have f: "kframe s' = kframe s" using kend_kalloc [OF assms(2)] kframe_cong by blast
  show ?thesis
  proof (cases xs)
    case Nil
    then have "kalloc s = (0, s)" using xs kalloc_empty by simp
    then show ?thesis using assms xs Nil by auto
  next
    case (Cons v ys)
    with xs(1) have inv: "kmem_inv s (v # ys)" by simp
    have r: "r = v" "kmem_inv s' ys" using kalloc_inv [OF inv assms(2)] by auto
    have v: "kframe s v" "refs s v = 0" using kmem_inv_free [OF inv, of v] by auto
    have refs': "\<forall>u. kframe s u \<longrightarrow> refs s' u = (if u = v then 1 else refs s u)"
      using kalloc_refs [OF inv assms(2)] by blast
    have "v \<notin> set ys" using inv by (simp add: kmem_inv_def)
    then have m: "u \<in> set ys \<longleftrightarrow> u \<noteq> v \<and> kframe s u \<and> refs s u = 0" for u
      using xs(2) Cons by auto
    have "u \<in> set ys \<longleftrightarrow> kframe s' u \<and> refs s' u = 0" for u
      using v by (cases "u = v") (auto simp: m f refs')
    with r have "kmem_wf s'"
      using assms(1) kend_kalloc [OF assms(2)] unfolding kmem_wf_def by auto
    then show ?thesis
      using r v refs' kframe_nonzero [OF v(1)] kend_kalloc [OF assms(2)] pages_kalloc [OF assms(2)]
      by auto
  qed
qed

lemma kfree_wf:
  assumes "kmem_wf s" and "kframe s v" and "refs s v \<noteq> 0"
  shows "\<exists>s'. kfree v s = Ok s' \<and> kmem_wf s' \<and> kend s' = kend s \<and>
    (\<forall>u. kframe s u \<longrightarrow> refs s' u = (if u = v then refs s v - 1 else refs s u)) \<and>
    (\<forall>u. u \<noteq> v \<or> 1 < refs s v \<longrightarrow> pages s' u = pages s u)"
proof -
  from assms(1) obtain xs where xs: "kmem_inv s xs" "set xs = {v. kframe s v \<and> refs s v = 0}"
    by (auto simp: kmem_wf_def)
  with assms have "v \<notin> set xs" by auto
  have "\<exists>s' ys. kfree v s = Ok s' \<and> kmem_inv s' ys \<and> set ys = (if 1 < refs s v then set xs else insert v (set xs)) \<and>
      (\<forall>u. kframe s u \<longrightarrow> refs s' u = (if u = v then refs s v - 1 else refs s u))"
  proof (cases "1 < refs s v")
    case True
    obtain s' where "kfree v s = Ok s'" "kmem_inv s' xs"
        "\<forall>u. kframe s u \<longrightarrow> refs s' u = (if u = v then refs s v - 1 else refs s u)"
      using kfree_shared [OF xs(1) assms(2) True] by (elim exE conjE)
    with True show ?thesis by (intro exI [of _ s'] exI [of _ xs] conjI) simp_all
  next
    case False
    then have one: "refs s v = 1" using assms(3) by simp
    then have "refs s v \<le> 1" by simp
    from kfree_last [OF xs(1) assms(2) \<open>v \<notin> set xs\<close> this] obtain s' where "kfree v s = Ok s'" "kmem_inv s' (v # xs)"
        "\<forall>u. kframe s u \<longrightarrow> refs s' u = (if u = v then 0 else refs s u)"
      by (elim exE conjE)
    with one show ?thesis by (intro exI [of _ s'] exI [of _ "v # xs"] conjI) simp_all
  qed
  then obtain s' ys where s': "kfree v s = Ok s'" "kmem_inv s' ys"
      "set ys = (if 1 < refs s v then set xs else insert v (set xs))"
      "\<forall>u. kframe s u \<longrightarrow> refs s' u = (if u = v then refs s v - 1 else refs s u)"
    by (elim exE conjE)
  have f: "kframe s' = kframe s" using kend_kfree [OF s'(1)] kframe_cong by blast
  have m: "u \<in> set xs \<longleftrightarrow> kframe s u \<and> refs s u = 0" for u using xs(2) by blast
  have "u \<in> set ys \<longleftrightarrow> kframe s' u \<and> refs s' u = 0" for u
    using assms(2,3) by (cases "u = v") (auto simp: s'(3,4) m f)
  with s'(2) have "kmem_wf s'" using assms(1) kend_kfree [OF s'(1)] unfolding kmem_wf_def by auto
  moreover have "pages s' u = pages s u" if "u \<noteq> v \<or> 1 < refs s v" for u
    using that kfree_pages [OF s'(1), of u] kfree_shared_eq [OF assms(2)] s'(1) by (cases "u = v") auto
  ultimately show ?thesis
    using s'(1,4) kend_kfree [OF s'(1)] by (intro exI [of _ s'] conjI) simp_all
qed

section \<open>Address spaces\<close>

definition ptab :: "kmem \<Rightarrow> uint \<Rightarrow> uint \<Rightarrow> uint" where
  "ptab s d i = P2V (PTE_ADDR (pages s d i))"

definition pt_index :: "kmem \<Rightarrow> uint \<Rightarrow> uint set" where
  "pt_index s d = {i. unat i < 1024 \<and> odd (pages s d i)}"

definition pt_pages :: "kmem \<Rightarrow> uint \<Rightarrow> uint set" where
  "pt_pages s d = insert d (ptab s d ` pt_index s d)"

definition pt_ok :: "kmem \<Rightarrow> uint \<Rightarrow> bool" where
  "pt_ok s d \<longleftrightarrow> (\<forall>u \<in> pt_pages s d. kframe s u \<and> refs s u = 1) \<and>
     inj_on (ptab s d) (pt_index s d) \<and> d \<notin> ptab s d ` pt_index s d"

definition entry :: "kmem \<Rightarrow> uint \<Rightarrow> uint \<Rightarrow> uint" where
  "entry s d va = (if odd (pages s d (PDX va)) then pages s (ptab s d (PDX va)) (PTX va) else 0)"

lemma pt_cong:
  assumes "\<forall>u \<in> pt_pages s d. pages s' u = pages s u"
  shows "ptab s' d = ptab s d" "pt_index s' d = pt_index s d" "pt_pages s' d = pt_pages s d"
    "entry s' d = entry s d"
proof -
  have d: "pages s' d = pages s d" using assms by (simp add: pt_pages_def)
  show t: "ptab s' d = ptab s d" by (simp add: ptab_def fun_eq_iff d)
  show i: "pt_index s' d = pt_index s d" by (simp add: pt_index_def d)
  show "pt_pages s' d = pt_pages s d" by (simp add: pt_pages_def t i)
  show "entry s' d = entry s d"
  proof
    fix va
    have "odd (pages s d (PDX va)) \<Longrightarrow> ptab s d (PDX va) \<in> pt_pages s d"
      using PDX_less [of va] by (simp add: pt_pages_def pt_index_def)
    then show "entry s' d va = entry s d va"
      using bspec [OF assms, of "ptab s d (PDX va)"] by (simp add: entry_def d t)
  qed
qed

lemma pt_ok_cong:
  assumes "pt_ok s d" and "\<forall>u \<in> pt_pages s d. pages s' u = pages s u" and "kend s' = kend s"
    and "\<forall>u \<in> pt_pages s d. refs s' u = refs s u"
  shows "pt_ok s' d"
  using assms kframe_cong [OF assms(3)] by (simp add: pt_ok_def pt_cong [OF assms(2)])

lemma walk_noalloc:
  "walkpgdir d va False s =
     (if odd (pages s d (PDX va)) then Some (ptab s d (PDX va), PTX va) else None, s)"
  by (simp add: walkpgdir_def read_pte_def ptab_def Let_def)

lemma walk_present:
  "odd (pages s d (PDX va)) \<Longrightarrow>
     walkpgdir d va alloc s = (Some (ptab s d (PDX va), PTX va), s)"
  by (simp add: walkpgdir_def read_pte_def ptab_def Let_def)

lemma pt_indexI: "odd (pages s d (PDX va)) \<Longrightarrow> PDX va \<in> pt_index s d"
  using PDX_less [of va] by (simp add: pt_index_def)

lemma pt_pagesI: "odd (pages s d (PDX va)) \<Longrightarrow> ptab s d (PDX va) \<in> pt_pages s d"
  using PDX_less [of va] by (simp add: pt_pages_def pt_index_def)

lemma pt_pages_self [simp]: "d \<in> pt_pages s d"
  by (simp add: pt_pages_def)

lemma pt_okD: "pt_ok s d \<Longrightarrow> u \<in> pt_pages s d \<Longrightarrow> kframe s u \<and> refs s u = 1"
  by (simp add: pt_ok_def)

lemma pt_ok_ptab_neq: "pt_ok s d \<Longrightarrow> odd (pages s d (PDX va)) \<Longrightarrow> ptab s d (PDX va) \<noteq> d"
  using pt_indexI [of s d va] by (metis imageI pt_ok_def)

lemma pt_ok_inj:
  "pt_ok s d \<Longrightarrow> odd (pages s d (PDX va)) \<Longrightarrow> odd (pages s d (PDX vb)) \<Longrightarrow>
     ptab s d (PDX va) = ptab s d (PDX vb) \<longleftrightarrow> PDX va = PDX vb"
  using pt_indexI [of s d va] pt_indexI [of s d vb] by (auto simp: pt_ok_def inj_on_def)

text \<open>How a routine may change the tables of one address space: it allocates table pages from
  the free ones and writes nothing outside its tables.\<close>

definition pt_step :: "uint \<Rightarrow> kmem \<Rightarrow> kmem \<Rightarrow> bool" where
  "pt_step d s s' \<longleftrightarrow>
     kmem_wf s' \<and> pt_ok s' d \<and> kend s' = kend s \<and> pt_pages s d \<subseteq> pt_pages s' d \<and>
     (\<forall>u \<in> pt_pages s' d - pt_pages s d. kframe s u \<and> refs s u = 0) \<and>
     (\<forall>u. kframe s u \<longrightarrow> refs s' u = (if u \<in> pt_pages s' d then 1 else refs s u)) \<and>
     (\<forall>u. u \<notin> pt_pages s' d \<longrightarrow> pages s' u = pages s u)"

lemma pt_stepD:
  assumes "pt_step d s s'"
  shows "kmem_wf s'" "pt_ok s' d" "kend s' = kend s" "kframe s' = kframe s"
    "pt_pages s d \<subseteq> pt_pages s' d"
    "u \<in> pt_pages s' d \<Longrightarrow> u \<notin> pt_pages s d \<Longrightarrow> kframe s u \<and> refs s u = 0"
    "kframe s u \<Longrightarrow> refs s' u = (if u \<in> pt_pages s' d then 1 else refs s u)"
    "u \<notin> pt_pages s' d \<Longrightarrow> pages s' u = pages s u"
  using assms kframe_cong [of s' s] by (simp_all add: pt_step_def)

lemma pt_step_refl: "kmem_wf s \<Longrightarrow> pt_ok s d \<Longrightarrow> pt_step d s s"
  by (simp add: pt_step_def pt_okD)

lemma pt_step_trans:
  assumes 1: "pt_step d s s1" and 2: "pt_step d s1 s2"
  shows "pt_step d s s2"
proof -
  note d1 = pt_stepD [OF 1] and d2 = pt_stepD [OF 2]
  have "kframe s u \<and> refs s u = 0" if "u \<in> pt_pages s2 d" "u \<notin> pt_pages s d" for u
  proof (cases "u \<in> pt_pages s1 d")
    case True
    with that d1(6) show ?thesis by blast
  next
    case False
    with that d2(6) d1(4) have "kframe s u" "refs s1 u = 0" by auto
    with False d1(7) show ?thesis by simp
  qed
  moreover have "refs s2 u = (if u \<in> pt_pages s2 d then 1 else refs s u)" if "kframe s u" for u
    using that d1(4,5,7) d2(5) d2(7) [of u] by auto
  moreover have "pages s2 u = pages s u" if "u \<notin> pt_pages s2 d" for u
    using that d1(8) [of u] d2(5) d2(8) [of u] by auto
  ultimately show ?thesis
    using d1(3,5) d2(1,2,3,5) unfolding pt_step_def by (intro conjI ballI allI impI) auto
qed

definition upd_entry :: "uint \<Rightarrow> uint \<Rightarrow> (uint \<Rightarrow> uint) \<Rightarrow> uint \<Rightarrow> uint" where
  "upd_entry va w e = (\<lambda>vb. if PGROUNDDOWN vb = PGROUNDDOWN va then w else e vb)"

lemma write_entry:
  assumes ok: "pt_ok s d" and wf: "kmem_wf s" and p: "odd (pages s d (PDX va))"
    and s': "s' = write_pte (ptab s d (PDX va), PTX va) w s"
  shows "pt_step d s s'" "pt_pages s' d = pt_pages s d" "entry s' d = upd_entry va w (entry s d)"
    "pages s' d = pages s d"
proof -
  let ?t = "ptab s d (PDX va)"
  have t: "?t \<in> pt_pages s d" "?t \<noteq> d" using pt_pagesI pt_ok_ptab_neq ok p by blast+
  have pg: "pages s' = (pages s)(?t := (pages s ?t)(PTX va := w))"
    by (simp add: s' write_pte_def store_word_def)
  have r: "refs s' = refs s" "kend s' = kend s" by (simp_all add: s' write_pte_def store_word_def)
  show d: "pages s' d = pages s d" using t(2) by (simp add: pg)
  then have eqs: "ptab s' d = ptab s d" "pt_index s' d = pt_index s d"
    by (simp_all add: ptab_def pt_index_def fun_eq_iff)
  then show pp: "pt_pages s' d = pt_pages s d" by (simp add: pt_pages_def)
  have ok': "pt_ok s' d" using ok kframe_cong [OF r(2)] by (simp add: pt_ok_def pp eqs r)
  have "kmem_wf s'" using kmem_wf_pages [OF wf] pt_okD [OF ok t(1)]
    by (simp add: s' write_pte_def store_word_def)
  then show "pt_step d s s'"
    using ok' t(1) pt_okD [OF ok] by (auto simp: pt_step_def r pp pg)
  show "entry s' d = upd_entry va w (entry s d)"
  proof
    fix vb
    have "entry s' d vb = (if odd (pages s d (PDX vb)) then pages s' (ptab s d (PDX vb)) (PTX vb) else 0)"
      by (simp add: entry_def d eqs)
    then show "entry s' d vb = upd_entry va w (entry s d) vb"
      using pt_ok_inj [OF ok _ p, of vb] p
      by (auto simp: entry_def upd_entry_def same_page_iff pg)
  qed
qed

text \<open>A walk that allocates: the null result leaves everything as it was and means that no page
  is free; otherwise the entry of \<open>va\<close> has a table, and no entry has changed.\<close>

lemma walk_alloc:
  assumes ok: "pt_ok s d" and wf: "kmem_wf s" and w: "walkpgdir d va True s = (r, s')"
  shows "pt_step d s s' \<and> entry s' d = entry s d \<and>
    (case r of None \<Rightarrow> s' = s \<and> (\<forall>u. kframe s u \<longrightarrow> refs s u \<noteq> 0)
     | Some p \<Rightarrow> odd (pages s' d (PDX va)) \<and> p = (ptab s' d (PDX va), PTX va))"
proof (cases "odd (pages s d (PDX va))")
  case True
  then show ?thesis
    using w walk_present [OF True, of True] pt_step_refl [OF wf ok] by auto
next
  case False
  obtain t s1 where k: "kalloc s = (t, s1)" by (cases "kalloc s")
  note a = kalloc_wf [OF wf k]
  show ?thesis
  proof (cases "t = 0")
    case True
    then show ?thesis
      using w k a False pt_step_refl [OF wf ok] by (auto simp: walkpgdir_def read_pte_def Let_def)
  next
    case t0: False
    have t: "kframe s t" "refs s t = 0"
      and refs1: "\<And>u. kframe s u \<Longrightarrow> refs s1 u = (if u = t then 1 else refs s u)"
      and s1: "pages s1 = pages s" "kend s1 = kend s" "kmem_wf s1"
      using a t0 by auto
    have t_new: "t \<notin> pt_pages s d" using t pt_okD [OF ok] by auto
    let ?e = "V2P t OR PTE_P OR PTE_W OR PTE_U"
    have r: "r = Some (t, PTX va)" and s': "s' = s1\<lparr>pages := (pages s)(t := (\<lambda>_. 0),
        d := (pages s d)(PDX va := ?e))\<rparr>"
      using w k t0 t_new False s1
      by (auto simp: walkpgdir_def read_pte_def Let_def write_pte_def store_word_def
          memset_page_def fill_word_def fun_eq_iff pt_pages_def)
    have pg: "pages s' = (pages s)(t := (\<lambda>_. 0), d := (pages s d)(PDX va := ?e))" by (simp add: s')
    have "?e = V2P t OR 7" by (simp add: or.assoc)
    then have tab: "P2V (PTE_ADDR ?e) = t" "odd ?e"
      using kframe_aligned [OF t(1)] by (simp_all add: even_or_iff)
    have ptab': "ptab s' d i = (if i = PDX va then t else ptab s d i)" for i
      using tab by (simp add: ptab_def s')
    have index': "pt_index s' d = insert (PDX va) (pt_index s d)"
      using tab(2) PDX_less [of va] by (auto simp: pt_index_def s')
    have nin: "PDX va \<notin> pt_index s d" using False by (simp add: pt_index_def)
    have img: "ptab s' d ` pt_index s d = ptab s d ` pt_index s d"
      using nin by (intro image_cong) (auto simp: ptab')
    have diff: "pt_index s d - {PDX va} = pt_index s d" using nin by auto
    have t_tab: "ptab s' d (PDX va) = t" by (simp add: ptab')
    have pp: "pt_pages s' d = insert t (pt_pages s d)"
      unfolding pt_pages_def index' image_insert img by (auto simp: ptab')
    have kf: "kframe s' = kframe s" using s1(2) by (intro kframe_cong) (simp add: s')
    have refs': "refs s' u = (if u = t then 1 else refs s u)" if "kframe s u" for u
      using refs1 [OF that] by (simp add: s')
    have ok': "pt_ok s' d"
      unfolding pt_ok_def pp
    proof (intro conjI ballI)
      fix u assume "u \<in> insert t (pt_pages s d)"
      then show "kframe s' u" using t pt_okD [OF ok] kf by auto
      show "refs s' u = 1" using \<open>u \<in> _\<close> t pt_okD [OF ok] refs' [of u] by auto
    next
      have "inj_on (ptab s' d) (pt_index s d)"
        using ok nin by (auto simp: pt_ok_def inj_on_def ptab')
      then show "inj_on (ptab s' d) (pt_index s' d)"
        using t_new unfolding index' inj_on_insert diff img t_tab by (simp add: pt_pages_def)
      show "d \<notin> ptab s' d ` pt_index s' d"
        using t_new ok unfolding index' image_insert img by (auto simp: ptab' pt_pages_def pt_ok_def)
    qed
    have "kmem_wf s'"
    proof -
      have "refs s1 t \<noteq> 0" using refs1 [OF t(1)] by simp
      from kmem_wf_pages [OF s1(3) this, of "\<lambda>_. 0"]
      have *: "kmem_wf (s1\<lparr>pages := (pages s)(t := (\<lambda>_. 0))\<rparr>)" by (simp add: s1)
      have "refs s1 d \<noteq> 0" using refs1 [of d] pt_okD [OF ok, of d] by auto
      with kmem_wf_pages [OF *, of d] show ?thesis by (simp add: s')
    qed
    moreover have "kend s' = kend s" "\<And>u. u \<noteq> t \<Longrightarrow> u \<noteq> d \<Longrightarrow> pages s' u = pages s u"
      using s1(2) by (simp_all add: s')
    ultimately have "pt_step d s s'"
      unfolding pt_step_def pp using ok' t t_new pt_okD [OF ok] by (auto simp: refs' pt_pages_def)
    moreover have "entry s' d = entry s d"
    proof
      fix vb
      have "ptab s d (PDX vb) \<noteq> t \<and> ptab s d (PDX vb) \<noteq> d" if "odd (pages s d (PDX vb))"
        using that t_new pt_pagesI [OF that] pt_ok_ptab_neq [OF ok that] by auto
      moreover have "t \<noteq> d" using t_new by (auto simp: pt_pages_def)
      ultimately show "entry s' d vb = entry s d vb"
        using False tab by (auto simp: entry_def ptab' pg)
    qed
    ultimately show ?thesis using r tab by (simp add: pg ptab')
  qed
qed

section \<open>Mapping a range of pages\<close>

primrec map_range :: "nat \<Rightarrow> uint \<Rightarrow> uint \<Rightarrow> uint \<Rightarrow> (uint \<Rightarrow> uint) \<Rightarrow> uint \<Rightarrow> uint" where
  "map_range 0 a pa pm e = e"
| "map_range (Suc m) a pa pm e =
     map_range m (a + PGSIZE) (pa + PGSIZE) pm (upd_entry a (pa OR pm OR PTE_P) e)"

lemma unat_pages: "k < 1048576 \<Longrightarrow> unat (of_nat k * PGSIZE :: uint) = k * 4096"
  by (simp add: unat_word_ariths unat_of_nat)

lemma pages_eq_0: "k < 1048576 \<Longrightarrow> (of_nat k * PGSIZE :: uint) = 0 \<longleftrightarrow> k = 0"
  by (simp add: word_unat_eq_iff unat_pages)

lemma page_aligned_next [simp]: "page_aligned (a + PGSIZE) = page_aligned a"
proof -
  have "unat (a + PGSIZE) mod 4096 = (unat a + 4096 * 1) mod 4096"
    by (simp add: unat_word_ariths mod_mod_cancel)
  then show ?thesis by (simp only: page_aligned_unat mod_mult_self2)
qed

lemma page_aligned_pages [simp]: "page_aligned (a + of_nat k * PGSIZE) = page_aligned a"
proof (induction k)
  case (Suc k)
  have "a + of_nat (Suc k) * PGSIZE = a + of_nat k * PGSIZE + PGSIZE" by (simp add: algebra_simps)
  with Suc show ?case by (simp only: page_aligned_next)
qed simp

lemma upd_entry_aligned:
  "page_aligned a \<Longrightarrow> page_aligned b \<Longrightarrow> upd_entry a w e b = (if b = a then w else e b)"
  by (simp add: upd_entry_def page_aligned_round)

lemma mappages_loop_spec:
  assumes "pt_ok s d" and "kmem_wf s" and "page_aligned a" and "k < n" and "k < 1048576"
    and "\<forall>i \<le> k. even (entry s d (a + of_nat i * PGSIZE))"
  shows "\<exists>r s' m. mappages_loop n d a (a + of_nat k * PGSIZE) pa pm s = Ok (r, s') \<and>
    pt_step d s s' \<and> entry s' d = map_range m a pa pm (entry s d) \<and>
    (r = 0 \<and> m = Suc k \<or> r = -1 \<and> m \<le> k \<and> (\<forall>u. kframe s u \<longrightarrow> refs s' u \<noteq> 0))"
  using assms
proof (induction k arbitrary: n a pa s)
  case 0
  then obtain n' where n: "n = Suc n'" by (cases n) auto
  obtain r s1 where w: "walkpgdir d a True s = (r, s1)" by (cases "walkpgdir d a True s")
  note wa = walk_alloc [OF 0(1,2) w]
  show ?case
  proof (cases r)
    case None
    then have "s1 = s" "pt_step d s s" "\<forall>u. kframe s u \<longrightarrow> refs s u \<noteq> 0" using wa by auto
    then show ?thesis using w n None by (intro exI [of _ "-1"] exI [of _ s] exI [of _ 0]) simp
  next
    case (Some p)
    with wa have st: "pt_step d s s1" and e: "entry s1 d = entry s d"
      and p: "odd (pages s1 d (PDX a))" "p = (ptab s1 d (PDX a), PTX a)" by auto
    let ?s = "write_pte p (pa OR pm OR PTE_P) s1"
    note we = write_entry [OF pt_stepD(2) [OF st] pt_stepD(1) [OF st] p(1), of ?s]
    have "even (read_pte p s1)"
      using 0(6) e [symmetric] p by (simp add: entry_def read_pte_def)
    then have "mappages_loop n d a (a + of_nat 0 * PGSIZE) pa pm s = Ok (0, ?s)"
      using w Some n by simp
    then show ?thesis
      using we p(2) e pt_step_trans [OF st] by (intro exI [of _ 0] exI [of _ ?s] exI [of _ 1]) simp
  qed
next
  case (Suc k)
  then obtain n' where n: "n = Suc n'" "k < n'" by (cases n) auto
  obtain r s1 where w: "walkpgdir d a True s = (r, s1)" by (cases "walkpgdir d a True s")
  note wa = walk_alloc [OF Suc(2,3) w]
  show ?case
  proof (cases r)
    case None
    then have "s1 = s" "pt_step d s s" "\<forall>u. kframe s u \<longrightarrow> refs s u \<noteq> 0" using wa by auto
    then show ?thesis using w n None by (intro exI [of _ "-1"] exI [of _ s] exI [of _ 0]) simp
  next
    case (Some p)
    with wa have st: "pt_step d s s1" and e: "entry s1 d = entry s d"
      and p: "odd (pages s1 d (PDX a))" "p = (ptab s1 d (PDX a), PTX a)" by auto
    let ?w = "pa OR pm OR PTE_P"
    let ?s = "write_pte p ?w s1"
    note we = write_entry [OF pt_stepD(2) [OF st] pt_stepD(1) [OF st] p(1), of ?s]
    have st2: "pt_step d s ?s" and e2: "entry ?s d = upd_entry a ?w (entry s d)"
      using we p(2) e pt_step_trans [OF st] by simp_all
    have ev: "even (read_pte p s1)"
      using Suc.prems(6) [rule_format, of 0] e [symmetric] p by (simp add: entry_def read_pte_def)
    have ne: "a \<noteq> a + of_nat (Suc k) * PGSIZE" using pages_eq_0 [OF Suc.prems(5)] by simp
    have "even (entry ?s d (a + PGSIZE + of_nat i * PGSIZE))" if "i \<le> k" for i
    proof -
      have eq: "a + PGSIZE + of_nat i * PGSIZE = a + of_nat (Suc i) * PGSIZE"
        by (simp add: algebra_simps)
      have "a + of_nat (Suc i) * PGSIZE \<noteq> a"
        using pages_eq_0 [of "Suc i"] that Suc.prems(5) by simp
      then show ?thesis
        unfolding eq e2 using Suc.prems(3) Suc.prems(6) [rule_format, of "Suc i"] that
        by (simp only: upd_entry_aligned page_aligned_pages) simp
    qed
    then have "\<exists>r s' m. mappages_loop n' d (a + PGSIZE) (a + PGSIZE + of_nat k * PGSIZE) (pa + PGSIZE) pm ?s = Ok (r, s') \<and>
        pt_step d ?s s' \<and> entry s' d = map_range m (a + PGSIZE) (pa + PGSIZE) pm (entry ?s d) \<and>
        (r = 0 \<and> m = Suc k \<or> r = -1 \<and> m \<le> k \<and> (\<forall>u. kframe ?s u \<longrightarrow> refs s' u \<noteq> 0))"
      using Suc.prems pt_stepD(1,2) [OF st2] n(2) by (intro Suc.IH) simp_all
    then obtain r' s' m where ih:
        "mappages_loop n' d (a + PGSIZE) (a + PGSIZE + of_nat k * PGSIZE) (pa + PGSIZE) pm ?s = Ok (r', s')"
        "pt_step d ?s s'" "entry s' d = map_range m (a + PGSIZE) (pa + PGSIZE) pm (entry ?s d)"
        "r' = 0 \<and> m = Suc k \<or> r' = -1 \<and> m \<le> k \<and> (\<forall>u. kframe ?s u \<longrightarrow> refs s' u \<noteq> 0)"
      by (elim exE conjE)
    have "mappages_loop n d a (a + of_nat (Suc k) * PGSIZE) pa pm s = Ok (r', s')"
      using w Some n(1) ev ne ih(1) by (simp add: Let_def algebra_simps)
    moreover have "entry s' d = map_range (Suc m) a pa pm (entry s d)"
      using ih(3) e2 by simp
    ultimately show ?thesis
      using ih(4) pt_step_trans [OF st2 ih(2)] pt_stepD(4) [OF st2]
      by (intro exI [of _ r'] exI [of _ s'] exI [of _ "Suc m"]) auto
  qed
qed

lemma map_range_apply:
  assumes "page_aligned a" and "m \<le> 1048576"
  shows "(\<forall>i < m. PGROUNDDOWN va = a + of_nat i * PGSIZE \<longrightarrow>
            map_range m a pa pm e va = (pa + of_nat i * PGSIZE) OR pm OR PTE_P) \<and>
         ((\<forall>i < m. PGROUNDDOWN va \<noteq> a + of_nat i * PGSIZE) \<longrightarrow> map_range m a pa pm e va = e va)"
  using assms
proof (induction m arbitrary: a pa e)
  case (Suc m)
  have ih: "i < m \<Longrightarrow> PGROUNDDOWN va = a + PGSIZE + of_nat i * PGSIZE \<Longrightarrow>
      map_range m (a + PGSIZE) (pa + PGSIZE) pm e' va = pa + PGSIZE + of_nat i * PGSIZE OR pm OR PTE_P"
    "\<forall>i < m. PGROUNDDOWN va \<noteq> a + PGSIZE + of_nat i * PGSIZE \<Longrightarrow>
      map_range m (a + PGSIZE) (pa + PGSIZE) pm e' va = e' va" for i e'
    using Suc.IH [of "a + PGSIZE" "pa + PGSIZE" e'] Suc.prems by simp_all
  have eq: "b + PGSIZE + of_nat i * PGSIZE = b + of_nat (Suc i) * PGSIZE" for b i
    by (simp add: algebra_simps)
  show ?case
  proof (intro conjI allI impI)
    fix i assume i: "i < Suc m" "PGROUNDDOWN va = a + of_nat i * PGSIZE"
    show "map_range (Suc m) a pa pm e va = (pa + of_nat i * PGSIZE) OR pm OR PTE_P"
    proof (cases i)
      case 0
      have "of_nat (Suc j) * PGSIZE \<noteq> (0 :: uint)" if "j < m" for j
        using pages_eq_0 [of "Suc j"] that Suc.prems(2) by simp
      then have "\<forall>j < m. PGROUNDDOWN va \<noteq> a + PGSIZE + of_nat j * PGSIZE"
        unfolding eq using i(2) 0 by simp
      then show ?thesis using ih(2) i(2) 0 Suc.prems(1) by (simp add: upd_entry_def page_aligned_round)
    next
      case (Suc j)
      then show ?thesis using ih(1) [of j] i unfolding eq by simp
    qed
  next
    assume none: "\<forall>i < Suc m. PGROUNDDOWN va \<noteq> a + of_nat i * PGSIZE"
    then have "PGROUNDDOWN va \<noteq> PGROUNDDOWN a"
      using Suc.prems(1) by (auto simp: page_aligned_round)
    moreover have "\<forall>i < m. PGROUNDDOWN va \<noteq> a + PGSIZE + of_nat i * PGSIZE"
      unfolding eq using none by auto
    ultimately show "map_range (Suc m) a pa pm e va = e va"
      using ih(2) by (simp add: upd_entry_def)
  qed
qed simp

text \<open>The number of pages a call of \<^verbatim>\<open>mappages\<close> visits, less one. The loop is circular, so it ends for
  every \<^verbatim>\<open>va\<close> and \<^verbatim>\<open>size\<close>.\<close>

definition map_span :: "uint \<Rightarrow> uint \<Rightarrow> nat" where
  "map_span va sz = unat (PGROUNDDOWN (va + sz - 1) - PGROUNDDOWN va) div 4096"

lemma page_number_less: "unat (a :: uint) div 4096 < 1048576"
  using unat_uint_bound [of a] by (simp add: div_less_iff_less_mult)

lemma aligned_as_pages: "page_aligned a \<Longrightarrow> of_nat (unat a div 4096) * PGSIZE = a"
  using div_mult_mod_eq [of "unat a" 4096]
  by (simp add: word_unat_eq_iff unat_pages page_number_less page_aligned_unat)

lemma page_aligned_diff: "page_aligned a \<Longrightarrow> page_aligned b \<Longrightarrow> page_aligned (a - b)"
  using page_aligned_pages [of "a - b" "unat b div 4096"] by (simp only: aligned_as_pages diff_add_cancel)

lemma mappages_spec:
  assumes "pt_ok s d" and "kmem_wf s"
    and "\<forall>i \<le> map_span va sz. even (entry s d (PGROUNDDOWN va + of_nat i * PGSIZE))"
  shows "\<exists>r s' m. mappages d va sz pa pm s = Ok (r, s') \<and>
    pt_step d s s' \<and> entry s' d = map_range m (PGROUNDDOWN va) pa pm (entry s d) \<and>
    (r = 0 \<and> m = Suc (map_span va sz) \<or>
     r = -1 \<and> m \<le> map_span va sz \<and> (\<forall>u. kframe s u \<longrightarrow> refs s' u \<noteq> 0))"
proof -
  let ?a = "PGROUNDDOWN va" and ?l = "PGROUNDDOWN (va + sz - 1)"
  have l: "?a + of_nat (map_span va sz) * PGSIZE = ?l"
    unfolding map_span_def by (simp add: aligned_as_pages page_aligned_diff)
  have "map_span va sz < 1048576"
    unfolding map_span_def by (rule page_number_less)
  then show ?thesis
    unfolding mappages_def using mappages_loop_spec [OF assms(1,2) _ _ _ assms(3), of page_fuel pa pm]
    by (simp only: l page_aligned_PGROUNDDOWN)
qed

lemma map_span_page: "page_aligned va \<Longrightarrow> map_span va PGSIZE = 0"
  using PGROUNDUP_aligned [of va] by (simp add: PGROUNDUP_alt map_span_def page_aligned_round add.commute)

text \<open>One page: the case that all callers on user memory use.\<close>

lemma mappages_page:
  assumes "pt_ok s d" and "kmem_wf s" and "page_aligned va" and "even (entry s d va)"
  shows "\<exists>r s'. mappages d va PGSIZE pa pm s = Ok (r, s') \<and> pt_step d s s' \<and>
    (r = 0 \<and> entry s' d = upd_entry va (pa OR pm OR PTE_P) (entry s d) \<or>
     r = -1 \<and> entry s' d = entry s d \<and> (\<forall>u. kframe s u \<longrightarrow> refs s' u \<noteq> 0))"
proof -
  have a: "PGROUNDDOWN va = va" using assms(3) by (simp add: page_aligned_round)
  obtain r s' m where m: "mappages d va PGSIZE pa pm s = Ok (r, s')" "pt_step d s s'"
      "entry s' d = map_range m (PGROUNDDOWN va) pa pm (entry s d)"
      "r = 0 \<and> m = Suc (map_span va PGSIZE) \<or>
       r = -1 \<and> m \<le> map_span va PGSIZE \<and> (\<forall>u. kframe s u \<longrightarrow> refs s' u \<noteq> 0)"
    using mappages_spec [OF assms(1,2), of va PGSIZE pa pm] assms(4)
    unfolding map_span_page [OF assms(3)] a by auto
  show ?thesis
    using m(4)
  proof
    assume "r = 0 \<and> m = Suc (map_span va PGSIZE)"
    then show ?thesis using m(1-3) map_span_page [OF assms(3)] a by auto
  next
    assume "r = -1 \<and> m \<le> map_span va PGSIZE \<and> (\<forall>u. kframe s u \<longrightarrow> refs s' u \<noteq> 0)"
    then show ?thesis using m(1-3) map_span_page [OF assms(3)] by auto
  qed
qed

end
