(* ===== verification/Vm_Free.thy ===== *)
theory Vm_Free
  imports Vm_Spec "HOL-Library.Multiset"
begin

text \<open>
  Releasing memory: \<^verbatim>\<open>deallocuvm\<close> and \<^verbatim>\<open>freevm\<close>.

  Pages of user memory are numbered from 0; \<open>uframes e lo hi\<close> is the multiset of frames that the
  entries \<open>e\<close> of the pages from \<open>lo\<close> to \<open>hi\<close> map. Releasing a range drops the reference count of
  every frame by the number of times the range maps it.
\<close>

definition frame_of :: "uint \<Rightarrow> uint" where
  "frame_of w = P2V (PTE_ADDR w)"

definition page_va :: "nat \<Rightarrow> uint" where
  "page_va i = of_nat i * PGSIZE"

definition uframes :: "(uint \<Rightarrow> uint) \<Rightarrow> nat \<Rightarrow> nat \<Rightarrow> uint multiset" where
  "uframes e lo hi = mset (map (\<lambda>i. frame_of (e (page_va i))) (filter (\<lambda>i. odd (e (page_va i))) [lo..<hi]))"

lemma uframes_empty [simp]: "hi \<le> lo \<Longrightarrow> uframes e lo hi = {#}"
  by (simp add: uframes_def)

lemma uframes_rec:
  "lo < hi \<Longrightarrow> uframes e lo hi =
     (if odd (e (page_va lo)) then {#frame_of (e (page_va lo))#} else {#}) + uframes e (Suc lo) hi"
  by (simp add: uframes_def upt_conv_Cons)

lemma uframes_split: "lo \<le> mid \<Longrightarrow> mid \<le> hi \<Longrightarrow> uframes e lo hi = uframes e lo mid + uframes e mid hi"
proof -
  assume "lo \<le> mid" "mid \<le> hi"
  then have "[lo..<hi] = [lo..<mid] @ [mid..<hi]" by (metis le_Suc_ex upt_add_eq_append)
  then show ?thesis by (simp add: uframes_def)
qed

lemma uframes_cong:
  "(\<And>i. lo \<le> i \<Longrightarrow> i < hi \<Longrightarrow> e' (page_va i) = e (page_va i)) \<Longrightarrow> uframes e' lo hi = uframes e lo hi"
  unfolding uframes_def by (rule arg_cong [of _ _ mset]) (auto intro!: map_cong filter_cong)

lemma uframes_none:
  "(\<And>i. lo \<le> i \<Longrightarrow> i < hi \<Longrightarrow> even (e (page_va i))) \<Longrightarrow> uframes e lo hi = {#}"
  by (auto simp: uframes_def filter_empty_conv)

lemma page_va_less: "i < 1048576 \<Longrightarrow> unat (page_va i) = i * 4096"
  by (simp add: page_va_def unat_pages)

lemma page_aligned_va [simp]: "page_aligned (page_va i)"
  using page_aligned_pages [of 0 i] by (simp add: page_va_def page_aligned_def)

lemma page_va_Suc: "page_va i + PGSIZE = page_va (Suc i)"
  by (simp add: page_va_def algebra_simps)

lemma page_va_eq: "i < 1048576 \<Longrightarrow> j < 1048576 \<Longrightarrow> page_va i = page_va j \<longleftrightarrow> i = j"
  by (simp add: word_unat_eq_iff page_va_less)

lemma unat_PDX_page: "i < 1048576 \<Longrightarrow> unat (PDX (page_va i)) = i div 1024"
proof -
  assume "i < 1048576"
  moreover have "i * 4096 div (4096 * 1024) = i div 1024"
    by (metis div_mult2_eq nonzero_mult_div_cancel_right zero_neq_numeral)
  ultimately show ?thesis by (simp add: unat_PDX page_va_less)
qed

text \<open>The entries of the pages \<open>lo\<close> to \<open>hi\<close> are cleared where they are present.\<close>

definition clear_range :: "nat \<Rightarrow> nat \<Rightarrow> (uint \<Rightarrow> uint) \<Rightarrow> uint \<Rightarrow> uint" where
  "clear_range lo hi e va =
     (if lo \<le> unat va div 4096 \<and> unat va div 4096 < hi \<and> odd (e va) then 0 else e va)"

lemma same_page_number: "PGROUNDDOWN a = PGROUNDDOWN b \<longleftrightarrow> unat a div 4096 = unat b div 4096"
  by (simp add: word_unat_eq_iff unat_PGROUNDDOWN)

lemma entry_same_page: "PGROUNDDOWN a = PGROUNDDOWN b \<Longrightarrow> entry s d a = entry s d b"
  by (simp add: entry_def same_page_iff)

lemma clear_range_step:
  assumes "lo < hi" and "lo < 1048576"
    and "\<And>a b. PGROUNDDOWN a = PGROUNDDOWN b \<Longrightarrow> e a = e b"
  shows "clear_range (Suc lo) hi (if odd (e (page_va lo)) then upd_entry (page_va lo) 0 e else e) =
    clear_range lo hi e"
proof
  fix va
  have *: "PGROUNDDOWN va = PGROUNDDOWN (page_va lo) \<longleftrightarrow> unat va div 4096 = lo"
    using assms(2) by (simp add: same_page_number page_va_less)
  show "clear_range (Suc lo) hi (if odd (e (page_va lo)) then upd_entry (page_va lo) 0 e else e) va =
      clear_range lo hi e va"
  proof (cases "unat va div 4096 = lo")
    case True
    then have "e va = e (page_va lo)" using assms(3) * by blast
    then show ?thesis using True * assms(1) by (auto simp: clear_range_def upd_entry_def)
  next
    case False
    then show ?thesis using * by (auto simp: clear_range_def upd_entry_def)
  qed
qed

lemma clear_range_none:
  assumes "\<And>i. lo \<le> i \<Longrightarrow> i < hi \<Longrightarrow> even (e (page_va i))" and "hi \<le> 1048576"
    and "\<And>a b. PGROUNDDOWN a = PGROUNDDOWN b \<Longrightarrow> e a = e b"
  shows "clear_range lo hi e = e"
proof
  fix va
  have "PGROUNDDOWN va = PGROUNDDOWN (page_va (unat va div 4096))"
    by (simp add: same_page_number page_va_less page_number_less)
  then have "e va = e (page_va (unat va div 4096))" by (rule assms(3))
  with assms(1) [of "unat va div 4096"] show "clear_range lo hi e va = e va"
    unfolding clear_range_def by presburger
qed

section \<open>Releasing frames\<close>

definition releasable :: "uint \<Rightarrow> uint multiset \<Rightarrow> kmem \<Rightarrow> bool" where
  "releasable d F s \<longleftrightarrow> (\<forall>f \<in># F. kframe s f \<and> f \<notin> pt_pages s d \<and> count F f \<le> refs s f)"

definition released :: "uint \<Rightarrow> uint multiset \<Rightarrow> kmem \<Rightarrow> kmem \<Rightarrow> bool" where
  "released d F s s' \<longleftrightarrow>
     kmem_wf s' \<and> pt_ok s' d \<and> kend s' = kend s \<and> pt_pages s' d = pt_pages s d \<and> pages s' d = pages s d \<and>
     (\<forall>u. kframe s u \<longrightarrow> refs s' u = refs s u - count F u) \<and>
     (\<forall>u. u \<notin> pt_pages s d \<and> (u \<notin># F \<or> kframe s u \<and> refs s' u \<noteq> 0) \<longrightarrow> pages s' u = pages s u)"

lemma releasedD:
  assumes "released d F s s'"
  shows "kmem_wf s'" "pt_ok s' d" "kend s' = kend s" "kframe s' = kframe s"
    "pt_pages s' d = pt_pages s d" "pages s' d = pages s d"
    "kframe s u \<Longrightarrow> refs s' u = refs s u - count F u"
    "u \<notin> pt_pages s d \<Longrightarrow> u \<notin># F \<or> kframe s u \<and> refs s' u \<noteq> 0 \<Longrightarrow> pages s' u = pages s u"
  using assms kframe_cong [of s' s] by (simp_all add: released_def) blast

lemma released_refl: "kmem_wf s \<Longrightarrow> pt_ok s d \<Longrightarrow> released d {#} s s"
  by (simp add: released_def)

lemma released_trans:
  assumes 1: "released d F s s1" and 2: "released d G s1 s2"
  shows "released d (F + G) s s2"
proof -
  note d1 = releasedD [OF 1] and d2 = releasedD [OF 2]
  have r: "refs s2 u = refs s u - count (F + G) u" if "kframe s u" for u
    using that d1(4) d1(7) [OF that] d2(7) [of u] by simp
  moreover have "pages s2 u = pages s u"
    if "u \<notin> pt_pages s d" "u \<notin># F + G \<or> kframe s u \<and> refs s2 u \<noteq> 0" for u
  proof -
    have "u \<notin># F \<or> kframe s u \<and> refs s1 u \<noteq> 0" "u \<notin># G \<or> kframe s1 u \<and> refs s2 u \<noteq> 0"
      using that(2) d1(4) d1(7) [of u] r [of u] by auto
    then show ?thesis using that(1) d1(5) d1(8) [of u] d2(8) [of u] by simp
  qed
  ultimately show ?thesis
    using d1(3,5,6) d2(1-3,5,6) by (simp add: released_def)
qed

lemma release_one:
  assumes ok: "pt_ok s d" and wf: "kmem_wf s" and p: "odd (pages s d (PDX va))"
    and f: "kframe s f" "f \<notin> pt_pages s d" "refs s f \<noteq> 0"
  shows "\<exists>s1. kfree f s = Ok s1 \<and>
    released d {#f#} s (write_pte (ptab s d (PDX va), PTX va) 0 s1) \<and>
    entry (write_pte (ptab s d (PDX va), PTX va) 0 s1) d = upd_entry va 0 (entry s d)"
proof -
  obtain s1 where s1: "kfree f s = Ok s1" "kmem_wf s1" "kend s1 = kend s"
      "\<forall>u. kframe s u \<longrightarrow> refs s1 u = (if u = f then refs s f - 1 else refs s u)"
      "\<forall>u. u \<noteq> f \<or> 1 < refs s f \<longrightarrow> pages s1 u = pages s u"
    using kfree_wf [OF wf f(1,3)] by (elim exE conjE)
  have same: "\<forall>u \<in> pt_pages s d. pages s1 u = pages s u" using s1(5) f(2) by auto
  have ok1: "pt_ok s1 d"
    using pt_ok_cong [OF ok same s1(3)] s1(4) pt_okD [OF ok] f(2) by auto
  note c = pt_cong [OF same]
  have d1: "pages s1 d = pages s d" using same by simp
  with p have p1: "odd (pages s1 d (PDX va))" by simp
  let ?s = "write_pte (ptab s d (PDX va), PTX va) 0 s1"
  note w = write_entry [OF ok1 s1(2) p1, of ?s 0]
  have st: "pt_step d s1 ?s" "pt_pages ?s d = pt_pages s d" "entry ?s d = upd_entry va 0 (entry s d)"
      "pages ?s d = pages s d"
    using w c d1 by simp_all
  have refs': "refs ?s u = refs s u - count {#f#} u" if "kframe s u" for u
    using that s1(4) by (auto simp: write_pte_def store_word_def)
  have "pages ?s u = pages s u" if "u \<notin> pt_pages s d" "u \<noteq> f \<or> refs ?s u \<noteq> 0" for u
  proof -
    have "u \<noteq> f \<or> 1 < refs s f" using that(2) refs' [OF f(1)] by auto
    then show ?thesis using s1(5) that(1) st(2) pt_stepD(8) [OF st(1), of u] by simp
  qed
  then have "released d {#f#} s ?s"
    using st pt_stepD(1-3) [OF st(1)] s1(3) refs' by (auto simp: released_def)
  with s1(1) st(3) show ?thesis by blast
qed

lemma releasable_step:
  assumes "releasable d (add_mset f F) s" and "released d {#f#} s s1"
  shows "releasable d F s1"
  unfolding releasable_def
proof (intro ballI)
  fix g assume g: "g \<in># F"
  note r = releasedD [OF assms(2)]
  have *: "kframe s g" "g \<notin> pt_pages s d" "count (add_mset f F) g \<le> refs s g"
    using assms(1) g by (auto simp: releasable_def)
  have "refs s1 g = refs s g - (if g = f then 1 else 0)" using r(7) [OF *(1)] by simp
  then show "kframe s1 g \<and> g \<notin> pt_pages s1 d \<and> count F g \<le> refs s1 g"
    using * r(4,5) by (simp split: if_splits)
qed

section \<open>deallocuvm\<close>

text \<open>If no page of the range is present, the loop changes nothing.\<close>

lemma deallocuvm_loop_none:
  assumes "hi = (unat oldsz + 4095) div 4096" and "unat oldsz \<le> 0x80000000" and "lo \<le> 525312"
    and "hi - lo < n" and "\<And>i. lo \<le> i \<Longrightarrow> i < hi \<Longrightarrow> even (entry s d (page_va i))"
  shows "deallocuvm_loop n d (page_va lo) oldsz s = Ok s"
  using assms(3-5)
proof (induction n arbitrary: lo)
  case (Suc n)
  have less: "page_va lo < oldsz \<longleftrightarrow> lo < hi"
    using assms(1,2) Suc.prems(1) by (auto simp: word_less_nat_alt page_va_less)
  show ?case
  proof (cases "lo < hi")
    case False
    then show ?thesis using less by simp
  next
    case True
    have hi: "hi \<le> 524288" using assms(1,2) by simp
    have next1: "deallocuvm_loop n d (page_va (Suc lo)) oldsz s = Ok s"
      using Suc.prems True hi by (intro Suc.IH) auto
    have next2: "deallocuvm_loop n d (page_va (lo + 1024)) oldsz s = Ok s"
      using Suc.prems True hi by (intro Suc.IH) auto
    have "page_va lo + (of_nat NPTENTRIES - 1) * PGSIZE + PGSIZE = page_va (lo + 1024)"
      by (simp add: page_va_def algebra_simps)
    then show ?thesis
      using less True next1 next2 Suc.prems(3) [of lo] page_va_Suc [of lo]
      by (auto simp: walk_noalloc entry_def read_pte_def)
  qed
qed simp

lemma next_table:
  assumes "lo < 1048575" and "odd (pages s d (PDX (page_va lo)))"
  shows "Suc lo mod 1024 = 0 \<or> odd (pages s d (PDX (page_va (Suc lo))))"
proof (cases "Suc lo mod 1024 = 0")
  case False
  then have "Suc lo div 1024 = lo div 1024" by (simp add: div_Suc)
  then have "PDX (page_va (Suc lo)) = PDX (page_va lo)"
    using assms(1) by (simp add: word_unat_eq_iff unat_PDX_page)
  with assms(2) show ?thesis by simp
qed simp

lemma deallocuvm_loop_spec:
  assumes "hi = (unat oldsz + 4095) div 4096" and "unat oldsz \<le> 0x80000000"
    and "pt_ok s d" and "kmem_wf s" and "lo \<le> 525312" and "hi - lo < n"
    and "lo mod 1024 = 0 \<or> odd (pages s d (PDX (page_va lo)))"
    and "releasable d (uframes (entry s d) lo hi) s"
  shows "\<exists>s'. deallocuvm_loop n d (page_va lo) oldsz s = Ok s' \<and>
    released d (uframes (entry s d) lo hi) s s' \<and> entry s' d = clear_range lo hi (entry s d)"
  using assms(3-8)
proof (induction n arbitrary: lo s)
  case (Suc n)
  let ?e = "entry s d"
  have hi: "hi \<le> 524288" using assms(1,2) by simp
  have less: "page_va lo < oldsz \<longleftrightarrow> lo < hi"
    using assms(1,2) Suc.prems(3) by (auto simp: word_less_nat_alt page_va_less)
  have cl: "clear_range (Suc lo) hi (if odd (?e (page_va lo)) then upd_entry (page_va lo) 0 ?e else ?e) =
      clear_range lo hi ?e" if "lo < hi"
    using that hi by (intro clear_range_step entry_same_page) auto
  consider "hi \<le> lo" | "lo < hi" "even (pages s d (PDX (page_va lo)))"
    | "lo < hi" "odd (pages s d (PDX (page_va lo)))" "even (?e (page_va lo))"
    | "lo < hi" "odd (pages s d (PDX (page_va lo)))" "odd (?e (page_va lo))" by linarith
  then show ?case
  proof cases
    case 1
    have "clear_range lo hi ?e = ?e" using 1 by (auto simp: clear_range_def fun_eq_iff)
    then show ?thesis using less 1 released_refl Suc.prems(1,2) by simp
  next
    case 2
    have m: "lo mod 1024 = 0" using Suc.prems(5) 2 by simp
    have none: "even (?e (page_va i))" if "lo \<le> i" "i < min hi (lo + 1024)" for i
    proof -
      have "i div 1024 = lo div 1024" using that m by (auto simp: mod_eq_0_iff_dvd elim!: dvdE)
      then have "PDX (page_va i) = PDX (page_va lo)"
        using that hi by (simp add: word_unat_eq_iff unat_PDX_page)
      then show ?thesis using 2 by (simp add: entry_def)
    qed
    have empty: "uframes ?e lo (min hi (lo + 1024)) = {#}" by (rule uframes_none) (rule none)
    have uf: "uframes ?e lo hi = uframes ?e (lo + 1024) hi"
    proof (cases "lo + 1024 \<le> hi")
      case True
      then show ?thesis
        using uframes_split [of lo "lo + 1024" hi ?e] empty by (simp add: min_absorb2)
    next
      case False
      then show ?thesis using empty by (simp add: min_absorb1)
    qed
    have cl2: "clear_range (lo + 1024) hi ?e = clear_range lo hi ?e"
    proof
      fix va
      have "clear_range lo (min hi (lo + 1024)) ?e va = ?e va"
        using hi by (subst clear_range_none) (auto intro: none entry_same_page)
      then show "clear_range (lo + 1024) hi ?e va = clear_range lo hi ?e va"
        by (auto simp: clear_range_def split: if_splits)
    qed
    have "page_va lo + (of_nat NPTENTRIES - 1) * PGSIZE + PGSIZE = page_va (lo + 1024)"
      by (simp add: page_va_def algebra_simps)
    then have "deallocuvm_loop (Suc n) d (page_va lo) oldsz s = deallocuvm_loop n d (page_va (lo + 1024)) oldsz s"
      using less 2 by (simp add: walk_noalloc)
    then show ?thesis
      using Suc.IH [of s "lo + 1024"] Suc.prems m hi 2 uf cl2 by simp
  next
    case 3
    then have "deallocuvm_loop (Suc n) d (page_va lo) oldsz s = deallocuvm_loop n d (page_va (Suc lo)) oldsz s"
      using less page_va_Suc [of lo] by (simp add: walk_noalloc entry_def read_pte_def)
    moreover have "uframes ?e lo hi = uframes ?e (Suc lo) hi" using 3 by (simp add: uframes_rec)
    moreover have "clear_range (Suc lo) hi ?e = clear_range lo hi ?e"
      using cl 3 by simp
    ultimately show ?thesis
      using Suc.IH [of s "Suc lo"] Suc.prems hi 3 next_table [of lo s d] by simp
  next
    case 4
    let ?f = "frame_of (?e (page_va lo))"
    have uf: "uframes ?e lo hi = add_mset ?f (uframes ?e (Suc lo) hi)"
      using 4 by (simp add: uframes_rec)
    have f: "kframe s ?f" "?f \<notin> pt_pages s d" "refs s ?f \<noteq> 0"
      using Suc.prems(6) uf by (auto simp: releasable_def)
    let ?p = "(ptab s d (PDX (page_va lo)), PTX (page_va lo))"
    obtain s1 where s1: "kfree ?f s = Ok s1" "released d {#?f#} s (write_pte ?p 0 s1)"
        "entry (write_pte ?p 0 s1) d = upd_entry (page_va lo) 0 ?e"
      using release_one [OF Suc.prems(1,2) 4(2) f] by (elim exE conjE)
    let ?s = "write_pte ?p 0 s1"
    note r = releasedD [OF s1(2)]
    have rd: "read_pte ?p s = ?e (page_va lo)" using 4 by (simp add: entry_def read_pte_def)
    have "PTE_ADDR (?e (page_va lo)) \<noteq> 0"
      using f(1) Suc.prems(2) by (auto simp: frame_of_def kframe_def kmem_wf_def P2V_def)
    then have step: "deallocuvm_loop (Suc n) d (page_va lo) oldsz s = deallocuvm_loop n d (page_va (Suc lo)) oldsz ?s"
      using less 4 rd s1(1) page_va_Suc [of lo] by (simp add: walk_noalloc frame_of_def Let_def)
    have uf1: "uframes (entry ?s d) (Suc lo) hi = uframes ?e (Suc lo) hi"
      using hi 4(1) unfolding s1(3)
      by (intro uframes_cong) (simp add: upd_entry_aligned page_va_eq)
    have "releasable d (uframes (entry ?s d) (Suc lo) hi) ?s"
      using releasable_step [OF _ s1(2)] Suc.prems(6) unfolding uf uf1 by blast
    then have "\<exists>s'. deallocuvm_loop n d (page_va (Suc lo)) oldsz ?s = Ok s' \<and>
        released d (uframes (entry ?s d) (Suc lo) hi) ?s s' \<and>
        entry s' d = clear_range (Suc lo) hi (entry ?s d)"
      using Suc.prems(3,4) hi 4 r(1,2,6) next_table [of lo s d] by (intro Suc.IH) simp_all
    then obtain s' where s': "deallocuvm_loop n d (page_va (Suc lo)) oldsz ?s = Ok s'"
        "released d (uframes ?e (Suc lo) hi) ?s s'" "entry s' d = clear_range (Suc lo) hi (entry ?s d)"
      unfolding uf1 by blast
    have "entry s' d = clear_range lo hi ?e"
      using s'(3) cl 4 unfolding s1(3) by simp
    with step s'(1) released_trans [OF s1(2) s'(2)] show ?thesis
      unfolding uf by simp
  qed
qed simp

definition page_up :: "uint \<Rightarrow> nat" where
  "page_up sz = (unat sz + 4095) div 4096"

lemma PGROUNDUP_page: "unat sz \<le> 0xFFFFF000 \<Longrightarrow> PGROUNDUP sz = page_va (page_up sz)"
proof -
  assume a: "unat sz \<le> 0xFFFFF000"
  then have "page_up sz < 1048576" by (simp add: page_up_def div_less_iff_less_mult)
  with a show ?thesis
    by (simp add: word_unat_eq_iff unat_PGROUNDUP page_va_less page_up_def)
qed

lemma page_up_mono: "a \<le> b \<Longrightarrow> page_up a \<le> page_up b"
  by (simp add: page_up_def word_le_nat_alt div_le_mono)

text \<open>The loop skips a missing page table whole, and so may only start inside a table that exists,
  at the start of one, or where nothing is mapped up to the end of the range.\<close>

lemma deallocuvm_spec:
  assumes "pt_ok s d" and "kmem_wf s" and "unat oldsz \<le> 0x80000000"
    and "releasable d (uframes (entry s d) (page_up newsz) (page_up oldsz)) s"
    and "page_up newsz mod 1024 = 0 \<or> odd (pages s d (PDX (PGROUNDUP newsz))) \<or>
         (\<forall>i. page_up newsz \<le> i \<and> i < page_up oldsz \<longrightarrow> even (entry s d (page_va i)))"
  shows "\<exists>s'. deallocuvm d oldsz newsz s = Ok (if oldsz \<le> newsz then oldsz else newsz, s') \<and>
    released d (uframes (entry s d) (page_up newsz) (page_up oldsz)) s s' \<and>
    entry s' d = clear_range (page_up newsz) (page_up oldsz) (entry s d)"
proof (cases "oldsz \<le> newsz")
  case True
  then have "page_up oldsz \<le> page_up newsz" by (rule page_up_mono)
  moreover from this have "clear_range (page_up newsz) (page_up oldsz) (entry s d) = entry s d"
    by (auto simp: clear_range_def fun_eq_iff)
  ultimately show ?thesis
    using True released_refl [OF assms(2,1)] by (simp add: deallocuvm_def)
next
  case False
  let ?lo = "page_up newsz" and ?hi = "page_up oldsz"
  have new: "unat newsz < unat oldsz" using False by (simp add: word_le_nat_alt)
  then have start: "PGROUNDUP newsz = page_va ?lo" using assms(3) by (intro PGROUNDUP_page) simp
  have b: "?lo \<le> 525312" "?hi - ?lo < page_fuel"
    using new assms(3) by (simp_all add: page_up_def less_imp_diff_less div_less_iff_less_mult)
  have "\<exists>s'. deallocuvm_loop page_fuel d (page_va ?lo) oldsz s = Ok s' \<and>
      released d (uframes (entry s d) ?lo ?hi) s s' \<and> entry s' d = clear_range ?lo ?hi (entry s d)"
  proof (cases "page_up newsz mod 1024 = 0 \<or> odd (pages s d (PDX (PGROUNDUP newsz)))")
    case True
    then show ?thesis
      using assms(1-4) b start by (intro deallocuvm_loop_spec) (simp_all add: page_up_def)
  next
    case none: False
    then have e: "\<And>i. ?lo \<le> i \<Longrightarrow> i < ?hi \<Longrightarrow> even (entry s d (page_va i))" using assms(5) by blast
    have "deallocuvm_loop page_fuel d (page_va ?lo) oldsz s = Ok s"
      using assms(3) b e by (intro deallocuvm_loop_none) (simp_all add: page_up_def)
    moreover have "uframes (entry s d) ?lo ?hi = {#}" by (rule uframes_none) (rule e)
    moreover have "clear_range ?lo ?hi (entry s d) = entry s d"
      using assms(3) by (intro clear_range_none e entry_same_page) (simp_all add: page_up_def)
    ultimately show ?thesis using released_refl [OF assms(2,1)] by simp
  qed
  with False start show ?thesis by (auto simp: deallocuvm_def)
qed

section \<open>freevm\<close>

definition ptabs_from :: "nat \<Rightarrow> kmem \<Rightarrow> uint \<Rightarrow> uint set" where
  "ptabs_from m s d = ptab s d ` {j \<in> pt_index s d. m \<le> unat j}"

lemma ptabs_from_Suc:
  assumes "m < 1024"
  shows "ptabs_from m s d = (if odd (pages s d (of_nat m)) then insert (ptab s d (of_nat m)) (ptabs_from (Suc m) s d)
    else ptabs_from (Suc m) s d)"
proof -
  have m: "unat (of_nat m :: uint) = m" using assms by (simp add: unat_of_nat)
  have eq: "m = unat j \<longleftrightarrow> j = of_nat m" for j :: uint using m by (auto simp: word_unat_eq_iff)
  have "{j \<in> pt_index s d. m \<le> unat j} = (if odd (pages s d (of_nat m))
      then insert (of_nat m) {j \<in> pt_index s d. Suc m \<le> unat j} else {j \<in> pt_index s d. Suc m \<le> unat j})"
    using assms m by (auto simp: pt_index_def Suc_le_eq order_le_less eq)
  then show ?thesis by (simp add: ptabs_from_def)
qed

lemma freevm_loop_spec:
  assumes "k \<le> 1024" and "kmem_wf s" and "inj_on (ptab s d) (pt_index s d)"
    and "\<forall>u \<in> ptabs_from (1024 - k) s d. kframe s u \<and> refs s u = 1 \<and> u \<noteq> d"
  shows "\<exists>s'. freevm_loop k d (of_nat (1024 - k)) s = Ok s' \<and> kmem_wf s' \<and> kend s' = kend s \<and>
    (\<forall>u. kframe s u \<longrightarrow> refs s' u = (if u \<in> ptabs_from (1024 - k) s d then 0 else refs s u)) \<and>
    (\<forall>u. u \<notin> ptabs_from (1024 - k) s d \<longrightarrow> pages s' u = pages s u)"
  using assms
proof (induction k arbitrary: s)
  case 0
  have "ptabs_from 1024 s d = {}" by (auto simp: ptabs_from_def pt_index_def)
  then show ?case using 0 by simp
next
  case (Suc k)
  let ?m = "1024 - Suc k"
  have Sm: "Suc ?m = 1024 - k" and m: "?m < 1024" using Suc.prems(1) by auto
  then have i: "of_nat ?m + 1 = (of_nat (1024 - k) :: uint)" by (metis of_nat_Suc add.commute)
  note T = ptabs_from_Suc [OF m, of s d, unfolded Sm]
  show ?case
  proof (cases "odd (pages s d (of_nat ?m))")
    case False
    then show ?thesis using Suc.IH [of s] Suc.prems T i by simp
  next
    case True
    define t where t_def: "t = ptab s d (of_nat ?m)"
    have TT: "ptabs_from ?m s d = insert t (ptabs_from (1024 - k) s d)" using T True by (simp add: t_def)
    have t: "kframe s t" "refs s t = 1" "t \<noteq> d" using Suc.prems(4) TT by auto
    then have "refs s t \<noteq> 0" by simp
    from kfree_wf [OF Suc.prems(2) t(1) this] obtain s1 where s1: "kfree t s = Ok s1" "kmem_wf s1" "kend s1 = kend s"
        "\<forall>u. kframe s u \<longrightarrow> refs s1 u = (if u = t then refs s t - 1 else refs s u)"
        "\<forall>u. u \<noteq> t \<or> 1 < refs s t \<longrightarrow> pages s1 u = pages s u"
      by (elim exE conjE)
    have d1: "pages s1 d = pages s d" using s1(5) t(3) by simp
    then have same: "ptab s1 d = ptab s d" "pt_index s1 d = pt_index s d"
      by (simp_all add: ptab_def pt_index_def fun_eq_iff)
    then have T1: "ptabs_from (1024 - k) s1 d = ptabs_from (1024 - k) s d" by (simp add: ptabs_from_def)
    have new: "t \<notin> ptabs_from (1024 - k) s d"
    proof
      assume "t \<in> ptabs_from (1024 - k) s d"
      then obtain j where j: "j \<in> pt_index s d" "1024 - k \<le> unat j" "ptab s d j = ptab s d (of_nat ?m)"
        by (auto simp: ptabs_from_def t_def)
      have u: "unat (of_nat ?m :: uint) = ?m" using m by (simp add: unat_of_nat)
      then have "of_nat ?m \<in> pt_index s d" using True m unfolding pt_index_def by auto
      from inj_onD [OF Suc.prems(3) j(3) j(1) this] u j(2) Sm show False by simp
    qed
    have kf: "kframe s1 = kframe s" using kframe_cong [OF s1(3)] .
    have "\<exists>s'. freevm_loop k d (of_nat (1024 - k)) s1 = Ok s' \<and> kmem_wf s' \<and> kend s' = kend s1 \<and>
        (\<forall>u. kframe s1 u \<longrightarrow> refs s' u = (if u \<in> ptabs_from (1024 - k) s1 d then 0 else refs s1 u)) \<and>
        (\<forall>u. u \<notin> ptabs_from (1024 - k) s1 d \<longrightarrow> pages s' u = pages s1 u)"
    proof (rule Suc.IH)
      show "\<forall>u\<in>ptabs_from (1024 - k) s1 d. kframe s1 u \<and> refs s1 u = 1 \<and> u \<noteq> d"
        using Suc.prems(4) new s1(4) unfolding T1 kf TT by auto
    qed (use Suc.prems s1(2) same in simp_all)
    then obtain s' where s': "freevm_loop k d (of_nat (1024 - k)) s1 = Ok s'" "kmem_wf s'" "kend s' = kend s1"
        "\<forall>u. kframe s1 u \<longrightarrow> refs s' u = (if u \<in> ptabs_from (1024 - k) s1 d then 0 else refs s1 u)"
        "\<forall>u. u \<notin> ptabs_from (1024 - k) s1 d \<longrightarrow> pages s' u = pages s1 u"
      by (elim exE conjE)
    have "freevm_loop (Suc k) d (of_nat ?m) s = Ok s'"
      using True s1(1) s'(1) i by (simp add: ptab_def t_def)
    moreover have "refs s' u = (if u \<in> ptabs_from ?m s d then 0 else refs s u)" if "kframe s u" for u
      using that s'(4) s1(4) t(1,2) unfolding T1 kf TT by auto
    moreover have "pages s' u = pages s u" if "u \<notin> ptabs_from ?m s d" for u
      using that s'(5) s1(5) unfolding T1 TT by simp
    ultimately show ?thesis using s'(2,3) s1(3) by (intro exI [of _ s']) simp
  qed
qed

text \<open>Freeing a whole address space: the table pages return to the free list and every user frame
  loses the references this address space holds; frames that others still reference keep their
  contents.\<close>

lemma freevm_spec:
  assumes ok: "pt_ok s d" and wf: "kmem_wf s" and rel: "releasable d (uframes (entry s d) 0 524288) s"
  shows "\<exists>s'. freevm d s = Ok s' \<and> kmem_wf s' \<and> kend s' = kend s \<and>
    (\<forall>u. kframe s u \<longrightarrow> refs s' u =
       (if u \<in> pt_pages s d then 0 else refs s u - count (uframes (entry s d) 0 524288) u)) \<and>
    (\<forall>u. u \<notin> pt_pages s d \<and> (u \<notin># uframes (entry s d) 0 524288 \<or> kframe s u \<and> refs s' u \<noteq> 0) \<longrightarrow>
       pages s' u = pages s u)"
proof -
  let ?F = "uframes (entry s d) 0 524288"
  have up: "page_up KERNBASE = 524288" "page_up 0 = 0" by (simp_all add: page_up_def)
  obtain s1 where s1: "deallocuvm d KERNBASE 0 s = Ok (0, s1)" "released d ?F s s1"
    using deallocuvm_spec [OF ok wf, of KERNBASE 0] rel up by (auto simp: word_le_nat_alt)
  note r = releasedD [OF s1(2)]
  have tabs: "ptabs_from 0 s1 d = pt_pages s1 d - {d}"
    using r(2) by (auto simp: ptabs_from_def pt_pages_def pt_ok_def)
  have "\<exists>s2. freevm_loop 1024 d (of_nat (1024 - 1024)) s1 = Ok s2 \<and> kmem_wf s2 \<and> kend s2 = kend s1 \<and>
    (\<forall>u. kframe s1 u \<longrightarrow> refs s2 u = (if u \<in> ptabs_from (1024 - 1024) s1 d then 0 else refs s1 u)) \<and>
    (\<forall>u. u \<notin> ptabs_from (1024 - 1024) s1 d \<longrightarrow> pages s2 u = pages s1 u)"
    using r(1,2) pt_okD [OF r(2)] tabs by (intro freevm_loop_spec) (auto simp: pt_ok_def)
  then obtain s2 where s2: "freevm_loop 1024 d 0 s1 = Ok s2" "kmem_wf s2" "kend s2 = kend s"
    "\<And>u. kframe s u \<Longrightarrow> refs s2 u = (if u \<in> pt_pages s d - {d} then 0 else refs s1 u)"
    "\<And>u. u \<notin> pt_pages s d - {d} \<Longrightarrow> pages s2 u = pages s1 u"
    using tabs r(3-5) by auto
  have d: "kframe s d" "refs s d = 1" using pt_okD [OF ok] by auto
  have nin: "u \<in> pt_pages s d \<Longrightarrow> count ?F u = 0" for u
    using rel by (auto simp: releasable_def not_in_iff)
  have d2: "kframe s2 d" "refs s2 d = 1"
    using d kframe_cong [OF s2(3)] s2(4) [OF d(1)] r(7) [OF d(1)] nin [of d] by auto
  then have "refs s2 d \<noteq> 0" by simp
  from kfree_wf [OF s2(2) d2(1) this] obtain s3 where s3: "kfree d s2 = Ok s3" "kmem_wf s3" "kend s3 = kend s2"
      "\<forall>u. kframe s2 u \<longrightarrow> refs s3 u = (if u = d then refs s2 d - 1 else refs s2 u)"
      "\<forall>u. u \<noteq> d \<or> 1 < refs s2 d \<longrightarrow> pages s3 u = pages s2 u"
    by (elim exE conjE)
  have refs3: "refs s3 u = (if u \<in> pt_pages s d then 0 else refs s u - count ?F u)" if u: "kframe s u" for u
    using s3(4) [rule_format, of u] u kframe_cong [OF s2(3)] s2(4) [OF u] r(7) [OF u] d2(2)
    by (cases "u = d") auto
  have "\<forall>u. u \<notin> pt_pages s d \<and> (u \<notin># ?F \<or> kframe s u \<and> refs s3 u \<noteq> 0) \<longrightarrow> pages s3 u = pages s u"
  proof (intro allI impI, elim conjE)
    fix u
    assume u: "u \<notin> pt_pages s d" "u \<notin># ?F \<or> kframe s u \<and> refs s3 u \<noteq> 0"
    have "u \<noteq> d" using u(1) by auto
    then have "pages s3 u = pages s1 u" using s3(5) s2(5) u(1) by simp
    moreover have "u \<notin># ?F \<or> kframe s u \<and> refs s1 u \<noteq> 0" using u refs3 [of u] r(7) [of u] by auto
    ultimately show "pages s3 u = pages s u" using r(8) [OF u(1)] by simp
  qed
  moreover have "d \<noteq> 0" using kframe_nonzero [OF d(1)] by simp
  then have "freevm d s = Ok s3" using s1(1) s2(1) s3(1) by (simp add: freevm_def)
  ultimately show ?thesis using s3(2,3) s2(3) refs3 by (intro exI [of _ s3] conjI) simp_all
qed

end
