(* ===== verification/Vm_Inv.thy ===== *)
theory Vm_Inv
  imports Vm_Free
begin

text \<open>
  The invariant of copy-on-write memory over a set \<open>D\<close> of address spaces.

  \<open>vm_inv s D\<close> says that the tables of the address spaces are well formed and disjoint, that the
  reference count of every mapped frame is the number of user mappings of it in all of \<open>D\<close>, and that
  a frame which some entry maps writable has no other mapping. Every operation on address spaces
  preserves it: the address spaces other than the one operated on keep their entries and the
  contents of their frames.
\<close>

abbreviation (input) user_pages :: nat where "user_pages \<equiv> 524288"

definition uspace :: "(uint \<Rightarrow> uint) \<Rightarrow> uint multiset" where
  "uspace e = uframes e 0 user_pages"

definition slot :: "uint \<Rightarrow> uint multiset" where
  "slot w = (if odd w then {#frame_of w#} else {#})"

lemma uspace_upd:
  assumes "i < user_pages"
  shows "uspace (upd_entry (page_va i) w e) + slot (e (page_va i)) = uspace e + slot w"
proof -
  let ?e = "upd_entry (page_va i) w e"
  have at: "?e (page_va j) = (if j = i then w else e (page_va j))" if "j < user_pages" for j
    using that assms by (simp add: upd_entry_aligned page_va_eq)
  have 1: "uframes ?e 0 i = uframes e 0 i" "uframes ?e (Suc i) user_pages = uframes e (Suc i) user_pages"
    using assms by (auto intro!: uframes_cong simp: at)
  have "uspace f = uframes f 0 i + slot (f (page_va i)) + uframes f (Suc i) user_pages" for f
    using assms uframes_split [of 0 i user_pages f] uframes_rec [of i user_pages f]
    by (simp add: uspace_def slot_def)
  then show ?thesis using 1 at [OF assms] by simp
qed

lemma uspace_cong: "(\<And>i. i < user_pages \<Longrightarrow> e' (page_va i) = e (page_va i)) \<Longrightarrow> uspace e' = uspace e"
  unfolding uspace_def by (rule uframes_cong) auto

lemma size_uspace: "size (uspace e) \<le> user_pages"
proof -
  have "size (uspace e) = length (filter (\<lambda>i. odd (e (page_va i))) [0..<user_pages])"
    by (simp only: uspace_def uframes_def size_mset length_map)
  also have "\<dots> \<le> length [0..<user_pages]" by (rule length_filter_le)
  finally show ?thesis by (simp only: length_upt diff_zero)
qed

lemma in_uspace: "f \<in># uspace e \<longleftrightarrow> (\<exists>i < user_pages. odd (e (page_va i)) \<and> frame_of (e (page_va i)) = f)"
  unfolding uspace_def uframes_def set_mset_mset set_map set_filter set_upt by auto

text \<open>The multiset of all user mappings.\<close>

definition mappings :: "kmem \<Rightarrow> uint set \<Rightarrow> uint multiset" where
  "mappings s D = (\<Sum>d \<in> D. uspace (entry s d))"

definition exclusive :: "uint multiset \<Rightarrow> uint \<Rightarrow> bool" where
  "exclusive T w \<longleftrightarrow> (odd w \<and> bit w 1 \<longrightarrow> count T (frame_of w) = 1)"

definition vm_inv :: "kmem \<Rightarrow> uint set \<Rightarrow> bool" where
  "vm_inv s D \<longleftrightarrow> finite D \<and> kmem_wf s \<and> (\<forall>d \<in> D. pt_ok s d) \<and>
     (\<forall>d \<in> D. \<forall>d' \<in> D. d \<noteq> d' \<longrightarrow> pt_pages s d \<inter> pt_pages s d' = {}) \<and>
     (\<forall>f \<in># mappings s D. kframe s f \<and> refs s f = count (mappings s D) f \<and> (\<forall>d \<in> D. f \<notin> pt_pages s d)) \<and>
     (\<forall>d \<in> D. \<forall>i < user_pages. exclusive (mappings s D) (entry s d (page_va i)))"

lemma vm_invD:
  assumes "vm_inv s D"
  shows "finite D" "kmem_wf s" "d \<in> D \<Longrightarrow> pt_ok s d"
    "d \<in> D \<Longrightarrow> d' \<in> D \<Longrightarrow> d \<noteq> d' \<Longrightarrow> pt_pages s d \<inter> pt_pages s d' = {}"
    "f \<in># mappings s D \<Longrightarrow> kframe s f" "f \<in># mappings s D \<Longrightarrow> refs s f = count (mappings s D) f"
    "f \<in># mappings s D \<Longrightarrow> d \<in> D \<Longrightarrow> f \<notin> pt_pages s d"
    "d \<in> D \<Longrightarrow> i < user_pages \<Longrightarrow> exclusive (mappings s D) (entry s d (page_va i))"
  using assms unfolding vm_inv_def by blast+

lemma total_remove:
  "finite D \<Longrightarrow> d \<in> D \<Longrightarrow> mappings s D = uspace (entry s d) + mappings s (D - {d})"
  by (simp add: mappings_def sum.remove)

lemma total_cong: "(\<And>d. d \<in> D \<Longrightarrow> entry s' d = entry s d) \<Longrightarrow> mappings s' D = mappings s D"
  by (simp add: mappings_def)

lemma count_total_le: "finite D \<Longrightarrow> count (mappings s D) f \<le> card D * user_pages"
proof (induction D rule: finite_induct)
  case (insert d D)
  have "count (uspace (entry s d)) f \<le> user_pages"
    using count_le_size [of "uspace (entry s d)" f] size_uspace [of "entry s d"] by (rule order_trans)
  with insert show ?case by (simp add: mappings_def)
qed (simp add: mappings_def)

lemma total_mem: "finite D \<Longrightarrow> d \<in> D \<Longrightarrow> f \<in># uspace (entry s d) \<Longrightarrow> f \<in># mappings s D"
  by (simp add: total_remove)

lemma vm_inv_releasable:
  assumes "vm_inv s D" and "d \<in> D" and "F \<subseteq># uspace (entry s d)"
  shows "releasable d F s"
  unfolding releasable_def
proof (intro ballI conjI)
  fix f assume f: "f \<in># F"
  then have "f \<in># uspace (entry s d)" using assms(3) by (rule mset_subset_eqD [rotated])
  then have t: "f \<in># mappings s D" using total_mem vm_invD(1) assms(1,2) by blast
  then show "kframe s f" "f \<notin> pt_pages s d" using vm_invD(5,7) [OF assms(1) t] assms(2) by auto
  have "count F f \<le> count (uspace (entry s d)) f" using assms(3) by (rule mset_subset_eq_count)
  also have "\<dots> \<le> count (mappings s D) f"
    using total_remove [OF vm_invD(1) [OF assms(1)] assms(2)] by simp
  finally show "count F f \<le> refs s f" using vm_invD(6) [OF assms(1) t] by simp
qed

lemma uframes_subset: "lo \<le> hi \<Longrightarrow> hi \<le> user_pages \<Longrightarrow> uframes e lo hi \<subseteq># uspace e"
  using uframes_split [of 0 lo user_pages e] uframes_split [of lo hi user_pages e]
  by (simp add: uspace_def)

section \<open>Changing one address space\<close>

text \<open>The other address spaces keep their tables, their entries and the contents of the frames they map.\<close>

definition isolated :: "uint \<Rightarrow> uint set \<Rightarrow> kmem \<Rightarrow> kmem \<Rightarrow> bool" where
  "isolated d D s s' \<longleftrightarrow>
     (\<forall>d' \<in> D. d' \<noteq> d \<longrightarrow> entry s' d' = entry s d' \<and> pt_pages s' d' = pt_pages s d' \<and> (\<forall>f \<in># uspace (entry s d'). pages s' f = pages s f))"

lemma isolated_refl [simp]: "isolated d D s s"
  by (simp add: isolated_def)

lemma isolated_trans: "isolated d D s s1 \<Longrightarrow> isolated d D s1 s2 \<Longrightarrow> isolated d D s s2"
  by (simp add: isolated_def)

lemma vm_inv_step:
  assumes inv: "vm_inv s D" and wf: "kmem_wf s'" "kend s' = kend s" "pt_ok s' d"
    and keep: "\<And>u. u \<in> (\<Union>d' \<in> D - {d}. pt_pages s d') \<Longrightarrow>
      pages s' u = pages s u \<and> refs s' u = refs s u \<and> u \<notin> pt_pages s' d"
    and T: "T = uspace (entry s' d) + mappings s (D - {d})"
    and fr: "\<And>f. f \<in># T \<Longrightarrow> kframe s f \<and> refs s' f = count T f \<and> f \<notin> pt_pages s' d \<and>
      (\<forall>d' \<in> D. d' \<noteq> d \<longrightarrow> f \<notin> pt_pages s d')"
    and ex: "\<And>i. i < user_pages \<Longrightarrow> exclusive T (entry s' d (page_va i))"
      "\<forall>d' \<in> D. d' \<noteq> d \<longrightarrow> (\<forall>i < user_pages. exclusive T (entry s d' (page_va i)))"
  shows "vm_inv s' (insert d D)" "mappings s' (insert d D) = T"
    "\<And>d'. d' \<in> D \<Longrightarrow> d' \<noteq> d \<Longrightarrow> entry s' d' = entry s d'"
    "\<And>d'. d' \<in> D \<Longrightarrow> d' \<noteq> d \<Longrightarrow> pt_pages s' d' = pt_pages s d'"
proof -
  have keep': "pages s' u = pages s u \<and> refs s' u = refs s u \<and> u \<notin> pt_pages s' d"
    if "d' \<in> D" "d' \<noteq> d" "u \<in> pt_pages s d'" for d' u
    using keep that by blast
  have same: "\<forall>u \<in> pt_pages s d'. pages s' u = pages s u" if "d' \<in> D" "d' \<noteq> d" for d'
    using keep' [OF that] by blast
  show e: "entry s' d' = entry s d'" if "d' \<in> D" "d' \<noteq> d" for d'
    using pt_cong(4) [OF same [OF that]] .
  show pp: "pt_pages s' d' = pt_pages s d'" if "d' \<in> D" "d' \<noteq> d" for d'
    using pt_cong(3) [OF same [OF that]] .
  have ok: "pt_ok s' d'" if "d' \<in> D" "d' \<noteq> d" for d'
    using pt_ok_cong [OF vm_invD(3) [OF inv that(1)] same [OF that] wf(2)] keep' [OF that] by blast
  have fin: "finite D" using vm_invD(1) [OF inv] .
  have "mappings s' (D - {d}) = mappings s (D - {d})" by (rule total_cong) (use e in auto)
  then show T': "mappings s' (insert d D) = T"
    using total_remove [of "insert d D" d s'] fin T by simp
  have kf: "kframe s' = kframe s" using kframe_cong [OF wf(2)] .
  show "vm_inv s' (insert d D)"
    unfolding vm_inv_def T'
  proof (intro conjI ballI impI allI)
    fix d1 d2 assume d12: "d1 \<in> insert d D" "d2 \<in> insert d D" "d1 \<noteq> d2"
    have "pt_pages s' d1 \<inter> pt_pages s' d2 = {}" if "d1 \<noteq> d" "d2 \<noteq> d"
      using that d12 pp [of d1] pp [of d2] vm_invD(4) [OF inv, of d1 d2] by auto
    moreover have "pt_pages s' d1 \<inter> pt_pages s' d = {}" if "d1 \<noteq> d" "d1 \<in> D" for d1
      using that pp [of d1] keep' [of d1] by auto
    ultimately show "pt_pages s' d1 \<inter> pt_pages s' d2 = {}"
      using d12 by (cases "d1 = d"; cases "d2 = d") auto
  next
    fix f d' assume "f \<in># T" "d' \<in> insert d D"
    then show "f \<notin> pt_pages s' d'" using fr [of f] pp [of d'] by (cases "d' = d") auto
  next
    fix d' i assume "d' \<in> insert d D" "i < user_pages"
    then show "exclusive T (entry s' d' (page_va i))"
      using ex e [of d'] by (cases "d' = d") auto
  qed (use fin wf ok fr kf in auto)
qed

lemma vm_inv_others_frame:
  assumes "vm_inv s D" and "d' \<in> D" and "f \<in># uspace (entry s d')"
  shows "f \<in># mappings s D" "kframe s f" "refs s f \<noteq> 0" "d \<in> D \<Longrightarrow> f \<notin> pt_pages s d"
  using assms vm_invD [OF assms(1)] total_mem [OF vm_invD(1) [OF assms(1)] assms(2,3)]
  by (auto simp: count_eq_zero_iff)

text \<open>Allocating table pages, or mapping outside user memory, leaves the user mappings alone.\<close>

lemma vm_inv_pt_step:
  assumes inv: "vm_inv s D" and d: "d \<in> D" and st: "pt_step d s s'"
    and same: "\<And>i. i < user_pages \<Longrightarrow> entry s' d (page_va i) = entry s d (page_va i)"
  shows "vm_inv s' D" "mappings s' D = mappings s D" "isolated d D s s'"
proof -
  note p = pt_stepD [OF st]
  have T: "mappings s D = uspace (entry s' d) + mappings s (D - {d})"
    using total_remove [OF vm_invD(1) [OF inv] d] uspace_cong [of "entry s' d" "entry s d", OF same] by simp
  have fresh: "u \<notin> pt_pages s' d" if "u \<notin> pt_pages s d" "kframe s u \<Longrightarrow> refs s u \<noteq> 0" for u
    using that p(6) [of u] by auto
  have fr: "f \<notin> pt_pages s' d" "refs s' f = refs s f" if "f \<in># mappings s D" for f
  proof -
    have "f \<notin> pt_pages s d" "refs s f \<noteq> 0" "kframe s f"
      using that d vm_invD(5-7) [OF inv that] by (auto simp: count_eq_zero_iff)
    then show "f \<notin> pt_pages s' d" using fresh by blast
    then show "refs s' f = refs s f" using p(7) \<open>kframe s f\<close> by simp
  qed
  have keep: "pages s' u = pages s u \<and> refs s' u = refs s u \<and> u \<notin> pt_pages s' d"
    if un: "u \<in> (\<Union>d' \<in> D - {d}. pt_pages s d')" for u
  proof -
    obtain d' where d': "d' \<in> D" "d' \<noteq> d" "u \<in> pt_pages s d'" using un by blast
    have u: "kframe s u" "refs s u = 1" using pt_okD [OF vm_invD(3) [OF inv d'(1)] d'(3)] by auto
    have "u \<notin> pt_pages s' d" using vm_invD(4) [OF inv d'(1) d d'(2)] d'(3) u by (intro fresh) auto
    then show ?thesis using p(7) [OF u(1)] p(8) [of u] by simp
  qed
  have fr': "kframe s g \<and> refs s' g = count (mappings s D) g \<and> g \<notin> pt_pages s' d \<and>
      (\<forall>d' \<in> D. d' \<noteq> d \<longrightarrow> g \<notin> pt_pages s d')" if "g \<in># mappings s D" for g
    using fr [OF that] vm_invD(5-7) [OF inv that] by simp
  have new: "exclusive (mappings s D) (entry s' d (page_va i))" if "i < user_pages" for i
    using same [OF that] vm_invD(8) [OF inv d that] by simp
  have old: "\<forall>d' \<in> D. d' \<noteq> d \<longrightarrow> (\<forall>i < user_pages. exclusive (mappings s D) (entry s d' (page_va i)))"
    using vm_invD(8) [OF inv] by blast
  note step = vm_inv_step [OF inv p(1,3,2) keep T fr' new old]
  then show "vm_inv s' D" "mappings s' D = mappings s D" using d by (simp_all add: insert_absorb)
  show "isolated d D s s'"
    using step(3,4) fr(1) p(8) vm_inv_others_frame(1) [OF inv] by (auto simp: isolated_def)
qed

text \<open>Mapping a frame at a free page. \<open>s'\<close> is the state with the entry set, \<open>s''\<close> the one with the
  reference count raised where the frame was mapped before.\<close>

lemma vm_inv_map:
  assumes inv: "vm_inv s D" and d: "d \<in> D" and st: "pt_step d s s'" and i: "i < user_pages"
    and e: "entry s' d = upd_entry (page_va i) w (entry s d)" "even (entry s d (page_va i))" "odd w"
    and f: "f = frame_of w" "kframe s f" "refs s f \<noteq> 0" "\<And>d'. d' \<in> D \<Longrightarrow> f \<notin> pt_pages s d'"
    and s'': "kmem_wf s''" "kend s'' = kend s'" "pages s'' = pages s'"
      "\<And>u. kframe s u \<Longrightarrow> refs s'' u = (if u = f then count (mappings s D) f + 1 else refs s' u)"
    and w: "bit w 1 \<Longrightarrow> f \<notin># mappings s D"
      "\<And>d' j. d' \<in> D \<Longrightarrow> j < user_pages \<Longrightarrow> odd (entry s d' (page_va j)) \<Longrightarrow>
         frame_of (entry s d' (page_va j)) = f \<Longrightarrow> \<not> bit (entry s d' (page_va j)) 1"
  shows "vm_inv s'' D \<and> mappings s'' D = add_mset f (mappings s D) \<and> isolated d D s s'' \<and>
    entry s'' d = entry s' d"
proof -
  note p = pt_stepD [OF st]
  let ?T = "add_mset f (mappings s D)"
  have same: "\<forall>u \<in> pt_pages s' d. pages s'' u = pages s' u" using s''(3) by simp
  note c = pt_cong [OF same]
  have e'': "entry s'' d = entry s' d" by (rule c(4))
  have "uspace (entry s'' d) = add_mset f (uspace (entry s d))"
    using uspace_upd [OF i, of w "entry s d"] e f(1) unfolding e'' by (simp add: slot_def)
  then have T: "?T = uspace (entry s'' d) + mappings s (D - {d})"
    using total_remove [OF vm_invD(1) [OF inv] d] by simp
  have fresh: "u \<notin> pt_pages s' d" if "u \<notin> pt_pages s d" "kframe s u \<Longrightarrow> refs s u \<noteq> 0" for u
    using that p(6) [of u] by auto
  have f': "f \<notin> pt_pages s' d" using f d by (intro fresh) auto
  have fr: "g \<notin> pt_pages s' d" "refs s'' g = count ?T g" "kframe s g" if "g \<in># ?T" for g
  proof -
    have g: "g = f \<or> g \<in># mappings s D" using that by auto
    then have "g \<notin> pt_pages s d" "refs s g \<noteq> 0" and k: "kframe s g"
      using f d vm_invD(5-7) [OF inv] by (auto simp: count_eq_zero_iff)
    then show nin: "g \<notin> pt_pages s' d" using fresh by blast
    show "kframe s g" by (rule k)
    show "refs s'' g = count ?T g"
      using s''(4) [OF k] p(7) [OF k] nin g vm_invD(6) [OF inv, of g] by auto
  qed
  have keep: "pages s'' u = pages s u \<and> refs s'' u = refs s u \<and> u \<notin> pt_pages s'' d"
    if un: "u \<in> (\<Union>d' \<in> D - {d}. pt_pages s d')" for u
  proof -
    obtain d' where d': "d' \<in> D" "d' \<noteq> d" "u \<in> pt_pages s d'" using un by blast
    have u: "kframe s u" "refs s u = 1" using pt_okD [OF vm_invD(3) [OF inv d'(1)] d'(3)] by auto
    have "u \<notin> pt_pages s' d" using vm_invD(4) [OF inv d'(1) d d'(2)] d'(3) u by (intro fresh) auto
    moreover have "u \<noteq> f" using f(4) d' by auto
    ultimately show ?thesis using p(7) [OF u(1)] p(8) [of u] s''(3) s''(4) [OF u(1)] c(3) by simp
  qed
  have refs'': "\<forall>u \<in> pt_pages s' d. refs s'' u = refs s' u"
    using f' s''(4) pt_okD [OF p(2)] p(4) by auto
  have ok'': "pt_ok s'' d" using pt_ok_cong [OF p(2) same s''(2) refs''] .
  have old: "exclusive ?T (entry s d' (page_va j))" if "d' \<in> D" "j < user_pages" for d' j
    using vm_invD(8) [OF inv that] w(2) [OF that] by (auto simp: exclusive_def)
  have new: "exclusive ?T (entry s'' d (page_va j))" if "j < user_pages" for j
  proof (cases "j = i")
    case True
    then have "entry s'' d (page_va j) = w" by (simp add: e'' e(1) upd_entry_aligned)
    then show ?thesis using w(1) f(1) by (auto simp: exclusive_def not_in_iff)
  next
    case False
    then have "entry s'' d (page_va j) = entry s d (page_va j)"
      using that i by (simp add: e'' e(1) upd_entry_aligned page_va_eq)
    then show ?thesis using old [OF d that] by simp
  qed
  have fr': "kframe s g \<and> refs s'' g = count ?T g \<and> g \<notin> pt_pages s'' d \<and> (\<forall>d' \<in> D. d' \<noteq> d \<longrightarrow> g \<notin> pt_pages s d')"
    if "g \<in># ?T" for g
    using fr [OF that] that f(4) vm_invD(7) [OF inv, of g] c(3) by auto
  have kend'': "kend s'' = kend s" using s''(2) p(3) by simp
  have old': "\<forall>d' \<in> D. d' \<noteq> d \<longrightarrow> (\<forall>i < user_pages. exclusive ?T (entry s d' (page_va i)))"
    using old by blast
  note step = vm_inv_step [OF inv s''(1) kend'' ok'' keep T fr' new old']
  then have "vm_inv s'' D" "mappings s'' D = ?T" using d by (simp_all add: insert_absorb)
  moreover have "isolated d D s s''"
    using step(3,4) fr(1) p(8) s''(3) vm_inv_others_frame(1) [OF inv] by (auto simp: isolated_def)
  ultimately show ?thesis using e'' by blast
qed

text \<open>Releasing user frames of one address space.\<close>

lemma vm_inv_release:
  assumes inv: "vm_inv s D" and d: "d \<in> D" and r: "released d F s s'"
    and F: "F \<subseteq># uspace (entry s d)" "uspace (entry s' d) = uspace (entry s d) - F"
    and e: "\<And>i. i < user_pages \<Longrightarrow> entry s' d (page_va i) = entry s d (page_va i) \<or> even (entry s' d (page_va i))"
  shows "vm_inv s' D" "mappings s' D = mappings s D - F" "isolated d D s s'"
proof -
  note p = releasedD [OF r]
  let ?T = "mappings s D - F"
  note fin = vm_invD(1) [OF inv]
  have T: "?T = uspace (entry s' d) + mappings s (D - {d})"
    using total_remove [OF fin d, of s] F by (simp add: subset_mset.add_diff_assoc2)
  have sub: "g \<in># mappings s D" if "g \<in># ?T" for g using that by (rule in_diffD)
  have fr: "refs s' g = count ?T g" if "g \<in># ?T" for g
    using p(7) [OF vm_invD(5) [OF inv sub [OF that]]] vm_invD(6) [OF inv sub [OF that]] by simp
  have notF: "u \<notin># F" if "d' \<in> D" "u \<in> pt_pages s d'" for d' u
    using that F(1) vm_invD(7) [OF inv total_mem [OF fin d]] by (meson mset_subset_eqD)
  have keep: "pages s' u = pages s u \<and> refs s' u = refs s u \<and> u \<notin> pt_pages s' d"
    if un: "u \<in> (\<Union>d' \<in> D - {d}. pt_pages s d')" for u
  proof -
    obtain d' where d': "d' \<in> D" "d' \<noteq> d" "u \<in> pt_pages s d'" using un by blast
    have "u \<notin> pt_pages s d" using vm_invD(4) [OF inv d'(1) d d'(2)] d'(3) by auto
    then show ?thesis
      using notF [OF d'(1,3)] p(5) p(7) [of u] p(8) [of u] pt_okD [OF vm_invD(3) [OF inv d'(1)] d'(3)]
      by (simp add: not_in_iff)
  qed
  have excl: "exclusive ?T w" if ex: "exclusive (mappings s D) w" and m: "odd w \<Longrightarrow> frame_of w \<in># ?T" for w
    unfolding exclusive_def
  proof
    assume w: "odd w \<and> bit w 1"
    then have "frame_of w \<in># ?T" using m by blast
    then have "0 < count ?T (frame_of w)" by (simp only: count_greater_zero_iff)
    moreover have "count ?T (frame_of w) \<le> count (mappings s D) (frame_of w)" by simp
    ultimately show "count ?T (frame_of w) = 1" using ex w by (simp add: exclusive_def)
  qed
  have mem: "frame_of (entry s d' (page_va i)) \<in># mappings s (D - {d})"
    if "d' \<in> D" "d' \<noteq> d" "i < user_pages" "odd (entry s d' (page_va i))" for d' i
    using that fin total_mem [of "D - {d}" d' "frame_of (entry s d' (page_va i))" s] in_uspace by auto
  have new: "exclusive ?T (entry s' d (page_va i))" if "i < user_pages" for i
    using e [OF that] vm_invD(8) [OF inv d that] in_uspace [of _ "entry s' d"] that
    by (intro excl) (auto simp: T exclusive_def)
  have old: "exclusive ?T (entry s d' (page_va i))" if "d' \<in> D" "d' \<noteq> d" "i < user_pages" for d' i
    using vm_invD(8) [OF inv that(1,3)] mem [OF that] by (intro excl) (auto simp: T)
  have fr': "kframe s g \<and> refs s' g = count ?T g \<and> g \<notin> pt_pages s' d \<and> (\<forall>d' \<in> D. d' \<noteq> d \<longrightarrow> g \<notin> pt_pages s d')"
    if "g \<in># ?T" for g
    using fr [OF that] vm_invD(5,7) [OF inv sub [OF that]] p(5) d by auto
  have old': "\<forall>d' \<in> D. d' \<noteq> d \<longrightarrow> (\<forall>i < user_pages. exclusive ?T (entry s d' (page_va i)))"
    using old by blast
  note step = vm_inv_step [OF inv p(1,3,2) keep T fr' new old']
  then show "vm_inv s' D" "mappings s' D = ?T" using d by (simp_all add: insert_absorb)
  have "pages s' f = pages s f" if f: "d' \<in> D" "d' \<noteq> d" "f \<in># uspace (entry s d')" for d' f
  proof -
    have "f \<in># ?T" using total_mem [of "D - {d}" d' f s] fin f by (simp add: T)
    then have "refs s' f \<noteq> 0" using fr by (simp only: count_eq_zero_iff) simp
    then show ?thesis using p(8) [of f] vm_inv_others_frame [OF inv f(1,3)] d by blast
  qed
  then show "isolated d D s s'" using step(3,4) by (auto simp: isolated_def)
qed

text \<open>Dropping address spaces and changing pages that the remaining ones do not use.\<close>

lemma vm_inv_restrict:
  assumes inv: "vm_inv s D" and D0: "D0 \<subseteq> D" and wf: "kmem_wf s'" "kend s' = kend s"
    and keep: "\<And>d u. d \<in> D0 \<Longrightarrow> u \<in> pt_pages s d \<Longrightarrow> pages s' u = pages s u \<and> refs s' u = refs s u"
    and fr: "\<And>f. f \<in># mappings s D0 \<Longrightarrow> refs s' f = count (mappings s D0) f"
  shows "vm_inv s' D0" "mappings s' D0 = mappings s D0" "\<And>d. d \<in> D0 \<Longrightarrow> entry s' d = entry s d"
    "\<And>d. d \<in> D0 \<Longrightarrow> pt_pages s' d = pt_pages s d"
proof -
  have same: "\<forall>u \<in> pt_pages s d. pages s' u = pages s u" if "d \<in> D0" for d
    using keep [OF that] by blast
  show e: "entry s' d = entry s d" if "d \<in> D0" for d using pt_cong(4) [OF same [OF that]] .
  show pp: "pt_pages s' d = pt_pages s d" if "d \<in> D0" for d using pt_cong(3) [OF same [OF that]] .
  have ok: "pt_ok s' d" if "d \<in> D0" for d
    using pt_ok_cong [OF vm_invD(3) [OF inv] same [OF that] wf(2)] keep [OF that] D0 that by auto
  have fin: "finite D0" "finite D" using vm_invD(1) [OF inv] D0 finite_subset by auto
  show T: "mappings s' D0 = mappings s D0" by (rule total_cong) (rule e)
  have "mappings s D = mappings s (D - D0) + mappings s D0"
    using fin D0 by (simp add: mappings_def sum.subset_diff)
  then have sub: "f \<in># mappings s D0 \<Longrightarrow> f \<in># mappings s D"
    and le: "count (mappings s D0) f \<le> count (mappings s D) f" for f by auto
  have kf: "kframe s' = kframe s" using kframe_cong [OF wf(2)] .
  show "vm_inv s' D0"
    unfolding vm_inv_def T
  proof (intro conjI ballI impI allI)
    fix d1 d2 assume "d1 \<in> D0" "d2 \<in> D0" "d1 \<noteq> d2"
    then show "pt_pages s' d1 \<inter> pt_pages s' d2 = {}" using pp vm_invD(4) [OF inv, of d1 d2] D0 by auto
  next
    fix f d assume "f \<in># mappings s D0" "d \<in> D0"
    then show "f \<notin> pt_pages s' d" using sub pp vm_invD(7) [OF inv, of f d] D0 by auto
  next
    fix d i assume d: "d \<in> D0" "i < user_pages"
    let ?w = "entry s d (page_va i)"
    have "exclusive (mappings s D0) ?w"
      unfolding exclusive_def
    proof
      assume w: "odd ?w \<and> bit ?w 1"
      then have "frame_of ?w \<in># mappings s D0"
        using total_mem [OF fin(1) d(1)] d in_uspace by blast
      then have "0 < count (mappings s D0) (frame_of ?w)" by (simp only: count_greater_zero_iff)
      moreover have "count (mappings s D) (frame_of ?w) = 1"
        using vm_invD(8) [OF inv, of d i] d D0 w by (auto simp: exclusive_def)
      ultimately show "count (mappings s D0) (frame_of ?w) = 1" using le [of "frame_of ?w"] by linarith
    qed
    then show "exclusive (mappings s D0) (entry s' d (page_va i))" using e d by simp
  next
    fix f assume f: "f \<in># mappings s D0"
    show "kframe s' f" using vm_invD(5) [OF inv sub [OF f]] kf by simp
    show "refs s' f = count (mappings s D0) f" using fr [OF f] .
  qed (use fin wf ok in auto)
qed

section \<open>Releasing memory\<close>

lemma uspace_clear:
  assumes "lo \<le> hi" and "hi \<le> user_pages"
  shows "uspace (clear_range lo hi e) = uspace e - uframes e lo hi"
proof -
  let ?c = "clear_range lo hi e"
  have at: "?c (page_va i) = (if lo \<le> i \<and> i < hi \<and> odd (e (page_va i)) then 0 else e (page_va i))"
    if "i < user_pages" for i
    using that by (simp add: clear_range_def page_va_less)
  have "uframes ?c 0 lo = uframes e 0 lo" "uframes ?c hi user_pages = uframes e hi user_pages"
    using assms by (auto intro!: uframes_cong simp: at)
  moreover have "uframes ?c lo hi = {#}" using assms by (auto intro!: uframes_none simp: at)
  moreover have "uspace f = uframes f 0 lo + uframes f lo hi + uframes f hi user_pages" for f
    using assms uframes_split [of 0 lo user_pages f] uframes_split [of lo hi user_pages f]
    by (simp add: uspace_def)
  ultimately show ?thesis by simp
qed

lemma deallocuvm_inv:
  assumes inv: "vm_inv s D" and d: "d \<in> D" and sz: "unat oldsz \<le> 0x80000000"
    and skip: "page_up newsz mod 1024 = 0 \<or> odd (pages s d (PDX (PGROUNDUP newsz))) \<or>
         (\<forall>i. page_up newsz \<le> i \<and> i < page_up oldsz \<longrightarrow> even (entry s d (page_va i)))"
  shows "\<exists>s'. deallocuvm d oldsz newsz s = Ok (if oldsz \<le> newsz then oldsz else newsz, s') \<and>
    vm_inv s' D \<and> isolated d D s s' \<and> entry s' d = clear_range (page_up newsz) (page_up oldsz) (entry s d) \<and>
    mappings s' D = mappings s D - uframes (entry s d) (page_up newsz) (page_up oldsz) \<and>
    released d (uframes (entry s d) (page_up newsz) (page_up oldsz)) s s'"
proof -
  let ?lo = "page_up newsz" and ?hi = "page_up oldsz"
  let ?F = "uframes (entry s d) ?lo ?hi"
  have hi: "?hi \<le> user_pages" using sz by (simp add: page_up_def)
  have F: "?F \<subseteq># uspace (entry s d)"
    using uframes_subset [of ?lo ?hi] hi by (cases "?lo \<le> ?hi") auto
  obtain s' where s': "deallocuvm d oldsz newsz s = Ok (if oldsz \<le> newsz then oldsz else newsz, s')"
      "released d ?F s s'" "entry s' d = clear_range ?lo ?hi (entry s d)"
    using deallocuvm_spec [OF vm_invD(3) [OF inv d] vm_invD(2) [OF inv] sz vm_inv_releasable [OF inv d F] skip]
    by (elim exE conjE)
  have "uspace (entry s' d) = uspace (entry s d) - ?F"
    unfolding s'(3)
  proof (cases "?lo \<le> ?hi")
    case True
    then show "uspace (clear_range ?lo ?hi (entry s d)) = uspace (entry s d) - ?F"
      using hi by (rule uspace_clear)
  next
    case False
    then have "clear_range ?lo ?hi (entry s d) = entry s d" by (auto simp: clear_range_def fun_eq_iff)
    then show "uspace (clear_range ?lo ?hi (entry s d)) = uspace (entry s d) - ?F" using False by simp
  qed
  from vm_inv_release [OF inv d s'(2) F this] s' show ?thesis
    by (auto simp: clear_range_def)
qed

lemma freevm_inv:
  assumes inv: "vm_inv s D" and d: "d \<in> D"
  shows "\<exists>s'. freevm d s = Ok s' \<and> vm_inv s' (D - {d}) \<and> isolated d D s s' \<and> kend s' = kend s \<and>
    mappings s' (D - {d}) = mappings s (D - {d}) \<and>
    (\<forall>u. kframe s u \<longrightarrow> refs s' u =
       (if u \<in> pt_pages s d then 0 else refs s u - count (uspace (entry s d)) u))"
proof -
  let ?F = "uspace (entry s d)"
  note fin = vm_invD(1) [OF inv]
  have rel: "releasable d ?F s" using vm_inv_releasable [OF inv d] by simp
  obtain s' where s': "freevm d s = Ok s'" "kmem_wf s'" "kend s' = kend s"
    "\<forall>u. kframe s u \<longrightarrow> refs s' u = (if u \<in> pt_pages s d then 0 else refs s u - count ?F u)"
    "\<forall>u. u \<notin> pt_pages s d \<and> (u \<notin># ?F \<or> kframe s u \<and> refs s' u \<noteq> 0) \<longrightarrow> pages s' u = pages s u"
    using freevm_spec [OF vm_invD(3) [OF inv d] vm_invD(2) [OF inv] rel [unfolded uspace_def]]
    unfolding uspace_def by (elim exE conjE)
  note T = total_remove [OF fin d, of s]
  have fr: "refs s' f = count (mappings s (D - {d})) f" "pages s' f = pages s f" "f \<notin> pt_pages s d"
    if f: "f \<in># mappings s (D - {d})" for f
  proof -
    have m: "f \<in># mappings s D" using f by (simp add: T)
    show nin: "f \<notin> pt_pages s d" using vm_invD(7) [OF inv m d] .
    have k: "kframe s f" using vm_invD(5) [OF inv m] .
    show r: "refs s' f = count (mappings s (D - {d})) f"
      using s'(4) k nin vm_invD(6) [OF inv m] by (simp add: T)
    then have "refs s' f \<noteq> 0" using f by (simp only: count_eq_zero_iff) simp
    then show "pages s' f = pages s f" using s'(5) nin k by blast
  qed
  have keep: "pages s' u = pages s u \<and> refs s' u = refs s u" if "d' \<in> D - {d}" "u \<in> pt_pages s d'" for d' u
  proof -
    have nin: "u \<notin> pt_pages s d" using vm_invD(4) [OF inv, of d' d] that d by auto
    have "u \<notin># ?F" using vm_inv_others_frame(4) [OF inv d, of u d'] that by auto
    then show ?thesis
      using s'(4,5) nin pt_okD [OF vm_invD(3) [OF inv, of d'] that(2)] that(1) by (simp add: not_in_iff)
  qed
  have "D - {d} \<subseteq> D" by auto
  note res = vm_inv_restrict [OF inv this s'(2,3) keep fr(1)]
  have "isolated d D s s'"
    using res(3,4) fr(2) total_mem [of "D - {d}"] fin by (auto simp: isolated_def)
  with s' res(1,2) show ?thesis by (intro exI [of _ s'] conjI) simp_all
qed

end
