(* ===== verification/Vm_Cow.thy ===== *)
theory Vm_Cow
  imports Vm_Inv
begin

text \<open>
  The operations that create and extend address spaces, over the invariant \<open>vm_inv\<close> of
  \<^verbatim>\<open>Vm_Inv\<close>: \<^verbatim>\<open>setupkvm\<close>, \<^verbatim>\<open>allocuvm\<close>, the copy-on-write \<^verbatim>\<open>copyuvm\<close> of fork and the page fault handler
  \<^verbatim>\<open>pagefault\<close> that breaks the sharing.
\<close>

section \<open>Pages outside the address spaces\<close>

lemma vm_inv_frame:
  assumes inv: "vm_inv s D" and wf: "kmem_wf s'" "kend s' = kend s"
    and keep: "\<And>u. u \<in> (\<Union>d \<in> D. pt_pages s d) \<Longrightarrow> pages s' u = pages s u \<and> refs s' u = refs s u"
    and fr: "\<And>f. f \<in># mappings s D \<Longrightarrow> pages s' f = pages s f \<and> refs s' f = refs s f"
  shows "vm_inv s' D" "mappings s' D = mappings s D" "isolated d D s s'"
    "\<And>d. d \<in> D \<Longrightarrow> entry s' d = entry s d" "\<And>d. d \<in> D \<Longrightarrow> pt_pages s' d = pt_pages s d"
proof -
  have fr': "refs s' f = count (mappings s D) f" if "f \<in># mappings s D" for f
    using fr [OF that] vm_invD(6) [OF inv that] by simp
  have keep': "pages s' u = pages s u \<and> refs s' u = refs s u" if "d' \<in> D" "u \<in> pt_pages s d'" for d' u
    using that keep by blast
  show res: "vm_inv s' D" "mappings s' D = mappings s D"
    "\<And>d. d \<in> D \<Longrightarrow> entry s' d = entry s d" "\<And>d. d \<in> D \<Longrightarrow> pt_pages s' d = pt_pages s d"
    using vm_inv_restrict [OF inv subset_refl wf _ fr'] keep' by simp_all
  show "isolated d D s s'"
    using res(3,4) fr total_mem [OF vm_invD(1) [OF inv]] by (auto simp: isolated_def)
qed

text \<open>A page is unused if no address space maps it or keeps its tables in it.\<close>

definition unused :: "uint \<Rightarrow> kmem \<Rightarrow> uint set \<Rightarrow> bool" where
  "unused v s D \<longleftrightarrow> v \<notin># mappings s D \<and> (\<forall>d \<in> D. v \<notin> pt_pages s d)"

lemma unused_free:
  assumes "vm_inv s D" and "refs s v = 0"
  shows "unused v s D"
  using assms vm_invD(6) [OF assms(1), of v] pt_okD [OF vm_invD(3) [OF assms(1)]]
  by (auto simp: unused_def count_eq_zero_iff)

lemma kalloc_inv_vm:
  assumes inv: "vm_inv s D" and k: "kalloc s = (v, s1)"
  shows "vm_inv s1 D" "mappings s1 D = mappings s D" "isolated d D s s1"
    "\<And>d. d \<in> D \<Longrightarrow> entry s1 d = entry s d" "\<And>d. d \<in> D \<Longrightarrow> pt_pages s1 d = pt_pages s d"
    "v \<noteq> 0 \<Longrightarrow> kframe s v \<and> refs s v = 0 \<and> unused v s1 D"
proof -
  note a = kalloc_wf [OF vm_invD(2) [OF inv] k]
  have refs1: "refs s1 u = refs s u" if "kframe s u" "refs s u \<noteq> 0" for u
    using that a by (auto split: if_splits)
  have keep: "pages s1 u = pages s u \<and> refs s1 u = refs s u" if "u \<in> (\<Union>d \<in> D. pt_pages s d)" for u
    using that refs1 [of u] a pt_okD [OF vm_invD(3) [OF inv]] by fastforce
  have fr: "pages s1 f = pages s f \<and> refs s1 f = refs s f" if "f \<in># mappings s D" for f
    using that refs1 [of f] a vm_invD(5,6) [OF inv that] by (auto simp: count_eq_zero_iff)
  have wf: "kmem_wf s1" "kend s1 = kend s" using a by auto
  note r = vm_inv_frame [OF inv wf keep fr]
  show "vm_inv s1 D" "mappings s1 D = mappings s D" "isolated d D s s1"
    "\<And>d. d \<in> D \<Longrightarrow> entry s1 d = entry s d" "\<And>d. d \<in> D \<Longrightarrow> pt_pages s1 d = pt_pages s d"
    using r by simp_all
  show "kframe s v \<and> refs s v = 0 \<and> unused v s1 D" if "v \<noteq> 0"
  proof -
    have "kframe s v" "refs s v = 0" using a that by auto
    with unused_free [OF inv this(2)] show ?thesis
      using r(2) r(5) by (simp add: unused_def)
  qed
qed

lemma vm_inv_store_unused:
  assumes inv: "vm_inv s D" and v: "unused v s D" "refs s v \<noteq> 0"
    and s': "s' = s\<lparr>pages := (pages s)(v := g)\<rparr>"
  shows "vm_inv s' D" "mappings s' D = mappings s D" "isolated d D s s'"
    "\<And>d. d \<in> D \<Longrightarrow> entry s' d = entry s d" "\<And>d. d \<in> D \<Longrightarrow> pt_pages s' d = pt_pages s d" "unused v s' D"
proof -
  have wf: "kmem_wf s'" "kend s' = kend s" using kmem_wf_pages [OF vm_invD(2) [OF inv] v(2)] by (auto simp: s')
  have keep: "pages s' u = pages s u \<and> refs s' u = refs s u" if "u \<in> (\<Union>d \<in> D. pt_pages s d)" for u
    using that v by (auto simp: s' unused_def)
  have fr: "pages s' f = pages s f \<and> refs s' f = refs s f" if "f \<in># mappings s D" for f
    using that v by (auto simp: s' unused_def)
  note r = vm_inv_frame [OF inv wf keep fr]
  show "vm_inv s' D" "mappings s' D = mappings s D" "isolated d D s s'"
    "\<And>d. d \<in> D \<Longrightarrow> entry s' d = entry s d" "\<And>d. d \<in> D \<Longrightarrow> pt_pages s' d = pt_pages s d"
    using r by simp_all
  then show "unused v s' D" using v by (simp add: unused_def)
qed

section \<open>setupkvm\<close>

lemma new_pgdir:
  assumes inv: "vm_inv s D" and k: "kalloc s = (d, s1)" "d \<noteq> 0" and s2: "s2 = memset_page d 0 s1"
  shows "d \<notin> D" "vm_inv s2 (insert d D)" "entry s2 d = (\<lambda>_. 0)" "pt_pages s2 d = {d}"
    "isolated d D s s2" "kend s2 = kend s"
    "\<And>u. kframe s u \<Longrightarrow> refs s2 u = (if u = d then 1 else refs s u)"
proof -
  note a = kalloc_wf [OF vm_invD(2) [OF inv] k(1)] and ki = kalloc_inv_vm [OF inv k(1)]
  have d: "kframe s d" "refs s d = 0" "unused d s1 D" using ki(6) k(2) by auto
  show dD: "d \<notin> D" using d(3) by (auto simp: unused_def)
  have r1: "refs s1 u = (if u = d then 1 else refs s u)" if "kframe s u" for u using a k(2) that by auto
  have nz: "refs s1 d \<noteq> 0" using r1 d(1) by simp
  have s2': "s2 = s1\<lparr>pages := (pages s1)(d := (\<lambda>_. 0))\<rparr>"
    by (simp add: s2 memset_page_def fill_word_def)
  note v = vm_inv_store_unused(1,2,3,6) [OF ki(1) d(3) nz s2']
  show kend2: "kend s2 = kend s" using a by (simp add: s2')
  show r2: "refs s2 u = (if u = d then 1 else refs s u)" if "kframe s u" for u using r1 [OF that] by (simp add: s2')
  have pd: "pages s2 d = (\<lambda>_. 0)" by (simp add: s2')
  then have idx: "pt_index s2 d = {}" by (simp add: pt_index_def)
  then show pp: "pt_pages s2 d = {d}" by (simp add: pt_pages_def)
  show e0: "entry s2 d = (\<lambda>_. 0)" by (simp add: entry_def pd fun_eq_iff)
  have kf: "kframe s2 = kframe s" using kframe_cong [OF kend2] .
  have ok: "pt_ok s2 d" using d(1) r2 [OF d(1)] kf by (simp add: pt_ok_def pp idx)
  have us0: "uspace (entry s2 d) = {#}" unfolding e0 uspace_def by (rule uframes_none) simp
  have T: "mappings s2 D = uspace (entry s2 d) + mappings s2 (D - {d})" using us0 dD by simp
  have keep: "pages s2 u = pages s2 u \<and> refs s2 u = refs s2 u \<and> u \<notin> pt_pages s2 d"
    if "u \<in> (\<Union>d' \<in> D - {d}. pt_pages s2 d')" for u
    using that v(4) by (auto simp: pp unused_def)
  have fr: "kframe s2 f \<and> refs s2 f = count (mappings s2 D) f \<and> f \<notin> pt_pages s2 d \<and>
      (\<forall>d' \<in> D. d' \<noteq> d \<longrightarrow> f \<notin> pt_pages s2 d')" if "f \<in># mappings s2 D" for f
    using vm_invD(5-7) [OF v(1) that] v(4) that by (auto simp: pp unused_def)
  have new: "exclusive (mappings s2 D) (entry s2 d (page_va i))" for i by (simp add: e0 exclusive_def)
  have old: "\<forall>d' \<in> D. d' \<noteq> d \<longrightarrow> (\<forall>i < user_pages. exclusive (mappings s2 D) (entry s2 d' (page_va i)))"
    using vm_invD(8) [OF v(1)] by blast
  show "vm_inv s2 (insert d D)"
    by (rule vm_inv_step(1) [OF v(1) vm_invD(2) [OF v(1)] refl ok keep T fr new old])
  show "isolated d D s s2" using isolated_trans [OF ki(3) v(3)] .
qed

text \<open>What a \<^verbatim>\<open>kmap\<close> table maps, and the condition on it: all its ranges lie above \<open>KERNBASE\<close> and
  do not overlap.\<close>

definition kmap_apply :: "kmap_entry \<Rightarrow> (uint \<Rightarrow> uint) \<Rightarrow> uint \<Rightarrow> uint" where
  "kmap_apply k = map_range (Suc (map_span (virt k) (phys_end k - phys_start k)))
     (PGROUNDDOWN (virt k)) (phys_start k) (perm k)"

fun kmap_fits :: "kmap_entry list \<Rightarrow> (uint \<Rightarrow> uint) \<Rightarrow> bool" where
  "kmap_fits [] e \<longleftrightarrow> True"
| "kmap_fits (k # ks) e \<longleftrightarrow>
     (\<forall>i \<le> map_span (virt k) (phys_end k - phys_start k).
        KERNBASE \<le> PGROUNDDOWN (virt k) + of_nat i * PGSIZE \<and>
        even (e (PGROUNDDOWN (virt k) + of_nat i * PGSIZE))) \<and>
     kmap_fits ks (kmap_apply k e)"

lemma map_span_less: "map_span va sz < 1048576"
  unfolding map_span_def by (rule page_number_less)

lemma map_range_user:
  assumes "\<forall>j < m. KERNBASE \<le> PGROUNDDOWN a + of_nat j * PGSIZE" and "m \<le> 1048576" and "i < user_pages"
  shows "map_range m (PGROUNDDOWN a) pa pm e (page_va i) = e (page_va i)"
proof -
  have "page_va i < KERNBASE" using assms(3) by (simp add: word_less_nat_alt page_va_less)
  then have "\<forall>j < m. PGROUNDDOWN (page_va i) \<noteq> PGROUNDDOWN a + of_nat j * PGSIZE"
    using assms(1) page_aligned_va [of i] unfolding page_aligned_round by fastforce
  then show ?thesis using map_range_apply [OF page_aligned_PGROUNDDOWN assms(2)] by blast
qed

lemma setupkvm_loop_spec:
  assumes "vm_inv s (insert d D)" and "d \<notin> D" and "uspace (entry s d) = {#}" and "kmap_fits ks (entry s d)"
  shows "\<exists>r s'. setupkvm_loop ks d s = Ok (r, s') \<and> isolated d D s s' \<and>
    (r = d \<and> vm_inv s' (insert d D) \<and> pt_step d s s' \<and> uspace (entry s' d) = {#} \<and>
       entry s' d = fold kmap_apply ks (entry s d) \<or>
     r = 0 \<and> vm_inv s' D \<and> kend s' = kend s \<and> mappings s' D = mappings s D \<and>
       (\<forall>u. kframe s u \<longrightarrow> refs s' u = (if u \<in> pt_pages s d then 0 else refs s u)))"
  using assms
proof (induction ks arbitrary: s)
  case Nil
  then show ?case using pt_step_refl [OF vm_invD(2) vm_invD(3), OF Nil(1) Nil(1)]
    by (intro exI [of _ d] exI [of _ s]) simp
next
  case (Cons k ks)
  let ?sz = "phys_end k - phys_start k"
  let ?n = "map_span (virt k) ?sz"
  note inv = Cons.prems(1)
  have ok: "pt_ok s d" using vm_invD(3) [OF inv] by simp
  have fits: "\<forall>i \<le> ?n. KERNBASE \<le> PGROUNDDOWN (virt k) + of_nat i * PGSIZE"
    "\<forall>i \<le> ?n. even (entry s d (PGROUNDDOWN (virt k) + of_nat i * PGSIZE))"
    "kmap_fits ks (kmap_apply k (entry s d))" using Cons.prems(4) by auto
  obtain r s1 m where m: "mappages d (virt k) ?sz (phys_start k) (perm k) s = Ok (r, s1)" "pt_step d s s1"
      "entry s1 d = map_range m (PGROUNDDOWN (virt k)) (phys_start k) (perm k) (entry s d)"
      "r = 0 \<and> m = Suc ?n \<or> r = -1 \<and> m \<le> ?n \<and> (\<forall>u. kframe s u \<longrightarrow> refs s1 u \<noteq> 0)"
    using mappages_spec [OF ok vm_invD(2) [OF inv] fits(2), of "phys_start k" "perm k"] by (elim exE conjE)
  have "m \<le> Suc ?n" using m(4) by auto
  then have user: "entry s1 d (page_va i) = entry s d (page_va i)" if "i < user_pages" for i
    unfolding m(3) using fits(1) map_span_less [of "virt k" ?sz] that by (intro map_range_user) auto
  have dD: "d \<in> insert d D" by simp
  have st: "vm_inv s1 (insert d D)" "isolated d (insert d D) s s1" "mappings s1 (insert d D) = mappings s (insert d D)"
    using vm_inv_pt_step [OF inv dD m(2) user] by auto
  have iso: "isolated d D s s1" using st(2) by (simp add: isolated_def)
  have us: "uspace (entry s1 d) = {#}"
    using uspace_cong [of "entry s1 d" "entry s d", OF user] Cons.prems(3) by simp
  have fin: "finite (insert d D)" using vm_invD(1) [OF inv] .
  have map1: "mappings s1 D = mappings s D"
    using iso Cons.prems(2) by (intro total_cong) (auto simp: isolated_def)
  note p = pt_stepD [OF m(2)]
  show ?case
    using m(4)
  proof
    assume r: "r = 0 \<and> m = Suc ?n"
    then have e1: "entry s1 d = kmap_apply k (entry s d)" using m(3) by (simp add: kmap_apply_def)
    have "\<exists>r s'. setupkvm_loop ks d s1 = Ok (r, s') \<and> isolated d D s1 s' \<and>
        (r = d \<and> vm_inv s' (insert d D) \<and> pt_step d s1 s' \<and> uspace (entry s' d) = {#} \<and>
           entry s' d = fold kmap_apply ks (entry s1 d) \<or>
         r = 0 \<and> vm_inv s' D \<and> kend s' = kend s1 \<and> mappings s' D = mappings s1 D \<and>
           (\<forall>u. kframe s1 u \<longrightarrow> refs s' u = (if u \<in> pt_pages s1 d then 0 else refs s1 u)))"
      using Cons.IH [OF st(1) Cons.prems(2) us] fits(3) e1 by simp
    then obtain r' s' where ih: "setupkvm_loop ks d s1 = Ok (r', s')" "isolated d D s1 s'"
        "r' = d \<and> vm_inv s' (insert d D) \<and> pt_step d s1 s' \<and> uspace (entry s' d) = {#} \<and>
           entry s' d = fold kmap_apply ks (entry s1 d) \<or>
         r' = 0 \<and> vm_inv s' D \<and> kend s' = kend s1 \<and> mappings s' D = mappings s1 D \<and>
           (\<forall>u. kframe s1 u \<longrightarrow> refs s' u = (if u \<in> pt_pages s1 d then 0 else refs s1 u))"
      by (elim exE conjE)
    have loop: "setupkvm_loop (k # ks) d s = Ok (r', s')" using m(1) r ih(1) by simp
    show ?thesis
      using ih(3)
    proof
      assume "r' = d \<and> vm_inv s' (insert d D) \<and> pt_step d s1 s' \<and> uspace (entry s' d) = {#} \<and>
           entry s' d = fold kmap_apply ks (entry s1 d)"
      then show ?thesis
        using loop pt_step_trans [OF m(2)] isolated_trans [OF iso ih(2)] e1
        by (intro exI [of _ r'] exI [of _ s'] conjI disjI1) auto
    next
      assume f: "r' = 0 \<and> vm_inv s' D \<and> kend s' = kend s1 \<and> mappings s' D = mappings s1 D \<and>
           (\<forall>u. kframe s1 u \<longrightarrow> refs s' u = (if u \<in> pt_pages s1 d then 0 else refs s1 u))"
      have "refs s' u = (if u \<in> pt_pages s d then 0 else refs s u)" if "kframe s u" for u
        using f that p(4,5) p(6) [of u] p(7) [OF that] by auto
      then show ?thesis
        using loop isolated_trans [OF iso ih(2)] f map1 p(3)
        by (intro exI [of _ r'] exI [of _ s'] conjI disjI2) simp_all
    qed
  next
    assume r: "r = -1 \<and> m \<le> ?n \<and> (\<forall>u. kframe s u \<longrightarrow> refs s1 u \<noteq> 0)"
    obtain s2 where s2: "freevm d s1 = Ok s2" "vm_inv s2 (insert d D - {d})" "isolated d (insert d D) s1 s2"
        "kend s2 = kend s1" "mappings s2 (insert d D - {d}) = mappings s1 (insert d D - {d})"
        "\<forall>u. kframe s1 u \<longrightarrow> refs s2 u = (if u \<in> pt_pages s1 d then 0 else refs s1 u - count (uspace (entry s1 d)) u)"
      using freevm_inv [OF st(1) dD] by (elim exE conjE)
    have D: "insert d D - {d} = D" using Cons.prems(2) by auto
    have "refs s2 u = (if u \<in> pt_pages s d then 0 else refs s u)" if "kframe s u" for u
      using s2(6) that us p(4,5) p(6) [of u] p(7) [OF that] by auto
    moreover have "isolated d D s1 s2" using s2(3) by (simp add: isolated_def)
    ultimately show ?thesis
      using m(1) r s2 isolated_trans [OF iso] map1 p(3) unfolding D
      by (intro exI [of _ 0] exI [of _ s2] conjI disjI2) simp_all
  qed
qed

lemma setupkvm_spec:
  assumes inv: "vm_inv s D" and fits: "kmap_fits kmap (\<lambda>_. 0)"
  shows "\<exists>d s'. setupkvm kmap s = Ok (d, s') \<and> kend s' = kend s \<and> isolated d D s s' \<and>
    (if d = 0 then vm_inv s' D \<and> mappings s' D = mappings s D \<and> (\<forall>u. kframe s u \<longrightarrow> refs s' u = refs s u)
     else d \<notin> D \<and> vm_inv s' (insert d D) \<and> uspace (entry s' d) = {#} \<and>
       entry s' d = fold kmap_apply kmap (\<lambda>_. 0) \<and>
       (\<forall>u. kframe s u \<longrightarrow> refs s' u = (if u \<in> pt_pages s' d then 1 else refs s u)))"
proof -
  obtain d s1 where k: "kalloc s = (d, s1)" by (cases "kalloc s")
  note a = kalloc_wf [OF vm_invD(2) [OF inv] k]
  show ?thesis
  proof (cases "d = 0")
    case True
    with a have "s1 = s" by simp
    with True k inv show ?thesis by (intro exI [of _ 0] exI [of _ s]) (simp add: setupkvm_def)
  next
    case False
    let ?s = "memset_page d 0 s1"
    note n = new_pgdir [OF inv k False refl]
    have us: "uspace (entry ?s d) = {#}" unfolding n(3) uspace_def by (rule uframes_none) simp
    have "kmap_fits kmap (entry ?s d)" using fits n(3) by simp
    from setupkvm_loop_spec [OF n(2,1) us this] obtain r s' where r: "setupkvm_loop kmap d ?s = Ok (r, s')"
      "isolated d D ?s s'"
      "r = d \<and> vm_inv s' (insert d D) \<and> pt_step d ?s s' \<and> uspace (entry s' d) = {#} \<and>
         entry s' d = fold kmap_apply kmap (entry ?s d) \<or>
       r = 0 \<and> vm_inv s' D \<and> kend s' = kend ?s \<and> mappings s' D = mappings ?s D \<and>
         (\<forall>u. kframe ?s u \<longrightarrow> refs s' u = (if u \<in> pt_pages ?s d then 0 else refs ?s u))"
      by (elim exE conjE)
    have loop: "setupkvm kmap s = Ok (r, s')" using k False r(1) by (simp add: setupkvm_def P2V_def)
    have kf: "kframe ?s = kframe s" using kframe_cong [OF n(6)] .
    have iso: "isolated d D s s'" using isolated_trans [OF n(5) r(2)] .
    then have iso': "isolated r D s s'" using n(1) by (auto simp: isolated_def)
    show ?thesis
      using r(3)
    proof
      assume "r = d \<and> vm_inv s' (insert d D) \<and> pt_step d ?s s' \<and> uspace (entry s' d) = {#} \<and>
         entry s' d = fold kmap_apply kmap (entry ?s d)"
      then have s: "r = d" "vm_inv s' (insert d D)" "pt_step d ?s s'" "uspace (entry s' d) = {#}"
         "entry s' d = fold kmap_apply kmap (\<lambda>_. 0)" using n(3) by auto
      have "refs s' u = (if u \<in> pt_pages s' d then 1 else refs s u)" if "kframe s u" for u
        using pt_stepD(5) [OF s(3)] pt_stepD(7) [OF s(3), of u] n(7) [OF that] that kf n(4) by auto
      then show ?thesis
        using loop s(1,2,4,5) False n(1,6) iso pt_stepD(3) [OF s(3)]
        by (intro exI [of _ d] exI [of _ s'] conjI) simp_all
    next
      assume s: "r = 0 \<and> vm_inv s' D \<and> kend s' = kend ?s \<and> mappings s' D = mappings ?s D \<and>
         (\<forall>u. kframe ?s u \<longrightarrow> refs s' u = (if u \<in> pt_pages ?s d then 0 else refs ?s u))"
      have "refs s' u = refs s u" if "kframe s u" for u
        using s that kf n(4) n(7) [OF that] a False by auto
      moreover have "mappings ?s D = mappings s D"
        using n(1,5) by (intro total_cong) (auto simp: isolated_def)
      ultimately show ?thesis
        using loop s n(6) iso' by (intro exI [of _ 0] exI [of _ s'] conjI) simp_all
    qed
  qed
qed

section \<open>allocuvm\<close>

lemma entry_odd_table: "odd (entry s d va) \<Longrightarrow> odd (pages s d (PDX va))"
  by (auto simp: entry_def split: if_splits)

lemma unused_refs_released:
  assumes inv: "vm_inv s D" and d: "d \<in> D" and r: "released d F s s'" and F: "F \<subseteq># uspace (entry s d)"
    and v: "unused v s D" "kframe s v"
  shows "refs s' v = refs s v"
proof -
  have "v \<notin># F" using v(1) F total_mem [OF vm_invD(1) [OF inv] d]
    by (auto simp: unused_def dest: mset_subset_eqD)
  then show ?thesis using releasedD(7) [OF r v(2)] by (simp add: not_in_iff)
qed

text \<open>The rollback of a failed allocation, when the pages from \<open>lo\<close> up to \<open>i\<close> have been mapped.\<close>

lemma allocuvm_rollback:
  assumes inv: "vm_inv s D" and d: "d \<in> D" and sz: "newsz < KERNBASE" "oldsz \<le> newsz"
    and lo: "lo = page_up oldsz" "hi = page_up newsz" "lo \<le> i" "i \<le> hi"
    and e: "\<forall>j. lo \<le> j \<and> j < i \<longrightarrow> odd (entry s d (page_va j))"
      "\<forall>j. i \<le> j \<and> j < hi \<longrightarrow> even (entry s d (page_va j))"
  shows "\<exists>r s'. deallocuvm d newsz oldsz s = Ok (r, s') \<and> vm_inv s' D \<and> isolated d D s s' \<and>
    kend s' = kend s \<and> entry s' d = clear_range lo hi (entry s d) \<and> pt_pages s' d = pt_pages s d \<and>
    mappings s' D = mappings s D - uframes (entry s d) lo i \<and>
    (\<forall>v. unused v s D \<and> kframe s v \<longrightarrow> refs s' v = refs s v)"
proof -
  have n: "unat newsz \<le> 0x80000000" "unat oldsz \<le> 0xFFFFF000"
    using sz by (simp_all add: word_less_nat_alt word_le_nat_alt)
  have "uframes (entry s d) i hi = {#}" by (rule uframes_none) (use e(2) in blast)
  then have F: "uframes (entry s d) lo hi = uframes (entry s d) lo i"
    using uframes_split [OF lo(3,4)] by simp
  have skip: "page_up oldsz mod 1024 = 0 \<or> odd (pages s d (PDX (PGROUNDUP oldsz))) \<or>
      (\<forall>j. page_up oldsz \<le> j \<and> j < page_up newsz \<longrightarrow> even (entry s d (page_va j)))"
  proof (cases "lo = i")
    case True
    then show ?thesis using e(2) lo(1,2) by auto
  next
    case False
    then have "odd (entry s d (page_va lo))" using e(1) lo(3) by simp
    then have "odd (pages s d (PDX (PGROUNDUP oldsz)))"
      using entry_odd_table PGROUNDUP_page [OF n(2)] lo(1) by simp
    then show ?thesis by simp
  qed
  obtain s' where s': "deallocuvm d newsz oldsz s = Ok (if newsz \<le> oldsz then newsz else oldsz, s')"
      "vm_inv s' D" "isolated d D s s'" "entry s' d = clear_range lo hi (entry s d)"
      "mappings s' D = mappings s D - uframes (entry s d) lo i" "released d (uframes (entry s d) lo hi) s s'"
    using deallocuvm_inv [OF inv d n(1) skip] F unfolding lo(1,2) by (elim exE conjE) simp
  have "uframes (entry s d) lo hi \<subseteq># uspace (entry s d)"
    using lo n(1) by (intro uframes_subset) (simp_all add: page_up_def)
  then have "\<forall>v. unused v s D \<and> kframe s v \<longrightarrow> refs s' v = refs s v"
    using unused_refs_released [OF inv d s'(6)] by blast
  with s' releasedD(3,5) [OF s'(6)] show ?thesis by blast
qed

lemma PTE_make:
  assumes "page_aligned pa" and "unat pm < 4096"
  shows "PTE_ADDR (pa OR pm OR PTE_P) = pa" "PTE_FLAGS (pa OR pm OR PTE_P) = pm OR PTE_P"
    "odd (pa OR pm OR PTE_P)"
proof -
  have h: "bit pm n \<Longrightarrow> n < 12" for n using small_high_bits [OF assms(2), of n] by (auto simp: not_le [symmetric])
  have l: "bit pa n \<Longrightarrow> 12 \<le> n" for n using page_aligned_low_bits [OF assms(1), of n] by (auto simp: not_less [symmetric])
  have o: "bit (1 :: uint) n \<longleftrightarrow> n = 0" for n by (simp add: bit_1_iff)
  show "PTE_ADDR (pa OR pm OR PTE_P) = pa"
    by (rule bit_word_eqI) (auto simp: PTE_ADDR_bits bit_or_iff o simp del: bit_numeral_word_iff dest: h l)
  show "PTE_FLAGS (pa OR pm OR PTE_P) = pm OR PTE_P"
    by (rule bit_word_eqI) (auto simp: PTE_FLAGS_bits bit_or_iff o simp del: bit_numeral_word_iff dest: h l)
  show "odd (pa OR pm OR PTE_P)" by (simp add: even_or_iff)
qed

lemma map_fresh:
  assumes inv: "vm_inv s D" and d: "d \<in> D" and mem: "unused mem s D" "kframe s mem" "refs s mem = 1"
    and i: "i < user_pages" "even (entry s d (page_va i))" and pm: "unat pm < 4096"
  shows "\<exists>r s'. mappages d (page_va i) PGSIZE (V2P mem) pm s = Ok (r, s') \<and> vm_inv s' D \<and> isolated d D s s' \<and>
    kend s' = kend s \<and> (\<forall>f \<in># uspace (entry s d). pages s' f = pages s f) \<and> pages s' mem = pages s mem \<and>
    (r = 0 \<and> entry s' d = upd_entry (page_va i) (V2P mem OR pm OR PTE_P) (entry s d) \<and>
       mappings s' D = add_mset mem (mappings s D) \<or>
     r = -1 \<and> entry s' d = entry s d \<and> mappings s' D = mappings s D \<and> unused mem s' D \<and> refs s' mem = 1)"
proof -
  let ?w = "V2P mem OR pm OR PTE_P"
  note ok = vm_invD(3) [OF inv d] and wf = vm_invD(2) [OF inv]
  have al: "page_aligned (V2P mem)" using kframe_aligned [OF mem(2)] by simp
  have f: "mem = frame_of ?w" "odd ?w" using PTE_make [OF al pm] by (simp_all add: frame_of_def)
  obtain r s' where r: "mappages d (page_va i) PGSIZE (V2P mem) pm s = Ok (r, s')" "pt_step d s s'"
      "r = 0 \<and> entry s' d = upd_entry (page_va i) ?w (entry s d) \<or>
       r = -1 \<and> entry s' d = entry s d \<and> (\<forall>u. kframe s u \<longrightarrow> refs s' u \<noteq> 0)"
    using mappages_page [OF ok wf _ i(2), of "V2P mem" pm] by auto
  note p = pt_stepD [OF r(2)]
  have nin: "mem \<notin> pt_pages s' d" using mem d p(6) [of mem] by (auto simp: unused_def)
  then have ref: "refs s' mem = 1" using p(7) [OF mem(2)] mem(3) by simp
  have mem_pg: "pages s' mem = pages s mem" using p(8) [OF nin] .
  have own: "\<forall>f \<in># uspace (entry s d). pages s' f = pages s f"
  proof
    fix f assume f: "f \<in># uspace (entry s d)"
    note o = vm_inv_others_frame [OF inv d f]
    have "f \<notin> pt_pages s' d" using o d p(6) [of f] by auto
    then show "pages s' f = pages s f" by (rule p(8))
  qed
  show ?thesis
    using r(3)
  proof
    assume r0: "r = 0 \<and> entry s' d = upd_entry (page_va i) ?w (entry s d)"
    have cnt: "count (mappings s D) mem = 0" using mem(1) by (simp add: unused_def not_in_iff)
    have nomap: "\<not> bit (entry s d' (page_va j)) 1"
      if "d' \<in> D" "j < user_pages" "odd (entry s d' (page_va j))" "frame_of (entry s d' (page_va j)) = mem" for d' j
    proof -
      have "mem \<in># mappings s D" using that in_uspace total_mem [OF vm_invD(1) [OF inv]] by blast
      then show ?thesis using mem(1) by (simp add: unused_def)
    qed
    have refs': "refs s' u = (if u = mem then count (mappings s D) mem + 1 else refs s' u)" for u
      using ref cnt by simp
    have nz: "refs s mem \<noteq> 0" using mem(3) by simp
    have m: "mem \<notin># mappings s D" "\<And>d'. d' \<in> D \<Longrightarrow> mem \<notin> pt_pages s d'" using mem(1) by (auto simp: unused_def)
    have "vm_inv s' D \<and> mappings s' D = add_mset mem (mappings s D) \<and> isolated d D s s' \<and> entry s' d = entry s' d"
    proof (rule vm_inv_map [OF inv d r(2) i(1) conjunct2 [OF r0] i(2) f(2,1) mem(2) nz m(2) p(1) refl refl])
      show "refs s' u = (if u = mem then count (mappings s D) mem + 1 else refs s' u)" for u
        by (rule refs')
    qed (assumption, rule m(1), rule nomap)
    then show ?thesis using r(1) r0 own mem_pg p(3) by (intro exI [of _ r] exI [of _ s'] conjI disjI1) simp_all
  next
    assume r1: "r = -1 \<and> entry s' d = entry s d \<and> (\<forall>u. kframe s u \<longrightarrow> refs s' u \<noteq> 0)"
    have same: "entry s' d (page_va j) = entry s d (page_va j)" for j using r1 by simp
    note v = vm_inv_pt_step [OF inv d r(2) same]
    have "mem \<notin> pt_pages s' d'" if "d' \<in> D" for d'
    proof (cases "d' = d")
      case False
      have "\<forall>u \<in> pt_pages s d'. pages s' u = pages s u"
      proof
        fix u assume u: "u \<in> pt_pages s d'"
        have "kframe s u" "refs s u = 1" using pt_okD [OF vm_invD(3) [OF inv that] u] by auto
        moreover have "u \<notin> pt_pages s d" using vm_invD(4) [OF inv that d False] u by auto
        ultimately have "u \<notin> pt_pages s' d" using p(6) [of u] by auto
        then show "pages s' u = pages s u" by (rule p(8))
      qed
      from pt_cong(3) [OF this] show ?thesis using mem(1) that by (simp add: unused_def)
    qed (use nin in simp)
    then have "unused mem s' D" using v(2) mem(1) by (simp add: unused_def)
    then show ?thesis
      using r(1) r1 v own mem_pg ref p(3) by (intro exI [of _ r] exI [of _ s'] conjI disjI2) simp_all
  qed
qed

text \<open>Freeing a page that no address space uses.\<close>

lemma kfree_unused:
  assumes inv: "vm_inv s D" and v: "unused v s D" "kframe s v" "refs s v = 1"
  shows "\<exists>s'. kfree v s = Ok s' \<and> vm_inv s' D \<and> isolated d D s s' \<and> kend s' = kend s \<and>
    mappings s' D = mappings s D \<and> (\<forall>d \<in> D. entry s' d = entry s d) \<and>
    (\<forall>u. kframe s u \<longrightarrow> refs s' u = (if u = v then 0 else refs s u))"
proof -
  have nz: "refs s v \<noteq> 0" using v(3) by simp
  obtain s' where s': "kfree v s = Ok s'" "kmem_wf s'" "kend s' = kend s"
      "\<forall>u. kframe s u \<longrightarrow> refs s' u = (if u = v then refs s v - 1 else refs s u)"
      "\<forall>u. u \<noteq> v \<or> 1 < refs s v \<longrightarrow> pages s' u = pages s u"
    using kfree_wf [OF vm_invD(2) [OF inv] v(2) nz] by (elim exE conjE)
  have keep: "pages s' u = pages s u \<and> refs s' u = refs s u" if "u \<in> (\<Union>d \<in> D. pt_pages s d)" for u
  proof -
    have "kframe s u" using that pt_okD [OF vm_invD(3) [OF inv]] by blast
    moreover have "u \<noteq> v" using that v(1) by (auto simp: unused_def)
    ultimately show ?thesis using s'(4,5) by simp
  qed
  have fr: "pages s' f = pages s f \<and> refs s' f = refs s f" if "f \<in># mappings s D" for f
  proof -
    have "kframe s f" "f \<noteq> v" using that vm_invD(5) [OF inv] v(1) by (auto simp: unused_def)
    then show ?thesis using s'(4,5) by simp
  qed
  have "\<forall>u. kframe s u \<longrightarrow> refs s' u = (if u = v then 0 else refs s u)" using s'(4) v(3) by simp
  then show ?thesis
    using s'(1,3) vm_inv_frame [OF inv s'(2,3) keep fr] by (intro exI [of _ s']) simp
qed

definition zero_page :: "kmem \<Rightarrow> uint \<Rightarrow> bool" where
  "zero_page s w \<longleftrightarrow> odd w \<and> PTE_FLAGS w = PTE_P OR PTE_W OR PTE_U \<and> pages s (frame_of w) = (\<lambda>_. 0)"

lemma upd_entry_page: "i < 1048576 \<Longrightarrow> upd_entry (page_va i) w e va = (if unat va div 4096 = i then w else e va)"
  by (simp add: upd_entry_def same_page_number page_va_less)

lemma allocuvm_loop_spec:
  assumes sz: "newsz < KERNBASE" "oldsz \<le> newsz" and lo: "lo = page_up oldsz" "hi = page_up newsz"
    and d: "d \<in> D"
    and "vm_inv s D" and "lo \<le> i" and "i \<le> hi" and "hi - i < n"
    and "\<forall>j. lo \<le> j \<and> j < i \<longrightarrow> odd (entry s d (page_va j))"
    and "\<forall>j. i \<le> j \<and> j < hi \<longrightarrow> even (entry s d (page_va j))"
  shows "\<exists>r s'. allocuvm_loop n d oldsz newsz (page_va i) s = Ok (r, s') \<and> vm_inv s' D \<and>
    isolated d D s s' \<and> kend s' = kend s \<and>
    (r = newsz \<and> (\<forall>f \<in># uspace (entry s d). pages s' f = pages s f) \<and>
       (\<forall>va. unat va div 4096 < i \<or> hi \<le> unat va div 4096 \<longrightarrow> entry s' d va = entry s d va) \<and>
       (\<forall>j. i \<le> j \<and> j < hi \<longrightarrow> zero_page s' (entry s' d (page_va j))) \<or>
     r = 0 \<and> mappings s' D = mappings s D - uframes (entry s d) lo i \<and>
       (\<forall>va. unat va div 4096 < lo \<or> hi \<le> unat va div 4096 \<longrightarrow> entry s' d va = entry s d va) \<and>
       (\<forall>j. lo \<le> j \<and> j < hi \<longrightarrow> even (entry s' d (page_va j))))"
  using assms(6-)
proof (induction n arbitrary: i s)
  case (Suc n)
  note inv = Suc.prems(1)
  have hi: "hi \<le> user_pages" using sz(1) lo(2) by (simp add: page_up_def word_less_nat_alt)
  have less: "page_va i < newsz \<longleftrightarrow> i < hi"
    using Suc.prems(3) hi lo(2) by (auto simp: word_less_nat_alt page_va_less page_up_def)
  show ?case
  proof (cases "i < hi")
    case False
    then show ?thesis using less inv Suc.prems(3) by (intro exI [of _ newsz] exI [of _ s]) auto
  next
    case True
    obtain mem s1 where k: "kalloc s = (mem, s1)" by (cases "kalloc s")
    note a = kalloc_wf [OF vm_invD(2) [OF inv] k] and ki = kalloc_inv_vm [OF inv k]
    show ?thesis
    proof (cases "mem = 0")
      case m0: True
      then have "s1 = s" using a by simp
      obtain r s' where r: "deallocuvm d newsz oldsz s = Ok (r, s')" "vm_inv s' D" "isolated d D s s'" "kend s' = kend s"
          "entry s' d = clear_range lo hi (entry s d)" "mappings s' D = mappings s D - uframes (entry s d) lo i"
        using allocuvm_rollback [OF inv d sz lo Suc.prems(2,3,5,6)] by (elim exE conjE)
      have "allocuvm_loop (Suc n) d oldsz newsz (page_va i) s = Ok (0, s')"
        using less True k m0 \<open>s1 = s\<close> r(1) by simp
      moreover have "even (entry s' d (page_va j))" if "lo \<le> j" "j < hi" for j
        using that hi by (simp add: r(5) clear_range_def page_va_less)
      ultimately show ?thesis
        using r by (intro exI [of _ 0] exI [of _ s'] conjI disjI2) (simp_all add: clear_range_def)
    next
      case m1: False
      let ?s = "memset_page mem 0 s1"
      have s2: "?s = s1\<lparr>pages := (pages s1)(mem := (\<lambda>_. 0))\<rparr>" by (simp add: memset_page_def fill_word_def)
      have mem: "kframe s mem" "refs s mem = 0" "unused mem s1 D" "refs s1 mem = 1" using ki(6) m1 a by auto
      have nz: "refs s1 mem \<noteq> 0" using mem(4) by simp
      note v = vm_inv_store_unused [OF ki(1) mem(3) nz s2]
      have e2: "entry ?s d = entry s d" using v(4) [OF d] ki(4) [OF d] by simp
      have kend2: "kend ?s = kend s" using a by (simp add: s2)
      have mem2: "kframe ?s mem" "refs ?s mem = 1" using mem kframe_cong [OF kend2] by (simp_all add: s2)
      have iso2: "isolated d D s ?s" using isolated_trans [OF ki(3) v(3)] .
      have own2: "pages ?s f = pages s f" if "f \<in># uspace (entry s d)" for f
      proof -
        have "f \<noteq> mem" using mem(2) vm_inv_others_frame(3) [OF inv d that] by auto
        then show ?thesis using a by (simp add: s2)
      qed
      have ev: "even (entry ?s d (page_va i))" using Suc.prems(6) True e2 by simp
      have i: "i < user_pages" using True hi by simp
      have pm: "unat (PTE_W OR PTE_U :: uint) < 4096" by simp
      obtain r s3 where r: "mappages d (page_va i) PGSIZE (V2P mem) (PTE_W OR PTE_U) ?s = Ok (r, s3)"
          "vm_inv s3 D" "isolated d D ?s s3" "kend s3 = kend ?s"
          "\<forall>f \<in># uspace (entry ?s d). pages s3 f = pages ?s f" "pages s3 mem = pages ?s mem"
          "r = 0 \<and> entry s3 d = upd_entry (page_va i) (V2P mem OR (PTE_W OR PTE_U) OR PTE_P) (entry ?s d) \<and>
             mappings s3 D = add_mset mem (mappings ?s D) \<or>
           r = -1 \<and> entry s3 d = entry ?s d \<and> mappings s3 D = mappings ?s D \<and> unused mem s3 D \<and> refs s3 mem = 1"
        using map_fresh [OF v(1) d v(6) mem2 i ev pm] by (elim exE conjE)
      have iso3: "isolated d D s s3" using isolated_trans [OF iso2 r(3)] .
      show ?thesis
        using r(7)
      proof
        assume ok: "r = 0 \<and> entry s3 d = upd_entry (page_va i) (V2P mem OR (PTE_W OR PTE_U) OR PTE_P) (entry ?s d) \<and>
             mappings s3 D = add_mset mem (mappings ?s D)"
        let ?w = "V2P mem OR (PTE_W OR PTE_U) OR PTE_P"
        have al: "page_aligned (V2P mem)" using kframe_aligned [OF mem(1)] by simp
        note w = PTE_make [OF al pm]
        have fw: "frame_of ?w = mem" unfolding frame_of_def w(1) by simp
        have e3: "entry s3 d va = (if unat va div 4096 = i then ?w else entry s d va)" for va
          using ok i upd_entry_page [of i ?w "entry s d" va] unfolding e2 by simp
        have e3j: "entry s3 d (page_va j) = (if j = i then ?w else entry s d (page_va j))" if "j < user_pages" for j
          using that e3 [of "page_va j"] by (simp add: page_va_less)
        have odd3: "\<forall>j. lo \<le> j \<and> j < Suc i \<longrightarrow> odd (entry s3 d (page_va j))"
          using e3j w(3) Suc.prems(5) i by (auto simp: less_Suc_eq)
        have even3: "\<forall>j. Suc i \<le> j \<and> j < hi \<longrightarrow> even (entry s3 d (page_va j))"
          using e3j Suc.prems(6) hi by auto
        have us3: "uspace (entry s3 d) = add_mset mem (uspace (entry s d))"
          using uspace_upd [OF i, of ?w "entry s d"] ev ok w(3) fw unfolding e2 by (simp add: slot_def)
        have uf3: "uframes (entry s3 d) lo (Suc i) = add_mset mem (uframes (entry s d) lo i)"
        proof -
          have "uframes (entry s3 d) lo i = uframes (entry s d) lo i"
            using i by (intro uframes_cong) (simp add: e3j)
          then show ?thesis
            using uframes_split [of lo i "Suc i" "entry s3 d"] Suc.prems(2) e3j [OF i] w(3) fw
            by (simp add: uframes_rec)
        qed
        have "lo \<le> Suc i" "Suc i \<le> hi" "hi - Suc i < n" using Suc.prems(2,4) True by auto
        from Suc.IH [OF r(2) this odd3 even3] obtain r' s' where ih:
          "allocuvm_loop n d oldsz newsz (page_va (Suc i)) s3 = Ok (r', s')" "vm_inv s' D" "isolated d D s3 s'"
          "kend s' = kend s3"
          "r' = newsz \<and> (\<forall>f \<in># uspace (entry s3 d). pages s' f = pages s3 f) \<and>
             (\<forall>va. unat va div 4096 < Suc i \<or> hi \<le> unat va div 4096 \<longrightarrow> entry s' d va = entry s3 d va) \<and>
             (\<forall>j. Suc i \<le> j \<and> j < hi \<longrightarrow> zero_page s' (entry s' d (page_va j))) \<or>
           r' = 0 \<and> mappings s' D = mappings s3 D - uframes (entry s3 d) lo (Suc i) \<and>
             (\<forall>va. unat va div 4096 < lo \<or> hi \<le> unat va div 4096 \<longrightarrow> entry s' d va = entry s3 d va) \<and>
             (\<forall>j. lo \<le> j \<and> j < hi \<longrightarrow> even (entry s' d (page_va j)))"
          by (elim exE conjE)
        have loop: "allocuvm_loop (Suc n) d oldsz newsz (page_va i) s = Ok (r', s')"
          using less True k m1 r(1) ok ih(1) page_va_Suc [of i] by simp
        have base: "vm_inv s' D \<and> isolated d D s s' \<and> kend s' = kend s"
          using ih(2) isolated_trans [OF iso3 ih(3)] ih(4) r(4) kend2 by simp
        show ?thesis
          using ih(5)
        proof
          assume yes: "r' = newsz \<and> (\<forall>f \<in># uspace (entry s3 d). pages s' f = pages s3 f) \<and>
             (\<forall>va. unat va div 4096 < Suc i \<or> hi \<le> unat va div 4096 \<longrightarrow> entry s' d va = entry s3 d va) \<and>
             (\<forall>j. Suc i \<le> j \<and> j < hi \<longrightarrow> zero_page s' (entry s' d (page_va j)))"
          have "pages s' f = pages s f" if "f \<in># uspace (entry s d)" for f
            using that yes r(5) own2 [OF that] e2 us3 by simp
          moreover have "entry s' d va = entry s d va" if "unat va div 4096 < i \<or> hi \<le> unat va div 4096" for va
            using that yes e3 [of va] True by auto
          moreover have "zero_page s' (entry s' d (page_va j))" if "i \<le> j" "j < hi" for j
          proof (cases "j = i")
            case True
            have "entry s' d (page_va i) = ?w"
              using yes e3j [OF i] i by (simp add: page_va_less)
            moreover have "pages s' mem = (\<lambda>_. 0)" using yes us3 r(6) by (simp add: s2)
            ultimately show ?thesis
              using True w fw unfolding zero_page_def by (simp add: ac_simps)
          next
            case False
            then show ?thesis using yes that by simp
          qed
          ultimately show ?thesis
            using loop base yes by (intro exI [of _ r'] exI [of _ s'] conjI disjI1) blast+
        next
          assume no: "r' = 0 \<and> mappings s' D = mappings s3 D - uframes (entry s3 d) lo (Suc i) \<and>
             (\<forall>va. unat va div 4096 < lo \<or> hi \<le> unat va div 4096 \<longrightarrow> entry s' d va = entry s3 d va) \<and>
             (\<forall>j. lo \<le> j \<and> j < hi \<longrightarrow> even (entry s' d (page_va j)))"
          have "entry s' d va = entry s d va" if "unat va div 4096 < lo \<or> hi \<le> unat va div 4096" for va
            using that no e3 [of va] True Suc.prems(2) by auto
          moreover have "mappings s' D = mappings s D - uframes (entry s d) lo i"
            using no ok v(2) ki(2) uf3 by simp
          ultimately show ?thesis
            using loop base no by (intro exI [of _ r'] exI [of _ s'] conjI disjI2) blast+
        qed
      next
        assume fail: "r = -1 \<and> entry s3 d = entry ?s d \<and> mappings s3 D = mappings ?s D \<and> unused mem s3 D \<and> refs s3 mem = 1"
        then have e3: "entry s3 d = entry s d" using e2 by simp
        have odd3: "\<forall>j. lo \<le> j \<and> j < i \<longrightarrow> odd (entry s3 d (page_va j))" using e3 Suc.prems(5) by simp
        have even3: "\<forall>j. i \<le> j \<and> j < hi \<longrightarrow> even (entry s3 d (page_va j))" using e3 Suc.prems(6) by simp
        obtain q s4 where q: "deallocuvm d newsz oldsz s3 = Ok (q, s4)" "vm_inv s4 D" "isolated d D s3 s4"
          "kend s4 = kend s3" "entry s4 d = clear_range lo hi (entry s3 d)" "pt_pages s4 d = pt_pages s3 d"
          "mappings s4 D = mappings s3 D - uframes (entry s3 d) lo i"
          "\<forall>v. unused v s3 D \<and> kframe s3 v \<longrightarrow> refs s4 v = refs s3 v"
          using allocuvm_rollback [OF r(2) d sz lo Suc.prems(2,3) odd3 even3] by (elim exE conjE)
        have kf: "kframe s3 mem" "kframe s4 mem"
          using mem2(1) kframe_cong [OF r(4)] kframe_cong [OF q(4)] by auto
        have "pt_pages s4 d' = pt_pages s3 d'" if "d' \<in> D" for d'
          using that q(3,6) by (cases "d' = d") (auto simp: isolated_def)
        moreover have "mem \<notin># mappings s4 D" using fail q(7) by (auto simp: unused_def dest: in_diffD)
        ultimately have un: "unused mem s4 D" "refs s4 mem = 1" using fail q(8) kf by (auto simp: unused_def)
        obtain s5 where s5: "kfree mem s4 = Ok s5" "vm_inv s5 D" "isolated d D s4 s5" "kend s5 = kend s4"
          "mappings s5 D = mappings s4 D" "\<forall>d \<in> D. entry s5 d = entry s4 d"
          using kfree_unused [OF q(2) un(1) kf(2) un(2), of d] by (elim exE conjE)
        have loop: "allocuvm_loop (Suc n) d oldsz newsz (page_va i) s = Ok (0, s5)"
          using less True k m1 r(1) fail q(1) s5(1) by simp
        have e5: "entry s5 d = clear_range lo hi (entry s d)" using s5(6) d q(5) e3 by simp
        have "even (entry s5 d (page_va j))" if "lo \<le> j" "j < hi" for j
          using that hi by (simp add: e5 clear_range_def page_va_less)
        moreover have "mappings s5 D = mappings s D - uframes (entry s d) lo i"
          using s5(5) q(7) fail v(2) ki(2) e3 by simp
        moreover have "isolated d D s s5"
          using isolated_trans [OF iso3 isolated_trans [OF q(3) s5(3)]] .
        moreover have "kend s5 = kend s" using s5(4) q(4) r(4) kend2 by simp
        ultimately show ?thesis
          using loop s5(2) e5 by (intro exI [of _ 0] exI [of _ s5] conjI disjI2) (simp_all add: clear_range_def)
      qed
    qed
  qed
qed simp

section \<open>Updating an entry in place\<close>

lemma vm_inv_reflag:
  assumes inv: "vm_inv s D" and d: "d \<in> D" and i: "i < user_pages" and w: "odd (entry s d (page_va i))"
    and w': "odd w'" "frame_of w' = frame_of (entry s d (page_va i))"
      "bit w' 1 \<Longrightarrow> count (mappings s D) (frame_of w') = 1"
    and s': "s' = write_pte (ptab s d (PDX (page_va i)), PTX (page_va i)) w' s"
  shows "vm_inv s' D \<and> mappings s' D = mappings s D \<and> isolated d D s s' \<and> refs s' = refs s \<and> kend s' = kend s \<and>
    entry s' d = upd_entry (page_va i) w' (entry s d) \<and> (\<forall>f \<in># mappings s D. pages s' f = pages s f)"
proof -
  note ok = vm_invD(3) [OF inv d]
  have t: "odd (pages s d (PDX (page_va i)))" using w by (rule entry_odd_table)
  note we = write_entry [OF ok vm_invD(2) [OF inv] t s']
  note p = pt_stepD [OF we(1)]
  have refs': "refs s' = refs s" by (simp add: s' write_pte_def store_word_def)
  have "uspace (entry s' d) + slot (entry s d (page_va i)) = uspace (entry s d) + slot w'"
    unfolding we(3) by (rule uspace_upd [OF i])
  then have T: "mappings s D = uspace (entry s' d) + mappings s (D - {d})"
    using total_remove [OF vm_invD(1) [OF inv] d] w w'(1,2) by (simp add: slot_def)
  have keep: "pages s' u = pages s u \<and> refs s' u = refs s u \<and> u \<notin> pt_pages s' d"
    if un: "u \<in> (\<Union>d' \<in> D - {d}. pt_pages s d')" for u
  proof -
    have "u \<notin> pt_pages s' d" using un vm_invD(4) [OF inv _ d] we(2) by blast
    then show ?thesis using p(8) refs' by simp
  qed
  have fr: "f \<notin> pt_pages s' d" if "f \<in># mappings s D" for f using vm_invD(7) [OF inv that d] we(2) by simp
  have fr': "kframe s g \<and> refs s' g = count (mappings s D) g \<and> g \<notin> pt_pages s' d \<and>
      (\<forall>d' \<in> D. d' \<noteq> d \<longrightarrow> g \<notin> pt_pages s d')" if "g \<in># mappings s D" for g
    using fr [OF that] vm_invD(5-7) [OF inv that] refs' by simp
  have new: "exclusive (mappings s D) (entry s' d (page_va j))" if "j < user_pages" for j
    using that i w' vm_invD(8) [OF inv d that] by (auto simp: we(3) upd_entry_aligned exclusive_def)
  have old: "\<forall>d' \<in> D. d' \<noteq> d \<longrightarrow> (\<forall>i < user_pages. exclusive (mappings s D) (entry s d' (page_va i)))"
    using vm_invD(8) [OF inv] by blast
  note step = vm_inv_step [OF inv p(1,3,2) keep T fr' new old]
  have "isolated d D s s'"
    using step(3,4) fr p(8) vm_inv_others_frame(1) [OF inv] by (auto simp: isolated_def)
  then show ?thesis
    using step(1,2) d refs' we(3) fr p(3,8) by (simp add: insert_absorb)
qed

text \<open>A frame with a single mapping is mapped by one page of one address space.\<close>

lemma count_mappings_other:
  assumes fin: "finite D" and d: "d \<in> D" "d' \<in> D" and i: "i < user_pages" "j < user_pages" "(d, i) \<noteq> (d', j)"
    and e: "odd (entry s d (page_va i))" "frame_of (entry s d (page_va i)) = f"
      "odd (entry s d' (page_va j))" "frame_of (entry s d' (page_va j)) = f"
  shows "2 \<le> count (mappings s D) f"
proof (cases "d = d'")
  case False
  have "mappings s D = uspace (entry s d) + (uspace (entry s d') + mappings s (D - {d} - {d'}))"
    using total_remove [OF fin d(1)] total_remove [of "D - {d}" d'] fin d(2) False by simp
  moreover have "0 < count (uspace (entry s d)) f" "0 < count (uspace (entry s d')) f"
    using e i in_uspace [of f] by (simp_all only: count_greater_zero_iff) blast+
  ultimately show ?thesis by (simp only: count_union)
next
  case True
  let ?e = "upd_entry (page_va i) 0 (entry s d)"
  have "uspace ?e + slot (entry s d (page_va i)) = uspace (entry s d)"
    using uspace_upd [OF i(1), of 0 "entry s d"] by (simp add: slot_def)
  moreover have "slot (entry s d (page_va i)) = {#f#}" using e by (simp add: slot_def)
  ultimately have "count (uspace (entry s d)) f = count (uspace ?e) f + 1"
    by (metis count_single count_union)
  moreover have "?e (page_va j) = entry s d (page_va j)"
    using i True by (simp add: upd_entry_aligned page_va_eq)
  then have "0 < count (uspace ?e) f"
    using e(3,4) i(2) True in_uspace [of f ?e] by (simp only: count_greater_zero_iff) auto
  ultimately have "2 \<le> count (uspace (entry s d)) f" by linarith
  then show ?thesis using total_remove [OF fin d(1), of s] by simp
qed

end
