(* ===== verification/Vm_Props.thy ===== *)
theory Vm_Props
  imports Vm_Fork
begin

text \<open>
  The properties of the virtual memory code, stated over \<open>vm_inv\<close>, each with an application to the
  concrete memory \<open>demo\<close>: one address space with one writable user page, and three free pages.
\<close>

section \<open>A concrete memory\<close>

definition demo :: kmem where
  "demo = \<lparr>kend = 0x80100000, use_lock = True, freelist = 0x80104000, numFreePages = 3,
     pg_refcount = (\<lambda>_. 1)(0x104 := 0, 0x105 := 0, 0x106 := 0),
     pages = (\<lambda>_ _. 0)
       (0x80101000 := (\<lambda>_. 0)(0 := 0x102000 OR 7),
        0x80102000 := (\<lambda>_. 0)(0 := 0x103000 OR 7),
        0x80104000 := (\<lambda>_. 0)(0 := 0x80105000),
        0x80105000 := (\<lambda>_. 0)(0 := 0x80106000))\<rparr>"

lemma demo_kframe: "kframe demo v \<longleftrightarrow> v mod PGSIZE = 0 \<and> 0x80100000 \<le> v \<and> V2P v < PHYSTOP"
  by (simp add: kframe_def demo_def)

lemma demo_refs:
  assumes "kframe demo v"
  shows "refs demo v = (if v \<in> {0x80104000, 0x80105000, 0x80106000} then 0 else 1)"
proof -
  have k: "kframe demo 0x80104000" "kframe demo 0x80105000" "kframe demo 0x80106000"
    by (simp_all add: demo_kframe V2P_def)
  have n: "drop_bit 12 (V2P 0x80104000) = (0x104 :: uint)" "drop_bit 12 (V2P 0x80105000) = (0x105 :: uint)"
    "drop_bit 12 (V2P 0x80106000) = (0x106 :: uint)"
    by (simp_all add: V2P_def)
  show ?thesis
    using pfn_eq_iff [OF assms k(1)] pfn_eq_iff [OF assms k(2)] pfn_eq_iff [OF assms k(3)] n
    by (auto simp: refs_def demo_def)
qed

lemma demo_wf: "kmem_wf demo"
proof -
  let ?xs = "[0x80104000, 0x80105000, 0x80106000] :: uint list"
  have "flist (pages demo) (freelist demo) ?xs" by (simp add: demo_def)
  moreover have k: "\<forall>v \<in> set ?xs. kframe demo v" by (simp add: demo_kframe V2P_def)
  moreover have "\<forall>v \<in> set ?xs. refs demo v = 0" using k by (simp add: demo_refs)
  ultimately have "kmem_inv demo ?xs" by (simp add: kmem_inv_def) (simp add: demo_def)
  moreover have "set ?xs = {v. kframe demo v \<and> refs demo v = 0}"
    using k by (auto simp: demo_refs split: if_splits)
  ultimately show ?thesis unfolding kmem_wf_def by (intro conjI exI [of _ ?xs]) (auto simp: demo_def)
qed

abbreviation (input) demo_pgdir :: uint where "demo_pgdir \<equiv> 0x80101000"

text \<open>An address space with a single page table that maps page 0.\<close>

lemma one_page_space:
  assumes pd: "pages s d = (\<lambda>_. 0)(0 := V2P t OR 7)" and pt: "pages s t = (\<lambda>_. 0)(0 := w)" and t: "page_aligned t"
  shows "pt_index s d = {0}" "ptab s d 0 = t" "pt_pages s d = {d, t}" "entry s d = upd_entry (page_va 0) w (\<lambda>_. 0)"
proof -
  show i: "pt_index s d = {0}" by (auto simp: pt_index_def pd even_or_iff)
  have "PTE_ADDR (V2P t OR 7) = V2P t" using t by (intro PTE_ADDR_make) simp_all
  then show tt: "ptab s d 0 = t" unfolding ptab_def pd fun_upd_same by simp
  show "pt_pages s d = {d, t}" by (simp add: pt_pages_def i tt)
  show "entry s d = upd_entry (page_va 0) w (\<lambda>_. 0)"
    using pt by (auto simp: entry_def fun_eq_iff pd tt even_or_iff upd_entry_def same_page_iff page_va_def PDX_def PTX_def)
qed

lemma uspace_zero [simp]: "uspace (\<lambda>_. 0) = {#}"
  unfolding uspace_def by (rule uframes_none) simp

lemma uspace_one: "odd w \<Longrightarrow> uspace (upd_entry (page_va 0) w (\<lambda>_. 0)) = {#frame_of w#}"
  using uspace_upd [of 0 w "\<lambda>_. 0"] by (simp add: slot_def)

lemma frame_of_make: "page_aligned v \<Longrightarrow> unat f < 4096 \<Longrightarrow> frame_of (V2P v OR f) = v"
  by (simp add: frame_of_def)

lemma demo_tables:
  "pt_index demo demo_pgdir = {0}" "ptab demo demo_pgdir 0 = 0x80102000"
  "pt_pages demo demo_pgdir = {0x80101000, 0x80102000}"
  "entry demo demo_pgdir = upd_entry (page_va 0) (0x103000 OR 7) (\<lambda>_. 0)"
  using one_page_space [where s = demo and d = demo_pgdir and t = "0x80102000" and w = "0x103000 OR 7"]
  by (simp_all add: demo_def V2P_def page_aligned_def)

lemma demo_frame: "frame_of 0x103007 = 0x80103000"
  using frame_of_make [of "0x80103000" 7] by (simp add: V2P_def page_aligned_def)

lemma demo_mappings: "mappings demo {demo_pgdir} = {#0x80103000#}"
  by (simp add: mappings_def demo_tables(4) uspace_one demo_frame)

lemma demo_inv: "vm_inv demo {demo_pgdir}"
proof -
  have k: "kframe demo 0x80101000" "kframe demo 0x80102000" "kframe demo 0x80103000"
    by (simp_all add: demo_kframe V2P_def)
  have "pt_ok demo demo_pgdir" using k by (simp add: pt_ok_def demo_tables demo_refs)
  moreover have "exclusive {#0x80103000#} (entry demo demo_pgdir (page_va i))" if "i < user_pages" for i
    using that demo_frame by (simp add: demo_tables(4) upd_entry_aligned page_va_eq exclusive_def)
  ultimately show ?thesis
    using k by (simp add: vm_inv_def demo_mappings demo_wf demo_tables(3) demo_refs)
qed

section \<open>The kernel's own table\<close>

lemma unat_aligned_mult: "page_aligned a \<Longrightarrow> \<exists>q < 1048576. unat a = 4096 * q"
  using div_mult_mod_eq [of "unat a" 4096] page_number_less [of a]
  by (intro exI [of _ "unat a div 4096"]) (simp add: page_aligned_unat)

lemma map_range_number:
  assumes "page_aligned a" and "unat a + 4096 * m \<le> 4294967296"
  shows "map_range m a pa pm e va =
    (if unat a \<le> unat va \<and> unat va < unat a + 4096 * m then (pa + (PGROUNDDOWN va - a)) OR pm OR PTE_P else e va)"
proof -
  obtain q where q: "q < 1048576" "unat a = 4096 * q" using unat_aligned_mult [OF assms(1)] by blast
  have m: "m \<le> 1048576" "q + m \<le> 1048576" using assms(2) q by auto
  have at: "PGROUNDDOWN va = a + of_nat i * PGSIZE \<longleftrightarrow> unat va div 4096 = q + i" if "i < m" for i
  proof -
    have "unat (a + of_nat i * PGSIZE) = 4096 * (q + i)"
      using that m q by (subst unat_add_nowrap) (simp_all add: unat_pages)
    then show ?thesis by (auto simp: word_unat_eq_iff unat_PGROUNDDOWN)
  qed
  note ap = map_range_apply [OF assms(1) m(1), of va pa pm e]
  show ?thesis
  proof (cases "unat a \<le> unat va \<and> unat va < unat a + 4096 * m")
    case True
    define i where "i = unat va div 4096 - q"
    have "q \<le> unat va div 4096" "unat va div 4096 < q + m"
      using True q by (simp_all add: less_eq_div_iff_mult_less_eq div_less_iff_less_mult algebra_simps)
    then have i: "i < m" "unat va div 4096 = q + i" by (auto simp: i_def)
    then have "PGROUNDDOWN va = a + of_nat i * PGSIZE" using at by blast
    then show ?thesis using ap i(1) True by simp
  next
    case False
    have "unat va div 4096 \<noteq> q + i" if "i < m" for i
    proof
      assume h: "unat va div 4096 = q + i"
      have "unat va = 4096 * (q + i) + unat va mod 4096"
        unfolding h [symmetric] by (rule mult_div_mod_eq [symmetric])
      then obtain r where r: "unat va = 4096 * q + 4096 * i + r" "r < 4096"
        by (metis add_mult_distrib2 mod_less_divisor zero_less_numeral)
      have "4096 * i + 4096 \<le> 4096 * m" using that by simp
      then show False using False q(2) r by auto
    qed
    then show ?thesis using ap at False by (metis (no_types, lifting))
  qed
qed

lemma map_span_size:
  assumes "page_aligned va" and "page_aligned sz" and "sz \<noteq> 0" and "unat va + unat sz \<le> 4294967296"
  shows "Suc (map_span va sz) = unat sz div 4096"
proof -
  obtain a k where a: "unat va = 4096 * a" and k: "unat sz = 4096 * k"
    using unat_aligned_mult assms(1,2) by blast
  have k0: "0 < k" using assms(3) k by (cases k) (simp_all add: word_unat_eq_iff)
  have u1: "unat (sz - 1) = unat sz - 1" using assms(3) by (simp add: unat_minus_one)
  then have u: "unat (va + (sz - 1)) = 4096 * a + (4096 * k - 1)"
    using assms(4) a k k0 by (subst unat_add_nowrap) auto
  have "(4096 * a + (4096 * k - 1)) div 4096 = a + (k - 1)"
    using k0 by (cases k) auto
  then have "unat (PGROUNDDOWN (va + (sz - 1))) = 4096 * (a + (k - 1))"
    by (simp add: unat_PGROUNDDOWN u)
  moreover have "PGROUNDDOWN va = va" using assms(1) by (simp add: page_aligned_round)
  ultimately have "unat (PGROUNDDOWN (va + (sz - 1)) - PGROUNDDOWN va) = 4096 * (k - 1)"
    using a by (simp add: unat_sub word_le_nat_alt)
  then show ?thesis using k k0 by (simp add: map_span_def add_diff_eq)
qed

lemma kmap_apply_range:
  assumes "page_aligned (virt k)" and "page_aligned (phys_end k - phys_start k)" and "phys_end k \<noteq> phys_start k"
    and "unat (virt k) + unat (phys_end k - phys_start k) \<le> 4294967296"
  shows "kmap_apply k e va =
    (if unat (virt k) \<le> unat va \<and> unat va < unat (virt k) + unat (phys_end k - phys_start k)
     then (phys_start k + (PGROUNDDOWN va - virt k)) OR perm k OR PTE_P else e va)"
proof -
  let ?sz = "phys_end k - phys_start k"
  have "?sz \<noteq> 0" using assms(3) by simp
  note sp = map_span_size [OF assms(1,2) this assms(4)]
  have d: "4096 * (unat ?sz div 4096) = unat ?sz"
    using assms(2) by (auto simp: page_aligned_unat)
  have r: "PGROUNDDOWN (virt k) = virt k" using assms(1) by (simp add: page_aligned_round)
  show ?thesis
    unfolding kmap_apply_def sp r using map_range_number [OF assms(1), of "unat ?sz div 4096"] assms(4) d by simp
qed

lemma kmap_fits_step:
  assumes "page_aligned (virt k)" and "page_aligned (phys_end k - phys_start k)" and "phys_end k \<noteq> phys_start k"
    and "unat (virt k) + unat (phys_end k - phys_start k) \<le> 4294967296" and "0x80000000 \<le> unat (virt k)"
    and "\<And>va. unat (virt k) \<le> unat va \<Longrightarrow> unat va < unat (virt k) + unat (phys_end k - phys_start k) \<Longrightarrow> even (e va)"
    and "kmap_fits ks (kmap_apply k e)"
  shows "kmap_fits (k # ks) e"
proof -
  let ?sz = "phys_end k - phys_start k"
  have "?sz \<noteq> 0" using assms(3) by simp
  note sp = map_span_size [OF assms(1,2) this assms(4)]
  have d: "4096 * (unat ?sz div 4096) = unat ?sz" using assms(2) by (auto simp: page_aligned_unat)
  have r: "PGROUNDDOWN (virt k) = virt k" using assms(1) by (simp add: page_aligned_round)
  have "unat (virt k + of_nat i * PGSIZE) = unat (virt k) + 4096 * i" if "i \<le> map_span (virt k) ?sz" for i
  proof -
    have "4096 * Suc i \<le> 4096 * (unat ?sz div 4096)" using that unfolding sp [symmetric] by simp
    then have "unat (virt k) + 4096 * Suc i \<le> 4294967296" using d assms(4) by simp
    then show ?thesis by (subst unat_add_nowrap) (simp_all add: unat_pages)
  qed
  moreover have "4096 * i < unat ?sz" if "i \<le> map_span (virt k) ?sz" for i
  proof -
    have "4096 * Suc i \<le> 4096 * (unat ?sz div 4096)" using that unfolding sp [symmetric] by simp
    then show ?thesis using d by simp
  qed
  ultimately show ?thesis using assms(5,6,7) by (simp add: r word_le_nat_alt)
qed

text \<open>The address space that the table of the source describes, for the linker symbol \<^verbatim>\<open>data\<close>.\<close>

definition kernel_entry :: "uint \<Rightarrow> uint \<Rightarrow> uint" where
  "kernel_entry data va =
     (if va < KERNBASE then 0
      else if va < KERNLINK then V2P (PGROUNDDOWN va) OR PTE_W OR PTE_P
      else if va < data then V2P (PGROUNDDOWN va) OR PTE_P
      else if va < P2V PHYSTOP then V2P (PGROUNDDOWN va) OR PTE_W OR PTE_P
      else if va < DEVSPACE then 0
      else PGROUNDDOWN va OR PTE_W OR PTE_P)"

lemma kmap_table_fits:
  assumes "page_aligned data" and "KERNLINK < data" and "data < P2V PHYSTOP"
  shows "kmap_fits (kmap_table data) (\<lambda>_. 0)" "fold kmap_apply (kmap_table data) (\<lambda>_. 0) = kernel_entry data"
proof -
  have dt: "0x80100000 < unat data" "unat data < 0x8E000000"
    using assms(2,3) by (simp_all add: word_less_nat_alt P2V_def)
  have V: "V2P data - 0x100000 = data - 0x80100000" "0xE000000 - V2P data = 0x8E000000 - data" by (simp_all add: V2P_def)
  have al: "page_aligned 0x80000000" "page_aligned 0x80100000" "page_aligned 0xFE000000" "page_aligned 0x100000"
      "page_aligned 0x8E000000" "page_aligned (- 0xFE000000)" by (simp_all add: page_aligned_def)
  have sz: "unat (data - 0x80100000) = unat data - 0x80100000" "unat (0x8E000000 - data) = 0x8E000000 - unat data"
    using dt by (simp_all add: unat_sub word_le_nat_alt)
  let ?k1 = "\<lparr>virt = KERNBASE, phys_start = 0, phys_end = EXTMEM, perm = PTE_W\<rparr>"
  let ?k2 = "\<lparr>virt = KERNLINK, phys_start = V2P KERNLINK, phys_end = V2P data, perm = 0\<rparr>"
  let ?k3 = "\<lparr>virt = data, phys_start = V2P data, phys_end = PHYSTOP, perm = PTE_W\<rparr>"
  let ?k4 = "\<lparr>virt = DEVSPACE, phys_start = DEVSPACE, phys_end = 0, perm = PTE_W\<rparr>"
  have k1: "kmap_apply ?k1 e va = (if 0x80000000 \<le> unat va \<and> unat va < 0x80100000
      then (PGROUNDDOWN va - 0x80000000) OR 2 OR 1 else e va)" for e va
    using al by (subst kmap_apply_range) simp_all
  have k2: "kmap_apply ?k2 e va = (if 0x80100000 \<le> unat va \<and> unat va < unat data
      then (0x100000 + (PGROUNDDOWN va - 0x80100000)) OR 0 OR 1 else e va)" for e va
    using al assms(1) dt sz V by (subst kmap_apply_range) (auto simp: V2P_def page_aligned_diff)
  have k3: "kmap_apply ?k3 e va = (if unat data \<le> unat va \<and> unat va < 0x8E000000
      then (V2P data + (PGROUNDDOWN va - data)) OR 2 OR 1 else e va)" for e va
    using al assms(1) dt sz V by (subst kmap_apply_range) (auto simp: page_aligned_diff V2P_def)
  have k4: "kmap_apply ?k4 e va = (if 0xFE000000 \<le> unat va
      then (0xFE000000 + (PGROUNDDOWN va - 0xFE000000)) OR 2 OR 1 else e va)" for e va
    using al unat_uint_bound [of va] by (subst kmap_apply_range) (simp_all add: page_aligned_def)
  have "fold kmap_apply (kmap_table data) (\<lambda>_. 0) va = kernel_entry data va" for va
  proof -
    have "fold kmap_apply (kmap_table data) (\<lambda>_. 0) va =
        kmap_apply ?k4 (kmap_apply ?k3 (kmap_apply ?k2 (kmap_apply ?k1 (\<lambda>_. 0)))) va"
      by (simp only: kmap_table_def fold.simps o_apply id_apply)
    also have "\<dots> = kernel_entry data va"
      unfolding k1 k2 k3 k4 using dt by (simp add: kernel_entry_def word_less_nat_alt V2P_def P2V_def)
    finally show ?thesis .
  qed
  then show "fold kmap_apply (kmap_table data) (\<lambda>_. 0) = kernel_entry data" by blast
  show "kmap_fits (kmap_table data) (\<lambda>_. 0)"
    unfolding kmap_table_def
    by (intro kmap_fits_step; (unfold k1 k2 k3)?)
      (use al assms(1) dt sz V in \<open>auto simp: V2P_def page_aligned_diff\<close>)
qed

section \<open>Properties\<close>





text \<open>C12: \<^verbatim>\<open>freevm\<close> of an address space terminates without panic: all its table pages and all frames only
  it mapped return to the free list, every frame it shares loses exactly its references, and the
  remaining address spaces keep their entries, their contents and the invariant.\<close>

theorem freevm_releases:
  assumes "vm_inv s D" and "d \<in> D"
  shows "\<exists>s'. freevm d s = Ok s' \<and> vm_inv s' (D - {d}) \<and> isolated d D s s' \<and>
    (\<forall>u \<in> pt_pages s d. refs s' u = 0) \<and>
    (\<forall>f \<in># mappings s D. refs s' f = count (mappings s (D - {d})) f)"
proof -
  obtain s' where s': "freevm d s = Ok s'" "vm_inv s' (D - {d})" "isolated d D s s'"
    "\<forall>u. kframe s u \<longrightarrow> refs s' u = (if u \<in> pt_pages s d then 0 else refs s u - count (uspace (entry s d)) u)"
    using freevm_inv [OF assms] by (elim exE conjE)
  have "\<forall>u \<in> pt_pages s d. refs s' u = 0"
    using s'(4) pt_okD [OF vm_invD(3) [OF assms]] by simp
  moreover have "refs s' f = count (mappings s (D - {d})) f" if "f \<in># mappings s D" for f
    using s'(4) vm_invD(5,6) [OF assms(1) that] vm_invD(7) [OF assms(1) that assms(2)]
      total_remove [OF vm_invD(1) [OF assms(1)] assms(2), of s] by simp
  ultimately show ?thesis using s' by blast
qed

theorem freevm_releases_witness:
  "\<exists>s'. freevm demo_pgdir demo = Ok s' \<and> vm_inv s' {} \<and> refs s' 0x80103000 = 0 \<and> refs s' 0x80102000 = 0"
proof -
  have "mappings demo ({demo_pgdir} - {demo_pgdir}) = {#}" by (simp add: mappings_def)
  then show ?thesis
    using freevm_releases [OF demo_inv insertI1] by (auto simp: demo_mappings demo_tables(3))
qed



text \<open>C10: A write fault on a present user page without write permission never panics. Either memory is
  exhausted, the process is marked as killed and nothing changes, or afterwards the faulting page is
  writable, its frame has the contents of the old one and is mapped by no other page of any address
  space, the translation cache is flushed, and all other entries, address spaces and the invariant are
  as before.\<close>

theorem pagefault_cow:
  assumes "vm_inv (km m) D" and "d \<in> D" and "va < KERNBASE"
    and "odd (entry (km m) d va)" and "bit (entry (km m) d va) 2" and "\<not> bit (entry (km m) d va) 1"
  shows "\<exists>killed m'. pagefault (Some d) va m = Ok (killed, m') \<and> vm_inv (km m') D \<and> isolated d D (km m) (km m') \<and>
    (if killed then entry (km m') d = entry (km m) d \<and> (\<forall>u. kframe (km m) u \<longrightarrow> refs (km m) u \<noteq> 0)
     else cr3 m' = V2P d \<and> (\<exists>w. entry (km m') d = upd_entry (PGROUNDDOWN va) w (entry (km m) d) \<and>
       odd w \<and> bit w 1 \<and> bit w 2 \<and> pages (km m') (frame_of w) = pages (km m) (frame_of (entry (km m) d va)) \<and>
       count (mappings (km m') D) (frame_of w) = 1))"
proof -
  define i where "i = unat va div 4096"
  note pv = page_of_va [OF i_def]
  have i: "i < user_pages" using assms(3) by (simp add: i_def word_less_nat_alt)
  let ?w = "entry (km m) d (page_va i)"
  let ?t = "(ptab (km m) d (PDX (page_va i)), PTX (page_va i))"
  have w: "odd ?w" "bit ?w 2" "\<not> bit ?w 1" using assms(4-6) pv(4) [of "km m" d] by simp_all
  have fm: "frame_of ?w \<in># uspace (entry (km m) d)" using w(1) i in_uspace by blast
  note fo = vm_inv_others_frame [OF assms(1,2) fm]
  obtain c where c: "getReferenceCount (V2P (frame_of ?w)) (km m) = Ok c" "unat c = refs (km m) (frame_of ?w)"
    using getReferenceCount_eq [OF vm_invD(2) [OF assms(1)] fo(2)] by blast
  have pa: "V2P (frame_of ?w) = PTE_ADDR ?w" by (simp add: frame_of_def)
  have rd: "read_pte ?t (km m) = ?w"
    using entry_odd_table [OF w(1)] by (simp add: entry_def read_pte_def)
  have "\<not> KERNBASE \<le> va" using assms(3) by simp
  then have "pagefault_check (Some d) va (km m) = Ok (Some (?t, PTE_ADDR ?w, c))"
    using entry_odd_table [OF w(1)] rd w c(1) pv(2,3)
    by (simp add: pagefault_check_def walk_noalloc pa del: One_nat_def)
  then have "pagefault (Some d) va m = pagefault_resolve d ?t (PTE_ADDR ?w) c m"
    by (simp add: pagefault_def)
  with pagefault_resolve_spec [OF assms(1,2) i refl w(1,2) refl c(2) refl] show ?thesis
    unfolding pv(1) pv(4) [of "km m" d] by simp
qed

text \<open>A memory with two address spaces that share one frame read-only, as after a fork.\<close>

definition demo2 :: kmem where
  "demo2 = demo\<lparr>pg_refcount := (\<lambda>_. 1)(0x103 := 2, 0x104 := 0, 0x105 := 0, 0x106 := 0),
     pages := (pages demo)
       (0x80102000 := (\<lambda>_. 0)(0 := 0x103000 OR 5),
        0x80107000 := (\<lambda>_. 0)(0 := 0x108000 OR 7),
        0x80108000 := (\<lambda>_. 0)(0 := 0x103000 OR 5))\<rparr>"

abbreviation (input) demo_child :: uint where "demo_child \<equiv> 0x80107000"

lemma demo2_kframe: "kframe demo2 = kframe demo"
  by (rule kframe_cong) (simp add: demo2_def)

lemma demo2_refs:
  assumes "kframe demo2 v"
  shows "refs demo2 v = (if v = 0x80103000 then 2 else refs demo v)"
proof -
  have k: "kframe demo 0x80103000" by (simp add: demo_kframe V2P_def)
  have "drop_bit 12 (V2P 0x80103000) = (0x103 :: uint)" by (simp add: V2P_def)
  then show ?thesis
    using pfn_eq_iff [OF assms k] by (auto simp: refs_def demo2_def demo_def)
qed

lemma demo2_wf: "kmem_wf demo2"
proof -
  let ?xs = "[0x80104000, 0x80105000, 0x80106000] :: uint list"
  have "flist (pages demo2) (freelist demo2) ?xs" by (simp add: demo2_def demo_def)
  moreover have k: "\<forall>v \<in> set ?xs. kframe demo v" by (simp add: demo_kframe V2P_def)
  moreover have "\<forall>v \<in> set ?xs. refs demo2 v = 0" using k by (simp add: demo2_refs demo2_kframe demo_refs)
  ultimately have "kmem_inv demo2 ?xs" by (simp add: kmem_inv_def demo2_kframe) (simp add: demo2_def demo_def)
  moreover have "set ?xs = {v. kframe demo2 v \<and> refs demo2 v = 0}"
    using k by (auto simp: demo2_refs demo2_kframe demo_refs split: if_splits)
  ultimately show ?thesis unfolding kmem_wf_def by (intro conjI exI [of _ ?xs]) (auto simp: demo2_def demo_def)
qed

lemma demo2_tables:
  "pt_index demo2 demo_pgdir = {0}" "ptab demo2 demo_pgdir 0 = 0x80102000" "pt_pages demo2 demo_pgdir = {0x80101000, 0x80102000}"
  "entry demo2 demo_pgdir = upd_entry (page_va 0) (0x103000 OR 5) (\<lambda>_. 0)"
  "pt_index demo2 demo_child = {0}" "ptab demo2 demo_child 0 = 0x80108000" "pt_pages demo2 demo_child = {0x80107000, 0x80108000}"
  "entry demo2 demo_child = upd_entry (page_va 0) (0x103000 OR 5) (\<lambda>_. 0)"
  using one_page_space [where s = demo2 and d = demo_pgdir and t = "0x80102000" and w = "0x103000 OR 5"] one_page_space [where s = demo2 and d = demo_child and t = "0x80108000" and w = "0x103000 OR 5"]
  by (simp_all add: demo2_def demo_def V2P_def page_aligned_def)

lemma demo2_frame: "frame_of 0x103005 = 0x80103000"
  using frame_of_make [of "0x80103000" 5] by (simp add: V2P_def page_aligned_def)

lemma demo2_mappings: "mappings demo2 {demo_pgdir, demo_child} = {#0x80103000, 0x80103000#}"
  by (simp add: mappings_def demo2_tables(4,8) uspace_one demo2_frame)

lemma demo2_inv: "vm_inv demo2 {demo_pgdir, demo_child}"
proof -
  have k: "kframe demo2 0x80101000" "kframe demo2 0x80102000" "kframe demo2 0x80103000"
    "kframe demo2 0x80107000" "kframe demo2 0x80108000"
    by (simp_all add: demo2_kframe demo_kframe V2P_def)
  then have "pt_ok demo2 demo_pgdir" "pt_ok demo2 demo_child"
    by (simp_all add: pt_ok_def demo2_tables demo2_refs demo_refs demo2_kframe)
  moreover have "exclusive {#0x80103000, 0x80103000#} (entry demo2 d (page_va i))"
    if "d \<in> {demo_pgdir, demo_child}" "i < user_pages" for d i
    using that by (cases "i = 0") (auto simp: demo2_tables(4,8) upd_entry_aligned page_va_eq exclusive_def)
  ultimately show ?thesis
    using k by (simp add: vm_inv_def demo2_mappings demo2_wf demo2_tables(3,7) demo2_refs)
qed

theorem pagefault_cow_witness:
  "\<exists>killed m'. pagefault (Some demo_child) 0x123 \<lparr>km = demo2, cr3 = 0, kpgdir = 0\<rparr> = Ok (killed, m') \<and>
     vm_inv (km m') {demo_pgdir, demo_child} \<and> (\<not> killed \<longrightarrow> cr3 m' = 0x107000)"
proof -
  let ?m = "\<lparr>km = demo2, cr3 = 0, kpgdir = 0\<rparr>"
  have inv: "vm_inv (km ?m) {demo_pgdir, demo_child}" using demo2_inv by simp
  have "entry demo2 demo_child 0x123 = 0x103000 OR 5"
    by (simp add: demo2_tables(8) upd_entry_def same_page_number page_va_def)
  then have e: "entry (km ?m) demo_child 0x123 = 0x103005" by simp
  have p: "demo_child \<in> {demo_pgdir, demo_child}" "(0x123 :: uint) < KERNBASE"
    "odd (entry (km ?m) demo_child 0x123)" "bit (entry (km ?m) demo_child 0x123) 2" "\<not> bit (entry (km ?m) demo_child 0x123) 1"
    unfolding e by simp_all
  have "V2P demo_child = 0x107000" by (simp add: V2P_def)
  with pagefault_cow [OF inv p] show ?thesis by (auto split: if_splits)
qed

section \<open>Two page faults at once\<close>

text \<open>Dropping the last reference with \<^verbatim>\<open>decrementReferenceCount\<close> loses the page: unlike \<^verbatim>\<open>kfree\<close> it does
  not put it on the free list.\<close>

lemma decrement_last_leaks:
  assumes wf: "kmem_wf s" and f: "kframe s f" "refs s f = 1"
    and d: "decrementReferenceCount (V2P f) s = Ok s'"
  shows "refs s' f = 0 \<and> \<not> kmem_wf s'"
proof -
  have s': "s' = s\<lparr>pg_refcount := (pg_refcount s)(drop_bit PGSHIFT (V2P f) := pg_refcount s (drop_bit PGSHIFT (V2P f)) - 1)\<rparr>"
    using d by (simp add: decrementReferenceCount_def Let_def split: if_splits)
  have z: "refs s' f = 0" using f(2) by (simp add: s' refs_def word_unat_eq_iff unat_minus_one)
  obtain xs where xs: "kmem_inv s xs" "set xs = {v. kframe s v \<and> refs s v = 0}" using wf by (auto simp: kmem_wf_def)
  have "\<not> kmem_wf s'"
  proof
    assume "kmem_wf s'"
    then obtain ys where ys: "kmem_inv s' ys" "set ys = {v. kframe s' v \<and> refs s' v = 0}" by (auto simp: kmem_wf_def)
    have "ys = xs" using xs(1) ys(1) flist_unique by (auto simp: kmem_inv_def s')
    moreover have "f \<in> set ys" using ys(2) z f(1) by (simp add: s')
    ultimately show False using xs(2) f(2) by simp
  qed
  with z show ?thesis by blast
qed

text \<open>C14: The reference count that \<^verbatim>\<open>pagefault\<close> reads must still hold when the fault is resolved. Nothing
  in the code guarantees this: the lock of the allocator is released between the two. If two CPUs fault on
  the same frame with two references, both read 2; after the first has resolved its fault the count is 1,
  and the second continues with its stale count. It copies the page and drops the last reference with
  \<^verbatim>\<open>decrementReferenceCount\<close>: the count is zero, the frame is not on the free list, and the invariant of
  the allocator is broken.\<close>

theorem pagefault_stale_count_leaks:
  assumes inv: "vm_inv (km m) D" and d: "d \<in> D" and va: "va < KERNBASE"
    and e: "odd (entry (km m) d va)" and f: "f = frame_of (entry (km m) d va)" "refs (km m) f = 1"
    and c: "1 < c" and free: "kframe (km m) u" "refs (km m) u = 0"
  shows "\<exists>m'. pagefault_resolve d (ptab (km m) d (PDX va), PTX va) (PTE_ADDR (entry (km m) d va)) c m = Ok (False, m') \<and>
    kframe (km m') f \<and> refs (km m') f = 0 \<and> \<not> kmem_wf (km m')"
proof -
  let ?s = "km m" and ?t = "(ptab (km m) d (PDX va), PTX va)"
  have i: "unat va div 4096 < user_pages" using va by (simp add: word_less_nat_alt)
  have fm: "f \<in># uspace (entry ?s d)"
    using i e f(1) page_of_va(4) [OF refl, of ?s d va] in_uspace [of _ "entry ?s d"] by metis
  note fo = vm_inv_others_frame [OF inv d fm]
  obtain mem s1 where k: "kalloc ?s = (mem, s1)" by (cases "kalloc ?s")
  note a = kalloc_wf [OF vm_invD(2) [OF inv] k]
  have mem: "mem \<noteq> 0" using a free by auto
  with a have r1: "kmem_wf s1" "kend s1 = kend ?s" "pages s1 = pages ?s" "refs s1 mem = 1" "refs ?s mem = 0" "kframe ?s mem"
    "\<And>u. kframe ?s u \<Longrightarrow> refs s1 u = (if u = mem then 1 else refs ?s u)" by auto
  let ?s2 = "copy_page mem f s1"
  let ?s3 = "write_pte ?t (V2P mem OR PTE_P OR PTE_U OR PTE_W) ?s2"
  have s3: "?s3 = ?s2\<lparr>pages := (pages ?s2)(fst ?t := (pages ?s2 (fst ?t))(snd ?t := V2P mem OR PTE_P OR PTE_U OR PTE_W))\<rparr>"
    by (simp add: write_pte_def store_word_def)
  have tp: "fst ?t \<in> pt_pages ?s d" using pt_pagesI entry_odd_table [OF e] by simp
  have "kframe ?s (fst ?t)" "refs ?s (fst ?t) \<noteq> 0" using pt_okD [OF vm_invD(3) [OF inv d] tp] by auto
  then have tr: "refs s1 (fst ?t) \<noteq> 0" using r1(7) by simp
  have "kmem_wf ?s2" unfolding copy_page_def using kmem_wf_pages [OF r1(1), of mem] r1(4) by simp
  then have wf3: "kmem_wf ?s3" unfolding s3 using kmem_wf_pages [of ?s2 "fst ?t"] tr by (simp add: copy_page_def)
  have kf: "kframe ?s3 = kframe ?s" by (rule kframe_cong) (simp add: write_pte_def store_word_def copy_page_def r1(2))
  have rf: "refs ?s3 f = 1"
    using r1(7) [OF fo(2)] r1(5) f(2) by (auto simp: write_pte_def store_word_def copy_page_def split: if_splits)
  have pa: "PTE_ADDR (entry ?s d va) = V2P f" "P2V (PTE_ADDR (entry ?s d va)) = f" by (simp_all add: f(1) frame_of_def)
  have "\<not> V2P f < V2P (kend ?s3)" "\<not> V2P f \<ge> PHYSTOP" using kframe_pa [OF wf3, of f] fo(2) kf by simp_all
  then obtain s4 where s4: "decrementReferenceCount (V2P f) ?s3 = Ok s4"
    by (simp add: decrementReferenceCount_def Let_def)
  have "kend s4 = kend ?s3" using s4 by (auto simp: decrementReferenceCount_def Let_def split: if_splits)
  then have k4: "kframe s4 f" using kframe_cong [of s4 ?s3] kf fo(2) by simp
  note leak = decrement_last_leaks [OF wf3 _ rf s4]
  show ?thesis
    using c k mem s4 leak k4 kf fo(2) pa
    by (intro exI [of _ "lcr3 (V2P d) (m\<lparr>km := s4\<rparr>)"]) (simp add: pagefault_resolve_def Let_def lcr3_def)
qed

theorem pagefault_stale_count_leaks_witness:
  "\<exists>m'. pagefault_resolve demo_pgdir (0x80102000, 0) 0x103000 2 \<lparr>km = demo, cr3 = 0, kpgdir = 0\<rparr> = Ok (False, m') \<and>
    refs (km m') 0x80103000 = 0 \<and> \<not> kmem_wf (km m')"
proof -
  let ?m = "\<lparr>km = demo, cr3 = 0, kpgdir = 0\<rparr>"
  have e: "entry (km ?m) demo_pgdir 0 = 0x103007"
    by (simp add: demo_tables upd_entry_def same_page_number page_va_def)
  have f: "0x80103000 = frame_of (entry (km ?m) demo_pgdir 0)" unfolding e by (simp add: demo_frame)
  have k: "kframe demo 0x80103000" "kframe demo 0x80104000" by (simp_all add: demo_kframe V2P_def)
  have r: "refs (km ?m) 0x80103000 = 1" "refs (km ?m) 0x80104000 = 0" using k by (simp_all add: demo_refs)
  have PT: "PTX 0 = 0" "PDX 0 = 0" by (simp_all add: PTX_def PDX_def)
  have PA: "PTE_ADDR 0x103007 = 0x103000" by (simp add: PTE_ADDR_def)
  have p: "vm_inv (km ?m) {demo_pgdir}" "demo_pgdir \<in> {demo_pgdir}" "(0::uint) < KERNBASE" "odd (entry (km ?m) demo_pgdir 0)"
    "(1::uint) < 2" "kframe (km ?m) 0x80104000" unfolding e using demo_inv k by simp_all
  show ?thesis
    using pagefault_stale_count_leaks [OF p(1-4) f r(1) p(5,6) r(2)] unfolding e PT PA by (auto simp: demo_tables(2))
qed

end
