(* ===== verification/Strings.thy ===== *)
theory Strings
  imports Prelude
begin

text \<open>
  The memory and string routines of \<^verbatim>\<open>string.c\<close>. Memory is a function from 32-bit addresses
  to bytes; pointers wrap around like the machine's. A loop over a counter is recursion on the
  counter; a loop that runs to a NUL byte may not end and is a partial function, whose results are
  then shown to exist for the strings the kernel passes.
\<close>

type_synonym bytes = "uint \<Rightarrow> uchar"

section \<open>memset\<close>

text \<open>\<^verbatim>\<open>stosb\<close> and \<^verbatim>\<open>stosl\<close> are the string-store instructions of \<^verbatim>\<open>x86.h\<close>; the latter stores a
  word with its low byte first.\<close>

primrec stosb :: "nat \<Rightarrow> bytes \<Rightarrow> uint \<Rightarrow> uchar \<Rightarrow> bytes" where
  "stosb 0 m addr c = m"
| "stosb (Suc k) m addr c = stosb k (m(addr := c)) (addr + 1) c"

definition store32 :: "bytes \<Rightarrow> uint \<Rightarrow> uint \<Rightarrow> bytes" where
  "store32 m addr w =
     m(addr := ucast w, addr + 1 := ucast (drop_bit 8 w), addr + 2 := ucast (drop_bit 16 w),
       addr + 3 := ucast (drop_bit 24 w))"

primrec stosl :: "nat \<Rightarrow> bytes \<Rightarrow> uint \<Rightarrow> uint \<Rightarrow> bytes" where
  "stosl 0 m addr w = m"
| "stosl (Suc k) m addr w = stosl k (store32 m addr w) (addr + 4) w"

definition memset :: "bytes \<Rightarrow> uint \<Rightarrow> uint \<Rightarrow> uint \<Rightarrow> bytes" where
  "memset m dst c n =
     (if unat dst mod 4 = 0 \<and> unat n mod 4 = 0
      then
        let c = c AND 0xFF
        in stosl (unat n div 4) m dst (push_bit 24 c OR push_bit 16 c OR push_bit 8 c OR c)
      else stosb (unat n) m dst (ucast c))"

section \<open>memcmp, memmove\<close>

primrec memcmp :: "nat \<Rightarrow> bytes \<Rightarrow> uint \<Rightarrow> uint \<Rightarrow> int" where
  "memcmp 0 m s1 s2 = 0"
| "memcmp (Suc n) m s1 s2 =
     (if m s1 \<noteq> m s2 then int (unat (m s1)) - int (unat (m s2)) else memcmp n m (s1 + 1) (s2 + 1))"

primrec copy_forward :: "nat \<Rightarrow> bytes \<Rightarrow> uint \<Rightarrow> uint \<Rightarrow> bytes" where
  "copy_forward 0 m d s = m"
| "copy_forward (Suc n) m d s = copy_forward n (m(d := m s)) (d + 1) (s + 1)"

primrec copy_backward :: "nat \<Rightarrow> bytes \<Rightarrow> uint \<Rightarrow> uint \<Rightarrow> bytes" where
  "copy_backward 0 m d s = m"
| "copy_backward (Suc n) m d s = copy_backward n (m(d - 1 := m (s - 1))) (d - 1) (s - 1)"

definition memmove :: "bytes \<Rightarrow> uint \<Rightarrow> uint \<Rightarrow> uint \<Rightarrow> bytes" where
  "memmove m dst src n =
     (if src < dst \<and> src + n > dst
      then copy_backward (unat n) m (dst + n) (src + n)
      else copy_forward (unat n) m dst src)"

definition memcpy :: "bytes \<Rightarrow> uint \<Rightarrow> uint \<Rightarrow> uint \<Rightarrow> bytes" where
  "memcpy m dst src n = memmove m dst src n"

section \<open>Strings\<close>

primrec strncmp :: "nat \<Rightarrow> bytes \<Rightarrow> uint \<Rightarrow> uint \<Rightarrow> int" where
  "strncmp 0 m p q = 0"
| "strncmp (Suc n) m p q =
     (if m p \<noteq> 0 \<and> m p = m q then strncmp n m (p + 1) (q + 1)
      else int (unat (m p)) - int (unat (m q)))"

text \<open>The two loops of \<^verbatim>\<open>strncpy\<close>. When the first one stops on the counter, the counter is
  negative and the second loop does not run; when it stops on a NUL byte the second loop fills the rest.\<close>

primrec strncpy_pad :: "nat \<Rightarrow> bytes \<Rightarrow> uint \<Rightarrow> bytes" where
  "strncpy_pad 0 m s = m"
| "strncpy_pad (Suc n) m s = strncpy_pad n (m(s := 0)) (s + 1)"

primrec strncpy_copy :: "nat \<Rightarrow> bytes \<Rightarrow> uint \<Rightarrow> uint \<Rightarrow> bytes" where
  "strncpy_copy 0 m s t = m"
| "strncpy_copy (Suc n) m s t =
     (let m1 = m(s := m t)
      in if m t \<noteq> 0 then strncpy_copy n m1 (s + 1) (t + 1) else strncpy_pad n m1 (s + 1))"

definition strncpy :: "bytes \<Rightarrow> uint \<Rightarrow> uint \<Rightarrow> int \<Rightarrow> bytes" where
  "strncpy m s t n = strncpy_copy (nat n) m s t"

text \<open>The loop of \<^verbatim>\<open>safestrcpy\<close> returns the memory and the final \<^verbatim>\<open>s\<close>.\<close>

primrec safestrcpy_loop :: "nat \<Rightarrow> bytes \<Rightarrow> uint \<Rightarrow> uint \<Rightarrow> bytes \<times> uint" where
  "safestrcpy_loop 0 m s t = (m, s)"
| "safestrcpy_loop (Suc n) m s t =
     (if m t \<noteq> 0 then safestrcpy_loop n (m(s := m t)) (s + 1) (t + 1) else (m(s := m t), s + 1))"

definition safestrcpy :: "bytes \<Rightarrow> uint \<Rightarrow> uint \<Rightarrow> int \<Rightarrow> bytes" where
  "safestrcpy m s t n =
     (if n \<le> 0 then m
      else let (m1, s1) = safestrcpy_loop (nat (n - 1)) m s t in m1(s1 := 0))"

partial_function (option) strlen_loop :: "bytes \<Rightarrow> uint \<Rightarrow> nat \<Rightarrow> nat option" where
  "strlen_loop m s n = (if m (s + of_nat n) \<noteq> 0 then strlen_loop m s (Suc n) else Some n)"

definition strlen :: "bytes \<Rightarrow> uint \<Rightarrow> nat option" where
  "strlen m s = strlen_loop m s 0"

text \<open>\<open>cstr m s xs\<close>: the NUL-terminated string at \<open>s\<close> has the bytes \<open>xs\<close>.\<close>

fun cstr :: "bytes \<Rightarrow> uint \<Rightarrow> uchar list \<Rightarrow> bool" where
  "cstr m s [] \<longleftrightarrow> m s = 0"
| "cstr m s (x # xs) \<longleftrightarrow> m s = x \<and> x \<noteq> 0 \<and> cstr m (s + 1) xs"

text \<open>\<open>in_range a s n\<close>: the address \<open>a\<close> is one of the \<open>n\<close> addresses from \<open>s\<close> on.\<close>

definition in_range :: "uint \<Rightarrow> uint \<Rightarrow> nat \<Rightarrow> bool" where
  "in_range a s n \<longleftrightarrow> unat (a - s) < n"

section \<open>Address ranges\<close>

lemma unat_pred: "a \<noteq> 0 \<Longrightarrow> unat (a - 1 :: uint) = unat a - 1"
  by (rule unat_minus_one)

lemma in_range_0 [simp]: "\<not> in_range a s 0"
  by (simp add: in_range_def)

lemma in_range_self [simp]: "in_range s s n \<longleftrightarrow> 0 < n"
  by (simp add: in_range_def)

lemma in_range_Suc: "in_range a s (Suc n) \<longleftrightarrow> a = s \<or> in_range a (s + 1) n"
proof (cases "a = s")
  case False
  then have nz: "a - s \<noteq> 0" by simp
  have eq: "a - (s + 1) = a - s - 1" by simp
  have "unat (a - (s + 1)) = unat (a - s) - 1" "0 < unat (a - s)"
    unfolding eq using unat_pred [OF nz] nz by (simp_all add: unat_gt_0)
  then show ?thesis using False by (auto simp: in_range_def)
qed simp

lemma in_range_first:
  assumes "n < 4294967296"
  shows "\<not> in_range s (s + 1) n"
proof -
  have "s - (s + 1) = (-1 :: uint)" by simp
  then have "unat (s - (s + 1)) = 4294967295" by (simp add: unsigned_minus_1_eq_mask mask_eq_exp_minus_1)
  then show ?thesis using assms by (simp add: in_range_def)
qed

text \<open>The byte-wise fill: what both branches of \<^verbatim>\<open>memset\<close> compute.\<close>

lemma stosb_apply: "n \<le> 4294967296 \<Longrightarrow> stosb n m s c a = (if in_range a s n then c else m a)"
proof (induction n arbitrary: m s)
  case (Suc n)
  then have "stosb (Suc n) m s c a = (if in_range a (s + 1) n then c else (m(s := c)) a)" by simp
  then show ?case by (auto simp: in_range_Suc)
qed simp

lemma stosb_Suc_end: "stosb (n + k) m s c = stosb k (stosb n m s c) (s + of_nat n) c"
  by (induction n arbitrary: m s) (simp_all add: algebra_simps)

lemma fill_word_bytes:
  fixes c :: uint
  defines "w \<equiv> push_bit 24 (c AND 0xFF) OR push_bit 16 (c AND 0xFF) OR push_bit 8 (c AND 0xFF) OR (c AND 0xFF)"
  shows "ucast w = (ucast c :: uchar)" "ucast (drop_bit 8 w) = (ucast c :: uchar)"
    "ucast (drop_bit 16 w) = (ucast c :: uchar)" "ucast (drop_bit 24 w) = (ucast c :: uchar)"
proof -
  have ff: "bit (0xFF :: uint) i \<longleftrightarrow> i < 8" for i
  proof -
    have "(0xFF :: uint) = mask 8" by (simp add: mask_eq_exp_minus_1)
    then show ?thesis by (auto simp only: bit_mask_iff) auto
  qed
  obtain b where b: "b = c AND 0xFF" by simp
  then have bb: "bit b i \<longleftrightarrow> i < 8 \<and> bit c i" for i by (auto simp only: bit_and_iff ff)
  have w: "bit w i \<longleftrightarrow> i < 32 \<and> bit c (i mod 8)" for i
  proof -
    have wb: "w = push_bit 24 b OR push_bit 16 b OR push_bit 8 b OR b" by (simp only: w_def b)
    have "i < 8 \<or> 8 \<le> i \<and> i < 16 \<or> 16 \<le> i \<and> i < 24 \<or> 24 \<le> i" by linarith
    moreover have "i mod 8 = i - 8" if "8 \<le> i" "i < 16" using that by (simp add: mod_if)
    moreover have "i mod 8 = i - 16" if "16 \<le> i" "i < 24" using that by (simp add: mod_if)
    moreover have "i mod 8 = i - 24" if "24 \<le> i" "i < 32" using that by (simp add: mod_if)
    ultimately show ?thesis
      unfolding wb by (elim disjE) (auto simp: bit_or_iff bit_push_bit_iff bb)
  qed
  have m8: "(16 + i) mod 8 = i mod 8" "(24 + i) mod 8 = i mod 8" for i :: nat
    using mod_mult_self4 [of 8 2 i] mod_mult_self4 [of 8 3 i] by simp_all
  show "ucast w = (ucast c :: uchar)" "ucast (drop_bit 8 w) = (ucast c :: uchar)"
    "ucast (drop_bit 16 w) = (ucast c :: uchar)" "ucast (drop_bit 24 w) = (ucast c :: uchar)"
    by (rule bit_word_eqI; simp add: bit_ucast_iff bit_drop_bit_eq w m8)+
qed


lemma stosl_bytes:
  assumes "w = push_bit 24 (c AND 0xFF) OR push_bit 16 (c AND 0xFF) OR push_bit 8 (c AND 0xFF) OR (c AND 0xFF)"
  shows "stosl n m s w = stosb (4 * n) m s (ucast c)"
proof (induction n arbitrary: m s)
  case (Suc n)
  have "store32 m s w = stosb 4 m s (ucast c)"
    unfolding store32_def fill_word_bytes [of c, folded assms] by (simp add: numeral_eq_Suc algebra_simps)
  then show ?case using Suc.IH stosb_Suc_end [of 4 "4 * n" m s] by simp
qed simp

section \<open>Copying\<close>

text \<open>A copy is correct when no byte is overwritten before it has been read.\<close>

definition moved :: "bytes \<Rightarrow> uint \<Rightarrow> uint \<Rightarrow> nat \<Rightarrow> bytes \<Rightarrow> bool" where
  "moved m d s n m' \<longleftrightarrow> (\<forall>a. m' a = (if in_range a d n then m (s + (a - d)) else m a))"

lemma in_range_last: "in_range a s (Suc n) \<longleftrightarrow> in_range a s n \<or> unat (a - s) = n"
  by (auto simp: in_range_def less_Suc_eq)

lemma copy_forward_moved:
  assumes "n < 4294967296" and "\<And>i. i < n \<Longrightarrow> \<not> in_range (s + of_nat i) d i"
  shows "moved m d s n (copy_forward n m d s)"
  using assms
proof (induction n arbitrary: m d s)
  case (Suc n)
  have step: "\<not> in_range (s + 1 + of_nat i) (d + 1) i" "s + 1 + of_nat i \<noteq> d" if "i < n" for i
    using Suc.prems(2) [of "Suc i"] that by (simp_all add: in_range_Suc algebra_simps)
  have IH: "moved (m(d := m s)) (d + 1) (s + 1) n (copy_forward n (m(d := m s)) (d + 1) (s + 1))"
    using Suc.prems(1) step by (intro Suc.IH) auto
  show ?case
    unfolding moved_def
  proof
    fix a
    have "s + 1 + (a - (d + 1)) \<noteq> d" if "in_range a (d + 1) n"
    proof -
      have "unat (a - (d + 1)) < n" using that by (simp add: in_range_def)
      from step(2) [OF this] show ?thesis by simp
    qed
    moreover have "copy_forward (Suc n) m d s a =
        (if in_range a (d + 1) n then (m(d := m s)) (s + 1 + (a - (d + 1))) else (m(d := m s)) a)"
      using IH by (simp add: moved_def)
    moreover have "s + 1 + (a - (d + 1)) = s + (a - d)" by (simp add: algebra_simps)
    ultimately show "copy_forward (Suc n) m d s a = (if in_range a d (Suc n) then m (s + (a - d)) else m a)"
      using in_range_first [of n d] Suc.prems(1) by (auto simp: in_range_Suc)
  qed
qed (simp add: moved_def)

lemma copy_backward_moved:
  assumes "n < 4294967296" and "\<And>i j. i < n \<Longrightarrow> i < j \<Longrightarrow> j < n \<Longrightarrow> s + of_nat i \<noteq> d + of_nat j"
  shows "moved m d s n (copy_backward n m (d + of_nat n) (s + of_nat n))"
  using assms
proof (induction n arbitrary: m)
  case (Suc n)
  let ?m = "m(d + of_nat n := m (s + of_nat n))"
  have IH: "moved ?m d s n (copy_backward n ?m (d + of_nat n) (s + of_nat n))"
    using Suc.prems by (intro Suc.IH) auto
  have run: "copy_backward (Suc n) m (d + of_nat (Suc n)) (s + of_nat (Suc n)) =
      copy_backward n ?m (d + of_nat n) (s + of_nat n)" by (simp add: algebra_simps)
  have last: "in_range a d n \<Longrightarrow> s + (a - d) \<noteq> d + of_nat n" for a
    using Suc.prems(2) [of "unat (a - d)" n] by (simp add: in_range_def)
  have "unat (of_nat n :: uint) = n" using Suc.prems(1) by (simp add: unat_of_nat)
  then have "unat (a - d) = n \<longleftrightarrow> a - d = of_nat n" for a by (simp add: word_unat_eq_iff)
  then have at: "unat (a - d) = n \<longleftrightarrow> a = d + of_nat n" for a
    by (simp add: diff_eq_eq add.commute)
  show ?case
    unfolding run moved_def
  proof
    fix a
    show "copy_backward n ?m (d + of_nat n) (s + of_nat n) a = (if in_range a d (Suc n) then m (s + (a - d)) else m a)"
      using IH last [of a] at [of a] by (auto simp: moved_def in_range_last)
  qed
qed (simp add: moved_def)

section \<open>What the routines compute\<close>

text \<open>The word-filling branch of \<^verbatim>\<open>memset\<close> is an optimisation: on every destination, value and length,
  \<^verbatim>\<open>memset\<close> leaves the low byte of the value in each of the \<open>n\<close> bytes and changes no other byte.\<close>

theorem memset_fills:
  "memset m dst c n a = (if in_range a dst (unat n) then ucast c else m a)"
proof -
  have n: "4 * (unat n div 4) = unat n" if "unat n mod 4 = 0" using that by (metis mult_div_mod_eq add_0_right)
  have "memset m dst c n = stosb (unat n) m dst (ucast c)"
    unfolding memset_def Let_def stosl_bytes [OF refl] using n by simp
  then show ?thesis using unat_uint_bound [of n] by (simp add: stosb_apply)
qed

lemma forward_safe:
  assumes "unat s + n \<le> 4294967296" and "unat d + n \<le> 4294967296" and "\<not> (s < d \<and> unat d < unat s + n)" and "i < n"
  shows "\<not> in_range (s + of_nat i) d i"
proof -
  have i: "unat (of_nat i :: uint) = i" using assms(1,4) unat_uint_bound [of s] by (simp add: unat_of_nat)
  have si: "unat (s + of_nat i) = unat s + i" using assms(1,4) i by (simp add: unat_add_lem [THEN iffD1])
  show ?thesis
  proof (cases "unat d \<le> unat s + i")
    case True
    then have "unat d \<le> unat s" using assms(3,4) by (simp add: word_less_nat_alt)
    then show ?thesis using True si by (simp add: in_range_def unat_sub_if')
  next
    case False
    then show ?thesis using si unat_uint_bound [of d] by (simp add: in_range_def unat_sub_if')
  qed
qed

text \<open>C36: \<^verbatim>\<open>memmove\<close> is correct on overlapping buffers. Whenever neither buffer runs over the end of the
  address space, every byte of the destination is the byte the source had before the call, and no other
  byte changes.\<close>

theorem memmove_moves:
  assumes "unat src + unat n < 4294967296" and "unat dst + unat n \<le> 4294967296"
  shows "memmove m dst src n a = (if in_range a dst (unat n) then m (src + (a - dst)) else m a)"
proof -
  have sn: "unat (src + n) = unat src + unat n" using assms(1) by (simp add: unat_add_lem [THEN iffD1])
  have nn: "unat n < 4294967296" using unat_uint_bound .
  have "moved m dst src (unat n) (memmove m dst src n)"
  proof (cases "src < dst \<and> src + n > dst")
    case True
    have "src + of_nat i \<noteq> dst + of_nat j" if ij: "i < unat n" "i < j" "j < unat n" for i j
    proof -
      have "unat (of_nat i :: uint) = i" "unat (of_nat j :: uint) = j" using ij nn by (simp_all add: unat_of_nat)
      moreover have "unat src < unat dst" using True by (simp add: word_less_nat_alt)
      ultimately have "unat (src + of_nat i) = unat src + i" "unat (dst + of_nat j) = unat dst + j"
        using assms ij by (simp_all add: unat_add_lem [THEN iffD1])
      then show ?thesis using \<open>unat src < unat dst\<close> ij(2) by (metis add_less_mono nat_neq_iff)
    qed
    then show ?thesis using copy_backward_moved [OF nn, of src dst m] True by (simp add: memmove_def)
  next
    case False
    then have "\<not> (src < dst \<and> unat dst < unat src + unat n)" using sn by (simp add: word_less_nat_alt)
    then have "\<not> in_range (src + of_nat i) dst i" if "i < unat n" for i
      using forward_safe [of src "unat n" dst i] assms that by simp
    then show ?thesis using copy_forward_moved [OF nn, of src dst m] False by (auto simp: memmove_def)
  qed
  then show ?thesis by (simp add: moved_def)
qed

theorem memmove_moves_witness:
  "memmove (\<lambda>a. ucast a) 0x1002 0x1000 4 0x1004 = 0x02 \<and> memmove (\<lambda>a. ucast a) 0x1000 0x1002 4 0x1000 = 0x02 \<and>
   memmove (\<lambda>a. ucast a) 0x1002 0x1000 4 0x1006 = 0x06"
proof -
  have s: "unat (0x1000 :: uint) + unat (4 :: uint) < 4294967296" "unat (0x1002 :: uint) + unat (4 :: uint) \<le> 4294967296"
    "unat (0x1002 :: uint) + unat (4 :: uint) < 4294967296" "unat (0x1000 :: uint) + unat (4 :: uint) \<le> 4294967296"
    by simp_all
  show ?thesis unfolding memmove_moves [OF s(1,2)] memmove_moves [OF s(3,4)] by (simp add: in_range_def)
qed

section \<open>NUL-terminated strings\<close>

lemma cstr_fun_upd:
  assumes "cstr m s xs" and "\<not> in_range a s (Suc (length xs))"
  shows "cstr (m(a := v)) s xs"
  using assms by (induction m s xs rule: cstr.induct) (auto simp: in_range_Suc)

lemma strlen_loop_cstr: "cstr m (s + of_nat n) xs \<Longrightarrow> strlen_loop m s n = Some (n + length xs)"
proof (induction xs arbitrary: n)
  case (Cons x xs)
  then have "cstr m (s + of_nat (Suc n)) xs" "m (s + of_nat n) \<noteq> 0" by (simp_all add: algebra_simps)
  with Cons.IH [of "Suc n"] show ?case by (subst strlen_loop.simps) simp
qed (subst strlen_loop.simps, simp)

lemma strlen_cstr: "cstr m s xs \<Longrightarrow> strlen m s = Some (length xs)"
  using strlen_loop_cstr [of m s 0 xs] by (simp add: strlen_def)

text \<open>The bytes that \<^verbatim>\<open>safestrcpy\<close> leaves in the buffer, when source and buffer do not overlap.\<close>

lemma safestrcpy_loop_cstr:
  assumes "safestrcpy_loop k m s t = (m', s')" and "cstr m t xs" and "k < 4294967295"
    and "\<And>a. in_range a s (Suc k) \<Longrightarrow> \<not> in_range a t (Suc (length xs))"
  shows "cstr (m'(s' := 0)) s (take k xs) \<and> (\<forall>a. \<not> in_range a s (Suc k) \<longrightarrow> (m'(s' := 0)) a = m a)"
  using assms
proof (induction k arbitrary: m s t xs)
  case (Suc k)
  show ?case
  proof (cases xs)
    case Nil
    then have "m t = 0" using Suc.prems(2) by simp
    then have "m' = m(s := 0)" "s' = s + 1" using Suc.prems(1) by auto
    then show ?thesis using Nil by (auto simp: in_range_Suc)
  next
    case (Cons x ys)
    let ?m = "m(s := x)"
    have x: "m t = x" "x \<noteq> 0" "cstr m (t + 1) ys" using Suc.prems(2) Cons by auto
    have run: "safestrcpy_loop k ?m (s + 1) (t + 1) = (m', s')" using Suc.prems(1) x by simp
    have "\<not> in_range s t (Suc (length xs))" using Suc.prems(4) [of s] by (simp add: in_range_Suc)
    then have c: "cstr ?m (t + 1) ys" using x(3) Cons by (intro cstr_fun_upd) (auto simp: in_range_Suc)
    have nr: "\<not> in_range a (t + 1) (Suc (length ys))" if "in_range a (s + 1) (Suc k)" for a
      using Suc.prems(4) [of a] that Cons by (simp add: in_range_Suc)
    have "cstr (m'(s' := 0)) (s + 1) (take k ys) \<and> (\<forall>a. \<not> in_range a (s + 1) (Suc k) \<longrightarrow> (m'(s' := 0)) a = ?m a)"
      using Suc.IH [OF run c _ nr] Suc.prems(3) by (simp del: fun_upd_apply)
    then have IH: "cstr (m'(s' := 0)) (s + 1) (take k ys)" "\<And>a. \<not> in_range a (s + 1) (Suc k) \<Longrightarrow> (m'(s' := 0)) a = ?m a"
      by blast+
    have "(m'(s' := 0)) s = x" using IH(2) [of s] in_range_first [of "Suc k" s] Suc.prems(3) by simp
    then show ?thesis using IH Cons x(2) by (auto simp: in_range_Suc simp del: fun_upd_apply) auto
  qed
qed (auto simp: in_range_Suc)

text \<open>\<^verbatim>\<open>safestrcpy\<close> into a buffer of \<open>n > 0\<close> bytes that does not overlap the source always leaves a
  NUL-terminated string there: the source cut to \<open>n - 1\<close> bytes. No byte outside the buffer changes.\<close>

theorem safestrcpy_terminates:
  assumes "cstr m t xs" and "0 < n" and "n < 2147483648"
    and "\<forall>a. in_range a s (nat n) \<longrightarrow> \<not> in_range a t (Suc (length xs))"
  shows "cstr (safestrcpy m s t n) s (take (nat (n - 1)) xs) \<and>
    (\<forall>a. \<not> in_range a s (nat n) \<longrightarrow> safestrcpy m s t n a = m a)"
proof -
  obtain m' s' where run: "safestrcpy_loop (nat (n - 1)) m s t = (m', s')"
    by (cases "safestrcpy_loop (nat (n - 1)) m s t")
  have n: "Suc (nat (n - 1)) = nat n" using assms(2) by simp
  have "safestrcpy m s t n = m'(s' := 0)" using assms(2) run by (simp add: safestrcpy_def)
  then show ?thesis
    using safestrcpy_loop_cstr [OF run assms(1)] assms(3,4) unfolding n by (simp del: fun_upd_apply)
qed

theorem safestrcpy_terminates_witness:
  "cstr (safestrcpy ((\<lambda>_. 0)(0 := 104, 1 := 105)) 16 0 2) 16 [104]"
proof -
  let ?m = "(\<lambda>_. 0)(0 := 104, 1 := 105) :: bytes"
  have "cstr ?m 0 [104, 105]" by simp
  moreover have "\<forall>a. in_range a 16 (nat 2) \<longrightarrow> \<not> in_range a 0 (Suc (length [104, 105 :: uchar]))"
    by (auto simp: in_range_def unat_sub_if')
  ultimately show ?thesis using safestrcpy_terminates [of ?m 0 "[104, 105]" 2 16] by simp
qed

end
