(* ===== verification/Ulib.thy ===== *)
theory Ulib
  imports Strings
begin

text \<open>
  The user library: the string routines of \<^verbatim>\<open>ulib.c\<close> and the formatted output of
  \<^verbatim>\<open>printf.c\<close>. The system calls they make (\<^verbatim>\<open>read\<close>, \<^verbatim>\<open>open\<close>, \<^verbatim>\<open>fstat\<close>, \<^verbatim>\<open>close\<close>) are
  arguments; the bytes given to \<^verbatim>\<open>write\<close> are the output.
\<close>

section \<open>Strings of ulib.c\<close>

partial_function (option) strcpy_loop :: "bytes \<Rightarrow> uint \<Rightarrow> uint \<Rightarrow> bytes option" where
  "strcpy_loop m s t =
     (let m1 = m(s := m t) in if m t \<noteq> 0 then strcpy_loop m1 (s + 1) (t + 1) else Some m1)"

partial_function (option) strcmp :: "bytes \<Rightarrow> uint \<Rightarrow> uint \<Rightarrow> int option" where
  "strcmp m p q =
     (if m p \<noteq> 0 \<and> m p = m q then strcmp m (p + 1) (q + 1)
      else Some (int (unat (m p)) - int (unat (m q))))"

definition ustrlen :: "bytes \<Rightarrow> uint \<Rightarrow> uint option" where
  "ustrlen m s = map_option of_nat (strlen_loop m s 0)"

definition umemset :: "bytes \<Rightarrow> uint \<Rightarrow> uint \<Rightarrow> uint \<Rightarrow> bytes" where
  "umemset m dst c n = stosb (unat n) m dst (ucast c)"

partial_function (option) strchr :: "bytes \<Rightarrow> uint \<Rightarrow> uchar \<Rightarrow> uint option" where
  "strchr m s c = (if m s = 0 then Some 0 else if m s = c then Some s else strchr m (s + 1) c)"

text \<open>\<^verbatim>\<open>read(0, &c, 1)\<close> is the argument \<open>rd\<close>: \<open>None\<close> when it returns less than 1.\<close>

fun gets_loop :: "('s \<Rightarrow> uchar option \<times> 's) \<Rightarrow> nat \<Rightarrow> bytes \<Rightarrow> uint \<Rightarrow> nat \<Rightarrow> 's \<Rightarrow> bytes \<times> nat \<times> 's" where
  "gets_loop rd 0 m buf i s = (m, i, s)"
| "gets_loop rd (Suc k) m buf i s =
     (case rd s of
        (None, s1) \<Rightarrow> (m, i, s1)
      | (Some c, s1) \<Rightarrow>
          let m1 = m(buf + of_nat i := c)
          in if c = 10 \<or> c = 13 then (m1, Suc i, s1) else gets_loop rd k m1 buf (Suc i) s1)"

definition gets :: "('s \<Rightarrow> uchar option \<times> 's) \<Rightarrow> bytes \<Rightarrow> uint \<Rightarrow> int \<Rightarrow> 's \<Rightarrow> bytes \<times> 's" where
  "gets rd m buf maxn s =
     (let (m1, i, s1) = gets_loop rd (nat (maxn - 1)) m buf 0 s in (m1(buf + of_nat i := 0), s1))"

definition ustat :: "('s \<Rightarrow> int \<times> 's) \<Rightarrow> (int \<Rightarrow> 's \<Rightarrow> int \<times> 's) \<Rightarrow> (int \<Rightarrow> 's \<Rightarrow> 's) \<Rightarrow> 's \<Rightarrow> int \<times> 's" where
  "ustat open_rdonly fstat close s =
     (let (fd, s1) = open_rdonly s
      in if fd < 0 then (-1, s1)
         else let (r, s2) = fstat fd s1 in (r, close fd s2))"

partial_function (option) atoi_loop :: "bytes \<Rightarrow> uint \<Rightarrow> uint \<Rightarrow> uint option" where
  "atoi_loop m s n =
     (if 48 \<le> m s \<and> m s \<le> 57 then atoi_loop m (s + 1) (n * 10 + ucast (m s) - 48) else Some n)"

definition atoi :: "bytes \<Rightarrow> uint \<Rightarrow> uint option" where
  "atoi m s = atoi_loop m s 0"

definition umemmove :: "bytes \<Rightarrow> uint \<Rightarrow> uint \<Rightarrow> int \<Rightarrow> bytes" where
  "umemmove m vdst vsrc n = copy_forward (nat n) m vdst vsrc"

section \<open>printf\<close>

text \<open>The array \<^verbatim>\<open>digits\<close>, as character codes.\<close>

definition digit_chars :: "uchar list" where
  "digit_chars = [48, 49, 50, 51, 52, 53, 54, 55, 56, 57, 65, 66, 67, 68, 69, 70]"

text \<open>The loop that fills \<^verbatim>\<open>buf\<close> from index 0 on; the base is 10 or 16 in every call.\<close>

partial_function (option) printint_loop :: "uint \<Rightarrow> uint \<Rightarrow> uchar list \<Rightarrow> uchar list option" where
  "printint_loop x base buf =
     (let buf1 = buf @ [digit_chars ! unat (x mod base)]; x1 = x div base
      in if x1 \<noteq> 0 then printint_loop x1 base buf1 else Some buf1)"

definition printint :: "uint \<Rightarrow> uint \<Rightarrow> bool \<Rightarrow> uchar list option" where
  "printint xx base sg =
     (let neg = (sg \<and> sint xx < 0);
          x = (if neg then - xx else xx)
      in case printint_loop x base [] of
           None \<Rightarrow> None
         | Some buf \<Rightarrow> Some (rev (if neg then buf @ [45] else buf)))"

definition load32 :: "bytes \<Rightarrow> uint \<Rightarrow> uint" where
  "load32 m a = ucast (m a) OR push_bit 8 (ucast (m (a + 1))) OR push_bit 16 (ucast (m (a + 2))) OR
     push_bit 24 (ucast (m (a + 3)))"

partial_function (option) puts_loop :: "bytes \<Rightarrow> uint \<Rightarrow> uchar list \<Rightarrow> uchar list option" where
  "puts_loop m s out = (if m s \<noteq> 0 then puts_loop m (s + 1) (out @ [m s]) else Some out)"

text \<open>One conversion: the character after \<^verbatim>\<open>%\<close>, the argument pointer and the output so far. The
  string \<^verbatim>\<open>(null)\<close> stands for a null pointer.\<close>

definition printf_conv :: "bytes \<Rightarrow> uchar \<Rightarrow> uint \<Rightarrow> uchar list \<Rightarrow> (uint \<times> uchar list) option" where
  "printf_conv m c ap out =
     (if c = 100 then map_option (\<lambda>o1. (ap + 4, out @ o1)) (printint (load32 m ap) 10 True)
      else if c = 120 \<or> c = 112 then map_option (\<lambda>o1. (ap + 4, out @ o1)) (printint (load32 m ap) 16 False)
      else if c = 115 then
        (if load32 m ap = 0 then Some (ap + 4, out @ [40, 110, 117, 108, 108, 41])
         else map_option (\<lambda>o1. (ap + 4, o1)) (puts_loop m (load32 m ap) out))
      else if c = 99 then Some (ap + 4, out @ [ucast (load32 m ap)])
      else if c = 37 then Some (ap, out @ [c])
      else Some (ap, out @ [37, c]))"

partial_function (option) printf_loop :: "bytes \<Rightarrow> uint \<Rightarrow> bool \<Rightarrow> uint \<Rightarrow> uchar list \<Rightarrow> uchar list option" where
  "printf_loop m fmt state ap out =
     (if m fmt = 0 then Some out
      else if \<not> state then
        (if m fmt = 37 then printf_loop m (fmt + 1) True ap out
         else printf_loop m (fmt + 1) False ap (out @ [m fmt]))
      else Option.bind (printf_conv m (m fmt) ap out)
             (\<lambda>r. printf_loop m (fmt + 1) False (fst r) (snd r)))"

definition printf :: "bytes \<Rightarrow> uint \<Rightarrow> uint \<Rightarrow> uchar list option" where
  "printf m fmt ap = printf_loop m fmt False ap []"

section \<open>String lemmas\<close>

lemma byte_diff: "int (unat a) - int (unat (b :: uchar)) = 0 \<longleftrightarrow> a = b"
  by (simp add: word_unat_eq_iff del: of_nat_unat)

lemma strcmp_cstr:
  "cstr m p xs \<Longrightarrow> cstr m q ys \<Longrightarrow> \<exists>r. strcmp m p q = Some r \<and> (r = 0 \<longleftrightarrow> xs = ys)"
proof (induction xs arbitrary: p q ys)
  case Nil
  then have "m p = m q \<longleftrightarrow> ys = []" by (cases ys) auto
  with Nil byte_diff [of "m p" "m q"] show ?case by (subst strcmp.simps) auto
next
  case (Cons x xs)
  show ?case
  proof (cases "\<exists>zs. ys = x # zs")
    case True
    then obtain zs where "ys = x # zs" by blast
    then show ?thesis using Cons.IH [of "p + 1" "q + 1" zs] Cons.prems by (auto simp: strcmp.simps [of m p q])
  next
    case False
    then have "m p \<noteq> m q" using Cons.prems by (cases ys) auto
    then show ?thesis using False Cons.prems byte_diff [of "m p" "m q"] by (subst strcmp.simps) auto
  qed
qed

section \<open>Numbers as digits\<close>

text \<open>The digits of a number, least significant first.\<close>

function ndigits :: "nat \<Rightarrow> nat \<Rightarrow> nat list" where
  "ndigits b n = (if b < 2 then [] else n mod b # (if n div b = 0 then [] else ndigits b (n div b)))"
  by pat_completeness auto

lemma div_smaller: "2 \<le> b \<Longrightarrow> n div b \<noteq> 0 \<Longrightarrow> n div b < (n :: nat)"
  by (cases "n = 0") auto

termination ndigits
  by (relation "measure snd") (use div_smaller in \<open>simp_all add: not_less\<close>)

declare ndigits.simps [simp del]

lemma printint_loop_digits:
  assumes "2 \<le> unat base"
  shows "printint_loop x base buf = Some (buf @ map ((!) digit_chars) (ndigits (unat base) (unat x)))"
proof (induction "unat x" arbitrary: x buf rule: less_induct)
  case less
  let ?c = "digit_chars ! unat (x mod base)" and ?q = "x div base"
  have q: "unat ?q = unat x div unat base" "unat (x mod base) = unat x mod unat base"
    by (simp_all add: unat_div unat_mod)
  show ?case
  proof (cases "?q = 0")
    case True
    then have "unat x div unat base = 0" using q(1) by simp
    then show ?thesis using assms True q(2) by (subst printint_loop.simps) (simp add: ndigits.simps [of "unat base"])
  next
    case False
    then have "unat x div unat base \<noteq> 0" using q(1) by (simp add: unat_eq_0 flip: q(1))
    moreover from this have "unat ?q < unat x" unfolding q using assms by (intro div_smaller)
    ultimately show ?thesis
      using less [of ?q] False assms q by (subst printint_loop.simps) (simp add: ndigits.simps [of "unat base" "unat x"])
  qed
qed

lemma length_ndigits: "2 \<le> b \<Longrightarrow> n < b ^ Suc k \<Longrightarrow> length (ndigits b n) \<le> Suc k"
proof (induction k arbitrary: n)
  case 0
  then show ?case by (simp add: ndigits.simps [of b n])
next
  case (Suc k)
  then have "n div b < b ^ Suc k" by (simp add: less_mult_imp_div_less mult.commute)
  then show ?case using Suc by (simp add: ndigits.simps [of b n])
qed

lemma ndigits_less: "2 \<le> b \<Longrightarrow> d \<in> set (ndigits b n) \<Longrightarrow> d < b"
proof (induction b n rule: ndigits.induct)
  case (1 b n)
  then show ?case by (auto simp: ndigits.simps [of b n] split: if_splits)
qed

lemma ndigits_value: "2 \<le> b \<Longrightarrow> foldr (\<lambda>d a. a * b + d) (ndigits b n) 0 = n"
proof (induction b n rule: ndigits.induct)
  case (1 b n)
  have "n mod b = n" if "n div b = 0" using that div_mult_mod_eq [of n b] by simp
  then show ?case using 1 by (simp add: ndigits.simps [of b n])
qed

lemma digit_char: "d < 10 \<Longrightarrow> unat (digit_chars ! d) = 48 + d"
proof -
  have "list_all (\<lambda>d. unat (digit_chars ! d) = 48 + d) [0..<10]" by code_simp
  then show "d < 10 \<Longrightarrow> unat (digit_chars ! d) = 48 + d" by (simp add: list_all_iff)
qed

lemma atoi_loop_digits:
  assumes "cstr m s (map ((!) digit_chars) ds)" and "\<forall>d \<in> set ds. d < 10"
  shows "atoi_loop m s (of_nat a) = Some (of_nat (foldl (\<lambda>a d. a * 10 + d) a ds))"
  using assms
proof (induction ds arbitrary: s a)
  case Nil
  then show ?case by (subst atoi_loop.simps) simp
next
  case (Cons d ds)
  have c: "m s = digit_chars ! d" "d < 10" using Cons.prems by auto
  then have u: "unat (m s) = 48 + d" using digit_char by simp
  then have r: "48 \<le> m s" "m s \<le> 57" using c(2) by (simp_all add: word_le_nat_alt)
  have "(ucast (m s) :: uint) = of_nat (unat (m s))" by simp
  then have "(ucast (m s) :: uint) = of_nat (48 + d)" unfolding u .
  then have eq: "of_nat a * 10 + ucast (m s) - 48 = (of_nat (a * 10 + d) :: uint)" by simp
  have "atoi_loop m s (of_nat a) = atoi_loop m (s + 1) (of_nat (a * 10 + d))"
    unfolding eq [symmetric] using r by (subst atoi_loop.simps) (simp only: conj_absorb if_True simp_thms)
  also have "\<dots> = Some (of_nat (foldl (\<lambda>a d. a * 10 + d) (a * 10 + d) ds))"
    using Cons.prems by (intro Cons.IH) simp_all
  finally show ?case by simp
qed

lemma printint_10:
  assumes "0 \<le> sint xx"
  shows "printint xx 10 sg = Some (map ((!) digit_chars) (rev (ndigits 10 (unat xx))))"
  using assms printint_loop_digits [of 10 xx "[]"] by (simp add: printint_def rev_map)

text \<open>C37: Decimal output reads back. For a non-negative number \<^verbatim>\<open>printint\<close> in base 10 returns, prints at
  most ten characters and never leaves its 16 byte buffer, and \<^verbatim>\<open>atoi\<close> of the printed text is the number.\<close>

theorem printint_atoi:
  assumes "0 \<le> sint xx"
  shows "\<exists>out. printint xx 10 sg = Some out \<and> length out \<le> 10 \<and> (\<forall>m s. cstr m s out \<longrightarrow> atoi m s = Some xx)"
proof -
  let ?ds = "rev (ndigits 10 (unat xx))"
  have l: "length (ndigits 10 (unat xx)) \<le> 10" using length_ndigits [of 10 "unat xx" 9] unat_uint_bound [of xx] by simp
  have d: "\<forall>d \<in> set ?ds. d < 10" using ndigits_less [of 10] by auto
  have "foldl (\<lambda>a d. a * 10 + d) 0 ?ds = unat xx"
    using ndigits_value [of 10 "unat xx"] by (simp add: foldl_conv_foldr)
  then have "atoi m s = Some xx" if "cstr m s (map ((!) digit_chars) ?ds)" for m s
    using atoi_loop_digits [OF that d, of 0] by (simp add: atoi_def)
  then show ?thesis using printint_10 [OF assms] l by simp
qed

theorem printint_atoi_witness:
  "\<exists>out. printint 1024 10 True = Some out \<and>
     atoi (\<lambda>a. if unat a < length out then out ! unat a else 0) 0 = Some 1024"
proof -
  let ?m = "\<lambda>out a. if unat a < length out then out ! unat a else 0"
  have "0 \<le> sint (1024 :: uint)" by simp
  from printint_atoi [OF this, of True] obtain out where out: "printint 1024 10 True = Some out"
    "\<forall>m s. cstr m s out \<longrightarrow> atoi m s = Some 1024" by blast
  have "ndigits 10 1024 = [4, 2, 0, 1]" by (simp add: ndigits.simps)
  then have "out = [49, 48, 50, 52]" using out(1) printint_10 [of 1024 True] by (simp add: digit_chars_def)
  then have "cstr (?m out) 0 out" by simp
  then show ?thesis using out by blast
qed

text \<open>Every number prints within the 16 byte buffer of \<^verbatim>\<open>printint\<close>, in base 10 and in base 16,
  signed or not, including the most negative one, whose negation overflows.\<close>

theorem printint_fits:
  assumes "base = 10 \<or> base = 16"
  shows "\<exists>out. printint xx base sg = Some out \<and> 1 \<le> length out \<and> length out \<le> 11"
proof -
  let ?x = "if sg \<and> sint xx < 0 then - xx else xx"
  have "unat ?x < unat base ^ Suc 9" using assms unat_uint_bound [of ?x] by auto
  moreover have b: "2 \<le> unat base" using assms by auto
  ultimately have "length (ndigits (unat base) (unat ?x)) \<le> 10" using length_ndigits [of "unat base" "unat ?x" 9] by simp
  moreover have "1 \<le> length (ndigits (unat base) (unat ?x))" using b by (simp add: ndigits.simps [of "unat base"])
  ultimately show ?thesis using printint_loop_digits [OF b, of ?x "[]"] by (auto simp: printint_def Let_def split: if_splits)
qed

theorem printint_fits_witness: "\<exists>out. printint 0x80000000 10 True = Some out \<and> length out \<le> 11"
  using printint_fits [of 10 "0x80000000" True] by auto

text \<open>The user library's \<^verbatim>\<open>memmove\<close> copies forward only, which is right when the destination does not
  start inside the source.\<close>

lemma umemmove_moves:
  assumes "unat vsrc + nat n \<le> 4294967296" and "unat vdst + nat n \<le> 4294967296" and "nat n < 4294967296"
    and "\<not> (vsrc < vdst \<and> unat vdst < unat vsrc + nat n)"
  shows "moved m vdst vsrc (nat n) (umemmove m vdst vsrc n)"
  unfolding umemmove_def
  by (rule copy_forward_moved [OF assms(3)]) (use forward_safe [OF assms(1,2,4)] in blast)

lemma umemmove_overlap: "umemmove (\<lambda>a. ucast a) 1 0 2 2 = 0 \<and> memmove (\<lambda>a. ucast a) 1 0 2 2 = 1"
  by code_simp

text \<open>\<^verbatim>\<open>gets\<close> leaves a NUL byte inside the buffer: it stores at most \<^verbatim>\<open>max - 1\<close> characters before it.\<close>

lemma gets_loop_bound: "gets_loop rd k m buf i s = (m', i', s') \<Longrightarrow> i' \<le> i + k"
  by (induction rd k m buf i s rule: gets_loop.induct)
    (auto simp: Let_def split: prod.splits option.splits if_splits)

end
