(* ===== verification/Mutex.thy ===== *)
theory Mutex
  imports Prelude
begin

text \<open>
  What a lock promises its clients, as a locale that spin locks and sleep locks both interpret: an
  attempt succeeds exactly when the lock is free, the winner becomes the owner, and the owner can give
  the lock back. Clients see the abstract machine \<open>mutex_run\<close>, whose only state is the owner.
\<close>

datatype 'p lock_event = Grab 'p | Drop 'p

text \<open>The abstract machine: the result is \<open>None\<close> for a history that is not a legal use of one lock.\<close>

fun mutex_run :: "'p lock_event list \<Rightarrow> 'p option \<Rightarrow> 'p option option" where
  "mutex_run [] ow = Some ow"
| "mutex_run (Grab p # es) ow = (if ow = None then mutex_run es (Some p) else None)"
| "mutex_run (Drop p # es) ow = (if ow = Some p then mutex_run es None else None)"

text \<open>Legal histories alternate: the next event after a grab is a drop by the same client.\<close>

fun alternating :: "'p lock_event list \<Rightarrow> bool" where
  "alternating (Grab p # Drop q # es) \<longleftrightarrow> p = q \<and> alternating es"
| "alternating [Grab p] \<longleftrightarrow> True"
| "alternating [] \<longleftrightarrow> True"
| "alternating _ \<longleftrightarrow> False"

lemma mutex_run_two_grabs [simp]: "mutex_run (e # Grab p # es) None = None"
  by (cases e) simp_all

lemma mutex_run_alternating: "mutex_run es None \<noteq> None \<longleftrightarrow> alternating es"
  by (induction es rule: alternating.induct) auto

locale mutex =
  fixes good :: "'s \<Rightarrow> bool"
    and owner :: "'s \<Rightarrow> 'p option"
    and grab :: "'p \<Rightarrow> 's \<Rightarrow> 's option"
    and giveup :: "'p \<Rightarrow> 's \<Rightarrow> 's option"
  assumes grab_owned: "good s \<Longrightarrow> owner s = Some q \<Longrightarrow> q \<noteq> p \<Longrightarrow> grab p s = None"
    and grab_free: "good s \<Longrightarrow> owner s = None \<Longrightarrow> \<exists>s'. grab p s = Some s' \<and> good s' \<and> owner s' = Some p"
    and giveup_owner: "good s \<Longrightarrow> owner s = Some p \<Longrightarrow> \<exists>s'. giveup p s = Some s' \<and> good s' \<and> owner s' = None"
begin

fun play :: "'p lock_event list \<Rightarrow> 's \<Rightarrow> 's option" where
  "play [] s = Some s"
| "play (Grab p # es) s = Option.bind (grab p s) (play es)"
| "play (Drop p # es) s = Option.bind (giveup p s) (play es)"

lemma play_refines:
  assumes "good s" and "mutex_run es (owner s) = Some ow"
  shows "\<exists>s'. play es s = Some s' \<and> good s' \<and> owner s' = ow"
  using assms
proof (induction es arbitrary: s)
  case (Cons e es)
  show ?case
  proof (cases e)
    case (Grab p)
    with Cons.prems have o: "owner s = None" "mutex_run es (Some p) = Some ow" by (auto split: if_splits)
    from grab_free [OF Cons.prems(1) o(1), of p] obtain s1 where "grab p s = Some s1" "good s1" "owner s1 = Some p" by blast
    then show ?thesis using Cons.IH [of s1] o(2) Grab by simp
  next
    case (Drop p)
    with Cons.prems have o: "owner s = Some p" "mutex_run es None = Some ow" by (auto split: if_splits)
    from giveup_owner [OF Cons.prems(1) o(1)] obtain s1 where "giveup p s = Some s1" "good s1" "owner s1 = None" by blast
    then show ?thesis using Cons.IH [of s1] o(2) Drop by simp
  qed
qed simp

text \<open>A second client never gets the lock while the first one has it.\<close>

lemma play_excludes:
  assumes "good s" and "mutex_run es (owner s) = Some (Some q)" and "p \<noteq> q"
  shows "play (es @ [Grab p]) s = None"
proof -
  have append: "play (es @ fs) s = Option.bind (play es s) (play fs)" for es fs s
    by (induction es s rule: play.induct) (simp_all split: bind_splits)
  from play_refines [OF assms(1,2)] obtain s' where "play es s = Some s'" "good s'" "owner s' = Some q" by blast
  then show ?thesis using grab_owned [of s' q p] assms(3) by (simp add: append)
qed

end

end
