(* ===== verification/Spinlock.thy ===== *)
theory Spinlock
  imports Mmu Mutex
begin

text \<open>
  Spin locks, \<^verbatim>\<open>spinlock.c\<close>. Every processor has its interrupt flag, the nesting depth of
  \<^verbatim>\<open>pushcli\<close> and the saved flag; locks are numbered. The routines are first given whole, as they run when
  no other processor interferes, and then cut at their atomic actions for the step relation of several
  processors, in which \<^verbatim>\<open>xchg\<close> is one step. Mutual exclusion is proved for that relation; it is what
  allows the other theories to treat a critical section as one transition.
\<close>

section \<open>State\<close>

record spinlock =
  locked :: uint
  lk_name :: string
  lk_cpu :: "nat option"
  pcs :: "uint list"

record cpu_irq =
  if_flag :: bool
  ncli :: int
  intena :: bool

record smp =
  irq :: "nat \<Rightarrow> cpu_irq"
  locks :: "nat \<Rightarrow> spinlock"
  stack_word :: "uint \<Rightarrow> uint"

section \<open>Routines\<close>

definition initlock :: "nat \<Rightarrow> string \<Rightarrow> smp \<Rightarrow> smp" where
  "initlock l nm s = s\<lparr>locks := (locks s)(l := (locks s l)\<lparr>lk_name := nm, locked := 0, lk_cpu := None\<rparr>)\<rparr>"

definition set_irq :: "nat \<Rightarrow> cpu_irq \<Rightarrow> smp \<Rightarrow> smp" where
  "set_irq c i s = s\<lparr>irq := (irq s)(c := i)\<rparr>"

definition set_lock :: "nat \<Rightarrow> spinlock \<Rightarrow> smp \<Rightarrow> smp" where
  "set_lock l k s = s\<lparr>locks := (locks s)(l := k)\<rparr>"

definition pushcli :: "nat \<Rightarrow> smp \<Rightarrow> smp" where
  "pushcli c s =
     (let eflags = if_flag (irq s c);
          i1 = (irq s c)\<lparr>if_flag := False\<rparr>;
          i2 = (if ncli i1 = 0 then i1\<lparr>intena := eflags\<rparr> else i1)
      in set_irq c (i2\<lparr>ncli := ncli i2 + 1\<rparr>) s)"

definition popcli :: "nat \<Rightarrow> smp \<Rightarrow> smp outcome" where
  "popcli c s =
     (if if_flag (irq s c) then Panic ''popcli - interruptible''
      else
        let i1 = (irq s c)\<lparr>ncli := ncli (irq s c) - 1\<rparr>
        in if ncli i1 < 0 then Panic ''popcli''
           else if ncli i1 = 0 \<and> intena i1 then Ok (set_irq c (i1\<lparr>if_flag := True\<rparr>) s)
           else Ok (set_irq c i1 s))"

definition holding :: "nat \<Rightarrow> nat \<Rightarrow> smp \<Rightarrow> (bool \<times> smp) outcome" where
  "holding c l s =
     (let s1 = pushcli c s;
          r = (locked (locks s1 l) \<noteq> 0 \<and> lk_cpu (locks s1 l) = Some c)
      in andthen (popcli c s1) (\<lambda>s2. Ok (r, s2)))"

text \<open>The walk along the saved frame pointers; the second loop pads with zeros.\<close>

primrec getcallerpcs_loop :: "nat \<Rightarrow> (uint \<Rightarrow> uint) \<Rightarrow> uint \<Rightarrow> uint list" where
  "getcallerpcs_loop 0 mem ebp = []"
| "getcallerpcs_loop (Suc k) mem ebp =
     (if ebp = 0 \<or> ebp < KERNBASE \<or> ebp = 0xffffffff then replicate (Suc k) 0
      else mem (ebp + 4) # getcallerpcs_loop k mem (mem ebp))"

definition getcallerpcs :: "(uint \<Rightarrow> uint) \<Rightarrow> uint \<Rightarrow> uint list" where
  "getcallerpcs mem v = getcallerpcs_loop 10 mem (v - 8)"

text \<open>The parts of \<^verbatim>\<open>acquire\<close> before, at and after the atomic exchange; \<open>v\<close> is the address of its
  argument on the stack.\<close>

definition acquire_begin :: "nat \<Rightarrow> nat \<Rightarrow> smp \<Rightarrow> smp outcome" where
  "acquire_begin c l s =
     andthen (holding c l (pushcli c s)) (\<lambda>(h, s1). if h then Panic ''acquire'' else Ok s1)"

definition xchg_locked :: "nat \<Rightarrow> smp \<Rightarrow> uint \<times> smp" where
  "xchg_locked l s = (locked (locks s l), set_lock l ((locks s l)\<lparr>locked := 1\<rparr>) s)"

definition acquire_end :: "nat \<Rightarrow> nat \<Rightarrow> uint \<Rightarrow> smp \<Rightarrow> smp" where
  "acquire_end c l v s =
     set_lock l ((locks s l)\<lparr>lk_cpu := Some c, pcs := getcallerpcs (stack_word s) v\<rparr>) s"

definition acquire :: "nat \<Rightarrow> nat \<Rightarrow> uint \<Rightarrow> smp \<Rightarrow> smp outcome" where
  "acquire c l v s =
     andthen (acquire_begin c l s)
       (\<lambda>s1. let (old, s2) = xchg_locked l s1 in if old \<noteq> 0 then Hang else Ok (acquire_end c l v s2))"

definition release_clear :: "nat \<Rightarrow> nat \<Rightarrow> smp \<Rightarrow> smp outcome" where
  "release_clear c l s =
     andthen (holding c l s)
       (\<lambda>(h, s1). if \<not> h then Panic ''release''
                  else Ok (set_lock l ((locks s1 l)\<lparr>pcs := (pcs (locks s1 l))[0 := 0], lk_cpu := None\<rparr>) s1))"

definition release_unlock :: "nat \<Rightarrow> smp \<Rightarrow> smp" where
  "release_unlock l s = set_lock l ((locks s l)\<lparr>locked := 0\<rparr>) s"

definition release :: "nat \<Rightarrow> nat \<Rightarrow> smp \<Rightarrow> smp outcome" where
  "release c l s = andthen (release_clear c l s) (\<lambda>s1. popcli c (release_unlock l s1))"

section \<open>Several processors at one lock\<close>

text \<open>Where a processor is: outside, spinning, past the exchange, in its critical section, after
  clearing \<^verbatim>\<open>lk->cpu\<close>, after storing 0 in \<^verbatim>\<open>lk->locked\<close>.\<close>

datatype where_at = Out | Spinning | Taken | Inside | Cleared | Unlocked

inductive lock_step :: "nat \<Rightarrow> smp \<times> (nat \<Rightarrow> where_at) \<Rightarrow> smp \<times> (nat \<Rightarrow> where_at) \<Rightarrow> bool" for l where
  enter: "pc c = Out \<Longrightarrow> acquire_begin c l s = Ok s' \<Longrightarrow> lock_step l (s, pc) (s', pc(c := Spinning))"
| spin: "pc c = Spinning \<Longrightarrow> xchg_locked l s = (old, s') \<Longrightarrow> old \<noteq> 0 \<Longrightarrow> lock_step l (s, pc) (s', pc)"
| take: "pc c = Spinning \<Longrightarrow> xchg_locked l s = (0, s') \<Longrightarrow> lock_step l (s, pc) (s', pc(c := Taken))"
| record_holder: "pc c = Taken \<Longrightarrow> lock_step l (s, pc) (acquire_end c l v s, pc(c := Inside))"
| clear: "pc c = Inside \<Longrightarrow> release_clear c l s = Ok s' \<Longrightarrow> lock_step l (s, pc) (s', pc(c := Cleared))"
| unlock: "pc c = Cleared \<Longrightarrow> lock_step l (s, pc) (release_unlock l s, pc(c := Unlocked))"
| leave: "pc c = Unlocked \<Longrightarrow> popcli c s = Ok s' \<Longrightarrow> lock_step l (s, pc) (s', pc(c := Out))"

inductive lock_reach :: "nat \<Rightarrow> smp \<times> (nat \<Rightarrow> where_at) \<Rightarrow> bool" for l where
  start: "locked (locks s l) = 0 \<Longrightarrow> lk_cpu (locks s l) = None \<Longrightarrow> \<forall>c. ncli (irq s c) = 0 \<Longrightarrow>
    lock_reach l (s, \<lambda>_. Out)"
| next_step: "lock_reach l st \<Longrightarrow> lock_step l st st' \<Longrightarrow> lock_reach l st'"

inductive_cases lock_stepE: "lock_step l (s, pc) (s', pc')"

definition owns :: "where_at \<Rightarrow> bool" where
  "owns w \<longleftrightarrow> w \<in> {Taken, Inside, Cleared}"

definition irq_ok :: "cpu_irq \<Rightarrow> where_at \<Rightarrow> bool" where
  "irq_ok i w \<longleftrightarrow> (if w = Out then ncli i = 0 else ncli i = 1 \<and> \<not> if_flag i)"

definition lock_inv :: "nat \<Rightarrow> smp \<times> (nat \<Rightarrow> where_at) \<Rightarrow> bool" where
  "lock_inv l = (\<lambda>(s, pc).
     (locked (locks s l) = 0 \<longleftrightarrow> (\<forall>c. \<not> owns (pc c))) \<and>
     (\<forall>c c'. owns (pc c) \<longrightarrow> owns (pc c') \<longrightarrow> c = c') \<and>
     (\<forall>c. lk_cpu (locks s l) = Some c \<longleftrightarrow> pc c = Inside) \<and>
     (\<forall>c. irq_ok (irq s c) (pc c)))"

section \<open>Interrupt nesting\<close>

named_theorems lock_simps \<open>the lock routines as record updates\<close>

lemma set_irq_simps [lock_simps, simp]:
  "irq (set_irq c i s) = (irq s)(c := i)" "locks (set_irq c i s) = locks s"
  by (simp_all add: set_irq_def)

lemma set_lock_simps [lock_simps, simp]:
  "locks (set_lock l k s) = (locks s)(l := k)" "irq (set_lock l k s) = irq s"
  by (simp_all add: set_lock_def)

lemma locks_pushcli [simp]: "locks (pushcli c s) = locks s"
  by (simp add: pushcli_def Let_def)

lemma pushcli_popcli:
  assumes "0 \<le> ncli (irq s c)" and "0 < ncli (irq s c) \<longrightarrow> \<not> if_flag (irq s c)"
  shows "\<exists>s'. popcli c (pushcli c s) = Ok s' \<and> locks s' = locks s \<and> ncli (irq s' c) = ncli (irq s c) \<and>
    if_flag (irq s' c) = if_flag (irq s c) \<and> (0 < ncli (irq s c) \<longrightarrow> irq s' c = irq s c) \<and> (\<forall>c'. c' \<noteq> c \<longrightarrow> irq s' c' = irq s c')"
  using assms by (auto simp: pushcli_def popcli_def Let_def)

lemma holding_eq:
  assumes "0 \<le> ncli (irq s c)" and "0 < ncli (irq s c) \<longrightarrow> \<not> if_flag (irq s c)"
  shows "\<exists>s'. holding c l s = Ok (locked (locks s l) \<noteq> 0 \<and> lk_cpu (locks s l) = Some c, s') \<and>
    locks s' = locks s \<and> ncli (irq s' c) = ncli (irq s c) \<and> if_flag (irq s' c) = if_flag (irq s c) \<and>
    (0 < ncli (irq s c) \<longrightarrow> irq s' c = irq s c) \<and> (\<forall>c'. c' \<noteq> c \<longrightarrow> irq s' c' = irq s c')"
  using pushcli_popcli [OF assms] by (auto simp: holding_def Let_def)

primrec popcli_n :: "nat \<Rightarrow> nat \<Rightarrow> smp \<Rightarrow> smp outcome" where
  "popcli_n 0 c s = Ok s"
| "popcli_n (Suc n) c s = andthen (popcli c s) (popcli_n n c)"

lemma pushes:
  assumes "0 \<le> ncli (irq s c)" and "0 < ncli (irq s c) \<longrightarrow> \<not> if_flag (irq s c)"
  shows "irq ((pushcli c ^^ n) s) c = (if n = 0 then irq s c else
    \<lparr>if_flag = False, ncli = ncli (irq s c) + int n, intena = (if ncli (irq s c) = 0 then if_flag (irq s c) else intena (irq s c))\<rparr>)"
  using assms by (induction n) (auto simp: pushcli_def Let_def)

lemma pops:
  assumes "\<not> if_flag (irq s c)" and "ncli (irq s c) = k + int (Suc n)" and "0 \<le> k"
  shows "\<exists>s'. popcli_n (Suc n) c s = Ok s' \<and> ncli (irq s' c) = k \<and> if_flag (irq s' c) = (k = 0 \<and> intena (irq s c))"
  using assms
proof (induction n arbitrary: s)
  case 0
  then show ?case by (auto simp: popcli_def Let_def)
next
  case (Suc n)
  then obtain s1 where "popcli c s = Ok s1" "irq s1 c = (irq s c)\<lparr>ncli := k + int (Suc n)\<rparr>"
    by (auto simp: popcli_def Let_def)
  then show ?case using Suc.IH [of s1] Suc.prems by simp
qed

text \<open>\<^verbatim>\<open>pushcli\<close> and \<^verbatim>\<open>popcli\<close> nest: after \<open>n\<close> calls of the first, interrupts are off; \<open>n\<close> calls of the
  second succeed and restore the interrupt flag and the depth there were before, whatever they were.\<close>

theorem pushcli_nest:
  assumes "0 \<le> ncli (irq s c)" and "0 < ncli (irq s c) \<longrightarrow> \<not> if_flag (irq s c)" and "0 < n"
  shows "\<not> if_flag (irq ((pushcli c ^^ n) s) c) \<and>
    (\<exists>s'. popcli_n n c ((pushcli c ^^ n) s) = Ok s' \<and> ncli (irq s' c) = ncli (irq s c) \<and>
      if_flag (irq s' c) = if_flag (irq s c))"
proof -
  obtain k where n: "n = Suc k" using assms(3) by (cases n) auto
  note p = pushes [OF assms(1,2), of "Suc k"]
  from pops [of "(pushcli c ^^ Suc k) s" c "ncli (irq s c)" k] assms(1,2) p show ?thesis
    unfolding n by (auto simp del: funpow.simps popcli_n.simps)
qed

definition idle_smp :: smp where
  "idle_smp = \<lparr>irq = \<lambda>_. \<lparr>if_flag = True, ncli = 0, intena = False\<rparr>,
     locks = \<lambda>_. \<lparr>locked = 0, lk_name = [], lk_cpu = None, pcs = replicate 10 0\<rparr>, stack_word = \<lambda>_. 0\<rparr>"

theorem pushcli_nest_witness:
  "\<exists>s'. popcli_n 2 0 ((pushcli 0 ^^ 2) idle_smp) = Ok s' \<and> if_flag (irq s' 0)"
  using pushcli_nest [of idle_smp 0 2] by (auto simp: idle_smp_def)

section \<open>Mutual exclusion\<close>

lemma owns_simps [simp]:
  "\<not> owns Out" "\<not> owns Spinning" "owns Taken" "owns Inside" "owns Cleared" "\<not> owns Unlocked"
  by (simp_all add: owns_def)

lemma lock_invI:
  assumes "locked (locks s l) = 0 \<longleftrightarrow> (\<forall>c. \<not> owns (pc c))" and "\<And>c c'. owns (pc c) \<Longrightarrow> owns (pc c') \<Longrightarrow> c = c'"
    and "\<And>c. lk_cpu (locks s l) = Some c \<longleftrightarrow> pc c = Inside" and "\<And>c. irq_ok (irq s c) (pc c)"
  shows "lock_inv l (s, pc)"
  using assms unfolding lock_inv_def by blast

lemma acquire_begin_free:
  assumes "ncli (irq s c) = 0" and "lk_cpu (locks s l) \<noteq> Some c"
  shows "\<exists>s'. acquire_begin c l s = Ok s' \<and> locks s' = locks s \<and> ncli (irq s' c) = 1 \<and> \<not> if_flag (irq s' c) \<and>
    (\<forall>c'. c' \<noteq> c \<longrightarrow> irq s' c' = irq s c')"
proof -
  have "ncli (irq (pushcli c s) c) = 1" "\<not> if_flag (irq (pushcli c s) c)" "\<forall>c'. c' \<noteq> c \<longrightarrow> irq (pushcli c s) c' = irq s c'"
    using assms(1) by (auto simp: pushcli_def Let_def)
  with holding_eq [of "pushcli c s" c l] assms(2) show ?thesis by (auto simp: acquire_begin_def)
qed

lemma release_clear_holder:
  assumes "ncli (irq s c) = 1" and "\<not> if_flag (irq s c)" and "locked (locks s l) \<noteq> 0" and "lk_cpu (locks s l) = Some c"
  shows "\<exists>s'. release_clear c l s = Ok s' \<and>
    locks s' = (locks s)(l := (locks s l)\<lparr>pcs := (pcs (locks s l))[0 := 0], lk_cpu := None\<rparr>) \<and> (\<forall>c'. irq s' c' = irq s c')"
proof -
  from holding_eq [of s c l] assms obtain s1 where s1: "holding c l s = Ok (True, s1)" "locks s1 = locks s"
    "irq s1 c = irq s c" "\<forall>c'. c' \<noteq> c \<longrightarrow> irq s1 c' = irq s c'" by auto
  then have "irq s1 c' = irq s c'" for c' by (cases "c' = c") auto
  then show ?thesis using s1 by (auto simp: release_clear_def)
qed

lemma lock_inv_step: "lock_step l (s, pc) (s', pc') \<Longrightarrow> lock_inv l (s, pc) \<Longrightarrow> lock_inv l (s', pc')"
proof (erule lock_stepE)
  assume inv: "lock_inv l (s, pc)"
  then have I: "locked (locks s l) = 0 \<longleftrightarrow> (\<forall>c. \<not> owns (pc c))" "\<And>c c'. owns (pc c) \<Longrightarrow> owns (pc c') \<Longrightarrow> c = c'"
    "\<And>c. lk_cpu (locks s l) = Some c \<longleftrightarrow> pc c = Inside" "\<And>c. irq_ok (irq s c) (pc c)"
    unfolding lock_inv_def prod.case by blast+
  have upd: "irq_ok (irq s' c') ((pc(c := w)) c')" if "irq_ok (irq s' c) w" "\<forall>c'. c' \<noteq> c \<longrightarrow> irq s' c' = irq s c'" for c c' w
    using that I(4) by (cases "c' = c") simp_all
  {
    fix c assume a: "pc' = pc(c := Spinning)" "pc c = Out" "acquire_begin c l s = Ok s'"
    then have "ncli (irq s c) = 0" "lk_cpu (locks s l) \<noteq> Some c" using I(3,4) [of c] by (auto simp: irq_ok_def)
    from acquire_begin_free [OF this] a(3) have s': "locks s' = locks s" "irq_ok (irq s' c) Spinning" "\<forall>c'. c' \<noteq> c \<longrightarrow> irq s' c' = irq s c'"
      by (auto simp: irq_ok_def)
    have "owns (pc' c') = owns (pc c')" for c' using a by simp
    moreover have "pc' c' = Inside \<longleftrightarrow> pc c' = Inside" for c' using a by simp
    ultimately show "lock_inv l (s', pc')" using I upd [OF s'(2,3)] unfolding a(1) by (intro lock_invI) (simp_all only: s'(1))
  next
    fix c old assume a: "pc' = pc" "pc c = Spinning" "xchg_locked l s = (old, s')" "old \<noteq> 0"
    then show "lock_inv l (s', pc')" using I(1-4) by (intro lock_invI) (auto simp: xchg_locked_def)
  next
    fix c assume a: "pc' = pc(c := Taken)" "pc c = Spinning" "xchg_locked l s = (0, s')"
    then have s': "s' = set_lock l ((locks s l)\<lparr>locked := 1\<rparr>) s" and free: "\<And>c. \<not> owns (pc c)"
      using I(1) by (auto simp: xchg_locked_def)
    have "irq_ok (irq s c) Taken" using I(4) [of c] a(2) by (simp add: irq_ok_def)
    with upd [of c Taken] have "irq_ok (irq s' c') (pc' c')" for c' by (simp add: s' a(1))
    moreover have "pc' c' \<noteq> Inside" "pc c' \<noteq> Inside" for c' using free [of c'] a(1) by (auto split: if_splits)
    ultimately show "lock_inv l (s', pc')"
      using I(3) free by (intro lock_invI) (auto simp: s' a(1) split: if_splits)
  next
    fix c v assume a: "s' = acquire_end c l v s" "pc' = pc(c := Inside)" "pc c = Taken"
    have own: "owns (pc c') \<longleftrightarrow> c' = c" for c' using I(2) [of c c'] a(3) by auto
    have "irq_ok (irq s c) Inside" using I(4) [of c] a(3) by (simp add: irq_ok_def)
    with upd [of c Inside] have "irq_ok (irq s' c') (pc' c')" for c' by (simp add: a acquire_end_def)
    moreover have "locked (locks s l) \<noteq> 0" using I(1) own by auto
    moreover have "pc c' \<noteq> Inside" for c' using own [of c'] a(3) by auto
    ultimately show "lock_inv l (s', pc')" using own by (intro lock_invI) (auto simp: a acquire_end_def split: if_splits)
  next
    fix c assume a: "pc' = pc(c := Cleared)" "pc c = Inside" "release_clear c l s = Ok s'"
    then have "owns (pc c)" by simp
    then have "locked (locks s l) \<noteq> 0" using I(1) by blast
    then have h: "ncli (irq s c) = 1" "\<not> if_flag (irq s c)" "locked (locks s l) \<noteq> 0" "lk_cpu (locks s l) = Some c"
      using a(2) I(3,4) [of c] by (simp_all add: irq_ok_def)
    have own: "owns (pc c') \<longleftrightarrow> c' = c" for c' using I(2) [of c c'] a(2) by auto
    from release_clear_holder [OF h] a(3)
    have s': "locks s' = (locks s)(l := (locks s l)\<lparr>pcs := (pcs (locks s l))[0 := 0], lk_cpu := None\<rparr>)" "\<And>c'. irq s' c' = irq s c'"
      by auto
    have "irq_ok (irq s' c') (pc' c')" for c' using upd [of c Cleared] s'(2) h by (simp add: a(1) irq_ok_def)
    moreover have "pc c' = Inside \<longleftrightarrow> c' = c" for c' using own [of c'] a(2) by auto
    ultimately show "lock_inv l (s', pc')" using own h(3) by (intro lock_invI) (auto simp: a(1) s'(1) split: if_splits)
  next
    fix c assume a: "s' = release_unlock l s" "pc' = pc(c := Unlocked)" "pc c = Cleared"
    have own: "owns (pc c') \<longleftrightarrow> c' = c" for c' using I(2) [of c c'] a(3) by auto
    have "irq_ok (irq s c) Unlocked" using I(4) [of c] a(3) by (simp add: irq_ok_def)
    with upd [of c Unlocked] have "irq_ok (irq s' c') (pc' c')" for c' by (simp add: a release_unlock_def)
    moreover have "pc c' \<noteq> Inside" for c' using own [of c'] a(3) by auto
    ultimately show "lock_inv l (s', pc')"
      using own I(3) by (intro lock_invI) (auto simp: a release_unlock_def split: if_splits)
  next
    fix c assume a: "pc' = pc(c := Out)" "pc c = Unlocked" "popcli c s = Ok s'"
    have "ncli (irq s c) = 1" "\<not> if_flag (irq s c)" using I(4) [of c] a(2) by (auto simp: irq_ok_def)
    then have s': "locks s' = locks s" "irq_ok (irq s' c) Out" "\<forall>c'. c' \<noteq> c \<longrightarrow> irq s' c' = irq s c'"
      using a(3) by (auto simp: popcli_def Let_def irq_ok_def split: if_splits)
    have "owns (pc' c') = owns (pc c')" for c' using a by simp
    moreover have "pc' c' = Inside \<longleftrightarrow> pc c' = Inside" for c' using a by simp
    ultimately show "lock_inv l (s', pc')" using I upd [OF s'(2,3)] unfolding a(1) by (intro lock_invI) (simp_all only: s'(1))
  }
qed

lemma lock_reach_inv: "lock_reach l st \<Longrightarrow> lock_inv l st"
proof (induction rule: lock_reach.induct)
  case (next_step st st')
  then show ?case using lock_inv_step by (cases st; cases st') blast
qed (auto simp: lock_inv_def irq_ok_def)

text \<open>C25: Mutual exclusion. In every interleaving of any number of processors at one lock, at most one
  processor is in its critical section; it is the one \<^verbatim>\<open>holding\<close> reports, and it runs with interrupts off.\<close>

theorem spinlock_mutual_exclusion:
  assumes "lock_reach l (s, pc)" and "pc c = Inside"
  shows "(\<forall>c'. owns (pc c') \<longrightarrow> c' = c) \<and> (\<exists>s'. holding c l s = Ok (True, s')) \<and> \<not> if_flag (irq s c)"
proof -
  from lock_reach_inv [OF assms(1)] have I: "locked (locks s l) = 0 \<longleftrightarrow> (\<forall>c. \<not> owns (pc c))"
    "\<forall>c c'. owns (pc c) \<longrightarrow> owns (pc c') \<longrightarrow> c = c'" "lk_cpu (locks s l) = Some c \<longleftrightarrow> pc c = Inside" "irq_ok (irq s c) (pc c)"
    unfolding lock_inv_def prod.case by blast+
  have i: "ncli (irq s c) = 1" "\<not> if_flag (irq s c)" using I(4) assms(2) by (simp_all add: irq_ok_def)
  have "locked (locks s l) \<noteq> 0" "lk_cpu (locks s l) = Some c" using I(1,3) assms(2) owns_simps(4) by metis+
  then have "\<exists>s'. holding c l s = Ok (True, s')" using holding_eq [of s c l] i by auto
  moreover have "owns (pc c)" using assms(2) by simp
  ultimately show ?thesis using I(2) i(2) by blast
qed

lemma idle_acquired:
  "\<exists>s. lock_reach 0 (s, (\<lambda>_. Out)(0 := Inside))"
proof -
  have r0: "lock_reach 0 (idle_smp, \<lambda>_. Out)" by (rule lock_reach.start) (simp_all add: idle_smp_def)
  have "ncli (irq idle_smp 0) = 0" "lk_cpu (locks idle_smp 0) \<noteq> Some 0" by (simp_all add: idle_smp_def)
  from acquire_begin_free [OF this] obtain s1 where s1: "acquire_begin 0 0 idle_smp = Ok s1" "locks s1 = locks idle_smp" by blast
  have r1: "lock_reach 0 (s1, (\<lambda>_. Out)(0 := Spinning))"
    using lock_reach.next_step [OF r0 lock_step.enter [of "\<lambda>_. Out" 0 0 idle_smp s1, OF _ s1(1)]] by simp
  obtain s2 where s2: "xchg_locked 0 s1 = (0, s2)" using s1(2) by (simp add: xchg_locked_def idle_smp_def)
  have "lock_reach 0 (s2, (\<lambda>_. Out)(0 := Spinning, 0 := Taken))"
    using lock_reach.next_step [OF r1 lock_step.take [of "(\<lambda>_. Out)(0 := Spinning)" 0 0 s1 s2, OF _ s2]] by simp
  from lock_reach.next_step [OF this lock_step.record_holder [of _ 0 0 s2 0]] show ?thesis by auto
qed

theorem spinlock_mutual_exclusion_witness:
  "\<exists>s s'. lock_reach 0 (s, (\<lambda>_. Out)(0 := Inside)) \<and> holding 0 0 s = Ok (True, s') \<and> \<not> if_flag (irq s 0)"
proof -
  obtain s where s: "lock_reach 0 (s, (\<lambda>_. Out)(0 := Inside))" using idle_acquired by blast
  from spinlock_mutual_exclusion [OF s, of 0] s show ?thesis by auto
qed

text \<open>Progress. No processor that follows the protocol is stopped by a panic of \<^verbatim>\<open>acquire\<close>,
  \<^verbatim>\<open>release\<close> or \<^verbatim>\<open>popcli\<close>: in every reachable state each processor has a step, and a spinning processor takes
  the lock if and only if no processor owns it.\<close>

theorem spinlock_no_panic:
  assumes "lock_reach l (s, pc)"
  shows "(case pc c of
      Out \<Rightarrow> \<exists>s'. acquire_begin c l s = Ok s'
    | Spinning \<Rightarrow> fst (xchg_locked l s) = 0 \<longleftrightarrow> (\<forall>c'. \<not> owns (pc c'))
    | Inside \<Rightarrow> \<exists>s'. release_clear c l s = Ok s'
    | Unlocked \<Rightarrow> \<exists>s'. popcli c s = Ok s'
    | _ \<Rightarrow> True)"
proof -
  from lock_reach_inv [OF assms] have I: "locked (locks s l) = 0 \<longleftrightarrow> (\<forall>c. \<not> owns (pc c))"
    "lk_cpu (locks s l) = Some c \<longleftrightarrow> pc c = Inside" "irq_ok (irq s c) (pc c)"
    unfolding lock_inv_def prod.case by blast+
  show ?thesis
  proof (cases "pc c")
    case Out
    then show ?thesis using acquire_begin_free [of s c l] I by (auto simp: irq_ok_def)
  next
    case Spinning
    then show ?thesis using I(1) by (simp add: xchg_locked_def)
  next
    case Inside
    then have "owns (pc c)" by simp
    then have "locked (locks s l) \<noteq> 0" using I(1) by blast
    then show ?thesis using release_clear_holder [of s c l] I(2,3) Inside by (auto simp: irq_ok_def)
  next
    case Unlocked
    then show ?thesis using I by (auto simp: irq_ok_def popcli_def Let_def)
  qed simp_all
qed

theorem spinlock_no_panic_witness:
  "\<exists>s s'. lock_reach 0 (s, (\<lambda>_. Out)(0 := Inside)) \<and> release_clear 0 0 s = Ok s'"
proof -
  obtain s where s: "lock_reach 0 (s, (\<lambda>_. Out)(0 := Inside))" using idle_acquired by blast
  from spinlock_no_panic [OF s, of 0] s show ?thesis by auto
qed

section \<open>The contract of a lock\<close>

text \<open>Whole calls of \<^verbatim>\<open>acquire\<close> and \<^verbatim>\<open>release\<close> implement the abstract lock: an \<^verbatim>\<open>acquire\<close> that would spin
  because another processor has the lock does not return.\<close>

definition spin_owner :: "nat \<Rightarrow> smp \<Rightarrow> nat option" where
  "spin_owner l s = (if locked (locks s l) = 0 then None else lk_cpu (locks s l))"

definition spin_good :: "nat \<Rightarrow> smp \<Rightarrow> bool" where
  "spin_good l s \<longleftrightarrow> (locked (locks s l) = 0 \<longleftrightarrow> lk_cpu (locks s l) = None) \<and>
     (\<forall>c. 0 \<le> ncli (irq s c) \<and> (0 < ncli (irq s c) \<longrightarrow> \<not> if_flag (irq s c)) \<and>
       (lk_cpu (locks s l) = Some c \<longrightarrow> 0 < ncli (irq s c)))"

definition outcome_option :: "'a outcome \<Rightarrow> 'a option" where
  "outcome_option r = (case r of Ok x \<Rightarrow> Some x | _ \<Rightarrow> None)"

lemma outcome_option_simps [simp]:
  "outcome_option (Ok x) = Some x" "outcome_option (Panic e) = None" "outcome_option Hang = None"
  by (simp_all add: outcome_option_def)

lemma pushed_holding:
  assumes "spin_good l s"
  shows "\<exists>s'. holding c l (pushcli c s) = Ok (locked (locks s l) \<noteq> 0 \<and> lk_cpu (locks s l) = Some c, s') \<and>
    locks s' = locks s \<and> ncli (irq s' c) = ncli (irq s c) + 1 \<and> \<not> if_flag (irq s' c) \<and> (\<forall>c'. c' \<noteq> c \<longrightarrow> irq s' c' = irq s c')"
proof -
  have "0 \<le> ncli (irq s c)" using assms by (simp add: spin_good_def)
  then have p: "ncli (irq (pushcli c s) c) = ncli (irq s c) + 1" "\<not> if_flag (irq (pushcli c s) c)"
    "\<forall>c'. c' \<noteq> c \<longrightarrow> irq (pushcli c s) c' = irq s c'" "0 \<le> ncli (irq (pushcli c s) c)"
    by (auto simp: pushcli_def Let_def)
  have "0 < ncli (irq (pushcli c s) c) \<longrightarrow> \<not> if_flag (irq (pushcli c s) c)" using p(2) by simp
  from holding_eq [OF p(4) this, of l] p(1-3) show ?thesis by auto
qed

lemma acquire_owned: "spin_good l s \<Longrightarrow> spin_owner l s = Some q \<Longrightarrow> q \<noteq> c \<Longrightarrow> outcome_option (acquire c l v s) = None"
  using pushed_holding [of l s c]
  by (auto simp: acquire_def acquire_begin_def xchg_locked_def spin_owner_def Let_def split: if_splits)

lemma acquire_free:
  assumes "spin_good l s" and "spin_owner l s = None"
  shows "\<exists>s'. outcome_option (acquire c l v s) = Some s' \<and> spin_good l s' \<and> spin_owner l s' = Some c"
proof -
  have f: "locked (locks s l) = 0" using assms by (auto simp: spin_owner_def spin_good_def split: if_splits)
  from pushed_holding [OF assms(1), of c] f obtain s1 where s1: "acquire_begin c l s = Ok s1" "locks s1 = locks s"
    "ncli (irq s1 c) = ncli (irq s c) + 1" "\<not> if_flag (irq s1 c)" "\<forall>c'. c' \<noteq> c \<longrightarrow> irq s1 c' = irq s c'"
    by (auto simp: acquire_begin_def)
  have "0 \<le> ncli (irq s c)" using assms(1) by (simp add: spin_good_def)
  then have g: "0 \<le> ncli (irq s1 c') \<and> (0 < ncli (irq s1 c') \<longrightarrow> \<not> if_flag (irq s1 c')) \<and> (c' = c \<longrightarrow> 0 < ncli (irq s1 c'))" for c'
    using assms(1) s1(3-5) by (cases "c' = c") (auto simp: spin_good_def)
  let ?s = "acquire_end c l v (set_lock l ((locks s1 l)\<lparr>locked := 1\<rparr>) s1)"
  have "acquire c l v s = Ok ?s" using s1(1,2) f by (simp add: acquire_def xchg_locked_def)
  moreover have "spin_good l ?s" "spin_owner l ?s = Some c"
    using g by (auto simp: spin_good_def spin_owner_def acquire_end_def)
  ultimately show ?thesis by simp
qed

lemma popcli_inside:
  assumes "0 < ncli (irq s c)" and "\<not> if_flag (irq s c)"
  shows "\<exists>s'. popcli c s = Ok s' \<and> locks s' = locks s \<and> 0 \<le> ncli (irq s' c) \<and>
    (0 < ncli (irq s' c) \<longrightarrow> \<not> if_flag (irq s' c)) \<and> (\<forall>c'. c' \<noteq> c \<longrightarrow> irq s' c' = irq s c')"
  using assms by (cases "ncli (irq s c) = 1 \<and> intena (irq s c)") (auto simp: popcli_def Let_def)

lemma release_owner:
  assumes "spin_good l s" and "spin_owner l s = Some c"
  shows "\<exists>s'. outcome_option (release c l s) = Some s' \<and> spin_good l s' \<and> spin_owner l s' = None"
proof -
  have h: "locked (locks s l) \<noteq> 0" "lk_cpu (locks s l) = Some c" "0 < ncli (irq s c)" "\<not> if_flag (irq s c)"
    using assms by (auto simp: spin_owner_def spin_good_def split: if_splits)
  from holding_eq [of s c l] h obtain s1 where s1: "holding c l s = Ok (True, s1)" "locks s1 = locks s"
    "irq s1 c = irq s c" "\<forall>c'. c' \<noteq> c \<longrightarrow> irq s1 c' = irq s c'" by auto
  define s2 where "s2 = release_unlock l (set_lock l ((locks s1 l)\<lparr>pcs := (pcs (locks s1 l))[0 := 0], lk_cpu := None\<rparr>) s1)"
  have i2: "irq s2 c' = irq s c'" for c' using s1(3,4) by (cases "c' = c") (auto simp: s2_def release_unlock_def)
  have l2: "locked (locks s2 l) = 0" "lk_cpu (locks s2 l) = None" by (simp_all add: s2_def release_unlock_def)
  from popcli_inside [of s2 c] h(3,4) i2 [of c] obtain s3 where s3: "popcli c s2 = Ok s3" "locks s3 = locks s2"
    "0 \<le> ncli (irq s3 c)" "0 < ncli (irq s3 c) \<longrightarrow> \<not> if_flag (irq s3 c)" "\<forall>c'. c' \<noteq> c \<longrightarrow> irq s3 c' = irq s2 c'"
    by auto
  have "0 \<le> ncli (irq s3 c') \<and> (0 < ncli (irq s3 c') \<longrightarrow> \<not> if_flag (irq s3 c'))" for c'
    using assms(1) s3(3-5) i2 [of c'] by (cases "c' = c") (auto simp: spin_good_def)
  then have "spin_good l s3" "spin_owner l s3 = None" using l2 s3(2) by (simp_all add: spin_good_def spin_owner_def)
  moreover have "release c l s = Ok s3" using s1(1) s3(1) by (simp add: release_def release_clear_def s2_def)
  ultimately show ?thesis by simp
qed

interpretation spin: mutex "spin_good l" "spin_owner l" "\<lambda>c s. outcome_option (acquire c l v s)" "\<lambda>c s. outcome_option (release c l s)"
  for l v
  by unfold_locales (simp_all add: acquire_owned acquire_free release_owner)

end
