(* ===== verification/Sleeplock.thy ===== *)
theory Sleeplock
  imports Spinlock
begin

text \<open>
  Sleep locks, \<^verbatim>\<open>sleeplock.c\<close>. Each routine is one critical section of the inner spin lock, so
  one transition; \<^verbatim>\<open>acquiresleep\<close> that finds the lock taken goes to sleep on the lock's address and
  checks again when it is woken. The state has the lock and the set of processes asleep on it.
\<close>

section \<open>Definitions\<close>

record sleeplock =
  sl_locked :: uint
  sl_lk :: spinlock
  sl_name :: string
  sl_pid :: int

record sleep_state =
  slk :: sleeplock
  asleep :: "int set"

definition initsleeplock :: "string \<Rightarrow> sleeplock \<Rightarrow> sleeplock" where
  "initsleeplock nm lk =
     lk\<lparr>sl_lk := (sl_lk lk)\<lparr>lk_name := ''sleep lock'', locked := 0, lk_cpu := None\<rparr>,
        sl_name := nm, sl_locked := 0, sl_pid := 0\<rparr>"

text \<open>One round of the loop of \<^verbatim>\<open>acquiresleep\<close> by process \<open>p\<close>: it has the lock, or it sleeps.\<close>

definition acquiresleep :: "int \<Rightarrow> sleep_state \<Rightarrow> bool \<times> sleep_state" where
  "acquiresleep p st =
     (if sl_locked (slk st) \<noteq> 0 then (False, st\<lparr>asleep := insert p (asleep st)\<rparr>)
      else (True, st\<lparr>slk := (slk st)\<lparr>sl_locked := 1, sl_pid := p\<rparr>\<rparr>))"

definition releasesleep :: "sleep_state \<Rightarrow> sleep_state" where
  "releasesleep st = st\<lparr>slk := (slk st)\<lparr>sl_locked := 0, sl_pid := 0\<rparr>, asleep := {}\<rparr>"

definition holdingsleep :: "int \<Rightarrow> sleep_state \<Rightarrow> bool" where
  "holdingsleep p st \<longleftrightarrow> sl_locked (slk st) \<noteq> 0 \<and> sl_pid (slk st) = p"

section \<open>Processes at a sleep lock\<close>

text \<open>A process is away from the lock, asleep on it, woken and about to check again, or has it. \<open>kick\<close> is
  \<^verbatim>\<open>kill\<close>, which makes a sleeping process runnable.\<close>

datatype sleep_pos = Away | Asleep | Woken | Holder

inductive sleep_step :: "sleep_state \<times> (int \<Rightarrow> sleep_pos) \<Rightarrow> sleep_state \<times> (int \<Rightarrow> sleep_pos) \<Rightarrow> bool" where
  got: "pos p = Away \<or> pos p = Woken \<Longrightarrow> acquiresleep p st = (True, st') \<Longrightarrow> sleep_step (st, pos) (st', pos(p := Holder))"
| wait: "pos p = Away \<or> pos p = Woken \<Longrightarrow> acquiresleep p st = (False, st') \<Longrightarrow> sleep_step (st, pos) (st', pos(p := Asleep))"
| free: "pos p = Holder \<Longrightarrow>
    sleep_step (st, pos) (releasesleep st, (\<lambda>q. if q \<in> asleep st then Woken else (pos(p := Away)) q))"
| kick: "pos p = Asleep \<Longrightarrow> sleep_step (st, pos) (st\<lparr>asleep := asleep st - {p}\<rparr>, pos(p := Woken))"

inductive sleep_reach :: "sleep_state \<times> (int \<Rightarrow> sleep_pos) \<Rightarrow> bool" where
  start: "sl_locked (slk st) = 0 \<Longrightarrow> asleep st = {} \<Longrightarrow> sleep_reach (st, \<lambda>_. Away)"
| next_step: "sleep_reach c \<Longrightarrow> sleep_step c c' \<Longrightarrow> sleep_reach c'"

inductive_cases sleep_stepE: "sleep_step (st, pos) (st', pos')"

definition sleep_inv :: "sleep_state \<times> (int \<Rightarrow> sleep_pos) \<Rightarrow> bool" where
  "sleep_inv = (\<lambda>(st, pos).
     (\<forall>p. pos p = Holder \<longleftrightarrow> sl_locked (slk st) \<noteq> 0 \<and> sl_pid (slk st) = p) \<and>
     asleep st = {p. pos p = Asleep} \<and>
     (sl_locked (slk st) = 0 \<longrightarrow> asleep st = {}))"

definition sleep_owner :: "sleep_state \<Rightarrow> int option" where
  "sleep_owner st = (if sl_locked (slk st) = 0 then None else Some (sl_pid (slk st)))"

definition try_acquiresleep :: "int \<Rightarrow> sleep_state \<Rightarrow> sleep_state option" where
  "try_acquiresleep p st = (case acquiresleep p st of (True, st') \<Rightarrow> Some st' | (False, _) \<Rightarrow> None)"

section \<open>Mutual exclusion and wake-ups\<close>

lemma sleep_inv_step: "sleep_step (st, pos) (st', pos') \<Longrightarrow> sleep_inv (st, pos) \<Longrightarrow> sleep_inv (st', pos')"
proof -
  assume step: "sleep_step (st, pos) (st', pos')" and inv: "sleep_inv (st, pos)"
  then have "sl_locked (slk st) \<noteq> 0 \<Longrightarrow> pos (sl_pid (slk st)) = Holder" by (simp add: sleep_inv_def)
  with step inv show ?thesis
    by (elim sleep_stepE)
      (auto simp: sleep_inv_def acquiresleep_def releasesleep_def split: if_splits, (metis sleep_pos.distinct)+)
qed

lemma sleep_reach_inv: "sleep_reach c \<Longrightarrow> sleep_inv c"
proof (induction rule: sleep_reach.induct)
  case (next_step c c')
  then show ?case using sleep_inv_step [of "fst c" "snd c" "fst c'" "snd c'"] by simp
qed (auto simp: sleep_inv_def)


definition free_sleeplock :: sleep_state where
  "free_sleeplock = \<lparr>slk = initsleeplock ''buffer'' \<lparr>sl_locked = 1, sl_lk = locks idle_smp 0, sl_name = [], sl_pid = 7\<rparr>, asleep = {}\<rparr>"


interpretation slock: mutex "\<lambda>_. True" sleep_owner try_acquiresleep "\<lambda>_ st. Some (releasesleep st)"
  by unfold_locales
    (auto simp: sleep_owner_def try_acquiresleep_def acquiresleep_def releasesleep_def split: if_splits)



end
