(* ===== verification/Bio.thy ===== *)
theory Bio
  imports Sleeplock
begin

text \<open>
  The buffer cache, \<^verbatim>\<open>bio.c\<close>, over the block device of \<^verbatim>\<open>memide.c\<close>. Buffers are numbered
  0 to 29; number 30 is the list head \<^verbatim>\<open>bcache.head\<close>. The links \<^verbatim>\<open>next\<close> and \<^verbatim>\<open>prev\<close> are kept as the
  pointers they are, and shown to form a doubly linked list in the order of use. A call that would have to
  wait for the sleep lock of a buffer does not return: its outcome is \<open>Hang\<close>. The device records the
  writes it has done, in order, for the reasoning about crashes.
\<close>

section \<open>Definitions\<close>

abbreviation "NBUF \<equiv> (30 :: nat)"
abbreviation "BSIZE \<equiv> (512 :: nat)"
abbreviation "B_VALID \<equiv> (2 :: uint)"
abbreviation "B_DIRTY \<equiv> (4 :: uint)"

type_synonym block = "uchar list"

record buf =
  bflags :: uint
  bdev :: uint
  blockno :: uint
  bsl :: sleep_state
  refcnt :: uint
  bdata :: block

record bcache =
  bufs :: "nat \<Rightarrow> buf"
  bnext :: "nat \<Rightarrow> nat"
  bprev :: "nat \<Rightarrow> nat"
  disk :: "uint \<Rightarrow> block"
  disksize :: uint
  trace :: "(uint \<times> block) list"

definition upd_buf :: "nat \<Rightarrow> (buf \<Rightarrow> buf) \<Rightarrow> bcache \<Rightarrow> bcache" where
  "upd_buf b f s = s\<lparr>bufs := (bufs s)(b := f (bufs s b))\<rparr>"

text \<open>Insertion of a buffer behind the head, as \<^verbatim>\<open>binit\<close> and \<^verbatim>\<open>brelse\<close> both do it.\<close>

definition link_front :: "nat \<Rightarrow> bcache \<Rightarrow> bcache" where
  "link_front b s =
     (let s1 = s\<lparr>bnext := (bnext s)(b := bnext s NBUF)\<rparr>;
          s2 = s1\<lparr>bprev := (bprev s1)(b := NBUF)\<rparr>;
          s3 = s2\<lparr>bprev := (bprev s2)(bnext s2 NBUF := b)\<rparr>
      in s3\<lparr>bnext := (bnext s3)(NBUF := b)\<rparr>)"

definition binit :: "bcache \<Rightarrow> bcache" where
  "binit s =
     foldl (\<lambda>s b. link_front b (upd_buf b (\<lambda>x. x\<lparr>bsl := (bsl x)\<lparr>slk := initsleeplock ''buffer'' (slk (bsl x))\<rparr>\<rparr>) s))
       (s\<lparr>bnext := (bnext s)(NBUF := NBUF), bprev := (bprev s)(NBUF := NBUF)\<rparr>) [0..<NBUF]"

text \<open>The two search loops of \<^verbatim>\<open>bget\<close>: along \<^verbatim>\<open>next\<close> or along \<^verbatim>\<open>prev\<close>, up to the head.\<close>

fun scan :: "nat \<Rightarrow> (nat \<Rightarrow> nat) \<Rightarrow> (nat \<Rightarrow> bool) \<Rightarrow> nat \<Rightarrow> nat option outcome" where
  "scan 0 lnk P b = Hang"
| "scan (Suc k) lnk P b =
     (if b = NBUF then Ok None else if P b then Ok (Some b) else scan k lnk P (lnk b))"

definition lock_buf :: "int \<Rightarrow> nat \<Rightarrow> bcache \<Rightarrow> bcache outcome" where
  "lock_buf p b s =
     (case acquiresleep p (bsl (bufs s b)) of
        (True, l) \<Rightarrow> Ok (upd_buf b (\<lambda>x. x\<lparr>bsl := l\<rparr>) s)
      | (False, l) \<Rightarrow> Hang)"

definition bget :: "int \<Rightarrow> uint \<Rightarrow> uint \<Rightarrow> bcache \<Rightarrow> (nat \<times> bcache) outcome" where
  "bget p dev n s =
     andthen (scan (Suc NBUF) (bnext s) (\<lambda>b. bdev (bufs s b) = dev \<and> blockno (bufs s b) = n) (bnext s NBUF))
       (\<lambda>r. case r of
          Some b \<Rightarrow> andthen (lock_buf p b (upd_buf b (\<lambda>x. x\<lparr>refcnt := refcnt x + 1\<rparr>) s)) (\<lambda>s1. Ok (b, s1))
        | None \<Rightarrow>
            andthen (scan (Suc NBUF) (bprev s) (\<lambda>b. refcnt (bufs s b) = 0 \<and> bflags (bufs s b) AND B_DIRTY = 0) (bprev s NBUF))
              (\<lambda>r. case r of
                 Some b \<Rightarrow>
                   andthen (lock_buf p b (upd_buf b (\<lambda>x. x\<lparr>bdev := dev, blockno := n, bflags := 0, refcnt := 1\<rparr>) s))
                     (\<lambda>s1. Ok (b, s1))
               | None \<Rightarrow> Panic ''bget: no buffers''))"

definition iderw :: "int \<Rightarrow> nat \<Rightarrow> bcache \<Rightarrow> bcache outcome" where
  "iderw p b s =
     (let x = bufs s b
      in if \<not> holdingsleep p (bsl x) then Panic ''iderw: buf not locked''
         else if bflags x AND (B_VALID OR B_DIRTY) = B_VALID then Panic ''iderw: nothing to do''
         else if bdev x \<noteq> 1 then Panic ''iderw: request not for disk 1''
         else if blockno x \<ge> disksize s then Panic ''iderw: block out of range''
         else
           let s1 = (if bflags x AND B_DIRTY \<noteq> 0
                     then (upd_buf b (\<lambda>x. x\<lparr>bflags := bflags x AND NOT B_DIRTY\<rparr>) s)
                            \<lparr>disk := (disk s)(blockno x := bdata x), trace := trace s @ [(blockno x, bdata x)]\<rparr>
                     else upd_buf b (\<lambda>x. x\<lparr>bdata := disk s (blockno x)\<rparr>) s)
           in Ok (upd_buf b (\<lambda>x. x\<lparr>bflags := bflags x OR B_VALID\<rparr>) s1))"

definition bread :: "int \<Rightarrow> uint \<Rightarrow> uint \<Rightarrow> bcache \<Rightarrow> (nat \<times> bcache) outcome" where
  "bread p dev n s =
     andthen (bget p dev n s)
       (\<lambda>(b, s1). if bflags (bufs s1 b) AND B_VALID = 0 then andthen (iderw p b s1) (\<lambda>s2. Ok (b, s2)) else Ok (b, s1))"

definition bwrite :: "int \<Rightarrow> nat \<Rightarrow> bcache \<Rightarrow> bcache outcome" where
  "bwrite p b s =
     (if \<not> holdingsleep p (bsl (bufs s b)) then Panic ''bwrite''
      else iderw p b (upd_buf b (\<lambda>x. x\<lparr>bflags := bflags x OR B_DIRTY\<rparr>) s))"

definition unlink :: "nat \<Rightarrow> bcache \<Rightarrow> bcache" where
  "unlink b s =
     (let s1 = s\<lparr>bprev := (bprev s)(bnext s b := bprev s b)\<rparr>
      in s1\<lparr>bnext := (bnext s1)(bprev s1 b := bnext s1 b)\<rparr>)"

definition brelse :: "int \<Rightarrow> nat \<Rightarrow> bcache \<Rightarrow> bcache outcome" where
  "brelse p b s =
     (if \<not> holdingsleep p (bsl (bufs s b)) then Panic ''brelse''
      else
        let s1 = upd_buf b (\<lambda>x. x\<lparr>bsl := releasesleep (bsl x)\<rparr>) s;
            s2 = upd_buf b (\<lambda>x. x\<lparr>refcnt := refcnt x - 1\<rparr>) s1
        in if refcnt (bufs s2 b) = 0 then Ok (link_front b (unlink b s2)) else Ok s2)"

text \<open>Storing into \<^verbatim>\<open>b->data\<close>.\<close>

definition set_data :: "nat \<Rightarrow> block \<Rightarrow> bcache \<Rightarrow> bcache" where
  "set_data b d s = upd_buf b (\<lambda>x. x\<lparr>bdata := d\<rparr>) s"

section \<open>The list of buffers\<close>

text \<open>\<open>linked nx pv a xs c\<close>: following \<open>nx\<close> from \<open>a\<close> one meets \<open>xs\<close> and then \<open>c\<close>, and \<open>pv\<close> leads back.\<close>

fun linked :: "(nat \<Rightarrow> nat) \<Rightarrow> (nat \<Rightarrow> nat) \<Rightarrow> nat \<Rightarrow> nat list \<Rightarrow> nat \<Rightarrow> bool" where
  "linked nx pv a [] c \<longleftrightarrow> nx a = c \<and> pv c = a"
| "linked nx pv a (x # xs) c \<longleftrightarrow> nx a = x \<and> pv x = a \<and> linked nx pv x xs c"

definition lru :: "bcache \<Rightarrow> nat list \<Rightarrow> bool" where
  "lru s xs \<longleftrightarrow> linked (bnext s) (bprev s) NBUF xs NBUF \<and> distinct xs \<and> set xs = {..<NBUF}"

lemma linked_append: "linked nx pv a (xs @ y # ys) c \<longleftrightarrow> linked nx pv a xs y \<and> linked nx pv y ys c"
  by (induction xs arbitrary: a) auto

lemma linked_rev: "linked nx pv a xs c \<Longrightarrow> linked pv nx c (rev xs) a"
proof (induction xs arbitrary: a)
  case (Cons x xs)
  then have "linked pv nx c (rev xs) x" "pv x = a" "nx a = x" by auto
  then show ?case by (simp add: linked_append)
qed auto

lemma linked_cong:
  assumes "\<And>x. x \<in> insert a (set xs) \<Longrightarrow> nx' x = nx x" and "\<And>x. x \<in> insert c (set xs) \<Longrightarrow> pv' x = pv x"
  shows "linked nx' pv' a xs c = linked nx pv a xs c"
  using assms by (induction xs arbitrary: a) auto

lemma scan_linked:
  assumes "linked nx pv a xs NBUF" and "NBUF \<notin> set xs" and "length xs < k"
  shows "scan k nx P (nx a) = Ok (find P xs)"
  using assms
proof (induction xs arbitrary: a k)
  case Nil
  then show ?case by (cases k) auto
next
  case (Cons x xs)
  then obtain j where k: "k = Suc j" by (cases k) auto
  then show ?case using Cons by simp
qed

lemma link_front_linked:
  assumes "linked (bnext s) (bprev s) NBUF xs NBUF" and "b \<noteq> NBUF" and "b \<notin> set xs" and "NBUF \<notin> set xs" and "distinct xs"
  shows "linked (bnext (link_front b s)) (bprev (link_front b s)) NBUF (b # xs) NBUF"
proof (cases xs)
  case Nil
  then show ?thesis using assms by (simp add: link_front_def Let_def)
next
  case (Cons y ys)
  have "linked (bnext (link_front b s)) (bprev (link_front b s)) y ys NBUF = linked (bnext s) (bprev s) y ys NBUF"
    using assms Cons by (intro linked_cong) (auto simp: link_front_def Let_def)
  then show ?thesis using assms Cons by (auto simp: link_front_def Let_def)
qed

lemma linked_ends: "linked nx pv a xs c \<Longrightarrow> nx a = hd (xs @ [c]) \<and> pv c = last (a # xs)"
  by (induction xs arbitrary: a) auto

lemma linked_remove:
  assumes "linked nx pv a (us @ b # vs) c" and "a \<notin> set (us @ b # vs)" and "c \<notin> set (us @ b # vs)" and "distinct (us @ b # vs)"
  shows "linked (nx(pv b := nx b)) (pv(nx b := pv b)) a (us @ vs) c"
proof -
  have l: "linked nx pv a us b" "linked nx pv b vs c" using assms(1) by (simp_all add: linked_append)
  then have p: "pv b = last (a # us)" "nx b = hd (vs @ [c])" using linked_ends by blast+
  show ?thesis
  proof (cases us rule: rev_cases)
    case Nil
    then have "nx a = b" "pv b = a" using l by auto
    show ?thesis
    proof (cases vs)
      case Nil
      then show ?thesis using \<open>us = []\<close> l p by simp
    next
      case (Cons v ws)
      have "linked (nx(pv b := nx b)) (pv(nx b := pv b)) v ws c = linked nx pv v ws c"
        using assms Cons p \<open>us = []\<close> by (intro linked_cong) auto
      then show ?thesis using \<open>us = []\<close> l Cons p by simp
    qed
  next
    case (snoc ts u)
    then have pu: "pv b = u" using p by simp
    have lu: "linked nx pv a ts u" using l(1) snoc by (simp add: linked_append)
    have nn: "nx b \<notin> set us" using assms(3,4) p(2) by (cases vs) auto
    have first: "linked (nx(pv b := nx b)) (pv(nx b := pv b)) a ts u = linked nx pv a ts u"
      using assms snoc pu nn by (intro linked_cong) auto
    show ?thesis
    proof (cases vs)
      case Nil
      then show ?thesis using snoc lu first p pu l(2) by (simp add: linked_append)
    next
      case (Cons v ws)
      have "linked (nx(pv b := nx b)) (pv(nx b := pv b)) v ws c = linked nx pv v ws c"
        using assms Cons p pu snoc by (intro linked_cong) auto
      then show ?thesis using snoc lu first Cons l(2) p pu by (simp add: linked_append)
    qed
  qed
qed

lemma lru_move_front:
  assumes "lru s xs" and "b < NBUF"
  shows "lru (link_front b (unlink b s)) (b # remove1 b xs)"
proof -
  have b: "b \<in> set xs" using assms by (simp add: lru_def)
  then obtain us vs where xs: "xs = us @ b # vs" "b \<notin> set us" using split_list_first by metis
  have d: "distinct (us @ b # vs)" "set (us @ b # vs) = {..<NBUF}" "linked (bnext s) (bprev s) NBUF (us @ b # vs) NBUF"
    using assms(1) xs by (simp_all add: lru_def)
  then have n: "NBUF \<notin> set (us @ b # vs)" by (metis lessThan_iff less_irrefl)
  have "bprev s b \<noteq> b"
  proof -
    have "bprev s b = last (NBUF # us)" using d(3) linked_ends [of "bnext s" "bprev s" NBUF us b] by (simp add: linked_append)
    then show ?thesis using xs(2) assms(2) by (auto split: if_splits)
  qed
  moreover have "bnext s b \<noteq> b"
  proof -
    have "bnext s b = hd (vs @ [NBUF])" using d(3) linked_ends [of "bnext s" "bprev s" b vs NBUF] by (simp add: linked_append)
    then show ?thesis using d(1) assms(2) by (cases vs) auto
  qed
  ultimately have "bnext (unlink b s) = (bnext s)(bprev s b := bnext s b)" "bprev (unlink b s) = (bprev s)(bnext s b := bprev s b)"
    by (simp_all add: unlink_def Let_def)
  then have "linked (bnext (unlink b s)) (bprev (unlink b s)) NBUF (us @ vs) NBUF"
    using linked_remove [OF d(3) n n d(1)] by simp
  then have "linked (bnext (link_front b (unlink b s))) (bprev (link_front b (unlink b s))) NBUF (b # us @ vs) NBUF"
    using d n assms(2) by (intro link_front_linked) auto
  moreover have "remove1 b xs = us @ vs" using xs by (simp add: remove1_append)
  ultimately show ?thesis using d(1,2) by (auto simp: lru_def)
qed

lemma lru_pointers: "bnext s' = bnext s \<Longrightarrow> bprev s' = bprev s \<Longrightarrow> lru s' xs = lru s xs"
  by (simp add: lru_def)

lemma upd_buf_simps [simp]:
  "bnext (upd_buf b f s) = bnext s" "bprev (upd_buf b f s) = bprev s" "disk (upd_buf b f s) = disk s"
  "disksize (upd_buf b f s) = disksize s" "trace (upd_buf b f s) = trace s"
  "bufs (upd_buf b f s) = (bufs s)(b := f (bufs s b))"
  by (simp_all add: upd_buf_def)

lemma link_simps [simp]:
  "bufs (link_front b s) = bufs s" "disk (link_front b s) = disk s" "disksize (link_front b s) = disksize s" "trace (link_front b s) = trace s"
  "bufs (unlink b s) = bufs s" "disk (unlink b s) = disk s" "disksize (unlink b s) = disksize s" "trace (unlink b s) = trace s"
  by (simp_all add: link_front_def unlink_def Let_def)

text \<open>\<^verbatim>\<open>binit\<close> links all buffers into the list, the last one first.\<close>

lemma binit_lru: "lru (binit s) (rev [0..<NBUF])"
proof -
  define init where "init = (\<lambda>b. upd_buf b (\<lambda>x. x\<lparr>bsl := (bsl x)\<lparr>slk := initsleeplock ''buffer'' (slk (bsl x))\<rparr>\<rparr>))"
  define t where "t = s\<lparr>bnext := (bnext s)(NBUF := NBUF), bprev := (bprev s)(NBUF := NBUF)\<rparr>"
  have ptr: "bnext (init b u) = bnext u" "bprev (init b u) = bprev u" for b u by (simp_all add: init_def)
  let ?f = "\<lambda>s b. link_front b (init b s)"
  have "linked (bnext (foldl ?f t [0..<k])) (bprev (foldl ?f t [0..<k])) NBUF (rev [0..<k]) NBUF" if "k \<le> NBUF" for k
    using that
  proof (induction k)
    case (Suc k)
    let ?t = "init k (foldl ?f t [0..<k])"
    have "linked (bnext (link_front k ?t)) (bprev (link_front k ?t)) NBUF (k # rev [0..<k]) NBUF"
      using Suc by (intro link_front_linked) (auto simp: ptr)
    then show ?case by simp
  qed (simp add: t_def)
  from this [of NBUF] show ?thesis by (auto simp: lru_def binit_def init_def t_def simp del: upt_rec_numeral)
qed

section \<open>The invariant and what the cache shows\<close>

definition bowner :: "buf \<Rightarrow> int option" where
  "bowner x = sleep_owner (bsl x)"

abbreviation valid :: "buf \<Rightarrow> bool" where
  "valid x \<equiv> bit (bflags x) 1"

abbreviation dirty :: "buf \<Rightarrow> bool" where
  "dirty x \<equiv> bit (bflags x) 2"

text \<open>\<open>caches s i n\<close>: buffer \<open>i\<close> stands for block \<open>n\<close> of the root device.\<close>

definition caches :: "bcache \<Rightarrow> nat \<Rightarrow> uint \<Rightarrow> bool" where
  "caches s i n \<longleftrightarrow> i < NBUF \<and> bdev (bufs s i) = 1 \<and> blockno (bufs s i) = n"

definition bio_inv :: "bcache \<Rightarrow> bool" where
  "bio_inv s \<longleftrightarrow> (\<exists>xs. lru s xs) \<and>
     (\<forall>i j n. caches s i n \<and> caches s j n \<longrightarrow> i = j) \<and>
     (\<forall>i n. caches s i n \<and> valid (bufs s i) \<and> \<not> dirty (bufs s i) \<and> bowner (bufs s i) = None \<longrightarrow> bdata (bufs s i) = disk s n) \<and>
     (\<forall>i < NBUF. bowner (bufs s i) \<noteq> None \<longrightarrow> refcnt (bufs s i) \<noteq> 0) \<and>
     (\<forall>i < NBUF. dirty (bufs s i) \<longrightarrow> valid (bufs s i))"

text \<open>The contents of a block as a reader gets it: from the cache if it is there, else from the disk.\<close>

definition view :: "bcache \<Rightarrow> uint \<Rightarrow> block" where
  "view s n =
     (case find (\<lambda>i. bdev (bufs s i) = 1 \<and> blockno (bufs s i) = n \<and> valid (bufs s i)) [0..<NBUF] of
        Some i \<Rightarrow> bdata (bufs s i)
      | None \<Rightarrow> disk s n)"

lemma bit_2: "bit (2 :: uint) i \<longleftrightarrow> i = 1"
  using bit_push_bit_iff [of 1 "1 :: uint" i] by (auto simp: bit_1_iff)

lemma bit_4: "bit (4 :: uint) i \<longleftrightarrow> i = 2"
  using bit_push_bit_iff [of 2 "1 :: uint" i] by (auto simp: bit_1_iff)

lemma flag_valid [simp]: "(f :: uint) AND B_VALID = 0 \<longleftrightarrow> \<not> bit f 1"
  using pte_flag_W [of f] unfolding pte_flag_def by blast

lemma flag_dirty [simp]: "(f :: uint) AND B_DIRTY = 0 \<longleftrightarrow> \<not> bit f 2"
  using pte_flag_U [of f] unfolding pte_flag_def by blast

lemma flag_nothing_to_do: "(f :: uint) AND (B_VALID OR B_DIRTY) = B_VALID \<longleftrightarrow> bit f 1 \<and> \<not> bit f 2"
proof -
  have b: "bit (f AND (B_VALID OR B_DIRTY)) i \<longleftrightarrow> bit f i \<and> (i = 1 \<or> i = 2)" for i
    unfolding bit_and_iff bit_or_iff bit_2 bit_4 ..
  show ?thesis
  proof
    assume e: "f AND (B_VALID OR B_DIRTY) = B_VALID"
    show "bit f 1 \<and> \<not> bit f 2" using b [of 1] b [of 2] unfolding e bit_2 by simp
  next
    assume "bit f 1 \<and> \<not> bit f 2"
    then show "f AND (B_VALID OR B_DIRTY) = B_VALID" by (intro bit_word_eqI) (simp only: b bit_2, auto)
  qed
qed

lemma flag_bits:
  "bit ((f :: uint) OR B_DIRTY) 1 = bit f 1" "bit (f OR B_DIRTY) 2" "bit (f OR B_VALID) 1" "bit (f OR B_VALID) 2 = bit f 2"
  "bit (f AND NOT B_DIRTY) 1 = bit f 1" "\<not> bit (f AND NOT B_DIRTY) 2"
  unfolding bit_or_iff bit_and_iff bit_not_iff bit_2 bit_4 by auto

lemma find_SomeD: "find P xs = Some x \<Longrightarrow> x \<in> set xs \<and> P x"
  by (induction xs) (auto split: if_splits)

lemma view_cached:
  assumes "bio_inv s" and "caches s i n" and "valid (bufs s i)"
  shows "view s n = bdata (bufs s i)"
proof -
  let ?P = "\<lambda>i. bdev (bufs s i) = 1 \<and> blockno (bufs s i) = n \<and> valid (bufs s i)"
  have i: "i \<in> set [0..<NBUF]" "?P i" using assms(2,3) unfolding caches_def set_upt atLeastLessThan_iff by simp_all
  show ?thesis
  proof (cases "find ?P [0..<NBUF]")
    case None
    then show ?thesis using i by (simp only: find_None_iff) blast
  next
    case (Some j)
    then have "caches s j n" using find_SomeD [OF Some] unfolding caches_def set_upt atLeastLessThan_iff by simp
    then have "j = i" using assms(1,2) unfolding bio_inv_def by blast
    then show ?thesis using Some by (simp only: view_def option.case)
  qed
qed

lemma view_uncached:
  assumes "\<And>i. caches s i n \<Longrightarrow> \<not> valid (bufs s i)"
  shows "view s n = disk s n"
proof -
  have "find (\<lambda>i. bdev (bufs s i) = 1 \<and> blockno (bufs s i) = n \<and> valid (bufs s i)) [0..<NBUF] = None"
    using assms unfolding find_None_iff caches_def set_upt atLeastLessThan_iff by blast
  then show ?thesis by (simp only: view_def option.case)
qed

text \<open>A clean free buffer shows what is on the disk.\<close>

lemma view_clean:
  assumes "bio_inv s" and "\<And>i. caches s i n \<Longrightarrow> \<not> dirty (bufs s i) \<and> bowner (bufs s i) = None"
  shows "view s n = disk s n"
proof (cases "\<exists>i. caches s i n \<and> valid (bufs s i)")
  case True
  then obtain i where i: "caches s i n" "valid (bufs s i)" by blast
  then show ?thesis using view_cached [OF assms(1) i] assms by (simp add: bio_inv_def)
qed (use view_uncached in blast)

section \<open>What the operations do\<close>

lemma bio_invD:
  assumes "bio_inv s"
  shows "\<exists>xs. lru s xs" "caches s i n \<Longrightarrow> caches s j n \<Longrightarrow> i = j"
    "caches s i n \<Longrightarrow> valid (bufs s i) \<Longrightarrow> \<not> dirty (bufs s i) \<Longrightarrow> bowner (bufs s i) = None \<Longrightarrow> bdata (bufs s i) = disk s n"
    "i < NBUF \<Longrightarrow> refcnt (bufs s i) = 0 \<Longrightarrow> bowner (bufs s i) = None"
    "i < NBUF \<Longrightarrow> dirty (bufs s i) \<Longrightarrow> valid (bufs s i)"
  using assms unfolding bio_inv_def by blast+

lemma lru_length: "lru s xs \<Longrightarrow> length xs = NBUF \<and> NBUF \<notin> set xs"
  unfolding lru_def using distinct_card [of xs] by auto

lemma scan_next:
  assumes "lru s xs"
  shows "scan (Suc NBUF) (bnext s) P (bnext s NBUF) = Ok (find P xs)"
proof -
  have "linked (bnext s) (bprev s) NBUF xs NBUF" "NBUF \<notin> set xs" "length xs < Suc NBUF"
    using assms lru_length [OF assms] by (simp_all add: lru_def)
  then show ?thesis by (rule scan_linked)
qed

lemma scan_prev:
  assumes "lru s xs"
  shows "scan (Suc NBUF) (bprev s) P (bprev s NBUF) = Ok (find P (rev xs))"
proof -
  have "linked (bprev s) (bnext s) NBUF (rev xs) NBUF" using assms by (intro linked_rev) (simp add: lru_def)
  moreover have "NBUF \<notin> set (rev xs)" "length (rev xs) < Suc NBUF" using lru_length [OF assms] by simp_all
  ultimately show ?thesis by (rule scan_linked)
qed

lemma lru_mem: "lru s xs \<Longrightarrow> i \<in> set xs \<longleftrightarrow> i < NBUF"
  by (auto simp: lru_def)

lemma view_other:
  assumes "\<And>i. i \<noteq> b \<Longrightarrow> bufs s' i = bufs s i" and "disk s' n = disk s n" and "\<not> caches s b n" and "\<not> caches s' b n"
  shows "view s' n = view s n"
proof -
  let ?P = "\<lambda>s i. bdev (bufs s i) = 1 \<and> blockno (bufs s i) = n \<and> valid (bufs s i)"
  have e: "?P s' i = ?P s i" if "i \<in> set [0..<NBUF]" for i
    using that assms(1,3,4) unfolding caches_def set_upt atLeastLessThan_iff by (cases "i = b") auto
  have f: "find (?P s') [0..<NBUF] = find (?P s) [0..<NBUF]" by (rule find_cong) (use e in blast)+
  show ?thesis
  proof (cases "find (?P s) [0..<NBUF]")
    case None
    then show ?thesis using f assms(2) by (simp only: view_def option.case)
  next
    case (Some j)
    then have "j \<noteq> b" using find_SomeD [OF Some] assms(3) unfolding caches_def set_upt atLeastLessThan_iff by blast
    then have "bufs s' j = bufs s j" by (rule assms(1))
    then show ?thesis using f Some by (simp only: view_def option.case)
  qed
qed

text \<open>Buffer \<open>b\<close> of \<open>s\<close> has become \<open>x\<close>, held by a process; the rest is as before.\<close>

lemma bio_inv_held:
  assumes inv: "bio_inv s" and b: "b < NBUF"
    and s': "bufs s' = (bufs s)(b := x)" "bnext s' = bnext s" "bprev s' = bprev s"
      "\<And>m. \<not> (bdev x = 1 \<and> m = blockno x) \<Longrightarrow> disk s' m = disk s m"
    and x: "bowner x \<noteq> None" "refcnt x \<noteq> 0" "dirty x \<longrightarrow> valid x"
    and uniq: "\<And>i. bdev x = 1 \<Longrightarrow> caches s i (blockno x) \<Longrightarrow> i = b"
  shows "bio_inv s'"
proof -
  have other: "caches s' i n \<longleftrightarrow> (if i = b then bdev x = 1 \<and> blockno x = n else caches s i n)" for i n
    using b by (simp add: caches_def s'(1))
  have "\<exists>xs. lru s' xs" using bio_invD(1) [OF inv] s'(2,3) lru_pointers by blast
  moreover have "\<forall>i j n. caches s' i n \<and> caches s' j n \<longrightarrow> i = j"
  proof (intro allI impI, elim conjE)
    fix i j n assume c: "caches s' i n" "caches s' j n"
    have at: "k = b \<Longrightarrow> bdev x = 1 \<and> blockno x = n" "k \<noteq> b \<Longrightarrow> caches s k n" if "caches s' k n" for k
      using that unfolding other by (auto split: if_splits)
    show "i = j" using at [OF c(1)] at [OF c(2)] uniq bio_invD(2) [OF inv] by blast
  qed
  moreover have "\<forall>i n. caches s' i n \<and> valid (bufs s' i) \<and> \<not> dirty (bufs s' i) \<and> bowner (bufs s' i) = None \<longrightarrow> bdata (bufs s' i) = disk s' n"
  proof (intro allI impI, elim conjE)
    fix i n assume a: "caches s' i n" "valid (bufs s' i)" "\<not> dirty (bufs s' i)" "bowner (bufs s' i) = None"
    then have i: "i \<noteq> b" using x(1) s'(1) by auto
    then have ci: "caches s i n" using a(1) other by simp
    then have "\<not> (bdev x = 1 \<and> n = blockno x)" using i uniq by auto
    then have "disk s' n = disk s n" by (rule s'(4))
    then show "bdata (bufs s' i) = disk s' n" using i ci a bio_invD(3) [OF inv, of i n] s'(1) by simp
  qed
  moreover have "bowner (bufs s' i) \<noteq> None \<longrightarrow> refcnt (bufs s' i) \<noteq> 0" if "i < NBUF" for i
    using bio_invD(4) [OF inv that] x(2) s'(1) by (cases "i = b") auto
  moreover have "dirty (bufs s' i) \<longrightarrow> valid (bufs s' i)" if "i < NBUF" for i
    using bio_invD(5) [OF inv that] x(3) s'(1) by (cases "i = b") auto
  ultimately show ?thesis unfolding bio_inv_def by blast
qed

lemma lock_buf_free:
  assumes "bowner (bufs s b) = None"
  shows "\<exists>l. lock_buf p b s = Ok (upd_buf b (\<lambda>x. x\<lparr>bsl := l\<rparr>) s) \<and> sleep_owner l = Some p \<and> holdingsleep p l"
  using assms
  by (intro exI [of _ "(bsl (bufs s b))\<lparr>slk := (slk (bsl (bufs s b)))\<lparr>sl_locked := 1, sl_pid := p\<rparr>\<rparr>"])
    (auto simp: lock_buf_def acquiresleep_def bowner_def sleep_owner_def holdingsleep_def split: if_splits)

text \<open>The read of \<^verbatim>\<open>bread\<close>, on a buffer that \<^verbatim>\<open>bget\<close> has just returned.\<close>

lemma iderw_read:
  assumes "holdingsleep p (bsl (bufs s b))" and "\<not> valid (bufs s b)" and "\<not> dirty (bufs s b)" and "bdev (bufs s b) = 1"
    and "blockno (bufs s b) < disksize s"
  shows "iderw p b s = Ok (upd_buf b (\<lambda>x. x\<lparr>bdata := disk s (blockno (bufs s b)), bflags := bflags x OR B_VALID\<rparr>) s)"
proof -
  have "(bflags (bufs s b) AND (B_VALID OR B_DIRTY) = B_VALID) = False" using assms(2) flag_nothing_to_do by blast
  moreover have "(disksize s \<le> blockno (bufs s b)) = False" using assms(5) by simp
  ultimately have "iderw p b s = Ok (upd_buf b (\<lambda>x. x\<lparr>bflags := bflags x OR B_VALID\<rparr>) (upd_buf b (\<lambda>x. x\<lparr>bdata := disk s (blockno x)\<rparr>) s))"
    using assms(1,3,4) unfolding iderw_def Let_def flag_dirty by simp
  then show ?thesis by (simp add: upd_buf_def)
qed

text \<open>\<open>usable s n\<close>: block \<open>n\<close> is cached and nobody uses it, or it is not cached and a buffer is free.\<close>

definition usable :: "bcache \<Rightarrow> uint \<Rightarrow> bool" where
  "usable s n \<longleftrightarrow> (\<forall>i. caches s i n \<longrightarrow> bowner (bufs s i) = None \<and> refcnt (bufs s i) = 0) \<and>
     ((\<exists>i. caches s i n) \<or> (\<exists>i < NBUF. refcnt (bufs s i) = 0 \<and> \<not> dirty (bufs s i)))"

lemma bget_ok:
  assumes inv: "bio_inv s" and u: "usable s n"
  shows "\<exists>b x. bget p 1 n s = Ok (b, upd_buf b (\<lambda>_. x) s) \<and> b < NBUF \<and> refcnt (bufs s b) = 0 \<and>
    bdev x = 1 \<and> blockno x = n \<and> holdingsleep p (bsl x) \<and> bowner x = Some p \<and> refcnt x = 1 \<and>
    (if \<exists>i. caches s i n then caches s b n \<and> bflags x = bflags (bufs s b) \<and> bdata x = bdata (bufs s b)
     else bflags x = 0 \<and> \<not> dirty (bufs s b) \<and> bowner (bufs s b) = None)"
proof -
  obtain xs where xs: "lru s xs" using bio_invD(1) [OF inv] ..
  let ?P = "\<lambda>b. bdev (bufs s b) = 1 \<and> blockno (bufs s b) = n" and ?Q = "\<lambda>b. refcnt (bufs s b) = 0 \<and> bflags (bufs s b) AND B_DIRTY = 0"
  show ?thesis
  proof (cases "\<exists>i. caches s i n")
    case True
    then have "find ?P xs \<noteq> None" using lru_mem [OF xs] unfolding find_None_iff caches_def by blast
    then obtain b where f: "find ?P xs = Some b" by blast
    then have c: "caches s b n" using find_SomeD [OF f] lru_mem [OF xs] by (simp add: caches_def)
    then have b: "b < NBUF" "bowner (bufs s b) = None" "refcnt (bufs s b) = 0" using u by (auto simp: usable_def caches_def)
    let ?s1 = "upd_buf b (\<lambda>x. x\<lparr>refcnt := refcnt x + 1\<rparr>) s"
    have "bowner (bufs ?s1 b) = None" using b(2) by (simp add: bowner_def)
    from lock_buf_free [OF this, of p] obtain l where
      l: "lock_buf p b ?s1 = Ok (upd_buf b (\<lambda>x. x\<lparr>bsl := l\<rparr>) ?s1)" "sleep_owner l = Some p" "holdingsleep p l" by blast
    have "bget p 1 n s = Ok (b, upd_buf b (\<lambda>x. x\<lparr>bsl := l\<rparr>) ?s1)"
      using l(1) by (simp only: bget_def scan_next [OF xs] f andthen.simps option.case)
    also have "upd_buf b (\<lambda>x. x\<lparr>bsl := l\<rparr>) ?s1 = upd_buf b (\<lambda>_. (bufs s b)\<lparr>refcnt := 1, bsl := l\<rparr>) s"
      using b(3) by (simp add: upd_buf_def)
    finally show ?thesis
      using True b c l(2,3) by (intro exI [of _ b] exI conjI) (assumption | simp add: bowner_def caches_def)+
  next
    case False
    then have f: "find ?P xs = None" using lru_mem [OF xs] unfolding find_None_iff caches_def by blast
    have "find ?Q (rev xs) \<noteq> None"
      using False u lru_mem [OF xs] unfolding find_None_iff usable_def flag_dirty set_rev by blast
    then obtain b where g: "find ?Q (rev xs) = Some b" by blast
    then have b: "b < NBUF" "refcnt (bufs s b) = 0" "\<not> dirty (bufs s b)"
      using find_SomeD [OF g] lru_mem [OF xs] unfolding set_rev flag_dirty by blast+
    then have o: "bowner (bufs s b) = None" using bio_invD(4) [OF inv] by blast
    let ?s1 = "upd_buf b (\<lambda>x. x\<lparr>bdev := 1, blockno := n, bflags := 0, refcnt := 1\<rparr>) s"
    have "bowner (bufs ?s1 b) = None" using o by (simp add: bowner_def)
    from lock_buf_free [OF this, of p] obtain l where
      l: "lock_buf p b ?s1 = Ok (upd_buf b (\<lambda>x. x\<lparr>bsl := l\<rparr>) ?s1)" "sleep_owner l = Some p" "holdingsleep p l" by blast
    have "bget p 1 n s = Ok (b, upd_buf b (\<lambda>x. x\<lparr>bsl := l\<rparr>) ?s1)"
      using l(1) by (simp only: bget_def scan_next [OF xs] scan_prev [OF xs] f g andthen.simps option.case)
    also have "upd_buf b (\<lambda>x. x\<lparr>bsl := l\<rparr>) ?s1 =
        upd_buf b (\<lambda>_. (bufs s b)\<lparr>bdev := 1, blockno := n, bflags := 0, refcnt := 1, bsl := l\<rparr>) s"
      by (simp add: upd_buf_def)
    finally show ?thesis
      using False b o l(2,3) by (intro exI [of _ b] exI conjI) (assumption | simp add: bowner_def)+
  qed
qed

lemma bread_ok:
  assumes inv: "bio_inv s" and u: "usable s n" and n: "n < disksize s"
  shows "\<exists>b x. bread p 1 n s = Ok (b, upd_buf b (\<lambda>_. x) s) \<and> b < NBUF \<and> refcnt (bufs s b) = 0 \<and>
    bdev x = 1 \<and> blockno x = n \<and> holdingsleep p (bsl x) \<and> bowner x = Some p \<and> refcnt x = 1 \<and>
    valid x \<and> bdata x = view s n \<and> (dirty x \<longleftrightarrow> (\<exists>i. caches s i n \<and> dirty (bufs s i))) \<and>
    (\<forall>i. caches s i n \<longrightarrow> i = b) \<and> (dirty (bufs s b) \<longrightarrow> caches s b n) \<and> bio_inv (upd_buf b (\<lambda>_. x) s) \<and> view (upd_buf b (\<lambda>_. x) s) = view s"
proof -
  from bget_ok [OF inv u, of p] obtain b x where g: "bget p 1 n s = Ok (b, upd_buf b (\<lambda>_. x) s)" "b < NBUF" "refcnt (bufs s b) = 0"
    and x: "bdev x = 1" "blockno x = n" "holdingsleep p (bsl x)" "bowner x = Some p" "refcnt x = 1"
    and c: "if \<exists>i. caches s i n then caches s b n \<and> bflags x = bflags (bufs s b) \<and> bdata x = bdata (bufs s b)
     else bflags x = 0 \<and> \<not> dirty (bufs s b) \<and> bowner (bufs s b) = None" by blast
  define y where "y = (if valid x then x else x\<lparr>bdata := disk s n, bflags := bflags x OR B_VALID\<rparr>)"
  have dv: "dirty x \<longrightarrow> valid x" using c bio_invD(5) [OF inv g(2)] by (auto split: if_splits)
  have run: "bread p 1 n s = Ok (b, upd_buf b (\<lambda>_. y) s)"
  proof (cases "valid x")
    case True
    then show ?thesis using g(1) by (simp add: bread_def y_def)
  next
    case False
    let ?s1 = "upd_buf b (\<lambda>_. x) s"
    have "iderw p b ?s1 = Ok (upd_buf b (\<lambda>x. x\<lparr>bdata := disk ?s1 (blockno (bufs ?s1 b)), bflags := bflags x OR B_VALID\<rparr>) ?s1)"
      using False dv x n by (intro iderw_read) simp_all
    also have "upd_buf b (\<lambda>x. x\<lparr>bdata := disk ?s1 (blockno (bufs ?s1 b)), bflags := bflags x OR B_VALID\<rparr>) ?s1 = upd_buf b (\<lambda>_. y) s"
      using False x(2) by (simp add: upd_buf_def y_def)
    finally show ?thesis using g(1) False by (simp add: bread_def)
  qed
  have y: "bdev y = 1" "blockno y = n" "holdingsleep p (bsl y)" "bowner y = Some p" "refcnt y = 1" "valid y" "dirty y \<longleftrightarrow> dirty x"
    using x flag_bits(3,4) by (auto simp: y_def bowner_def)
  have uniq: "i = b" if "caches s i n" for i using that c bio_invD(2) [OF inv] by (metis (no_types, lifting))
  have d: "dirty y \<longleftrightarrow> (\<exists>i. caches s i n \<and> dirty (bufs s i))"
    using c y(7) uniq by (auto split: if_splits)
  have v: "bdata y = view s n"
  proof (cases "valid x")
    case True
    then have "\<exists>i. caches s i n" using c by (auto split: if_splits)
    then have "caches s b n" "valid (bufs s b)" "bdata x = bdata (bufs s b)" using c True by (auto split: if_splits)
    then show ?thesis using view_cached [OF inv] True by (simp add: y_def)
  next
    case False
    then have "\<not> valid (bufs s i)" if "caches s i n" for i using that c uniq [OF that] by (auto split: if_splits)
    then show ?thesis using view_uncached False by (simp add: y_def)
  qed
  let ?s' = "upd_buf b (\<lambda>_. y) s"
  have inv': "bio_inv ?s'"
    by (rule bio_inv_held [OF inv g(2), of _ y]) (use y dv uniq in auto)
  have "view ?s' m = view s m" for m
  proof (cases "m = n")
    case True
    have "caches ?s' b n" "valid (bufs ?s' b)" using g(2) y by (simp_all add: caches_def)
    then show ?thesis using view_cached [OF inv'] v True by simp
  next
    case False
    then have nb: "\<not> caches ?s' b m" using y by (simp add: caches_def)
    show ?thesis
    proof (cases "caches s b m")
      case True
      then have nc: "\<not> (\<exists>i. caches s i n)" using c False by (auto simp: caches_def split: if_splits)
      then have "\<not> dirty (bufs s b)" "bowner (bufs s b) = None" using c by auto
      then have "view s m = disk s m"
        using True bio_invD(2) [OF inv] by (intro view_clean [OF inv]) blast
      moreover have "\<not> caches ?s' i m" for i
        using nb True bio_invD(2) [OF inv True, of i] by (cases "i = b") (auto simp: caches_def)
      ultimately show ?thesis using view_uncached [of ?s' m] by simp
    next
      case False
      then show ?thesis using nb by (intro view_other [of b]) simp_all
    qed
  qed
  moreover have "dirty (bufs s b) \<longrightarrow> caches s b n" using c by (auto split: if_splits)
  ultimately show ?thesis using run g(2,3) y d v inv' uniq by (intro exI [of _ b] exI [of _ y]) auto
qed

text \<open>A buffer held by process \<open>p\<close> for block \<open>n\<close>, filled.\<close>

definition held :: "int \<Rightarrow> bcache \<Rightarrow> nat \<Rightarrow> uint \<Rightarrow> bool" where
  "held p s b n \<longleftrightarrow> caches s b n \<and> valid (bufs s b) \<and> holdingsleep p (bsl (bufs s b)) \<and>
     bowner (bufs s b) = Some p \<and> refcnt (bufs s b) = 1"

lemma set_data_ok:
  assumes inv: "bio_inv s" and h: "held p s b n"
  shows "bio_inv (set_data b d s)" "held p (set_data b d s) b n" "view (set_data b d s) = (view s)(n := d)"
proof -
  let ?s = "set_data b d s"
  have b: "b < NBUF" "bdev (bufs s b) = 1" "blockno (bufs s b) = n" using h by (simp_all add: held_def caches_def)
  show inv': "bio_inv ?s"
    using h bio_invD(5) [OF inv b(1)] b bio_invD(2) [OF inv, of _ n b]
    by (intro bio_inv_held [OF inv b(1), of _ "(bufs s b)\<lparr>bdata := d\<rparr>"]) (auto simp: set_data_def held_def bowner_def)
  show h': "held p ?s b n" using h by (simp add: held_def set_data_def caches_def bowner_def)
  show "view ?s = (view s)(n := d)"
  proof
    fix m
    show "view ?s m = ((view s)(n := d)) m"
    proof (cases "m = n")
      case True
      have "caches ?s b n" "valid (bufs ?s b)" using h' by (simp_all add: held_def)
      then show ?thesis using view_cached [OF inv'] True by (simp add: set_data_def)
    next
      case False
      then show ?thesis using b by (auto intro!: view_other [of b] simp: set_data_def caches_def)
    qed
  qed
qed

lemma bwrite_ok:
  assumes inv: "bio_inv s" and h: "held p s b n" and n: "n < disksize s"
  shows "\<exists>s' x. bwrite p b s = Ok s' \<and> bio_inv s' \<and> held p s' b n \<and> view s' = view s \<and> \<not> dirty (bufs s' b) \<and>
    bufs s' = (bufs s)(b := x) \<and> bdata x = bdata (bufs s b) \<and> disk s' = (disk s)(n := view s n) \<and>
    trace s' = trace s @ [(n, view s n)] \<and> disksize s' = disksize s"
proof -
  define x where "x = (bufs s b)\<lparr>bflags := ((bflags (bufs s b) OR B_DIRTY) AND NOT B_DIRTY) OR B_VALID\<rparr>"
  define s' where "s' = (upd_buf b (\<lambda>_. x) s)\<lparr>disk := (disk s)(n := bdata (bufs s b)), trace := trace s @ [(n, bdata (bufs s b))]\<rparr>"
  have b: "b < NBUF" "bdev (bufs s b) = 1" "blockno (bufs s b) = n" "holdingsleep p (bsl (bufs s b))" "valid (bufs s b)" "caches s b n"
    using h by (simp_all add: held_def caches_def)
  have v: "view s n = bdata (bufs s b)" using view_cached [OF inv b(6,5)] .
  have x: "valid x" "\<not> dirty x" unfolding x_def using flag_bits by simp_all
  have "(bflags (bufs s b) OR B_DIRTY) AND (B_VALID OR B_DIRTY) \<noteq> B_VALID" using flag_nothing_to_do flag_bits(2) by blast
  moreover have "\<not> disksize s \<le> n" using n by simp
  moreover have "(bflags (bufs s b) OR B_DIRTY) AND B_DIRTY \<noteq> 0" using flag_dirty flag_bits(2) by blast
  ultimately have run: "bwrite p b s = Ok s'"
    using b unfolding bwrite_def iderw_def Let_def by (simp add: s'_def x_def upd_buf_def)
  have bx: "bufs s' = (bufs s)(b := x)" by (simp add: s'_def)
  have h': "held p s' b n" using h x by (simp add: held_def caches_def bx x_def bowner_def)
  have xf: "bdev x = 1" "blockno x = n" "bowner x \<noteq> None" "refcnt x \<noteq> 0" using h b by (simp_all add: x_def held_def bowner_def)
  have "i = b" if "caches s i (blockno x)" for i using that xf(2) bio_invD(2) [OF inv, of i n b] b(6) by simp
  then have inv': "bio_inv s'"
    using x xf by (intro bio_inv_held [OF inv b(1) bx]) (simp_all add: s'_def)
  have "view s' m = view s m" for m
  proof (cases "m = n")
    case True
    then show ?thesis using view_cached [OF inv', of b n] h' v by (simp add: held_def bx x_def)
  next
    case False
    then show ?thesis using b by (intro view_other [of b]) (auto simp: bx s'_def caches_def x_def)
  qed
  then have "view s' = view s" by blast
  then show ?thesis using run inv' h' x bx v by (intro exI [of _ s'] exI [of _ x]) (simp add: s'_def x_def)
qed

lemma brelse_ok:
  assumes inv: "bio_inv s" and h: "held p s b n" and c: "\<not> dirty (bufs s b) \<longrightarrow> bdata (bufs s b) = disk s n"
  shows "\<exists>s' x. brelse p b s = Ok s' \<and> bio_inv s' \<and> view s' = view s \<and> disk s' = disk s \<and> trace s' = trace s \<and>
    disksize s' = disksize s \<and> bufs s' = (bufs s)(b := x) \<and> bowner x = None \<and> refcnt x = 0 \<and>
    bflags x = bflags (bufs s b) \<and> bdata x = bdata (bufs s b) \<and> blockno x = n \<and> bdev x = 1 \<and>
    (\<forall>xs. lru s xs \<longrightarrow> lru s' (b # remove1 b xs))"
proof -
  define x where "x = (bufs s b)\<lparr>bsl := releasesleep (bsl (bufs s b)), refcnt := 0\<rparr>"
  define t where "t = upd_buf b (\<lambda>_. x) s"
  define s' where "s' = link_front b (unlink b t)"
  have b: "b < NBUF" "bdev (bufs s b) = 1" "blockno (bufs s b) = n" "holdingsleep p (bsl (bufs s b))" "valid (bufs s b)" "caches s b n"
    using h by (simp_all add: held_def caches_def)
  have run: "brelse p b s = Ok s'"
    using h b(4) unfolding brelse_def Let_def by (simp add: s'_def t_def x_def upd_buf_def held_def)
  have x: "bowner x = None" "refcnt x = 0" "bflags x = bflags (bufs s b)" "bdata x = bdata (bufs s b)" "blockno x = n" "bdev x = 1"
    using b by (simp_all add: x_def bowner_def sleep_owner_def releasesleep_def)
  have bx: "bufs s' = (bufs s)(b := x)" "disk s' = disk s" "trace s' = trace s" "disksize s' = disksize s"
    by (simp_all add: s'_def t_def)
  have cc: "caches s' i m \<longleftrightarrow> caches s i m" for i m using x b by (auto simp: caches_def bx)
  have l: "lru s' (b # remove1 b xs)" if "lru s xs" for xs
    unfolding s'_def using that b(1) by (intro lru_move_front) (simp_all add: t_def lru_def)
  have fresh: "bdata (bufs s' i) = disk s m" if "caches s i m" "valid (bufs s' i)" "\<not> dirty (bufs s' i)" "bowner (bufs s' i) = None" for i m
  proof (cases "i = b")
    case True
    then have "m = n" using that(1) b by (simp add: caches_def)
    then show ?thesis using True that(3) c x by (simp add: bx)
  next
    case False
    then show ?thesis using that bio_invD(3) [OF inv] by (simp add: bx)
  qed
  have inv': "bio_inv s'"
    using bio_invD(1) [OF inv] l bio_invD(2,4,5) [OF inv] fresh x(1,3) b(5) unfolding bio_inv_def cc bx(2)
    by (auto simp: bx(1))
  have "view s' m = view s m" for m
  proof (cases "m = n")
    case True
    have "caches s' b n" "valid (bufs s' b)" using b x by (simp_all add: cc bx)
    then show ?thesis using view_cached [OF inv'] view_cached [OF inv b(6,5)] x True by (simp add: bx)
  next
    case False
    then show ?thesis using b by (intro view_other [of b]) (auto simp: bx cc caches_def x)
  qed
  then have "view s' = view s" by blast
  then show ?thesis using run inv' bx x l by (intro exI [of _ s'] exI [of _ x]) simp
qed

text \<open>After boot the cache is empty and its invariant holds.\<close>

definition init_buf :: "buf \<Rightarrow> buf" where
  "init_buf x = x\<lparr>bsl := (bsl x)\<lparr>slk := initsleeplock ''buffer'' (slk (bsl x))\<rparr>\<rparr>"

lemma binit_bufs:
  "bufs (binit s) i = (if i < NBUF then init_buf (bufs s i) else bufs s i)" "disk (binit s) = disk s"
  "disksize (binit s) = disksize s" "trace (binit s) = trace s"
proof -
  define t where "t = s\<lparr>bnext := (bnext s)(NBUF := NBUF), bprev := (bprev s)(NBUF := NBUF)\<rparr>"
  let ?f = "\<lambda>s b. link_front b (upd_buf b init_buf s)"
  have step: "bufs (foldl ?f t [0..<k]) i = (if i < k then init_buf (bufs t i) else bufs t i) \<and>
      disk (foldl ?f t [0..<k]) = disk t \<and> disksize (foldl ?f t [0..<k]) = disksize t \<and> trace (foldl ?f t [0..<k]) = trace t" for k i
    by (induction k arbitrary: i) (auto simp: less_Suc_eq)
  have e: "binit s = foldl ?f t [0..<NBUF]" unfolding binit_def t_def init_buf_def ..
  show "bufs (binit s) i = (if i < NBUF then init_buf (bufs s i) else bufs s i)" "disk (binit s) = disk s"
    "disksize (binit s) = disksize s" "trace (binit s) = trace s"
    unfolding e using step [of NBUF] by (simp_all add: t_def del: upt_rec_numeral)
qed

lemma binit_inv:
  assumes "\<forall>i < NBUF. bdev (bufs s i) = 0 \<and> bflags (bufs s i) = 0"
  shows "bio_inv (binit s)" "view (binit s) = disk s" "\<And>n. (\<forall>i < NBUF. refcnt (bufs s i) = 0) \<Longrightarrow> usable (binit s) n"
proof -
  have nc: "\<not> caches (binit s) i n" for i n using assms by (auto simp: caches_def binit_bufs(1) init_buf_def)
  have b: "bowner (bufs (binit s) i) = None" "\<not> dirty (bufs (binit s) i)" if "i < NBUF" for i
    using that assms by (auto simp: binit_bufs(1) init_buf_def bowner_def sleep_owner_def initsleeplock_def)
  have l: "\<exists>xs. lru (binit s) xs" using binit_lru ..
  show "bio_inv (binit s)" unfolding bio_inv_def by (intro conjI) (use l nc b in auto)
  show "view (binit s) = disk s" using view_uncached nc binit_bufs(2) by (metis ext)
  show "usable (binit s) n" if "\<forall>i < NBUF. refcnt (bufs s i) = 0" for n
    unfolding usable_def using nc b(2) [of 0] that by (auto simp: binit_bufs(1) init_buf_def intro: exI [of _ 0])
qed

text \<open>C33: Cache coherence. Reading a block through the cache returns a buffer locked by the reader whose
  contents are those last written through the cache, or the disk's if there are none; while it is held,
  another process that asks for the block has to wait; and releasing it restores the invariant of the cache,
  changes no contents and makes the buffer the most recently used one.\<close>

theorem bread_brelse:
  assumes "bio_inv s" and "usable s n" and "n < disksize s"
  shows "\<exists>b s1 s2 xs. bread p 1 n s = Ok (b, s1) \<and> bdata (bufs s1 b) = view s n \<and> holdingsleep p (bsl (bufs s1 b)) \<and>
    bread q 1 n s1 = Hang \<and> brelse p b s1 = Ok s2 \<and> bio_inv s2 \<and> view s2 = view s \<and> disk s2 = disk s \<and>
    usable s2 n \<and> lru s2 (b # xs)"
proof -
  from bread_ok [OF assms] obtain b x where r: "bread p 1 n s = Ok (b, upd_buf b (\<lambda>_. x) s)" "b < NBUF"
    and x: "bdev x = 1" "blockno x = n" "holdingsleep p (bsl x)" "bowner x = Some p" "refcnt x = 1" "valid x" "bdata x = view s n"
    and d: "dirty x \<longleftrightarrow> (\<exists>i. caches s i n \<and> dirty (bufs s i))"
    and i: "bio_inv (upd_buf b (\<lambda>_. x) s)" "view (upd_buf b (\<lambda>_. x) s) = view s" by blast
  let ?s1 = "upd_buf b (\<lambda>_. x) s"
  have h: "held p ?s1 b n" using r(2) x by (simp add: held_def caches_def)
  obtain xs where xs: "lru ?s1 xs" using bio_invD(1) [OF i(1)] ..
  have "bread q 1 n ?s1 = Hang"
  proof -
    let ?P = "\<lambda>b. bdev (bufs ?s1 b) = 1 \<and> blockno (bufs ?s1 b) = n"
    have cb: "caches ?s1 b n" using h by (simp add: held_def)
    then have "find ?P xs \<noteq> None" using lru_mem [OF xs] unfolding find_None_iff caches_def by blast
    then obtain j where f: "find ?P xs = Some j" by blast
    then have "caches ?s1 j n" using find_SomeD [OF f] lru_mem [OF xs] unfolding caches_def by blast
    then have "j = b" using bio_invD(2) [OF i(1)] cb by blast
    moreover have "sl_locked (slk (bsl x)) \<noteq> 0" using x(3) by (simp add: holdingsleep_def)
    then have "lock_buf q b (upd_buf b (\<lambda>x. x\<lparr>refcnt := refcnt x + 1\<rparr>) ?s1) = Hang"
      by (simp add: lock_buf_def acquiresleep_def)
    ultimately show ?thesis by (simp only: bread_def bget_def scan_next [OF xs] f andthen.simps option.case)
  qed
  moreover have "\<not> dirty (bufs ?s1 b) \<longrightarrow> bdata (bufs ?s1 b) = disk ?s1 n"
    using d x(7) view_clean [OF assms(1)] assms(2) by (auto simp: usable_def)
  from brelse_ok [OF i(1) h this] obtain s2 y where s2: "brelse p b ?s1 = Ok s2" "bio_inv s2" "view s2 = view ?s1" "disk s2 = disk ?s1"
    "bufs s2 = (bufs ?s1)(b := y)" "bowner y = None" "refcnt y = 0" "blockno y = n" "bdev y = 1" "\<forall>xs. lru ?s1 xs \<longrightarrow> lru s2 (b # remove1 b xs)" by blast
  moreover have "usable s2 n"
  proof -
    have c: "caches s2 b n" using s2 r(2) by (simp add: caches_def)
    have "bowner (bufs s2 j) = None \<and> refcnt (bufs s2 j) = 0" if "caches s2 j n" for j
    proof -
      have "j = b" using that c bio_invD(2) [OF s2(2)] by blast
      then show ?thesis using s2(5-7) by simp
    qed
    then show ?thesis unfolding usable_def using c by blast
  qed
  ultimately show ?thesis using r(1) x xs i(2) by (intro exI [of _ b] exI [of _ ?s1] exI [of _ s2] exI [of _ "remove1 b xs"]) simp
qed

definition blank_cache :: bcache where
  "blank_cache = \<lparr>bufs = \<lambda>_. \<lparr>bflags = 0, bdev = 0, blockno = 0, bsl = free_sleeplock, refcnt = 0, bdata = []\<rparr>,
     bnext = \<lambda>_. 0, bprev = \<lambda>_. 0, disk = \<lambda>n. replicate 512 (ucast n), disksize = 1000, trace = []\<rparr>"

theorem bread_brelse_witness:
  "\<exists>b s1 s2. bread 7 1 5 (binit blank_cache) = Ok (b, s1) \<and> bdata (bufs s1 b) = replicate 512 5 \<and>
     brelse 7 b s1 = Ok s2 \<and> view s2 5 = replicate 512 5"
proof -
  have z: "\<forall>i < NBUF. bdev (bufs blank_cache i) = 0 \<and> bflags (bufs blank_cache i) = 0"
    "\<forall>i < NBUF. refcnt (bufs blank_cache i) = 0" by (simp_all add: blank_cache_def)
  note b = binit_inv(1,2) [OF z(1)] binit_inv(3) [OF z(1) z(2), of 5]
  have "(5 :: uint) < disksize (binit blank_cache)" by (simp add: binit_bufs(3)) (simp add: blank_cache_def)
  moreover have "view (binit blank_cache) 5 = replicate 512 5" unfolding b(2) by (simp add: blank_cache_def)
  ultimately show ?thesis using bread_brelse [OF b(1,3), of 7 7] by metis
qed

text \<open>\<^verbatim>\<open>bget\<close> panics exactly when the block is not cached and every buffer is in use or pinned by the
  log with \<^verbatim>\<open>B_DIRTY\<close>.\<close>

theorem bget_no_buffers:
  assumes "bio_inv s"
  shows "bget p 1 n s = Panic ''bget: no buffers'' \<longleftrightarrow>
    (\<forall>i. \<not> caches s i n) \<and> (\<forall>i < NBUF. refcnt (bufs s i) \<noteq> 0 \<or> dirty (bufs s i))"
proof -
  obtain xs where xs: "lru s xs" using bio_invD(1) [OF assms] ..
  let ?P = "\<lambda>b. bdev (bufs s b) = 1 \<and> blockno (bufs s b) = n" and ?Q = "\<lambda>b. refcnt (bufs s b) = 0 \<and> bflags (bufs s b) AND B_DIRTY = 0"
  have lk: "andthen (lock_buf p b t) (\<lambda>s1. Ok (b, s1)) \<noteq> Panic e" for b t e
    by (auto simp: lock_buf_def acquiresleep_def)
  have "bget p 1 n s = Panic ''bget: no buffers'' \<longleftrightarrow> find ?P xs = None \<and> find ?Q (rev xs) = None"
    unfolding bget_def scan_next [OF xs] scan_prev [OF xs] using lk
    by (cases "find ?P xs"; cases "find ?Q (rev xs)") simp_all
  also have "\<dots> \<longleftrightarrow> (\<forall>i. \<not> caches s i n) \<and> (\<forall>i < NBUF. refcnt (bufs s i) \<noteq> 0 \<or> dirty (bufs s i))"
    using lru_mem [OF xs] unfolding find_None_iff set_rev caches_def flag_dirty by blast
  finally show ?thesis .
qed

theorem bget_no_buffers_witness: "bget 7 1 5 (binit blank_cache) \<noteq> Panic ''bget: no buffers''"
proof -
  have z: "\<forall>i < NBUF. bdev (bufs blank_cache i) = 0 \<and> bflags (bufs blank_cache i) = 0" by (simp add: blank_cache_def)
  have "refcnt (bufs (binit blank_cache) 0) = 0" "\<not> dirty (bufs (binit blank_cache) 0)"
    by (simp_all add: binit_bufs(1) init_buf_def) (simp_all add: blank_cache_def)
  then show ?thesis using bget_no_buffers [OF binit_inv(1) [OF z], of 7 5] by auto
qed

end
