(* ===== verification/Disk.thy ===== *)
theory Disk
  imports Bio
begin

text \<open>
  Numbers in disk blocks: the little-endian fields that \<^verbatim>\<open>fs.h\<close> lays over \<^verbatim>\<open>b->data\<close>, the super
  block, and \<^verbatim>\<open>readsb\<close> of \<^verbatim>\<open>fs.c\<close>.
\<close>

section \<open>Fields of a block\<close>

definition get16 :: "block \<Rightarrow> nat \<Rightarrow> ushort" where
  "get16 d i = ucast (d ! i) OR push_bit 8 (ucast (d ! (i + 1)))"

definition put16 :: "nat \<Rightarrow> ushort \<Rightarrow> block \<Rightarrow> block" where
  "put16 i v d = d[i := ucast v, i + 1 := ucast (drop_bit 8 v)]"

definition get32 :: "block \<Rightarrow> nat \<Rightarrow> uint" where
  "get32 d i = ucast (d ! i) OR push_bit 8 (ucast (d ! (i + 1))) OR push_bit 16 (ucast (d ! (i + 2))) OR
     push_bit 24 (ucast (d ! (i + 3)))"

definition put32 :: "nat \<Rightarrow> uint \<Rightarrow> block \<Rightarrow> block" where
  "put32 i v d = d[i := ucast v, i + 1 := ucast (drop_bit 8 v), i + 2 := ucast (drop_bit 16 v), i + 3 := ucast (drop_bit 24 v)]"

section \<open>The super block\<close>

record superblock =
  sb_size :: uint
  nblocks :: uint
  ninodes :: uint
  nlog :: uint
  logstart :: uint
  inodestart :: uint
  bmapstart :: uint

definition decode_sb :: "block \<Rightarrow> superblock" where
  "decode_sb d = \<lparr>sb_size = get32 d 0, nblocks = get32 d 4, ninodes = get32 d 8, nlog = get32 d 12,
     logstart = get32 d 16, inodestart = get32 d 20, bmapstart = get32 d 24\<rparr>"

definition readsb :: "int \<Rightarrow> uint \<Rightarrow> bcache \<Rightarrow> (superblock \<times> bcache) outcome" where
  "readsb p dev s =
     andthen (bread p dev 1 s)
       (\<lambda>(bp, s1). let sb = decode_sb (bdata (bufs s1 bp)) in andthen (brelse p bp s1) (\<lambda>s2. Ok (sb, s2)))"

section \<open>Reading back what was written\<close>

lemma length_put [simp]: "length (put16 i v d) = length d" "length (put32 i w d) = length d"
  by (simp_all add: put16_def put32_def)

lemma get32_put32:
  assumes "i + 3 < length d"
  shows "get32 (put32 i v d) i = v"
proof (rule bit_word_eqI)
  fix n assume "n < LENGTH(32)"
  then have n: "n < 8 \<or> 8 \<le> n \<and> n < 16 \<or> 16 \<le> n \<and> n < 24 \<or> 24 \<le> n \<and> n < 32" by auto
  have b: "put32 i v d ! i = ucast v" "put32 i v d ! (i + 1) = ucast (drop_bit 8 v)"
    "put32 i v d ! (i + 2) = ucast (drop_bit 16 v)" "put32 i v d ! (i + 3) = ucast (drop_bit 24 v)"
    using assms by (simp_all add: put32_def)
  show "bit (get32 (put32 i v d) i) n = bit v n"
    unfolding get32_def b using n by (elim disjE) (auto simp: bit_or_iff bit_push_bit_iff bit_ucast_iff bit_drop_bit_eq)
qed

lemma get32_put32_other: "i + 3 < j \<or> j + 3 < i \<Longrightarrow> get32 (put32 j v d) i = get32 d i"
  by (auto simp: get32_def put32_def)

lemma get16_put16:
  assumes "i + 1 < length d"
  shows "get16 (put16 i v d) i = v"
proof (rule bit_word_eqI)
  fix n assume "n < LENGTH(16)"
  then have n: "n < 8 \<or> 8 \<le> n \<and> n < 16" by auto
  have b: "put16 i v d ! i = ucast v" "put16 i v d ! (i + 1) = ucast (drop_bit 8 v)"
    using assms by (simp_all add: put16_def)
  show "bit (get16 (put16 i v d) i) n = bit v n"
    unfolding get16_def b using n by (elim disjE) (auto simp: bit_or_iff bit_push_bit_iff bit_ucast_iff bit_drop_bit_eq)
qed

end
