(* ===== verification/Log.thy ===== *)
theory Log
  imports Disk
begin

text \<open>
  The write-ahead log, \<^verbatim>\<open>log.c\<close>, over the buffer cache. System calls reserve log space with
  \<^verbatim>\<open>begin_op\<close>, mark the blocks they change with \<^verbatim>\<open>log_write\<close>, and the last \<^verbatim>\<open>end_op\<close> commits. The theory
  shows that a crash at any point of a commit, followed by recovery at the next boot, leaves either all
  of the transaction or none of it on the disk.
\<close>

section \<open>Definitions\<close>

abbreviation "LOGSIZE \<equiv> (30 :: nat)"
abbreviation "MAXOPBLOCKS \<equiv> (10 :: int)"

text \<open>The fields of \<^verbatim>\<open>struct log\<close> with its header \<^verbatim>\<open>lh\<close>, and the buffer cache the log works on.\<close>

record log =
  lstart :: uint
  lsize :: int
  outstanding :: int
  committing :: int
  ldev :: uint
  lhn :: int
  lhblock :: "uint list"
  cache :: bcache

definition log_block :: "log \<Rightarrow> nat \<Rightarrow> uint" where
  "log_block l tail = lstart l + of_nat tail + 1"

definition install_step :: "int \<Rightarrow> log \<Rightarrow> nat \<Rightarrow> bcache \<Rightarrow> bcache outcome" where
  "install_step p l tail s =
     andthen (bread p (ldev l) (log_block l tail) s) (\<lambda>(lbuf, s1).
     andthen (bread p (ldev l) (lhblock l ! tail) s1) (\<lambda>(dbuf, s2).
     andthen (bwrite p dbuf (set_data dbuf (bdata (bufs s2 lbuf)) s2)) (\<lambda>s3.
     andthen (brelse p lbuf s3) (\<lambda>s4. brelse p dbuf s4))))"

definition install_trans :: "int \<Rightarrow> log \<Rightarrow> log outcome" where
  "install_trans p l =
     andthen (for_loop [0..<nat (lhn l)] (install_step p l) (cache l)) (\<lambda>s. Ok (l\<lparr>cache := s\<rparr>))"

text \<open>The loop of \<^verbatim>\<open>read_head\<close> stores into \<^verbatim>\<open>log.lh.block\<close>; an on-disk count above \<^verbatim>\<open>LOGSIZE\<close> would
  overrun that array, which has no defined result.\<close>

definition read_head :: "int \<Rightarrow> log \<Rightarrow> log outcome" where
  "read_head p l =
     andthen (bread p (ldev l) (lstart l) (cache l)) (\<lambda>(b, s1).
       let d = bdata (bufs s1 b); n = sint (get32 d 0)
       in if n > int LOGSIZE then Hang
          else andthen (brelse p b s1) (\<lambda>s2.
            Ok (l\<lparr>lhn := n, lhblock := foldl (\<lambda>bs i. bs[i := get32 d (4 + 4 * i)]) (lhblock l) [0..<nat n], cache := s2\<rparr>)))"

definition write_head :: "int \<Rightarrow> log \<Rightarrow> log outcome" where
  "write_head p l =
     andthen (bread p (ldev l) (lstart l) (cache l)) (\<lambda>(b, s1).
       let d = foldl (\<lambda>d i. put32 (4 + 4 * i) (lhblock l ! i) d) (put32 0 (word_of_int (lhn l)) (bdata (bufs s1 b))) [0..<nat (lhn l)]
       in andthen (bwrite p b (set_data b d s1)) (\<lambda>s2. andthen (brelse p b s2) (\<lambda>s3. Ok (l\<lparr>cache := s3\<rparr>))))"

definition recover_from_log :: "int \<Rightarrow> log \<Rightarrow> log outcome" where
  "recover_from_log p l =
     andthen (read_head p l) (\<lambda>l1. andthen (install_trans p l1) (\<lambda>l2. write_head p (l2\<lparr>lhn := 0\<rparr>)))"

definition initlog :: "int \<Rightarrow> uint \<Rightarrow> log \<Rightarrow> log outcome" where
  "initlog p dev l =
     (if 4 + 4 * LOGSIZE \<ge> BSIZE then Panic ''initlog: too big logheader''
      else andthen (readsb p dev (cache l)) (\<lambda>(sb, s1).
        recover_from_log p (l\<lparr>lstart := logstart sb, lsize := sint (nlog sb), ldev := dev, cache := s1\<rparr>)))"

text \<open>One round of \<^verbatim>\<open>begin_op\<close>: the call is in, or it sleeps on \<^verbatim>\<open>&log\<close> and tries again.\<close>

definition begin_op :: "log \<Rightarrow> bool \<times> log" where
  "begin_op l =
     (if committing l \<noteq> 0 then (False, l)
      else if lhn l + (outstanding l + 1) * MAXOPBLOCKS > int LOGSIZE then (False, l)
      else (True, l\<lparr>outstanding := outstanding l + 1\<rparr>))"

definition write_log_step :: "int \<Rightarrow> log \<Rightarrow> nat \<Rightarrow> bcache \<Rightarrow> bcache outcome" where
  "write_log_step p l tail s =
     andthen (bread p (ldev l) (log_block l tail) s) (\<lambda>(to, s1).
     andthen (bread p (ldev l) (lhblock l ! tail) s1) (\<lambda>(from, s2).
     andthen (bwrite p to (set_data to (bdata (bufs s2 from)) s2)) (\<lambda>s3.
     andthen (brelse p from s3) (\<lambda>s4. brelse p to s4))))"

definition write_log :: "int \<Rightarrow> log \<Rightarrow> log outcome" where
  "write_log p l =
     andthen (for_loop [0..<nat (lhn l)] (write_log_step p l) (cache l)) (\<lambda>s. Ok (l\<lparr>cache := s\<rparr>))"

definition commit :: "int \<Rightarrow> log \<Rightarrow> log outcome" where
  "commit p l =
     (if lhn l > 0
      then andthen (write_log p l) (\<lambda>l1. andthen (write_head p l1) (\<lambda>l2. andthen (install_trans p l2) (\<lambda>l3.
             write_head p (l3\<lparr>lhn := 0\<rparr>))))
      else Ok l)"

text \<open>\<^verbatim>\<open>end_op\<close>: the first critical section, and the rest when this call has to commit. The flag of the
  first part is \<^verbatim>\<open>do_commit\<close>.\<close>

definition end_op_leave :: "log \<Rightarrow> (bool \<times> log) outcome" where
  "end_op_leave l =
     (let l1 = l\<lparr>outstanding := outstanding l - 1\<rparr>
      in if committing l1 \<noteq> 0 then Panic ''log.committing''
         else if outstanding l1 = 0 then Ok (True, l1\<lparr>committing := 1\<rparr>)
         else Ok (False, l1))"

definition end_op :: "int \<Rightarrow> log \<Rightarrow> log outcome" where
  "end_op p l =
     andthen (end_op_leave l)
       (\<lambda>(do_commit, l1). if do_commit then andthen (commit p l1) (\<lambda>l2. Ok (l2\<lparr>committing := 0\<rparr>)) else Ok l1)"

text \<open>The search loop of \<^verbatim>\<open>log_write\<close>: the index of the block among the first \<open>n\<close> entries, else \<open>n\<close>.\<close>

fun absorb_index :: "uint list \<Rightarrow> uint \<Rightarrow> nat \<Rightarrow> nat \<Rightarrow> nat" where
  "absorb_index bs b i 0 = i"
| "absorb_index bs b i (Suc k) = (if bs ! i = b then i else absorb_index bs b (Suc i) k)"

definition log_write :: "nat \<Rightarrow> log \<Rightarrow> log outcome" where
  "log_write b l =
     (if lhn l \<ge> int LOGSIZE \<or> lhn l \<ge> lsize l - 1 then Panic ''too big a transaction''
      else if outstanding l < 1 then Panic ''log_write outside of trans''
      else
        let bn = blockno (bufs (cache l) b);
            i = absorb_index (lhblock l) bn 0 (nat (lhn l))
        in Ok (l\<lparr>lhblock := (lhblock l)[i := bn],
                 lhn := (if int i = lhn l then lhn l + 1 else lhn l),
                 cache := upd_buf b (\<lambda>x. x\<lparr>bflags := bflags x OR B_DIRTY\<rparr>) (cache l)\<rparr>))"

section \<open>Copying blocks through the cache\<close>

text \<open>\<open>quiet\<close>: no buffer is in use. \<open>pinned\<close>: a dirty buffer keeps the block in the cache. \<open>cleans\<close>:
  the buffers that can be recycled when they are not in use.\<close>

definition quiet :: "bcache \<Rightarrow> bool" where
  "quiet s \<longleftrightarrow> bio_inv s \<and> (\<forall>i < NBUF. refcnt (bufs s i) = 0)"

definition pinned :: "bcache \<Rightarrow> uint \<Rightarrow> bool" where
  "pinned s n \<longleftrightarrow> (\<exists>i. caches s i n \<and> dirty (bufs s i))"

definition cleans :: "bcache \<Rightarrow> nat set" where
  "cleans s = {i. i < NBUF \<and> \<not> dirty (bufs s i)}"

text \<open>\<open>Room s n m\<close>: two blocks can be read at the same time.\<close>

definition room :: "bcache \<Rightarrow> uint \<Rightarrow> bool" where
  "room s m \<longleftrightarrow> (\<exists>i \<in> cleans s. pinned s m \<or> (\<exists>j \<in> cleans s. j \<noteq> i))"

lemma quiet_usable:
  assumes "quiet s" and "cleans s \<noteq> {}"
  shows "usable s n"
proof -
  have q: "bio_inv s" "\<And>i. i < NBUF \<Longrightarrow> refcnt (bufs s i) = 0" using assms(1) by (simp_all add: quiet_def)
  have "bowner (bufs s i) = None \<and> refcnt (bufs s i) = 0" if "caches s i n" for i
    using that q(2) [of i] bio_invD(4) [OF q(1), of i] by (simp add: caches_def)
  moreover have "\<exists>i < NBUF. refcnt (bufs s i) = 0 \<and> \<not> dirty (bufs s i)" using assms(2) q(2) by (auto simp: cleans_def)
  ultimately show ?thesis unfolding usable_def by blast
qed

lemma two_reads:
  assumes q: "quiet s" and nm: "n \<noteq> m" and sz: "n < disksize s" "m < disksize s" and r: "room s m"
  shows "\<exists>b x c y s1 s2. bread p 1 n s = Ok (b, s1) \<and> bread p 1 m s1 = Ok (c, s2) \<and> b \<noteq> c \<and>
    s2 = upd_buf c (\<lambda>_. y) (upd_buf b (\<lambda>_. x) s) \<and> held p s2 b n \<and> held p s2 c m \<and> bio_inv s2 \<and> view s2 = view s \<and>
    (dirty x \<longleftrightarrow> pinned s n) \<and> (dirty y \<longleftrightarrow> pinned s m) \<and> (dirty x \<longleftrightarrow> dirty (bufs s b)) \<and> (dirty y \<longleftrightarrow> dirty (bufs s c)) \<and> bdata x = view s n \<and> bdata y = view s m \<and>
    (dirty (bufs s b) \<longrightarrow> caches s b n) \<and> (dirty (bufs s c) \<longrightarrow> caches s c m)"
proof -
  have inv: "bio_inv s" and ref: "\<And>i. i < NBUF \<Longrightarrow> refcnt (bufs s i) = 0" using q by (simp_all add: quiet_def)
  have u: "usable s n" using quiet_usable [OF q] r by (auto simp: room_def)
  from bread_ok [OF inv u sz(1), of p] obtain b x where b: "bread p 1 n s = Ok (b, upd_buf b (\<lambda>_. x) s)" "b < NBUF"
    and x: "bdev x = 1" "blockno x = n" "holdingsleep p (bsl x)" "bowner x = Some p" "refcnt x = 1" "valid x" "bdata x = view s n"
      "dirty x \<longleftrightarrow> (\<exists>i. caches s i n \<and> dirty (bufs s i))" "dirty (bufs s b) \<longrightarrow> caches s b n" "\<forall>i. caches s i n \<longrightarrow> i = b"
    and i1: "bio_inv (upd_buf b (\<lambda>_. x) s)" "view (upd_buf b (\<lambda>_. x) s) = view s" by blast
  define s1 where "s1 = upd_buf b (\<lambda>_. x) s"
  have c1: "caches s1 i k \<longleftrightarrow> (if i = b then k = n else caches s i k)" for i k
    using b(2) x(1,2) by (auto simp: s1_def caches_def)
  have f1: "bufs s1 i = bufs s i" if "i \<noteq> b" for i using that by (simp add: s1_def)
  have cm: "i \<noteq> b \<and> caches s i m" if "caches s1 i m" for i using that c1 nm by (auto split: if_splits)
  have "usable s1 m"
  proof -
    have "bowner (bufs s1 i) = None \<and> refcnt (bufs s1 i) = 0" if "caches s1 i m" for i
    proof -
      have "i \<noteq> b" "i < NBUF" using cm [OF that] by (simp_all add: caches_def)
      then show ?thesis using f1 ref bio_invD(4) [OF inv] by simp
    qed
    moreover have "(\<exists>i. caches s1 i m) \<or> (\<exists>i < NBUF. refcnt (bufs s1 i) = 0 \<and> \<not> dirty (bufs s1 i))"
    proof (cases "pinned s m")
      case True
      then obtain i where i: "caches s i m" "dirty (bufs s i)" by (auto simp: pinned_def)
      then have "i \<noteq> b" using x(9) nm by (auto simp: caches_def)
      then show ?thesis using i c1 by auto
    next
      case False
      then obtain i where "i < NBUF" "i \<noteq> b" "\<not> dirty (bufs s i)" using r by (auto simp: room_def cleans_def)
      then show ?thesis using f1 ref by auto
    qed
    ultimately show ?thesis unfolding usable_def by blast
  qed
  moreover have "m < disksize s1" using sz(2) by (simp add: s1_def)
  ultimately obtain c y where c: "bread p 1 m s1 = Ok (c, upd_buf c (\<lambda>_. y) s1)" "c < NBUF" "refcnt (bufs s1 c) = 0"
    and y: "bdev y = 1" "blockno y = m" "holdingsleep p (bsl y)" "bowner y = Some p" "refcnt y = 1" "valid y" "bdata y = view s1 m"
      "dirty y \<longleftrightarrow> (\<exists>i. caches s1 i m \<and> dirty (bufs s1 i))" "dirty (bufs s1 c) \<longrightarrow> caches s1 c m" "\<forall>i. caches s1 i m \<longrightarrow> i = c"
    and i2: "bio_inv (upd_buf c (\<lambda>_. y) s1)" "view (upd_buf c (\<lambda>_. y) s1) = view s1"
    using bread_ok [of s1 m p] i1 unfolding s1_def by blast
  have bc: "b \<noteq> c" using c(3) x(5) by (auto simp: s1_def)
  have "dirty y \<longleftrightarrow> pinned s m"
  proof -
    have "caches s1 i m \<and> dirty (bufs s1 i) \<longleftrightarrow> caches s i m \<and> dirty (bufs s i)" for i
    proof (cases "i = b")
      case True
      have "\<not> (caches s b m \<and> dirty (bufs s b))" using x(9) nm by (auto simp: caches_def)
      then show ?thesis using True c1 nm by auto
    next
      case False
      then show ?thesis using f1 c1 by simp
    qed
    then show ?thesis using y(8) by (auto simp: pinned_def)
  qed
  moreover have "dirty (bufs s c) \<longrightarrow> caches s c m" using y(9) bc f1 cm by (metis)
  moreover have "dirty x \<longleftrightarrow> dirty (bufs s b)" using x(8-10) by blast
  moreover have "dirty y \<longleftrightarrow> dirty (bufs s c)" using y(8-10) bc f1 by metis
  moreover have "held p (upd_buf c (\<lambda>_. y) s1) b n" using b(2) x bc by (simp add: held_def caches_def s1_def)
  moreover have "held p (upd_buf c (\<lambda>_. y) s1) c m" using c(2) y by (simp add: held_def caches_def)
  ultimately show ?thesis
    using b c(1) x y i1(2) i2 bc
    by (intro exI [of _ b] exI [of _ x] exI [of _ c] exI [of _ y] exI [of _ s1] exI [of _ "upd_buf c (\<lambda>_. y) s1"])
      (simp add: s1_def pinned_def)
qed

text \<open>The second half of a copy: write the destination, release both buffers.\<close>

lemma copy_finish:
  assumes inv: "bio_inv s" and b: "held p s b src" and d: "held p s d dst" and bd: "b \<noteq> d" and sd: "src \<noteq> dst"
    and clean: "\<not> dirty (bufs s b) \<longrightarrow> bdata (bufs s b) = disk s src" and sz: "dst < disksize s"
  shows "\<exists>s3 s4 s5 x y. bwrite p d (set_data d (bdata (bufs s b)) s) = Ok s3 \<and> brelse p b s3 = Ok s4 \<and> brelse p d s4 = Ok s5 \<and>
    bio_inv s5 \<and> view s5 = (view s)(dst := view s src) \<and>
    disk s5 = (disk s)(dst := view s src) \<and> trace s5 = trace s @ [(dst, view s src)] \<and> disksize s5 = disksize s \<and>
    bufs s5 = (bufs s)(b := x, d := y) \<and>
    refcnt x = 0 \<and> refcnt y = 0 \<and> bflags x = bflags (bufs s b) \<and> blockno x = src \<and> bdev x = 1 \<and> \<not> dirty y"
proof -
  let ?v = "bdata (bufs s b)"
  have vs: "view s src = ?v" using view_cached [OF inv] b by (simp add: held_def)
  let ?s1 = "set_data d ?v s"
  note t = set_data_ok [OF inv d, of ?v]
  have sz1: "dst < disksize ?s1" using sz by (simp add: set_data_def)
  from bwrite_ok [OF t(1,2) sz1] obtain s3 z where s3: "bwrite p d ?s1 = Ok s3" "bio_inv s3" "held p s3 d dst" "view s3 = view ?s1"
    "\<not> dirty (bufs s3 d)" "bufs s3 = (bufs ?s1)(d := z)" "bdata z = bdata (bufs ?s1 d)" "disk s3 = (disk ?s1)(dst := view ?s1 dst)"
    "trace s3 = trace ?s1 @ [(dst, view ?s1 dst)]" "disksize s3 = disksize ?s1" by blast
  have v1: "view ?s1 dst = ?v" using t(3) by simp
  have e3: "bufs s3 b = bufs s b" using s3(6) bd by (simp add: set_data_def)
  have h3: "held p s3 b src" using b e3 by (simp add: held_def caches_def)
  have "\<not> dirty (bufs s3 b) \<longrightarrow> bdata (bufs s3 b) = disk s3 src"
    using clean sd by (simp add: e3 s3(8)) (simp add: set_data_def)
  from brelse_ok [OF s3(2) h3 this] obtain s4 x where s4: "brelse p b s3 = Ok s4" "bio_inv s4" "view s4 = view s3" "disk s4 = disk s3"
    "trace s4 = trace s3" "disksize s4 = disksize s3" "bufs s4 = (bufs s3)(b := x)" "refcnt x = 0" "bflags x = bflags (bufs s3 b)"
    "blockno x = src" "bdev x = 1" by blast
  have e4: "bufs s4 d = bufs s3 d" using s4(7) bd by simp
  have h4: "held p s4 d dst" using s3(3) e4 by (simp add: held_def caches_def)
  have "bdata (bufs s4 d) = ?v" using e4 s3(6,7) by (simp add: set_data_def)
  moreover have "disk s4 dst = ?v" using s4(4) s3(8) v1 by simp
  ultimately have "\<not> dirty (bufs s4 d) \<longrightarrow> bdata (bufs s4 d) = disk s4 dst" by simp
  from brelse_ok [OF s4(2) h4 this] obtain s5 y where s5: "brelse p d s4 = Ok s5" "bio_inv s5" "view s5 = view s4" "disk s5 = disk s4"
    "trace s5 = trace s4" "disksize s5 = disksize s4" "bufs s5 = (bufs s4)(d := y)" "refcnt y = 0" "bflags y = bflags (bufs s4 d)" by blast
  have "bufs s5 = (bufs s)(b := x, d := y)" using s5(7) s4(7) s3(6) bd by (auto simp: set_data_def)
  moreover have "view s5 = (view s)(dst := view s src)" using s5(3) s4(3) s3(4) t(3) vs by simp
  moreover have "disk s5 = (disk s)(dst := view s src)" using s5(4) s4(4) s3(8) v1 vs by (simp add: set_data_def)
  moreover have "trace s5 = trace s @ [(dst, view s src)]" using s5(5) s4(5) s3(9) v1 vs by (simp add: set_data_def)
  moreover have "disksize s5 = disksize s" using s5(6) s4(6) s3(10) by (simp add: set_data_def)
  moreover have "\<not> dirty y" using s5(9) e4 s3(5) by simp
  ultimately show ?thesis
    using s3(1) s4(1,8-11) s5(1,2,8) e3 by (intro exI [of _ s3] exI [of _ s4] exI [of _ s5] exI [of _ x] exI [of _ y]) simp
qed

text \<open>What a list of block writes does to a quiet cache.\<close>

definition apply_writes :: "(uint \<times> block) list \<Rightarrow> (uint \<Rightarrow> block) \<Rightarrow> uint \<Rightarrow> block" where
  "apply_writes ws D = fold (\<lambda>(n, d) D. D(n := d)) ws D"

definition wrote :: "(uint \<times> block) list \<Rightarrow> bcache \<Rightarrow> bcache \<Rightarrow> bool" where
  "wrote ws s s' \<longleftrightarrow> quiet s' \<and> view s' = apply_writes ws (view s) \<and> disk s' = apply_writes ws (disk s) \<and>
     trace s' = trace s @ ws \<and> disksize s' = disksize s \<and> cleans s \<subseteq> cleans s' \<and>
     (\<forall>k. k \<notin> fst ` set ws \<and> pinned s k \<longrightarrow> pinned s' k)"

lemma apply_writes_simps [simp]:
  "apply_writes [] D = D" "apply_writes ((n, d) # ws) D = apply_writes ws (D(n := d))"
  "apply_writes (ws @ vs) D = apply_writes vs (apply_writes ws D)"
  by (simp_all add: apply_writes_def)

lemma wrote_trans: "wrote ws s s1 \<Longrightarrow> wrote vs s1 s2 \<Longrightarrow> wrote (ws @ vs) s s2"
  by (auto simp: wrote_def image_Un)

lemma wrote_refl: "quiet s \<Longrightarrow> wrote [] s s"
  by (simp add: wrote_def)

lemma apply_writes_other: "n \<notin> fst ` set ws \<Longrightarrow> apply_writes ws D n = D n"
  by (induction ws arbitrary: D) auto

lemma wrote_copyI:
  assumes q: "quiet s" and bd: "b \<noteq> d" and s': "bio_inv s'" "bufs s' = (bufs s)(b := x, d := y)"
    and v: "view s' = (view s)(dst := view s src)" "disk s' = (disk s)(dst := view s src)"
      "trace s' = trace s @ [(dst, view s src)]" "disksize s' = disksize s"
    and x: "refcnt x = 0" "bdev x = 1" "blockno x = src" "dirty x \<longleftrightarrow> dirty (bufs s b)" and y: "refcnt y = 0" "\<not> dirty y"
    and old: "dirty (bufs s b) \<longrightarrow> caches s b src" "dirty (bufs s d) \<longrightarrow> caches s d dst"
  shows "wrote [(dst, view s src)] s s'"
proof -
  have "refcnt (bufs s' i) = 0" if "i < NBUF" for i using that q x y by (simp add: s'(2) quiet_def)
  then have q': "quiet s'" using s'(1) by (simp add: quiet_def)
  have c: "i \<in> cleans s'" if "i \<in> cleans s" for i using that x(4) y(2) by (auto simp: cleans_def s'(2))
  have "pinned s' k" if "k \<noteq> dst" "pinned s k" for k
  proof -
    from that(2) obtain i where i: "caches s i k" "dirty (bufs s i)" by (auto simp: pinned_def)
    then have "i \<noteq> d" using old(2) that(1) by (auto simp: caches_def)
    show ?thesis
    proof (cases "i = b")
      case True
      then have "k = src" using i old(1) by (auto simp: caches_def)
      then show ?thesis using True i x bd by (auto simp: pinned_def caches_def s'(2) intro!: exI [of _ b])
    next
      case False
      then show ?thesis using i \<open>i \<noteq> d\<close> by (auto simp: pinned_def caches_def s'(2) intro!: exI [of _ i])
    qed
  qed
  then show ?thesis using q' c v by (auto simp: wrote_def)
qed

lemma pinned_not_clean:
  assumes "quiet s" and "\<not> pinned s n"
  shows "view s n = disk s n"
proof -
  have q: "bio_inv s" "\<And>i. i < NBUF \<Longrightarrow> refcnt (bufs s i) = 0" using assms(1) by (simp_all add: quiet_def)
  have "\<not> dirty (bufs s i) \<and> bowner (bufs s i) = None" if "caches s i n" for i
    using that assms(2) q(2) [of i] bio_invD(4) [OF q(1), of i] by (auto simp: pinned_def caches_def)
  then show ?thesis by (intro view_clean [OF q(1)]) blast
qed

lemma install_step_ok:
  assumes q: "quiet (s :: bcache)" and dev: "ldev l = 1" and nm: "log_block l i \<noteq> lhblock l ! i"
    and sz: "log_block l i < disksize s" "lhblock l ! i < disksize s" and r: "room s (lhblock l ! i)"
  shows "\<exists>s'. install_step p l i s = Ok s' \<and> wrote [(lhblock l ! i, view s (log_block l i))] s s'"
proof -
  let ?n = "log_block l i" and ?m = "lhblock l ! i"
  from two_reads [OF q nm sz r, of p] obtain b x c y s1 s2 where
    r1: "bread p 1 ?n s = Ok (b, s1)" "bread p 1 ?m s1 = Ok (c, s2)" "b \<noteq> c" "s2 = upd_buf c (\<lambda>_. y) (upd_buf b (\<lambda>_. x) s)"
    and h: "held p s2 b ?n" "held p s2 c ?m" "bio_inv s2" "view s2 = view s"
    and d: "dirty x \<longleftrightarrow> pinned s ?n" "dirty x \<longleftrightarrow> dirty (bufs s b)" "bdata x = view s ?n"
      "dirty (bufs s b) \<longrightarrow> caches s b ?n" "dirty (bufs s c) \<longrightarrow> caches s c ?m" by blast
  have "\<not> dirty (bufs s2 b) \<longrightarrow> bdata (bufs s2 b) = disk s2 ?n"
    using d(1,3) r1(3) pinned_not_clean [OF q, of ?n] by (simp add: r1(4))
  moreover have "?m < disksize s2" using sz(2) by (simp add: r1(4))
  ultimately obtain s3 x' y' s4 s5 where f: "bwrite p c (set_data c (bdata (bufs s2 b)) s2) = Ok s3"
    "brelse p b s3 = Ok s4" "brelse p c s4 = Ok s5" "bio_inv s5" "view s5 = (view s2)(?m := view s2 ?n)"
    "disk s5 = (disk s2)(?m := view s2 ?n)" "trace s5 = trace s2 @ [(?m, view s2 ?n)]" "disksize s5 = disksize s2"
    "bufs s5 = (bufs s2)(b := x', c := y')" "refcnt x' = 0" "refcnt y' = 0" "bflags x' = bflags (bufs s2 b)" "blockno x' = ?n"
    "bdev x' = 1" "\<not> dirty y'"
    using copy_finish [OF h(3,1,2) r1(3) nm] by blast
  have "wrote [(?m, view s ?n)] s s5"
    using f(4-15) h(4) d r1(3) by (intro wrote_copyI [OF q r1(3), of s5 x' y']) (auto simp: r1(4))
  then show ?thesis using r1 f dev by (auto simp: install_step_def)
qed

lemma write_log_step_ok:
  assumes q: "quiet (s :: bcache)" and dev: "ldev l = 1" and nm: "log_block l i \<noteq> lhblock l ! i"
    and sz: "log_block l i < disksize s" "lhblock l ! i < disksize s" and r: "room s (lhblock l ! i)"
  shows "\<exists>s'. write_log_step p l i s = Ok s' \<and> wrote [(log_block l i, view s (lhblock l ! i))] s s'"
proof -
  let ?n = "log_block l i" and ?m = "lhblock l ! i"
  from two_reads [OF q nm sz r, of p] obtain b x c y s1 s2 where
    r1: "bread p 1 ?n s = Ok (b, s1)" "bread p 1 ?m s1 = Ok (c, s2)" "b \<noteq> c" "s2 = upd_buf c (\<lambda>_. y) (upd_buf b (\<lambda>_. x) s)"
    and h: "held p s2 b ?n" "held p s2 c ?m" "bio_inv s2" "view s2 = view s"
    and d: "dirty y \<longleftrightarrow> pinned s ?m" "dirty y \<longleftrightarrow> dirty (bufs s c)" "bdata y = view s ?m"
      "dirty (bufs s b) \<longrightarrow> caches s b ?n" "dirty (bufs s c) \<longrightarrow> caches s c ?m" by blast
  have "\<not> dirty (bufs s2 c) \<longrightarrow> bdata (bufs s2 c) = disk s2 ?m"
    using d(1,3) pinned_not_clean [OF q, of ?m] by (simp add: r1(4))
  moreover have "?n < disksize s2" using sz(1) by (simp add: r1(4))
  ultimately obtain s3 x' y' s4 s5 where f: "bwrite p b (set_data b (bdata (bufs s2 c)) s2) = Ok s3"
    "brelse p c s3 = Ok s4" "brelse p b s4 = Ok s5" "bio_inv s5" "view s5 = (view s2)(?n := view s2 ?m)"
    "disk s5 = (disk s2)(?n := view s2 ?m)" "trace s5 = trace s2 @ [(?n, view s2 ?m)]" "disksize s5 = disksize s2"
    "bufs s5 = (bufs s2)(c := x', b := y')" "refcnt x' = 0" "refcnt y' = 0" "bflags x' = bflags (bufs s2 c)" "blockno x' = ?m"
    "bdev x' = 1" "\<not> dirty y'"
    using copy_finish [OF h(3,2,1) r1(3) [symmetric] nm [symmetric]] by blast
  have "wrote [(?n, view s ?m)] s s5"
    using f(4-15) h(4) d r1(3) by (intro wrote_copyI [OF q r1(3) [symmetric], of s5 x' y']) (auto simp: r1(4))
  then show ?thesis using r1 f dev by (auto simp: write_log_step_def)
qed

text \<open>Rewriting one block in place, as \<^verbatim>\<open>write_head\<close> does.\<close>

lemma update_block:
  assumes q: "quiet s" and c: "cleans s \<noteq> {}" and n: "n < disksize s"
  shows "\<exists>b s1 s2 s3. bread p 1 n s = Ok (b, s1) \<and> bdata (bufs s1 b) = view s n \<and> bwrite p b (set_data b d s1) = Ok s2 \<and>
    brelse p b s2 = Ok s3 \<and> wrote [(n, d)] s s3"
proof -
  have inv: "bio_inv s" and ref: "\<And>i. i < NBUF \<Longrightarrow> refcnt (bufs s i) = 0" using q by (simp_all add: quiet_def)
  from bread_ok [OF inv quiet_usable [OF q c] n, of p] obtain b x where b: "bread p 1 n s = Ok (b, upd_buf b (\<lambda>_. x) s)" "b < NBUF"
    and x: "bdev x = 1" "blockno x = n" "holdingsleep p (bsl x)" "bowner x = Some p" "refcnt x = 1" "valid x" "bdata x = view s n"
      "dirty (bufs s b) \<longrightarrow> caches s b n"
    and i1: "bio_inv (upd_buf b (\<lambda>_. x) s)" "view (upd_buf b (\<lambda>_. x) s) = view s" by blast
  let ?s1 = "upd_buf b (\<lambda>_. x) s"
  have h1: "held p ?s1 b n" using b(2) x by (simp add: held_def caches_def)
  note t = set_data_ok [OF i1(1) h1, of d]
  let ?t = "set_data b d ?s1"
  have "n < disksize ?t" using n by (simp add: set_data_def)
  from bwrite_ok [OF t(1,2) this] obtain s2 z where s2: "bwrite p b ?t = Ok s2" "bio_inv s2" "held p s2 b n" "view s2 = view ?t"
    "\<not> dirty (bufs s2 b)" "bufs s2 = (bufs ?t)(b := z)" "bdata z = bdata (bufs ?t b)" "disk s2 = (disk ?t)(n := view ?t n)"
    "trace s2 = trace ?t @ [(n, view ?t n)]" "disksize s2 = disksize ?t" by blast
  have v: "view ?t n = d" "bdata (bufs s2 b) = d" "disk s2 n = d" using t(3) s2(6-8) by (simp_all add: set_data_def)
  then have "\<not> dirty (bufs s2 b) \<longrightarrow> bdata (bufs s2 b) = disk s2 n" by simp
  from brelse_ok [OF s2(2,3) this] obtain s3 y where s3: "brelse p b s2 = Ok s3" "bio_inv s3" "view s3 = view s2" "disk s3 = disk s2"
    "trace s3 = trace s2" "disksize s3 = disksize s2" "bufs s3 = (bufs s2)(b := y)" "refcnt y = 0" "bflags y = bflags (bufs s2 b)" by blast
  have bs: "bufs s3 = (bufs s)(b := y)" using s3(7) s2(6) by (simp add: set_data_def)
  have y: "\<not> dirty y" using s3(9) s2(5) by simp
  have "quiet s3" using s3(2,8) ref by (simp add: quiet_def bs)
  moreover have "cleans s \<subseteq> cleans s3" using y by (auto simp: cleans_def bs)
  moreover have "pinned s3 k" if "k \<noteq> n" "pinned s k" for k
  proof -
    from that(2) obtain i where i: "caches s i k" "dirty (bufs s i)" by (auto simp: pinned_def)
    then have "i \<noteq> b" using x(8) that(1) by (auto simp: caches_def)
    then show ?thesis using i by (auto simp: pinned_def caches_def bs intro!: exI [of _ i])
  qed
  ultimately have "wrote [(n, d)] s s3"
    using s3(3-6) s2(4,8-10) t(3) i1(2) v by (auto simp: wrote_def set_data_def)
  then show ?thesis using b(1) s2(1) s3(1) x(7) by (intro exI [of _ b] exI [of _ ?s1] exI [of _ s2] exI [of _ s3]) simp
qed

section \<open>The header block\<close>

definition head_block :: "int \<Rightarrow> uint list \<Rightarrow> block \<Rightarrow> block" where
  "head_block n bs d = foldl (\<lambda>d i. put32 (4 + 4 * i) (bs ! i) d) (put32 0 (word_of_int n) d) [0..<nat n]"

lemma head_block_loop:
  "length (foldl (\<lambda>d i. put32 (4 + 4 * i) (bs ! i) d) d [0..<k]) = length d"
  "get32 (foldl (\<lambda>d i. put32 (4 + 4 * i) (bs ! i) d) d [0..<k]) 0 = get32 d 0"
  "i < k \<Longrightarrow> 4 + 4 * k \<le> length d \<Longrightarrow> get32 (foldl (\<lambda>d i. put32 (4 + 4 * i) (bs ! i) d) d [0..<k]) (4 + 4 * i) = bs ! i"
proof (induction k)
  case (Suc k)
  { case 1 then show ?case using Suc.IH(1) by simp }
  { case 2 then show ?case using Suc.IH(2) by (simp add: get32_put32_other) }
  { case 3
    then show ?case using Suc.IH(1,3) by (cases "i = k") (simp_all add: get32_put32 get32_put32_other) }
qed simp_all

lemma head_block_get:
  assumes "length d = BSIZE" and "0 \<le> n" and "n \<le> int LOGSIZE"
  shows "length (head_block n bs d) = BSIZE" "sint (get32 (head_block n bs d) 0) = n"
    "i < nat n \<Longrightarrow> get32 (head_block n bs d) (4 + 4 * i) = bs ! i"
proof -
  show "length (head_block n bs d) = BSIZE" using assms(1) by (simp add: head_block_def head_block_loop(1))
  have "sint (word_of_int n :: uint) = n" using assms(2,3) by (simp add: signed_of_int signed_take_bit_int_eq_self)
  then show "sint (get32 (head_block n bs d) 0) = n" using assms(1) by (simp add: head_block_def head_block_loop(2) get32_put32)
  show "i < nat n \<Longrightarrow> get32 (head_block n bs d) (4 + 4 * i) = bs ! i"
    unfolding head_block_def using assms by (intro head_block_loop(3)) simp_all
qed

lemma write_head_ok:
  assumes "quiet (cache l)" and "cleans (cache l) \<noteq> {}" and "ldev l = 1" and "lstart l < disksize (cache l)"
  shows "\<exists>s'. write_head p l = Ok (l\<lparr>cache := s'\<rparr>) \<and>
    wrote [(lstart l, head_block (lhn l) (lhblock l) (view (cache l) (lstart l)))] (cache l) s'"
proof -
  let ?d = "head_block (lhn l) (lhblock l) (view (cache l) (lstart l))"
  from update_block [OF assms(1,2,4), of p ?d] obtain b s1 s2 s3 where r: "bread p 1 (lstart l) (cache l) = Ok (b, s1)"
    "bdata (bufs s1 b) = view (cache l) (lstart l)" "bwrite p b (set_data b ?d s1) = Ok s2" "brelse p b s2 = Ok s3"
    "wrote [(lstart l, ?d)] (cache l) s3" by blast
  then have "write_head p l = Ok (l\<lparr>cache := s3\<rparr>)"
    using assms(3) by (simp add: write_head_def head_block_def)
  then show ?thesis using r(5) by blast
qed

section \<open>The two copy loops\<close>

text \<open>The layout the log relies on: \<open>k\<close> logged blocks fit in the log area, and their home locations lie
  outside of it.\<close>

definition log_layout :: "log \<Rightarrow> nat \<Rightarrow> bool" where
  "log_layout l k \<longleftrightarrow> ldev l = 1 \<and> k \<le> LOGSIZE \<and> int k < lsize l \<and> unat (lstart l) + nat (lsize l) \<le> unat (disksize (cache l)) \<and>
     (\<forall>i < k. lhblock l ! i < disksize (cache l) \<and>
       (lhblock l ! i < lstart l \<or> unat (lstart l) + nat (lsize l) \<le> unat (lhblock l ! i)))"

abbreviation homes :: "log \<Rightarrow> nat \<Rightarrow> uint list" where
  "homes l k \<equiv> map ((!) (lhblock l)) [0..<k]"

lemma log_layoutD:
  assumes "log_layout l k"
  shows "ldev l = 1" "lstart l < disksize (cache l)" "i < k \<Longrightarrow> unat (log_block l i) = unat (lstart l) + i + 1"
    "i < k \<Longrightarrow> log_block l i < disksize (cache l)" "i < k \<Longrightarrow> lhblock l ! i < disksize (cache l)"
    "i < k \<Longrightarrow> j < k \<Longrightarrow> log_block l i \<noteq> lhblock l ! j" "i < k \<Longrightarrow> log_block l i \<noteq> lstart l" "i < k \<Longrightarrow> lhblock l ! i \<noteq> lstart l"
    "i < k \<Longrightarrow> j < k \<Longrightarrow> log_block l i = log_block l j \<Longrightarrow> i = j"
proof -
  have l: "ldev l = 1" "int k < lsize l" "unat (lstart l) + nat (lsize l) \<le> unat (disksize (cache l))"
    using assms by (simp_all add: log_layout_def)
  show "ldev l = 1" by fact
  show "lstart l < disksize (cache l)" using l(2,3) by (simp add: word_less_nat_alt)
  have b: "unat (log_block l i) = unat (lstart l) + i + 1" if "i < k" for i
  proof -
    have "unat (lstart l) + i + 1 < 4294967296" using l that unat_uint_bound [of "disksize (cache l)"] by linarith
    then have "unat (of_nat (unat (lstart l) + i + 1) :: uint) = unat (lstart l) + i + 1" by (rule unat_of_nat_small)
    moreover have "log_block l i = of_nat (unat (lstart l) + i + 1)" by (simp add: log_block_def)
    ultimately show ?thesis by simp
  qed
  show "i < k \<Longrightarrow> unat (log_block l i) = unat (lstart l) + i + 1" by (rule b)
  show "i < k \<Longrightarrow> log_block l i < disksize (cache l)" using b l by (simp add: word_less_nat_alt)
  show "i < k \<Longrightarrow> lhblock l ! i < disksize (cache l)" using assms by (simp add: log_layout_def)
  show "i < k \<Longrightarrow> log_block l i \<noteq> lstart l" using b by (metis add_cancel_left_right add_is_0 one_neq_zero add.assoc)
  show "i < k \<Longrightarrow> j < k \<Longrightarrow> log_block l i = log_block l j \<Longrightarrow> i = j" using b by (metis add_left_cancel add_right_cancel)
  have h: "unat (lhblock l ! j) < unat (lstart l) \<or> unat (lstart l) + nat (lsize l) \<le> unat (lhblock l ! j)" if "j < k" for j
    using assms that by (simp add: log_layout_def word_less_nat_alt)
  show "i < k \<Longrightarrow> j < k \<Longrightarrow> log_block l i \<noteq> lhblock l ! j" using h [of j] b [of i] l(2) by auto
  show "i < k \<Longrightarrow> lhblock l ! i \<noteq> lstart l" using h [of i] l(2) by auto
qed

definition log_writes :: "log \<Rightarrow> nat \<Rightarrow> (uint \<Rightarrow> block) \<Rightarrow> (uint \<times> block) list" where
  "log_writes l k V = map (\<lambda>i. (log_block l i, V (lhblock l ! i))) [0..<k]"

definition home_writes :: "log \<Rightarrow> nat \<Rightarrow> (uint \<Rightarrow> block) \<Rightarrow> (uint \<times> block) list" where
  "home_writes l k V = map (\<lambda>i. (lhblock l ! i, V (log_block l i))) [0..<k]"

lemma fst_log_writes: "fst ` set (log_writes l k V) = log_block l ` {..<k}"
  by (auto simp: log_writes_def image_image atLeast0LessThan)

lemma fst_home_writes: "fst ` set (home_writes l k V) = (!) (lhblock l) ` {..<k}"
  by (auto simp: home_writes_def image_image atLeast0LessThan)

lemma write_log_loop:
  assumes lay: "log_layout l n" and q: "quiet s" "disksize s = disksize (cache l)" and c: "cleans s \<noteq> {}"
    and pin: "\<And>i. i < n \<Longrightarrow> pinned s (lhblock l ! i)" and k: "k \<le> n"
  shows "\<exists>s'. for_loop [0..<k] (write_log_step p l) s = Ok s' \<and> wrote (log_writes l k (view s)) s s'"
  using k
proof (induction k)
  case 0
  then show ?case using q(1) by (simp add: log_writes_def wrote_refl)
next
  case (Suc k)
  then obtain s1 where s1: "for_loop [0..<k] (write_log_step p l) s = Ok s1" "wrote (log_writes l k (view s)) s s1" by auto
  note L = log_layoutD [OF lay]
  have w1: "quiet s1" "disksize s1 = disksize s" "cleans s \<subseteq> cleans s1" "view s1 = apply_writes (log_writes l k (view s)) (view s)"
    using s1(2) by (simp_all add: wrote_def)
  have nh: "lhblock l ! k \<notin> fst ` set (log_writes l k (view s))"
    unfolding fst_log_writes using L(6) Suc.prems by (metis (no_types, lifting) image_iff lessThan_iff less_trans Suc_le_lessD)
  then have "pinned s1 (lhblock l ! k)" using s1(2) pin [of k] Suc.prems unfolding wrote_def by simp
  moreover obtain i where "i \<in> cleans s1" using c w1(3) by blast
  ultimately have "room s1 (lhblock l ! k)" by (auto simp: room_def)
  then obtain s2 where s2: "write_log_step p l k s1 = Ok s2" "wrote [(log_block l k, view s1 (lhblock l ! k))] s1 s2"
    using write_log_step_ok [OF w1(1) L(1), of k p] L(4-6) [of k] Suc.prems w1(2) q(2) by auto
  have "view s1 (lhblock l ! k) = view s (lhblock l ! k)" using apply_writes_other [OF nh] w1(4) by simp
  then have "wrote (log_writes l (Suc k) (view s)) s s2"
    using wrote_trans [OF s1(2) s2(2)] by (simp add: log_writes_def)
  then show ?case using s1(1) s2(1) by (auto simp: for_loop_append)
qed

lemma install_loop:
  assumes lay: "log_layout l n" and q: "quiet s" "disksize s = disksize (cache l)" and c: "cleans s \<noteq> {}"
    and r: "(\<exists>i \<in> cleans s. \<exists>j \<in> cleans s. i \<noteq> j) \<or> distinct (homes l n) \<and> (\<forall>i < n. pinned s (lhblock l ! i))"
    and k: "k \<le> n"
  shows "\<exists>s'. for_loop [0..<k] (install_step p l) s = Ok s' \<and> wrote (home_writes l k (view s)) s s'"
  using k
proof (induction k)
  case 0
  then show ?case using q(1) by (simp add: home_writes_def wrote_refl)
next
  case (Suc k)
  then obtain s1 where s1: "for_loop [0..<k] (install_step p l) s = Ok s1" "wrote (home_writes l k (view s)) s s1" by auto
  note L = log_layoutD [OF lay]
  have w1: "quiet s1" "disksize s1 = disksize s" "cleans s \<subseteq> cleans s1" "view s1 = apply_writes (home_writes l k (view s)) (view s)"
    using s1(2) by (simp_all add: wrote_def)
  have "room s1 (lhblock l ! k)"
    using r
  proof
    assume "\<exists>i \<in> cleans s. \<exists>j \<in> cleans s. i \<noteq> j"
    then show ?thesis using w1(3) unfolding room_def by blast
  next
    assume a: "distinct (homes l n) \<and> (\<forall>i < n. pinned s (lhblock l ! i))"
    have "lhblock l ! k \<noteq> lhblock l ! i" if "i < k" for i
      using a that Suc.prems nth_eq_iff_index_eq [of "homes l n" k i] by auto
    then have "lhblock l ! k \<notin> fst ` set (home_writes l k (view s))" unfolding fst_home_writes by blast
    then have "pinned s1 (lhblock l ! k)" using s1(2) a Suc.prems unfolding wrote_def by simp
    then show ?thesis using c w1(3) unfolding room_def by blast
  qed
  then obtain s2 where s2: "install_step p l k s1 = Ok s2" "wrote [(lhblock l ! k, view s1 (log_block l k))] s1 s2"
    using install_step_ok [OF w1(1) L(1), of k p] L(4-6) [of k] Suc.prems w1(2) q(2) by auto
  have "log_block l k \<notin> fst ` set (home_writes l k (view s))"
    unfolding fst_home_writes using L(6) Suc.prems by (metis (no_types, lifting) image_iff lessThan_iff less_trans Suc_le_lessD)
  then have "view s1 (log_block l k) = view s (log_block l k)" using apply_writes_other w1(4) by metis
  then have "wrote (home_writes l (Suc k) (view s)) s s2"
    using wrote_trans [OF s1(2) s2(2)] by (simp add: home_writes_def)
  then show ?case using s1(1) s2(1) by (auto simp: for_loop_append)
qed

section \<open>Commit\<close>

lemma apply_writes_at:
  assumes "\<And>j. j < k \<Longrightarrow> f j = f i \<Longrightarrow> j = i" and "i < k"
  shows "apply_writes (map (\<lambda>i. (f i, g i)) [0..<k]) D (f i) = g i"
  using assms
proof (induction k)
  case (Suc k)
  show ?case
  proof (cases "i = k")
    case False
    then have "f k \<noteq> f i" using Suc.prems(1) [of k] by auto
    then show ?thesis using Suc False by simp
  qed simp
qed simp

text \<open>The block writes of a commit, in order.\<close>

definition commit_writes :: "log \<Rightarrow> nat \<Rightarrow> (uint \<Rightarrow> block) \<Rightarrow> (uint \<times> block) list" where
  "commit_writes l n V =
     log_writes l n V @ [(lstart l, head_block (int n) (lhblock l) (V (lstart l)))] @
     map (\<lambda>i. (lhblock l ! i, V (lhblock l ! i))) [0..<n] @
     [(lstart l, head_block 0 (lhblock l) (head_block (int n) (lhblock l) (V (lstart l))))]"

lemma log_layout_cache: "disksize s = disksize (cache l) \<Longrightarrow> log_layout (l\<lparr>cache := s\<rparr>) n = log_layout l n"
  by (simp add: log_layout_def)

lemma step_cache [simp]:
  "install_step p (l\<lparr>cache := s\<rparr>) = install_step p l" "write_log_step p (l\<lparr>cache := s\<rparr>) = write_log_step p l"
  by (simp_all add: fun_eq_iff install_step_def write_log_step_def log_block_def)

lemma commit_ok:
  assumes lay: "log_layout l n" and n: "lhn l = int n" "0 < n" and q: "quiet (cache l)" and c: "cleans (cache l) \<noteq> {}"
    and pin: "\<And>i. i < n \<Longrightarrow> pinned (cache l) (lhblock l ! i)" and d: "distinct (homes l n)"
  shows "\<exists>s'. commit p l = Ok (l\<lparr>lhn := 0, cache := s'\<rparr>) \<and> wrote (commit_writes l n (view (cache l))) (cache l) s'"
proof -
  let ?V = "view (cache l)" and ?H1 = "head_block (int n) (lhblock l) (view (cache l) (lstart l))"
  note L = log_layoutD [OF lay]
  from write_log_loop [OF lay q refl c pin order_refl, of p] obtain s1 where
    s1: "for_loop [0..<n] (write_log_step p l) (cache l) = Ok s1" "wrote (log_writes l n ?V) (cache l) s1" by blast
  have w1: "quiet s1" "cleans s1 \<noteq> {}" "disksize s1 = disksize (cache l)" "view s1 = apply_writes (log_writes l n ?V) ?V"
    using s1(2) c by (auto simp: wrote_def)
  have nl: "lstart l \<notin> fst ` set (log_writes l n ?V)" unfolding fst_log_writes using L(7) by fastforce
  then have vs: "view s1 (lstart l) = ?V (lstart l)" using apply_writes_other w1(4) by metis
  have "lstart l < disksize s1" using L(2) w1(3) by simp
  with write_head_ok [of "l\<lparr>cache := s1\<rparr>" p] w1(1,2) L(1) obtain s2 where
    s2: "write_head p (l\<lparr>cache := s1\<rparr>) = Ok (l\<lparr>cache := s2\<rparr>)" "wrote [(lstart l, ?H1)] s1 s2"
    using vs n(1) by auto
  have w2: "quiet s2" "cleans s2 \<noteq> {}" "disksize s2 = disksize (cache l)" "view s2 = apply_writes (log_writes l n ?V @ [(lstart l, ?H1)]) ?V"
    using s2(2) w1 by (auto simp: wrote_def)
  have p2: "pinned s2 (lhblock l ! i)" if "i < n" for i
  proof -
    have "lhblock l ! i \<notin> fst ` set (log_writes l n ?V @ [(lstart l, ?H1)])"
      using that L(6,8) fst_log_writes [of l n ?V] by (auto simp: image_Un) (metis)
    then show ?thesis using wrote_trans [OF s1(2) s2(2)] pin [OF that] unfolding wrote_def by blast
  qed
  from install_loop [OF lay w2(1,3,2) _ order_refl, of p] d p2 obtain s3 where
    s3: "for_loop [0..<n] (install_step p l) s2 = Ok s3" "wrote (home_writes l n (view s2)) s2 s3" by blast
  have "view s2 (log_block l i) = ?V (lhblock l ! i)" if "i < n" for i
  proof -
    have "apply_writes (log_writes l n ?V) ?V (log_block l i) = ?V (lhblock l ! i)"
      unfolding log_writes_def using that L(9) by (intro apply_writes_at) blast+
    then show ?thesis using w2(4) L(7) [OF that] by simp
  qed
  then have hw: "home_writes l n (view s2) = map (\<lambda>i. (lhblock l ! i, ?V (lhblock l ! i))) [0..<n]" by (simp add: home_writes_def)
  have w3: "quiet s3" "cleans s3 \<noteq> {}" "disksize s3 = disksize (cache l)" using s3(2) w2 by (auto simp: wrote_def)
  have "lstart l \<notin> fst ` set (home_writes l n (view s2))" unfolding fst_home_writes using L(8) by fastforce
  then have v3: "view s3 (lstart l) = ?H1" using s3(2) w2(4) apply_writes_other [of "lstart l"] by (simp add: wrote_def)
  have "lstart l < disksize s3" using L(2) w3(3) by simp
  with write_head_ok [of "l\<lparr>cache := s3, lhn := 0\<rparr>" p] w3(1,2) L(1) v3 obtain s4 where
    s4: "write_head p (l\<lparr>cache := s3, lhn := 0\<rparr>) = Ok (l\<lparr>lhn := 0, cache := s4\<rparr>)" "wrote [(lstart l, head_block 0 (lhblock l) ?H1)] s3 s4"
    by auto
  have "wrote (commit_writes l n ?V) (cache l) s4"
    using wrote_trans [OF wrote_trans [OF wrote_trans [OF s1(2) s2(2)] s3(2)] s4(2)] hw by (simp add: commit_writes_def)
  moreover have "commit p l = Ok (l\<lparr>lhn := 0, cache := s4\<rparr>)"
    using n s1(1) s2(1) s3(1) s4(1) by (simp add: commit_def write_log_def install_trans_def)
  ultimately show ?thesis by blast
qed

section \<open>Recovery\<close>

lemma read_block:
  assumes q: "quiet s" and c: "cleans s \<noteq> {}" and n: "n < disksize s"
  shows "\<exists>b s1 s2. bread p 1 n s = Ok (b, s1) \<and> bdata (bufs s1 b) = view s n \<and> brelse p b s1 = Ok s2 \<and> wrote [] s s2"
proof -
  have inv: "bio_inv s" and ref: "\<And>i. i < NBUF \<Longrightarrow> refcnt (bufs s i) = 0" using q by (simp_all add: quiet_def)
  from bread_ok [OF inv quiet_usable [OF q c] n, of p] obtain b x where b: "bread p 1 n s = Ok (b, upd_buf b (\<lambda>_. x) s)" "b < NBUF"
    and x: "bdev x = 1" "blockno x = n" "holdingsleep p (bsl x)" "bowner x = Some p" "refcnt x = 1" "valid x" "bdata x = view s n"
      "dirty x \<longleftrightarrow> (\<exists>i. caches s i n \<and> dirty (bufs s i))" "dirty (bufs s b) \<longrightarrow> caches s b n" "\<forall>i. caches s i n \<longrightarrow> i = b"
    and i1: "bio_inv (upd_buf b (\<lambda>_. x) s)" "view (upd_buf b (\<lambda>_. x) s) = view s" by blast
  let ?s1 = "upd_buf b (\<lambda>_. x) s"
  have dx: "dirty x \<longleftrightarrow> pinned s n" "dirty x \<longleftrightarrow> dirty (bufs s b)" using x(8-10) unfolding pinned_def by blast+
  have h: "held p ?s1 b n" using b(2) x by (simp add: held_def caches_def)
  have "\<not> dirty (bufs ?s1 b) \<longrightarrow> bdata (bufs ?s1 b) = disk ?s1 n" using dx(1) x(7) pinned_not_clean [OF q, of n] by simp
  from brelse_ok [OF i1(1) h this] obtain s2 y where s2: "brelse p b ?s1 = Ok s2" "bio_inv s2" "view s2 = view ?s1" "disk s2 = disk ?s1"
    "trace s2 = trace ?s1" "disksize s2 = disksize ?s1" "bufs s2 = (bufs ?s1)(b := y)" "refcnt y = 0" "bflags y = bflags (bufs ?s1 b)" "blockno y = n" "bdev y = 1"
    by blast
  have bs: "bufs s2 = (bufs s)(b := y)" using s2(7) by simp
  have dy: "dirty y \<longleftrightarrow> dirty (bufs s b)" using s2(9) dx(2) by simp
  have "pinned s2 k" if "pinned s k" for k
  proof -
    from that obtain i where i: "caches s i k" "dirty (bufs s i)" by (auto simp: pinned_def)
    show ?thesis
    proof (cases "i = b")
      case True
      then have "k = n" using i x(9) by (auto simp: caches_def)
      then show ?thesis using True i dy s2(10,11) b(2) by (auto simp: pinned_def caches_def bs intro!: exI [of _ b])
    next
      case False
      then show ?thesis using i by (auto simp: pinned_def caches_def bs intro!: exI [of _ i])
    qed
  qed
  moreover have "quiet s2" using s2(2,8) ref by (simp add: quiet_def bs)
  moreover have "cleans s \<subseteq> cleans s2" using dy by (auto simp: cleans_def bs)
  ultimately have "wrote [] s s2" using s2(3-6) i1(2) by (auto simp: wrote_def)
  then show ?thesis using b(1) s2(1) x(7) by (intro exI [of _ b] exI [of _ ?s1] exI [of _ s2]) simp
qed

lemma foldl_store:
  "length (foldl (\<lambda>bs i. bs[i := f i]) xs [0..<k]) = length xs"
  "i < k \<Longrightarrow> k \<le> length xs \<Longrightarrow> foldl (\<lambda>bs i. bs[i := f i]) xs [0..<k] ! i = f i"
  by (induction k) (auto simp: less_Suc_eq nth_list_update)

text \<open>The header as \<^verbatim>\<open>read_head\<close> leaves it in memory.\<close>

definition with_head :: "block \<Rightarrow> log \<Rightarrow> log" where
  "with_head h l = l\<lparr>lhn := sint (get32 h 0),
     lhblock := foldl (\<lambda>bs i. bs[i := get32 h (4 + 4 * i)]) (lhblock l) [0..<nat (sint (get32 h 0))]\<rparr>"

lemma recover_ok:
  assumes q: "quiet (cache l)" and c: "i \<in> cleans (cache l)" "j \<in> cleans (cache l)" "i \<noteq> j"
    and np: "\<And>n. \<not> pinned (cache l) n"
    and h: "h = disk (cache l) (lstart l)" "sint (get32 h 0) = int n" and lay: "log_layout (with_head h l) n"
  shows "\<exists>r. recover_from_log p l = Ok r \<and>
    disk (cache r) = apply_writes (home_writes (with_head h l) n (disk (cache l)) @ [(lstart l, head_block 0 (lhblock (with_head h l)) h)]) (disk (cache l))"
proof -
  have ne: "cleans (cache l) \<noteq> {}" using c by blast
  note L = log_layoutD [OF lay]
  let ?l = "with_head h l"
  have f: "ldev ?l = ldev l" "lstart ?l = lstart l" "cache ?l = cache l" "lhn ?l = int n" using h(2) by (simp_all add: with_head_def)
  have vd: "view (cache l) = disk (cache l)" using pinned_not_clean [OF q] np by blast
  have st: "lstart l < disksize (cache l)" using L(2) f by simp
  from read_block [OF q ne st, of p] obtain b s1 s2 where
    r: "bread p 1 (lstart l) (cache l) = Ok (b, s1)" "bdata (bufs s1 b) = h" "brelse p b s1 = Ok s2" "wrote [] (cache l) s2"
    using vd h(1) by auto
  have n30: "int n \<le> 30" using lay by (simp add: log_layout_def)
  have dev: "ldev l = 1" using L(1) f(1) by simp
  have rh: "read_head p l = Ok (?l\<lparr>cache := s2\<rparr>)"
    using r(1-3) h(2) n30 dev by (simp add: read_head_def with_head_def Let_def)
  have w2: "quiet s2" "view s2 = disk (cache l)" "disk s2 = disk (cache l)" "disksize s2 = disksize (cache l)" "cleans (cache l) \<subseteq> cleans s2"
    using r(4) vd by (simp_all add: wrote_def)
  then have c2: "cleans s2 \<noteq> {}" "\<exists>i \<in> cleans s2. \<exists>j \<in> cleans s2. i \<noteq> j" using c by blast+
  have sz2: "disksize s2 = disksize (cache ?l)" using w2(4) f(3) by simp
  from install_loop [OF lay w2(1) sz2 c2(1) _ order_refl, of p] c2(2) obtain s3 where
    s3: "for_loop [0..<n] (install_step p ?l) s2 = Ok s3" "wrote (home_writes ?l n (view s2)) s2 s3" by blast
  have it: "install_trans p (?l\<lparr>cache := s2\<rparr>) = Ok (?l\<lparr>cache := s3\<rparr>)" using s3(1) f(4) by (simp add: install_trans_def)
  have w3: "quiet s3" "cleans s3 \<noteq> {}" "lstart l < disksize s3" using s3(2) c2 w2 st by (auto simp: wrote_def)
  have "lstart l \<notin> fst ` set (home_writes ?l n (view s2))" unfolding fst_home_writes using L(8) f(2) by fastforce
  then have v3: "view s3 (lstart l) = h" using s3(2) w2(2) h(1) apply_writes_other [of "lstart l"] by (simp add: wrote_def)
  from write_head_ok [of "?l\<lparr>cache := s3, lhn := 0\<rparr>" p] w3 dev f v3 obtain s4 where
    s4: "write_head p (?l\<lparr>cache := s3, lhn := 0\<rparr>) = Ok (?l\<lparr>lhn := 0, cache := s4\<rparr>)" "wrote [(lstart l, head_block 0 (lhblock ?l) h)] s3 s4"
    by auto
  have "recover_from_log p l = Ok (?l\<lparr>lhn := 0, cache := s4\<rparr>)" using rh it s4(1) by (simp add: recover_from_log_def)
  moreover have "disk s4 = apply_writes (home_writes ?l n (disk (cache l)) @ [(lstart l, head_block 0 (lhblock ?l) h)]) (disk (cache l))"
    using s4(2) s3(2) w2(2,3) by (simp add: wrote_def)
  ultimately show ?thesis by auto
qed

section \<open>Crashes\<close>

text \<open>Blocks outside the log area, and the machine after a reboot: an empty cache over the disk as the
  crash left it.\<close>

definition outside :: "log \<Rightarrow> uint \<Rightarrow> bool" where
  "outside l b \<longleftrightarrow> b < lstart l \<or> unat (lstart l) + nat (lsize l) \<le> unat b"

definition rebooted :: "(uint \<Rightarrow> block) \<Rightarrow> log \<Rightarrow> log \<Rightarrow> bool" where
  "rebooted D l l0 \<longleftrightarrow> lstart l0 = lstart l \<and> lsize l0 = lsize l \<and> ldev l0 = 1 \<and> length (lhblock l0) = LOGSIZE \<and>
     (\<exists>z. (\<forall>i < NBUF. bdev (bufs z i) = 0 \<and> bflags (bufs z i) = 0 \<and> refcnt (bufs z i) = 0) \<and>
       disk z = D \<and> disksize z = disksize (cache l) \<and> cache l0 = binit z)"

lemma rebootedD:
  assumes "rebooted D l l0"
  shows "quiet (cache l0)" "0 \<in> cleans (cache l0)" "1 \<in> cleans (cache l0)" "\<not> pinned (cache l0) b" "disk (cache l0) = D"
    "disksize (cache l0) = disksize (cache l)"
proof -
  from assms obtain z where z: "\<forall>i < NBUF. bdev (bufs z i) = 0 \<and> bflags (bufs z i) = 0 \<and> refcnt (bufs z i) = 0"
    "disk z = D" "disksize z = disksize (cache l)" "cache l0 = binit z" by (auto simp: rebooted_def)
  have "bio_inv (binit z)" using z(1) by (intro binit_inv(1)) blast
  then show "quiet (cache l0)" using z(1,4) by (simp add: quiet_def binit_bufs(1) init_buf_def)
  show "0 \<in> cleans (cache l0)" "1 \<in> cleans (cache l0)" "\<not> pinned (cache l0) b"
    using z(1,4) by (auto simp: cleans_def pinned_def caches_def binit_bufs(1) init_buf_def)
  show "disk (cache l0) = D" "disksize (cache l0) = disksize (cache l)" using z by (simp_all add: binit_bufs)
qed

lemma outside_writes:
  assumes "log_layout l n" and "outside l b"
  shows "b \<noteq> lstart l" "b \<notin> fst ` set (log_writes l n V)"
proof -
  have s: "0 < lsize l" "int n < lsize l" using assms(1) by (auto simp: log_layout_def)
  show "b \<noteq> lstart l" using assms(2) s(1) by (auto simp: outside_def)
  have "b \<noteq> log_block l i" if "i < n" for i
    using assms(2) s(2) log_layoutD(3) [OF assms(1) that] that by (auto simp: outside_def word_less_nat_alt)
  then show "b \<notin> fst ` set (log_writes l n V)" unfolding fst_log_writes by blast
qed

text \<open>Recovery with an empty header changes nothing outside the log; with the header of the transaction it
  installs the transaction.\<close>

lemma recover_empty:
  assumes "rebooted D l l0" and "log_layout l n" and "sint (get32 (D (lstart l)) 0) = 0"
  shows "\<exists>r. recover_from_log q l0 = Ok r \<and> (\<forall>b. outside l b \<longrightarrow> disk (cache r) b = D b)"
proof -
  note R = rebootedD [OF assms(1)]
  have st: "lstart l0 = lstart l" "lsize l0 = lsize l" "ldev l0 = 1" using assms(1) by (simp_all add: rebooted_def)
  have h: "D (lstart l) = disk (cache l0) (lstart l0)" using R(5) st(1) by simp
  have "log_layout (with_head (D (lstart l)) l0) 0"
    using assms(2) st R(6) by (simp add: log_layout_def with_head_def)
  from recover_ok [OF R(1-3) _ R(4) h _ this, of q] assms(3) obtain r where
    r: "recover_from_log q l0 = Ok r" "disk (cache r) = D(lstart l := head_block 0 (lhblock (with_head (D (lstart l)) l0)) (D (lstart l)))"
    using R(5) st(1) by (auto simp: home_writes_def)
  then show ?thesis using outside_writes(1) [OF assms(2)] by auto
qed

lemma recover_full:
  assumes rb: "rebooted D l l0" and lay: "log_layout l n" and d: "distinct (homes l n)" and hl: "length (lhblock l) = LOGSIZE"
    and h: "D (lstart l) = head_block (int n) (lhblock l) h" "length h = BSIZE"
    and lb: "\<And>i. i < n \<Longrightarrow> D (log_block l i) = V (lhblock l ! i)"
  shows "\<exists>r. recover_from_log q l0 = Ok r \<and>
    (\<forall>b. outside l b \<longrightarrow> disk (cache r) b = (if b \<in> set (homes l n) then V b else D b))"
proof -
  note R = rebootedD [OF rb]
  have st: "lstart l0 = lstart l" "lsize l0 = lsize l" "ldev l0 = 1" "length (lhblock l0) = LOGSIZE" using rb by (simp_all add: rebooted_def)
  let ?h = "D (lstart l)" and ?l = "with_head (D (lstart l)) l0"
  have n: "n \<le> LOGSIZE" using lay by (simp add: log_layout_def)
  then have hn: "sint (get32 ?h 0) = int n" using h head_block_get(2) [OF h(2), of "int n"] by simp
  have hb: "lhblock ?l ! i = lhblock l ! i" if "i < n" for i
  proof -
    have "lhblock ?l ! i = get32 ?h (4 + 4 * i)"
      unfolding with_head_def using that n st(4) hn by (simp add: foldl_store(2))
    also have "\<dots> = lhblock l ! i" using h head_block_get(3) [OF h(2), of "int n" i "lhblock l"] that n by simp
    finally show ?thesis .
  qed
  have fl: "lstart ?l = lstart l" "lsize ?l = lsize l" "ldev ?l = 1" "cache ?l = cache l0" using st by (simp_all add: with_head_def)
  have blk: "log_block ?l i = log_block l i" for i using fl(1) by (simp add: log_block_def)
  have lay': "log_layout ?l n" using lay hb R(6) fl by (simp add: log_layout_def)
  have e: "?h = disk (cache l0) (lstart l0)" using R(5) st(1) by simp
  have hw: "home_writes ?l n D = map (\<lambda>i. (lhblock l ! i, V (lhblock l ! i))) [0..<n]"
    using hb lb blk by (simp add: home_writes_def)
  from recover_ok [OF R(1-3) _ R(4) e hn lay', of q] obtain r where
    r: "recover_from_log q l0 = Ok r" "disk (cache r) = (apply_writes (home_writes ?l n D) D)(lstart l := head_block 0 (lhblock ?l) ?h)"
    using R(5) st(1) by auto
  have "disk (cache r) b = (if b \<in> set (homes l n) then V b else D b)" if "outside l b" for b
  proof (cases "b \<in> set (homes l n)")
    case True
    then obtain i where i: "i < n" "b = lhblock l ! i" by auto
    have "apply_writes (home_writes ?l n D) D (lhblock l ! i) = V (lhblock l ! i)"
      unfolding hw using i(1) d by (intro apply_writes_at) (auto simp: distinct_conv_nth)
    then show ?thesis using True i r(2) outside_writes(1) [OF lay that] by simp
  next
    case False
    then have "b \<notin> fst ` set (home_writes ?l n D)" unfolding hw by auto
    then show ?thesis using False r(2) outside_writes(1) [OF lay that] apply_writes_other by simp
  qed
  then show ?thesis using r(1) by blast
qed

lemma apply_take_other: "n \<notin> fst ` set ws \<Longrightarrow> apply_writes (take j ws) D n = D n"
  using image_mono [OF set_take_subset, of fst j ws] by (intro apply_writes_other) blast

lemma commit_crash_before:
  assumes lay: "log_layout l n" and k: "k \<le> n" and h: "sint (get32 (disk (cache l) (lstart l)) 0) = 0"
    and rb: "rebooted (apply_writes (take k (commit_writes l n V)) (disk (cache l))) l l0"
  shows "\<exists>r. recover_from_log q l0 = Ok r \<and> (\<forall>b. outside l b \<longrightarrow> disk (cache r) b = disk (cache l) b)"
proof -
  let ?D = "apply_writes (take k (commit_writes l n V)) (disk (cache l))"
  have t: "take k (commit_writes l n V) = take k (log_writes l n V)" using k by (simp add: commit_writes_def log_writes_def)
  have sub: "fst ` set (take k (log_writes l n V)) \<subseteq> fst ` set (log_writes l n V)" by (intro image_mono set_take_subset)
  have "lstart l \<notin> fst ` set (log_writes l n V)" unfolding fst_log_writes using log_layoutD(7) [OF lay] by fastforce
  then have "?D (lstart l) = disk (cache l) (lstart l)" unfolding t using sub by (intro apply_writes_other) blast
  then have "sint (get32 (?D (lstart l)) 0) = 0" using h by simp
  from recover_empty [OF rb lay this, of q] obtain r where r: "recover_from_log q l0 = Ok r" "\<forall>b. outside l b \<longrightarrow> disk (cache r) b = ?D b" by blast
  have "?D b = disk (cache l) b" if "outside l b" for b
    unfolding t using sub outside_writes(2) [OF lay that, of V] by (intro apply_writes_other) blast
  then show ?thesis using r by auto
qed

lemma commit_crash_after:
  assumes lay: "log_layout l n" and k: "n < k" "k \<le> 2 * n + 2" and d: "distinct (homes l n)" and hl: "length (lhblock l) = LOGSIZE"
    and hv: "length (V (lstart l)) = BSIZE"
    and rb: "rebooted (apply_writes (take k (commit_writes l n V)) (disk (cache l))) l l0"
  shows "\<exists>r. recover_from_log q l0 = Ok r \<and>
    (\<forall>b. outside l b \<longrightarrow> disk (cache r) b = (if b \<in> set (homes l n) then V b else disk (cache l) b))"
proof -
  let ?D = "apply_writes (take k (commit_writes l n V)) (disk (cache l))"
  let ?H1 = "head_block (int n) (lhblock l) (V (lstart l))" and ?hw = "map (\<lambda>i. (lhblock l ! i, V (lhblock l ! i))) [0..<n]"
  let ?H0 = "head_block 0 (lhblock l) ?H1"
  note L = log_layoutD [OF lay]
  have n30: "int n \<le> int LOGSIZE" using lay by (simp add: log_layout_def)
  have F: "fst ` set ?hw = (!) (lhblock l) ` {..<n}" by (auto simp: image_image atLeast0LessThan)
  have nh0: "lstart l \<notin> fst ` set ?hw" unfolding F using L(8) by fastforce
  have nh: "log_block l i \<notin> fst ` set ?hw" if "i < n" for i unfolding F using L(6) that by fastforce
  have base: "apply_writes (log_writes l n V @ [(lstart l, ?H1)]) (disk (cache l)) (log_block l i) = V (lhblock l ! i)" if "i < n" for i
  proof -
    have "apply_writes (log_writes l n V) (disk (cache l)) (log_block l i) = V (lhblock l ! i)"
      unfolding log_writes_def using that L(9) by (intro apply_writes_at) blast+
    then show ?thesis using L(7) [OF that] by simp
  qed
  have out: "apply_writes (log_writes l n V @ [(lstart l, ?H1)]) (disk (cache l)) b = disk (cache l) b" if "outside l b" for b
    using outside_writes(1) [OF lay that] outside_writes(2) [OF lay that, of V] apply_writes_other by simp
  show ?thesis
  proof (cases "k = 2 * n + 2")
    case True
    have "take k (commit_writes l n V) = commit_writes l n V" using True by (simp add: commit_writes_def log_writes_def)
    then have D: "?D = apply_writes (log_writes l n V @ [(lstart l, ?H1)] @ ?hw @ [(lstart l, ?H0)]) (disk (cache l))"
      by (simp add: commit_writes_def)
    then have "?D (lstart l) = ?H0" by simp
    moreover have "length ?H1 = BSIZE" using head_block_get(1) [OF hv _ n30] by simp
    ultimately have "sint (get32 (?D (lstart l)) 0) = 0" using head_block_get(2) [of ?H1 0] by simp
    from recover_empty [OF rb lay this, of q] obtain r where r: "recover_from_log q l0 = Ok r" "\<forall>b. outside l b \<longrightarrow> disk (cache r) b = ?D b" by blast
    have "?D b = (if b \<in> set (homes l n) then V b else disk (cache l) b)" if "outside l b" for b
    proof (cases "b \<in> set (homes l n)")
      case in_b: True
      then obtain i where i: "i < n" "b = lhblock l ! i" by auto
      have "apply_writes ?hw E (lhblock l ! i) = V (lhblock l ! i)" for E
        using i(1) d by (intro apply_writes_at) (auto simp: distinct_conv_nth)
      then show ?thesis using in_b i outside_writes(1) [OF lay that] by (simp add: D)
    next
      case False
      then have "b \<notin> fst ` set ?hw" by auto
      then show ?thesis using False out [OF that] outside_writes(1) [OF lay that] apply_writes_other [of b ?hw] by (simp add: D)
    qed
    then show ?thesis using r by auto
  next
    case False
    define j where "j = k - (n + 1)"
    have kj: "k = n + 1 + j" "j \<le> n" using False k by (simp_all add: j_def)
    have "take k (commit_writes l n V) = log_writes l n V @ [(lstart l, ?H1)] @ take j ?hw"
      using kj by (simp add: commit_writes_def log_writes_def take_map)
    then have D: "?D = apply_writes (take j ?hw) (apply_writes (log_writes l n V @ [(lstart l, ?H1)]) (disk (cache l)))" by simp
    have "?D (lstart l) = ?H1" unfolding D apply_take_other [OF nh0] by simp
    moreover have "?D (log_block l i) = V (lhblock l ! i)" if "i < n" for i
      unfolding D apply_take_other [OF nh [OF that]] by (rule base [OF that])
    ultimately obtain r where r: "recover_from_log q l0 = Ok r"
      "\<forall>b. outside l b \<longrightarrow> disk (cache r) b = (if b \<in> set (homes l n) then V b else ?D b)"
      using recover_full [OF rb lay d hl _ hv, of V q] by blast
    have "?D b = disk (cache l) b" if "outside l b" "b \<notin> set (homes l n)" for b
    proof -
      have nb: "b \<notin> fst ` set ?hw" using that(2) by auto
      show ?thesis unfolding D apply_take_other [OF nb] by (rule out [OF that(1)])
    qed
    then show ?thesis using r by auto
  qed
qed

text \<open>C1: Crash safety of the log. \<^verbatim>\<open>commit\<close> of a transaction of \<open>n\<close> blocks completes and makes \<open>2 n + 2\<close> block
  writes. If the machine stops after any number \<open>k\<close> of them, the recovery of the next boot completes and
  leaves on the disk, outside the log area, exactly the old contents if \<open>k \<le> n\<close>, and exactly the new
  contents of all \<open>n\<close> blocks otherwise: a transaction is never half done.\<close>

theorem log_crash_atomic:
  assumes lay: "log_layout l n" and n: "lhn l = int n" "0 < n" and q: "quiet (cache l)" and c: "cleans (cache l) \<noteq> {}"
    and pin: "\<forall>i < n. pinned (cache l) (lhblock l ! i)" and d: "distinct (homes l n)" and hl: "length (lhblock l) = LOGSIZE"
    and hd: "sint (get32 (disk (cache l) (lstart l)) 0) = 0" "length (view (cache l) (lstart l)) = BSIZE"
  shows "\<exists>s' ws. commit p l = Ok (l\<lparr>lhn := 0, cache := s'\<rparr>) \<and> trace s' = trace (cache l) @ ws \<and> length ws = 2 * n + 2 \<and>
    (\<forall>k l0. k \<le> 2 * n + 2 \<and> rebooted (apply_writes (take k ws) (disk (cache l))) l l0 \<longrightarrow>
      (\<exists>r. recover_from_log q' l0 = Ok r \<and> (\<forall>b. outside l b \<longrightarrow> disk (cache r) b =
        (if k \<le> n then disk (cache l) b
         else if b \<in> set (homes l n) then view (cache l) b else disk (cache l) b))))"
proof -
  let ?ws = "commit_writes l n (view (cache l))"
  from commit_ok [OF lay n q c _ d, of p] pin obtain s' where
    s': "commit p l = Ok (l\<lparr>lhn := 0, cache := s'\<rparr>)" "trace s' = trace (cache l) @ ?ws" by (auto simp: wrote_def)
  have len: "length ?ws = 2 * n + 2" by (simp add: commit_writes_def log_writes_def)
  have "\<exists>r. recover_from_log q' l0 = Ok r \<and> (\<forall>b. outside l b \<longrightarrow> disk (cache r) b =
      (if k \<le> n then disk (cache l) b else if b \<in> set (homes l n) then view (cache l) b else disk (cache l) b))"
    if "k \<le> 2 * n + 2" "rebooted (apply_writes (take k ?ws) (disk (cache l))) l l0" for k l0
  proof (cases "k \<le> n")
    case True
    then show ?thesis using commit_crash_before [OF lay True hd(1) that(2), of q'] by simp
  next
    case False
    then show ?thesis using commit_crash_after [OF lay _ that(1) d hl hd(2) that(2), of q'] by simp
  qed
  then show ?thesis using s' len by (intro exI [of _ s'] exI [of _ ?ws]) blast
qed

definition log_demo :: log where
  "log_demo = \<lparr>lstart = 2, lsize = 30, outstanding = 0, committing = 1, ldev = 1, lhn = 1, lhblock = 40 # replicate 29 0,
     cache = upd_buf 0 (\<lambda>x. x\<lparr>bdev := 1, blockno := 40, bflags := 6, bdata := replicate 512 7\<rparr>)
       (binit (blank_cache\<lparr>disk := \<lambda>_. replicate 512 0\<rparr>))\<rparr>"

lemma log_demo_cache:
  "quiet (cache log_demo)" "cleans (cache log_demo) \<noteq> {}" "pinned (cache log_demo) 40" "view (cache log_demo) 2 = replicate 512 0"
  "disk (cache log_demo) = (\<lambda>_. replicate 512 0)" "disksize (cache log_demo) = 1000"
proof -
  let ?z = "blank_cache\<lparr>disk := \<lambda>_. replicate 512 0\<rparr>"
  have z: "bdev (bufs ?z i) = 0 \<and> bflags (bufs ?z i) = 0 \<and> refcnt (bufs ?z i) = 0" for i by (simp add: blank_cache_def)
  have inv: "bio_inv (binit ?z)" using z by (intro binit_inv(1)) blast
  have v: "valid (bufs (cache log_demo) 0)" "dirty (bufs (cache log_demo) 0)"
    unfolding log_demo_def by (simp_all add: bit_iff_odd drop_bit_eq_div flip: drop_bit_eq_div) 
  have oth: "bdev (bufs (cache log_demo) i) = 0" "bflags (bufs (cache log_demo) i) = 0" if "i \<noteq> 0" for i
    using that z by (simp_all add: log_demo_def binit_bufs(1) init_buf_def)
  have z0: "bdev (bufs (cache log_demo) 0) = 1" "blockno (bufs (cache log_demo) 0) = 40" by (simp_all add: log_demo_def)
  have c: "caches (cache log_demo) i n \<longleftrightarrow> i = 0 \<and> n = 40" for i n
    using oth z0 by (cases "i = 0") (auto simp: caches_def)
  have ow: "bowner (bufs (cache log_demo) i) = None" if "i < NBUF" for i
    using that by (simp add: log_demo_def bowner_def binit_bufs(1) init_buf_def sleep_owner_def initsleeplock_def)
  obtain xs where "lru (binit ?z) xs" using bio_invD(1) [OF inv] by blast
  then have "lru (cache log_demo) xs" by (simp add: log_demo_def lru_def)
  then have "bio_inv (cache log_demo)"
    unfolding bio_inv_def c using v ow oth(2) by (auto, metis bit_0_eq bot_apply bot_bool_def)
  moreover have "refcnt (bufs (cache log_demo) i) = 0" for i using z by (simp add: log_demo_def binit_bufs(1) init_buf_def)
  ultimately show "quiet (cache log_demo)" by (simp add: quiet_def)
  show "cleans (cache log_demo) \<noteq> {}" using oth(2) [of 1] by (auto simp: cleans_def intro: exI [of _ 1])
  show "pinned (cache log_demo) 40" using c v by (auto simp: pinned_def)
  show d: "disk (cache log_demo) = (\<lambda>_. replicate 512 0)" by (simp add: log_demo_def binit_bufs(2))
  have "view (cache log_demo) 2 = disk (cache log_demo) 2" by (rule view_uncached) (simp add: c)
  then show "view (cache log_demo) 2 = replicate 512 0" using d by simp
  show "disksize (cache log_demo) = 1000" by (simp add: log_demo_def binit_bufs(3)) (simp add: blank_cache_def)
qed

theorem log_crash_atomic_witness:
  "\<exists>s'. commit 7 log_demo = Ok (log_demo\<lparr>lhn := 0, cache := s'\<rparr>) \<and> length (trace s') = length (trace (cache log_demo)) + 4"
proof -
  have "log_layout log_demo 1"
    unfolding log_layout_def log_demo_cache(6) by (simp add: log_demo_def)
  moreover have "get32 (replicate 512 0) 0 = 0" by (simp add: get32_def)
  ultimately show ?thesis
    using log_crash_atomic [of log_demo 1 7 0] log_demo_cache(1-5) by (fastforce simp: log_demo_def simp del: upd_buf_simps)
qed

section \<open>Recording blocks and reserving space\<close>

lemma absorb_index_bounds: "i \<le> absorb_index bs b i k \<and> absorb_index bs b i k \<le> i + k"
  by (induction bs b i k rule: absorb_index.induct) auto

lemma absorb_index_found: "absorb_index bs b i k < i + k \<Longrightarrow> bs ! absorb_index bs b i k = b"
  by (induction bs b i k rule: absorb_index.induct) auto

lemma absorb_index_absent: "absorb_index bs b i k = i + k \<Longrightarrow> i \<le> j \<Longrightarrow> j < i + k \<Longrightarrow> bs ! j \<noteq> b"
proof (induction bs b i k rule: absorb_index.induct)
  case (2 bs b i k)
  have "bs ! i \<noteq> b" using 2(2) absorb_index_bounds [of "Suc i" bs b k] by (auto split: if_splits)
  then show ?case using 2 by (cases "j = i") auto
qed simp

text \<open>The in-memory header: the blocks of the transaction are recorded once each.\<close>

definition head_ok :: "log \<Rightarrow> bool" where
  "head_ok l \<longleftrightarrow> 0 \<le> lhn l \<and> lhn l \<le> int LOGSIZE \<and> length (lhblock l) = LOGSIZE \<and> distinct (homes l (nat (lhn l)))"

lemma log_write_ok:
  fixes b
  assumes "head_ok l" and "lhn l < int LOGSIZE" and "lhn l < lsize l - 1" and "1 \<le> outstanding l"
  defines "bn \<equiv> blockno (bufs (cache l) b)" and "hs \<equiv> homes l (nat (lhn l))"
  shows "\<exists>l'. log_write b l = Ok l' \<and> head_ok l' \<and> dirty (bufs (cache l') b) \<and>
    homes l' (nat (lhn l')) = (if bn \<in> set hs then hs else hs @ [bn]) \<and>
    lhn l' = (if bn \<in> set hs then lhn l else lhn l + 1) \<and> outstanding l' = outstanding l \<and> lsize l' = lsize l \<and>
    (\<forall>c. blockno (bufs (cache l') c) = blockno (bufs (cache l) c))"
proof -
  define n where "n = nat (lhn l)"
  have h: "lhn l = int n" "n < LOGSIZE" "length (lhblock l) = LOGSIZE" "distinct (homes l n)" "hs = homes l n"
    using assms(1,2) by (auto simp: head_ok_def n_def hs_def)
  define i where "i = absorb_index (lhblock l) bn 0 n"
  have i: "i \<le> n" "i < n \<Longrightarrow> lhblock l ! i = bn" "i = n \<Longrightarrow> \<forall>j < n. lhblock l ! j \<noteq> bn"
    unfolding i_def using absorb_index_bounds [of 0 "lhblock l" bn n] absorb_index_found [of "lhblock l" bn 0 n]
      absorb_index_absent [of "lhblock l" bn 0 n] by auto
  define l' where "l' = l\<lparr>lhblock := (lhblock l)[i := bn], lhn := (if int i = lhn l then lhn l + 1 else lhn l),
      cache := upd_buf b (\<lambda>x. x\<lparr>bflags := bflags x OR B_DIRTY\<rparr>) (cache l)\<rparr>"
  have run: "log_write b l = Ok l'" using assms(2-4) by (simp add: log_write_def l'_def bn_def i_def n_def Let_def)
  have f: "dirty (bufs (cache l') b)" "outstanding l' = outstanding l" "lsize l' = lsize l" "length (lhblock l') = LOGSIZE"
    "\<forall>c. blockno (bufs (cache l') c) = blockno (bufs (cache l) c)" using h(3) by (simp_all add: l'_def flag_bits)
  show ?thesis
  proof (cases "i = n")
    case True
    have hs': "homes l' (Suc n) = hs @ [bn]" using True h by (auto simp: l'_def nth_list_update)
    have n': "lhn l' = int n + 1" "nat (lhn l') = Suc n" using True h by (simp_all add: l'_def)
    have nb: "bn \<notin> set hs" using i(3) [OF True] h(5) by auto
    have "head_ok l'" unfolding head_ok_def n'(2) hs' using n'(1) h(2,4,5) nb f(4) by auto
    then show ?thesis using run f n' hs' nb h(1) by (intro exI [of _ l']) (simp del: upt_Suc)
  next
    case ne: False
    then have "i < n" "lhblock l ! i = bn" using i by auto
    then have hs': "homes l' n = hs" "bn \<in> set hs" using h(5) by (auto simp: l'_def nth_list_update)
    have n': "lhn l' = int n" "nat (lhn l') = n" using ne h by (simp_all add: l'_def)
    have "head_ok l'" unfolding head_ok_def n'(2) hs' using n'(1) h(2,4,5) f(4) by auto
    then show ?thesis using run f n' hs' h(1) by (intro exI [of _ l']) simp
  qed
qed

text \<open>\<^verbatim>\<open>log_write\<close> records a block once. It panics exactly when the header or the log area is full or no
  system call is active; otherwise the recorded blocks are the old ones and this one, still without
  duplicates, a block already recorded takes no new slot, and the buffer is pinned in the cache.\<close>

theorem log_write_absorbs:
  assumes "head_ok l"
  shows "(if lhn l \<ge> int LOGSIZE \<or> lhn l \<ge> lsize l - 1 \<or> outstanding l < 1 then \<exists>e. log_write b l = Panic e
    else \<exists>l'. log_write b l = Ok l' \<and> head_ok l' \<and> dirty (bufs (cache l') b) \<and>
      set (homes l' (nat (lhn l'))) = insert (blockno (bufs (cache l) b)) (set (homes l (nat (lhn l)))) \<and>
      lhn l' = (if blockno (bufs (cache l) b) \<in> set (homes l (nat (lhn l))) then lhn l else lhn l + 1))"
proof (cases "lhn l \<ge> int LOGSIZE \<or> lhn l \<ge> lsize l - 1 \<or> outstanding l < 1")
  case True
  then show ?thesis by (auto simp: log_write_def)
next
  case False
  let ?bn = "blockno (bufs (cache l) b)" and ?hs = "homes l (nat (lhn l))"
  from log_write_ok [OF assms, of b] False obtain l' where
    l': "log_write b l = Ok l'" "head_ok l'" "dirty (bufs (cache l') b)" "homes l' (nat (lhn l')) = (if ?bn \<in> set ?hs then ?hs else ?hs @ [?bn])"
    "lhn l' = (if ?bn \<in> set ?hs then lhn l else lhn l + 1)" unfolding not_le de_Morgan_disj not_less by blast
  have "set (homes l' (nat (lhn l'))) = insert ?bn (set ?hs)" unfolding l'(4) by (cases "?bn \<in> set ?hs") auto
  then show ?thesis using False l'(1-3,5) by metis
qed

theorem log_write_absorbs_witness:
  "\<exists>l'. log_write 0 (log_demo\<lparr>outstanding := 1\<rparr>) = Ok l' \<and> lhn l' = 1"
proof -
  have "head_ok (log_demo\<lparr>outstanding := 1\<rparr>)" by (simp add: head_ok_def log_demo_def)
  from log_write_absorbs [OF this, of 0] show ?thesis by (auto simp: log_demo_def)
qed

text \<open>Reservations: \<open>us\<close> lists, for each active system call, how many blocks it has recorded.\<close>

definition reserved :: "log \<Rightarrow> nat list \<Rightarrow> bool" where
  "reserved l us \<longleftrightarrow> head_ok l \<and> outstanding l = int (length us) \<and> (\<forall>u \<in> set us. u \<le> 10) \<and>
     lhn l + (\<Sum>u \<leftarrow> us. 10 - int u) \<le> int LOGSIZE"

lemma sum_list_room: "\<forall>u \<in> set us. u \<le> 10 \<Longrightarrow> (\<Sum>u \<leftarrow> us. 10 - int u) \<le> 10 * int (length us)"
  by (induction us) auto

lemma sum_list_room_pos: "\<forall>u \<in> set us. u \<le> 10 \<Longrightarrow> 0 \<le> (\<Sum>u \<leftarrow> us. 10 - int u)"
  by (induction us) auto

lemma sum_list_step: "i < length us \<Longrightarrow> (\<Sum>u \<leftarrow> us[i := us ! i + 1]. 10 - int u) = (\<Sum>u \<leftarrow> us. 10 - int u) - 1"
  by (induction us arbitrary: i) (auto split: nat.splits)

lemma sum_list_split: "i < length us \<Longrightarrow> (\<Sum>u \<leftarrow> us. 10 - int u) = (10 - int (us ! i)) + (\<Sum>u \<leftarrow> take i us @ drop (Suc i) us. 10 - int u)"
  by (induction us arbitrary: i) (auto simp: nth_Cons split: nat.splits)



lemma log_write_distinct:
  assumes "head_ok l" and "lhn l = 0" and "lsize l = int LOGSIZE" and "1 \<le> outstanding l"
    and "inj_on (\<lambda>b. blockno (bufs (cache l) b)) {..<k}" and "k \<le> 29"
  shows "\<exists>l'. for_loop [0..<k] log_write l = Ok l' \<and> head_ok l' \<and> lhn l' = int k \<and> outstanding l' = outstanding l \<and>
    lsize l' = lsize l \<and> homes l' k = map (\<lambda>b. blockno (bufs (cache l) b)) [0..<k] \<and>
    (\<forall>c. blockno (bufs (cache l') c) = blockno (bufs (cache l) c))"
  using assms(5,6)
proof (induction k)
  case 0
  then show ?case using assms(1-3) by simp
next
  case (Suc k)
  have "inj_on (\<lambda>b. blockno (bufs (cache l) b)) {..<k}" by (rule inj_on_subset [OF Suc.prems(1)]) simp
  with Suc obtain l1 where l1: "for_loop [0..<k] log_write l = Ok l1" "head_ok l1" "lhn l1 = int k" "outstanding l1 = outstanding l"
    "lsize l1 = lsize l" "homes l1 k = map (\<lambda>b. blockno (bufs (cache l) b)) [0..<k]"
    "\<forall>c. blockno (bufs (cache l1) c) = blockno (bufs (cache l) c)" by auto
  let ?bn = "blockno (bufs (cache l1) k)"
  have nin: "?bn \<notin> set (homes l1 k)"
  proof
    assume "?bn \<in> set (homes l1 k)"
    then obtain j where j: "j < k" "blockno (bufs (cache l) k) = blockno (bufs (cache l) j)" unfolding l1(6) using l1(7) by auto
    then have "k = j" using inj_onD [OF Suc.prems(1), of k j] by simp
    then show False using j(1) by simp
  qed
  have "lhn l1 < int LOGSIZE" "lhn l1 < lsize l1 - 1" "1 \<le> outstanding l1" using l1(3-5) Suc.prems(2) assms(3,4) by simp_all
  from log_write_ok [OF l1(2) this, of k] obtain l2 where l2: "log_write k l1 = Ok l2" "head_ok l2" "lhn l2 = int k + 1"
    "homes l2 (nat (lhn l2)) = homes l1 k @ [?bn]" "outstanding l2 = outstanding l1" "lsize l2 = lsize l1"
    "\<forall>c. blockno (bufs (cache l2) c) = blockno (bufs (cache l1) c)"
    using nin l1(3) by auto
  have "homes l2 (Suc k) = map (\<lambda>b. blockno (bufs (cache l) b)) [0..<Suc k]"
    using l2(4) l1(6,7) unfolding l2(3) by (simp add: nat_add_distrib)
  then show ?case using l1 l2 by (simp add: for_loop_append)
qed

text \<open>C35: The log area that \<^verbatim>\<open>mkfs\<close> makes is one block too small. With \<^verbatim>\<open>log.size = LOGSIZE\<close> three system calls
  pass \<^verbatim>\<open>begin_op\<close>, and when together they record their 30 permitted blocks, the last \<^verbatim>\<open>log_write\<close> panics: the
  header block takes one of the 30 blocks, which \<^verbatim>\<open>begin_op\<close> does not count.\<close>

theorem log_area_too_small:
  assumes "head_ok l" and "lhn l = 0" and "lsize l = int LOGSIZE" and "outstanding l = 0" and "committing l = 0"
    and "inj_on (\<lambda>b. blockno (bufs (cache l) b)) {..<29}"
  shows "\<exists>l1 l2 l3 l4. begin_op l = (True, l1) \<and> begin_op l1 = (True, l2) \<and> begin_op l2 = (True, l3) \<and>
    for_loop [0..<29] log_write l3 = Ok l4 \<and> log_write 29 l4 = Panic ''too big a transaction''"
proof -
  define l3 where "l3 = l\<lparr>outstanding := 3\<rparr>"
  have b: "begin_op l = (True, l\<lparr>outstanding := 1\<rparr>)" "begin_op (l\<lparr>outstanding := 1\<rparr>) = (True, l\<lparr>outstanding := 2\<rparr>)"
    "begin_op (l\<lparr>outstanding := 2\<rparr>) = (True, l3)"
    using assms(2,4,5) by (simp_all add: begin_op_def l3_def)
  have "head_ok l3" using assms(1) by (simp add: l3_def head_ok_def)
  then obtain l4 where l4: "for_loop [0..<29] log_write l3 = Ok l4" "lhn l4 = 29" "lsize l4 = 30"
    using log_write_distinct [of l3 29] assms by (auto simp: l3_def)
  then have "log_write 29 l4 = Panic ''too big a transaction''" by (simp add: log_write_def)
  then show ?thesis using b l4(1) by blast
qed

theorem log_area_too_small_witness:
  "\<exists>l3 l4. for_loop [0..<29] log_write l3 = Ok l4 \<and> log_write 29 l4 = Panic ''too big a transaction''"
proof -
  let ?c = "blank_cache\<lparr>bufs := \<lambda>i. \<lparr>bflags = 2, bdev = 1, blockno = of_nat i, bsl = free_sleeplock, refcnt = 1, bdata = []\<rparr>\<rparr>"
  let ?l = "\<lparr>lstart = 2, lsize = 30, outstanding = 0, committing = 0, ldev = 1, lhn = 0, lhblock = replicate 30 0, cache = ?c\<rparr>"
  have "inj_on (\<lambda>b. of_nat b :: uint) {..<29}"
  proof (rule inj_onI)
    fix x y :: nat assume a: "x \<in> {..<29}" "y \<in> {..<29}" "(of_nat x :: uint) = of_nat y"
    have "unat (of_nat x :: uint) = x" "unat (of_nat y :: uint) = y" using a(1,2) by (auto intro!: unat_of_nat_small)
    then show "x = y" using a(3) by metis
  qed
  then have "inj_on (\<lambda>b. blockno (bufs (cache ?l) b)) {..<29}" by simp
  moreover have "head_ok ?l" by (simp add: head_ok_def)
  ultimately show ?thesis using log_area_too_small [of ?l] by auto
qed

end
