(* ===== verification/Fs.thy ===== *)
theory Fs
  imports Log Strings
begin

text \<open>
  The file system, \<^verbatim>\<open>fs.c\<close>: the block allocator, inodes and their cache, file contents, directories and
  path names, over the log and the buffer cache. The in-memory inodes \<^verbatim>\<open>icache.inode[50]\<close> are numbered; a null
  inode pointer is \<open>None\<close>. \<open>p\<close> is the process id of the caller, for the sleep locks; a call that would have to
  wait for one has the outcome \<open>Hang\<close>.

  A path is the list of its bytes before the NUL. A path element is the list of at most 14 bytes before the
  NUL in the buffer \<^verbatim>\<open>name\<close>. Data read is returned as a list of bytes, data to write is given as one.
  The device table \<^verbatim>\<open>devsw\<close> is an argument, with functions that act on the whole state, since
  \<^verbatim>\<open>consoleread\<close> unlocks the inode; the devices' own state is the field \<open>devs\<close>.
\<close>

section \<open>State\<close>

abbreviation "NINODE \<equiv> (50 :: nat)"
abbreviation "NDIRECT \<equiv> (12 :: nat)"
abbreviation "NINDIRECT \<equiv> (128 :: nat)"
abbreviation "MAXFILE \<equiv> NDIRECT + NINDIRECT"
abbreviation "IPB \<equiv> (8 :: uint)"
abbreviation "BPB \<equiv> (4096 :: nat)"
abbreviation "DIRSIZ \<equiv> (14 :: nat)"
abbreviation "T_DIR \<equiv> (1 :: ushort)"
abbreviation "T_FILE \<equiv> (2 :: ushort)"
abbreviation "T_DEV \<equiv> (3 :: ushort)"
abbreviation "ROOTDEV \<equiv> (1 :: uint)"
abbreviation "ROOTINO \<equiv> (1 :: uint)"
abbreviation "NDEV \<equiv> (10 :: int)"

record inode =
  idev :: uint
  inum :: uint
  iref :: int
  ilk :: sleep_state
  ivalid :: bool
  itype :: ushort
  imajor :: ushort
  iminor :: ushort
  inlink :: ushort
  isize :: uint
  iaddrs :: "uint list"

record 'd fs =
  flog :: log
  fsb :: superblock
  inodes :: "nat \<Rightarrow> inode"
  devs :: 'd

record stat =
  st_type :: ushort
  st_dev :: uint
  st_ino :: uint
  st_nlink :: ushort
  st_size :: uint

type_synonym 'd devsw = "int \<Rightarrow> ((int \<Rightarrow> nat \<Rightarrow> uint \<Rightarrow> 'd fs \<Rightarrow> ((int \<times> uchar list) \<times> 'd fs) outcome) option)
  \<times> ((int \<Rightarrow> nat \<Rightarrow> uchar list \<Rightarrow> 'd fs \<Rightarrow> (int \<times> 'd fs) outcome) option)"

definition upd_inode :: "nat \<Rightarrow> (inode \<Rightarrow> inode) \<Rightarrow> 'd fs \<Rightarrow> 'd fs" where
  "upd_inode i f s = s\<lparr>inodes := (inodes s)(i := f (inodes s i))\<rparr>"

text \<open>The operations of the lower layers on this state.\<close>

definition with_cache :: "bcache \<Rightarrow> 'd fs \<Rightarrow> 'd fs" where
  "with_cache c s = s\<lparr>flog := (flog s)\<lparr>cache := c\<rparr>\<rparr>"

definition fs_bread :: "int \<Rightarrow> uint \<Rightarrow> uint \<Rightarrow> 'd fs \<Rightarrow> (nat \<times> 'd fs) outcome" where
  "fs_bread p dev n s = andthen (bread p dev n (cache (flog s))) (\<lambda>(b, c). Ok (b, with_cache c s))"

definition fs_brelse :: "int \<Rightarrow> nat \<Rightarrow> 'd fs \<Rightarrow> 'd fs outcome" where
  "fs_brelse p b s = andthen (brelse p b (cache (flog s))) (\<lambda>c. Ok (with_cache c s))"

definition fs_log_write :: "nat \<Rightarrow> 'd fs \<Rightarrow> 'd fs outcome" where
  "fs_log_write b s = andthen (log_write b (flog s)) (\<lambda>l. Ok (s\<lparr>flog := l\<rparr>))"

definition fs_data :: "nat \<Rightarrow> 'd fs \<Rightarrow> block" where
  "fs_data b s = bdata (bufs (cache (flog s)) b)"

definition fs_set_data :: "nat \<Rightarrow> block \<Rightarrow> 'd fs \<Rightarrow> 'd fs" where
  "fs_set_data b d s = with_cache (set_data b d (cache (flog s))) s"

definition fs_readsb :: "int \<Rightarrow> uint \<Rightarrow> 'd fs \<Rightarrow> 'd fs outcome" where
  "fs_readsb p dev s = andthen (readsb p dev (cache (flog s))) (\<lambda>(sb, c). Ok ((with_cache c s)\<lparr>fsb := sb\<rparr>))"

definition IBLOCK :: "uint \<Rightarrow> superblock \<Rightarrow> uint" where
  "IBLOCK i sb = i div IPB + inodestart sb"

definition BBLOCK :: "uint \<Rightarrow> superblock \<Rightarrow> uint" where
  "BBLOCK b sb = b div of_nat BPB + bmapstart sb"

section \<open>Blocks\<close>

definition bzero :: "int \<Rightarrow> uint \<Rightarrow> uint \<Rightarrow> 'd fs \<Rightarrow> 'd fs outcome" where
  "bzero p dev bno s =
     andthen (fs_bread p dev bno s) (\<lambda>(bp, s1).
     andthen (fs_log_write bp (fs_set_data bp (replicate BSIZE 0) s1)) (fs_brelse p bp))"

definition bmap_bit :: "nat \<Rightarrow> uchar" where
  "bmap_bit bi = push_bit (bi mod 8) 1"

text \<open>The inner loop of \<^verbatim>\<open>balloc\<close>: the first free block that the bitmap block for \<open>b\<close> on shows.\<close>

definition balloc_scan :: "block \<Rightarrow> nat \<Rightarrow> nat \<Rightarrow> nat option" where
  "balloc_scan d b sz = find (\<lambda>bi. d ! (bi div 8) AND bmap_bit bi = 0) [0..<min BPB (sz - b)]"

fun balloc_loop :: "int \<Rightarrow> uint \<Rightarrow> nat list \<Rightarrow> 'd fs \<Rightarrow> (uint \<times> 'd fs) outcome" where
  "balloc_loop p dev [] s = Panic ''balloc: out of blocks''"
| "balloc_loop p dev (b # bs) s =
     andthen (fs_bread p dev (BBLOCK (of_nat b) (fsb s)) s) (\<lambda>(bp, s1).
       let d = fs_data bp s1
       in case balloc_scan d b (unat (sb_size (fsb s1))) of
            Some bi \<Rightarrow>
              andthen (fs_log_write bp (fs_set_data bp (d[bi div 8 := d ! (bi div 8) OR bmap_bit bi]) s1)) (\<lambda>s2.
              andthen (fs_brelse p bp s2) (\<lambda>s3.
              andthen (bzero p dev (of_nat (b + bi)) s3) (\<lambda>s4. Ok (of_nat (b + bi), s4))))
          | None \<Rightarrow> andthen (fs_brelse p bp s1) (balloc_loop p dev bs))"

definition balloc :: "int \<Rightarrow> uint \<Rightarrow> 'd fs \<Rightarrow> (uint \<times> 'd fs) outcome" where
  "balloc p dev s = balloc_loop p dev (map (\<lambda>k. k * BPB) [0..<(unat (sb_size (fsb s)) + BPB - 1) div BPB]) s"

definition bfree :: "int \<Rightarrow> uint \<Rightarrow> uint \<Rightarrow> 'd fs \<Rightarrow> 'd fs outcome" where
  "bfree p dev b s =
     andthen (fs_readsb p dev s) (\<lambda>s1.
     andthen (fs_bread p dev (BBLOCK b (fsb s1)) s1) (\<lambda>(bp, s2).
       let bi = unat b mod BPB; d = fs_data bp s2
       in if d ! (bi div 8) AND bmap_bit bi = 0 then Panic ''freeing free block''
          else andthen (fs_log_write bp (fs_set_data bp (d[bi div 8 := d ! (bi div 8) AND NOT (bmap_bit bi)]) s2))
                 (fs_brelse p bp)))"

section \<open>Inodes\<close>

definition iinit :: "int \<Rightarrow> uint \<Rightarrow> 'd fs \<Rightarrow> 'd fs outcome" where
  "iinit p dev s =
     fs_readsb p dev
       (foldl (\<lambda>s i. upd_inode i (\<lambda>x. x\<lparr>ilk := (ilk x)\<lparr>slk := initsleeplock ''inode'' (slk (ilk x))\<rparr>\<rparr>) s) s [0..<NINODE])"

text \<open>The on-disk inode at offset \<open>o\<close> of a block: \<^verbatim>\<open>struct dinode\<close>, 64 bytes.\<close>

definition dinode_offset :: "uint \<Rightarrow> nat" where
  "dinode_offset i = 64 * unat (i mod IPB)"

definition get_dinode :: "block \<Rightarrow> nat \<Rightarrow> inode \<Rightarrow> inode" where
  "get_dinode d off x =
     x\<lparr>itype := get16 d off, imajor := get16 d (off + 2), iminor := get16 d (off + 4), inlink := get16 d (off + 6),
       isize := get32 d (off + 8), iaddrs := map (\<lambda>k. get32 d (off + 12 + 4 * k)) [0..<NDIRECT + 1]\<rparr>"

definition put_dinode :: "nat \<Rightarrow> inode \<Rightarrow> block \<Rightarrow> block" where
  "put_dinode off x d =
     foldl (\<lambda>d k. put32 (off + 12 + 4 * k) (iaddrs x ! k) d)
       (put32 (off + 8) (isize x) (put16 (off + 6) (inlink x) (put16 (off + 4) (iminor x)
         (put16 (off + 2) (imajor x) (put16 off (itype x) d)))))
       [0..<NDIRECT + 1]"

definition iget :: "uint \<Rightarrow> uint \<Rightarrow> 'd fs \<Rightarrow> (nat \<times> 'd fs) outcome" where
  "iget dev n s =
     (case find (\<lambda>i. iref (inodes s i) > 0 \<and> idev (inodes s i) = dev \<and> inum (inodes s i) = n) [0..<NINODE] of
        Some i \<Rightarrow> Ok (i, upd_inode i (\<lambda>x. x\<lparr>iref := iref x + 1\<rparr>) s)
      | None \<Rightarrow>
          (case find (\<lambda>i. iref (inodes s i) = 0) [0..<NINODE] of
             None \<Rightarrow> Panic ''iget: no inodes''
           | Some i \<Rightarrow> Ok (i, upd_inode i (\<lambda>x. x\<lparr>idev := dev, inum := n, iref := 1, ivalid := False\<rparr>) s)))"

fun ialloc_loop :: "int \<Rightarrow> uint \<Rightarrow> ushort \<Rightarrow> nat list \<Rightarrow> 'd fs \<Rightarrow> (nat \<times> 'd fs) outcome" where
  "ialloc_loop p dev ty [] s = Panic ''ialloc: no inodes''"
| "ialloc_loop p dev ty (n # ns) s =
     andthen (fs_bread p dev (IBLOCK (of_nat n) (fsb s)) s) (\<lambda>(bp, s1).
       let d = fs_data bp s1; off = dinode_offset (of_nat n)
       in if get16 d off = 0
          then
            andthen (fs_log_write bp (fs_set_data bp (put16 off ty (take off d @ replicate 64 0 @ drop (off + 64) d)) s1)) (\<lambda>s2.
            andthen (fs_brelse p bp s2) (iget dev (of_nat n)))
          else andthen (fs_brelse p bp s1) (ialloc_loop p dev ty ns))"

definition ialloc :: "int \<Rightarrow> uint \<Rightarrow> ushort \<Rightarrow> 'd fs \<Rightarrow> (nat \<times> 'd fs) outcome" where
  "ialloc p dev ty s = ialloc_loop p dev ty [1..<unat (ninodes (fsb s))] s"

definition iupdate :: "int \<Rightarrow> nat \<Rightarrow> 'd fs \<Rightarrow> 'd fs outcome" where
  "iupdate p ip s =
     (let x = inodes s ip
      in andthen (fs_bread p (idev x) (IBLOCK (inum x) (fsb s)) s) (\<lambda>(bp, s1).
         andthen (fs_log_write bp (fs_set_data bp (put_dinode (dinode_offset (inum x)) x (fs_data bp s1)) s1)) (fs_brelse p bp)))"

definition idup :: "nat \<Rightarrow> 'd fs \<Rightarrow> nat \<times> 'd fs" where
  "idup ip s = (ip, upd_inode ip (\<lambda>x. x\<lparr>iref := iref x + 1\<rparr>) s)"

definition ilock_wait :: "int \<Rightarrow> nat \<Rightarrow> 'd fs \<Rightarrow> 'd fs outcome" where
  "ilock_wait p ip s =
     (case acquiresleep p (ilk (inodes s ip)) of
        (True, l) \<Rightarrow> Ok (upd_inode ip (\<lambda>x. x\<lparr>ilk := l\<rparr>) s)
      | (False, l) \<Rightarrow> Hang)"

definition ilock :: "int \<Rightarrow> nat option \<Rightarrow> 'd fs \<Rightarrow> 'd fs outcome" where
  "ilock p ipo s =
     (case ipo of
        None \<Rightarrow> Panic ''ilock''
      | Some ip \<Rightarrow>
          if iref (inodes s ip) < 1 then Panic ''ilock''
          else andthen (ilock_wait p ip s) (\<lambda>s1.
            let x = inodes s1 ip
            in if ivalid x then Ok s1
               else andthen (fs_bread p (idev x) (IBLOCK (inum x) (fsb s1)) s1) (\<lambda>(bp, s2).
                      let s3 = upd_inode ip (get_dinode (fs_data bp s2) (dinode_offset (inum x))) s2
                      in andthen (fs_brelse p bp s3) (\<lambda>s4.
                           let s5 = upd_inode ip (\<lambda>x. x\<lparr>ivalid := True\<rparr>) s4
                           in if itype (inodes s5 ip) = 0 then Panic ''ilock: no type'' else Ok s5))))"

definition iunlock :: "int \<Rightarrow> nat option \<Rightarrow> 'd fs \<Rightarrow> 'd fs outcome" where
  "iunlock p ipo s =
     (case ipo of
        None \<Rightarrow> Panic ''iunlock''
      | Some ip \<Rightarrow>
          if \<not> holdingsleep p (ilk (inodes s ip)) \<or> iref (inodes s ip) < 1 then Panic ''iunlock''
          else Ok (upd_inode ip (\<lambda>x. x\<lparr>ilk := releasesleep (ilk x)\<rparr>) s))"

definition itrunc_direct :: "int \<Rightarrow> nat \<Rightarrow> nat \<Rightarrow> 'd fs \<Rightarrow> 'd fs outcome" where
  "itrunc_direct p ip i s =
     (let x = inodes s ip
      in if iaddrs x ! i \<noteq> 0
         then andthen (bfree p (idev x) (iaddrs x ! i) s) (\<lambda>s1. Ok (upd_inode ip (\<lambda>x. x\<lparr>iaddrs := (iaddrs x)[i := 0]\<rparr>) s1))
         else Ok s)"

definition itrunc_indirect :: "int \<Rightarrow> nat \<Rightarrow> 'd fs \<Rightarrow> 'd fs outcome" where
  "itrunc_indirect p ip s =
     (let x = inodes s ip
      in if iaddrs x ! NDIRECT \<noteq> 0
         then
           andthen (fs_bread p (idev x) (iaddrs x ! NDIRECT) s) (\<lambda>(bp, s1).
           andthen (for_loop [0..<NINDIRECT]
               (\<lambda>j s. let a = get32 (fs_data bp s) (4 * j) in if a \<noteq> 0 then bfree p (idev x) a s else Ok s) s1) (\<lambda>s2.
           andthen (fs_brelse p bp s2) (\<lambda>s3.
           andthen (bfree p (idev x) (iaddrs x ! NDIRECT) s3) (\<lambda>s4.
             Ok (upd_inode ip (\<lambda>x. x\<lparr>iaddrs := (iaddrs x)[NDIRECT := 0]\<rparr>) s4)))))
         else Ok s)"

definition itrunc :: "int \<Rightarrow> nat \<Rightarrow> 'd fs \<Rightarrow> 'd fs outcome" where
  "itrunc p ip s =
     andthen (for_loop [0..<NDIRECT] (itrunc_direct p ip) s) (\<lambda>s1.
     andthen (itrunc_indirect p ip s1) (\<lambda>s2.
     iupdate p ip (upd_inode ip (\<lambda>x. x\<lparr>isize := 0\<rparr>) s2)))"

definition iput :: "int \<Rightarrow> nat \<Rightarrow> 'd fs \<Rightarrow> 'd fs outcome" where
  "iput p ip s =
     andthen (ilock_wait p ip s) (\<lambda>s1.
     andthen
       (if ivalid (inodes s1 ip) \<and> inlink (inodes s1 ip) = 0 \<and> iref (inodes s1 ip) = 1
        then andthen (itrunc p ip s1) (\<lambda>s2.
             andthen (iupdate p ip (upd_inode ip (\<lambda>x. x\<lparr>itype := 0\<rparr>) s2)) (\<lambda>s3.
             Ok (upd_inode ip (\<lambda>x. x\<lparr>ivalid := False\<rparr>) s3)))
        else Ok s1)
       (\<lambda>s4. Ok (upd_inode ip (\<lambda>x. x\<lparr>ilk := releasesleep (ilk x), iref := iref x - 1\<rparr>) s4)))"

definition iunlockput :: "int \<Rightarrow> nat \<Rightarrow> 'd fs \<Rightarrow> 'd fs outcome" where
  "iunlockput p ip s = andthen (iunlock p (Some ip) s) (iput p ip)"

section \<open>Contents of inodes\<close>

definition bmap :: "int \<Rightarrow> nat \<Rightarrow> nat \<Rightarrow> 'd fs \<Rightarrow> (uint \<times> 'd fs) outcome" where
  "bmap p ip bn s =
     (let x = inodes s ip
      in if bn < NDIRECT
         then
           if iaddrs x ! bn = 0
           then andthen (balloc p (idev x) s) (\<lambda>(addr, s1).
                  Ok (addr, upd_inode ip (\<lambda>x. x\<lparr>iaddrs := (iaddrs x)[bn := addr]\<rparr>) s1))
           else Ok (iaddrs x ! bn, s)
         else if bn - NDIRECT < NINDIRECT
         then
           let n = bn - NDIRECT
           in andthen
                (if iaddrs x ! NDIRECT = 0
                 then andthen (balloc p (idev x) s) (\<lambda>(addr, s1).
                        Ok (addr, upd_inode ip (\<lambda>x. x\<lparr>iaddrs := (iaddrs x)[NDIRECT := addr]\<rparr>) s1))
                 else Ok (iaddrs x ! NDIRECT, s)) (\<lambda>(ind, s1).
              andthen (fs_bread p (idev x) ind s1) (\<lambda>(bp, s2).
              andthen
                (if get32 (fs_data bp s2) (4 * n) = 0
                 then andthen (balloc p (idev x) s2) (\<lambda>(addr, s3).
                      andthen (fs_log_write bp (fs_set_data bp (put32 (4 * n) addr (fs_data bp s3)) s3)) (\<lambda>s4. Ok (addr, s4)))
                 else Ok (get32 (fs_data bp s2) (4 * n), s2)) (\<lambda>(addr, s5).
              andthen (fs_brelse p bp s5) (\<lambda>s6. Ok (addr, s6)))))
         else Panic ''bmap: out of range'')"

definition stati :: "nat \<Rightarrow> 'd fs \<Rightarrow> stat" where
  "stati ip s =
     (let x = inodes s ip
      in \<lparr>st_type = itype x, st_dev = idev x, st_ino = inum x, st_nlink = inlink x, st_size = isize x\<rparr>)"

text \<open>The loops of \<^verbatim>\<open>readi\<close> and \<^verbatim>\<open>writei\<close>: \<open>n\<close> bytes remain, and each round handles at least one.\<close>

function readi_loop :: "int \<Rightarrow> nat \<Rightarrow> nat \<Rightarrow> nat \<Rightarrow> 'd fs \<Rightarrow> (uchar list \<times> 'd fs) outcome" where
  "readi_loop p ip off n s =
     (if n = 0 then Ok ([], s)
      else
        let m = min n (BSIZE - off mod BSIZE)
        in andthen (bmap p ip (off div BSIZE) s) (\<lambda>(addr, s1).
           andthen (fs_bread p (idev (inodes s1 ip)) addr s1) (\<lambda>(bp, s2).
             let dat = take m (drop (off mod BSIZE) (fs_data bp s2))
             in andthen (fs_brelse p bp s2) (\<lambda>s3.
                andthen (readi_loop p ip (off + m) (n - m) s3) (\<lambda>(r, s4). Ok (dat @ r, s4))))))"
  by auto
termination readi_loop
  by (relation "measure (\<lambda>(p, ip, off, n, s). n)") (auto simp: mod_less_divisor)

definition readi :: "'d devsw \<Rightarrow> int \<Rightarrow> nat \<Rightarrow> uint \<Rightarrow> uint \<Rightarrow> 'd fs \<Rightarrow> ((int \<times> uchar list) \<times> 'd fs) outcome" where
  "readi dsw p ip off n s =
     (let x = inodes s ip
      in if itype x = T_DEV
         then
           if sint (imajor x) < 0 \<or> sint (imajor x) \<ge> NDEV then Ok ((-1, []), s)
           else (case fst (dsw (sint (imajor x))) of
                   None \<Rightarrow> Ok ((-1, []), s)
                 | Some rd \<Rightarrow> rd p ip n s)
         else if off > isize x \<or> off + n < off then Ok ((-1, []), s)
         else
           let n1 = (if off + n > isize x then isize x - off else n)
           in andthen (readi_loop p ip (unat off) (unat n1) s) (\<lambda>(dat, s1). Ok ((sint n1, dat), s1)))"

function writei_loop :: "int \<Rightarrow> nat \<Rightarrow> nat \<Rightarrow> uchar list \<Rightarrow> 'd fs \<Rightarrow> 'd fs outcome" where
  "writei_loop p ip off src s =
     (if src = [] then Ok s
      else
        let m = min (length src) (BSIZE - off mod BSIZE); o1 = off mod BSIZE
        in andthen (bmap p ip (off div BSIZE) s) (\<lambda>(addr, s1).
           andthen (fs_bread p (idev (inodes s1 ip)) addr s1) (\<lambda>(bp, s2).
             let d = fs_data bp s2
             in andthen (fs_log_write bp (fs_set_data bp (take o1 d @ take m src @ drop (o1 + m) d) s2)) (\<lambda>s3.
                andthen (fs_brelse p bp s3) (writei_loop p ip (off + m) (drop m src))))))"
  by auto
termination writei_loop
  by (relation "measure (\<lambda>(p, ip, off, src, s). length src)") (auto simp: mod_less_divisor)

text \<open>\<^verbatim>\<open>n\<close> is the length of \<open>src\<close>; \<^verbatim>\<open>off\<close> after the loop is the old one plus \<^verbatim>\<open>n\<close>.\<close>

definition writei :: "'d devsw \<Rightarrow> int \<Rightarrow> nat \<Rightarrow> uchar list \<Rightarrow> uint \<Rightarrow> 'd fs \<Rightarrow> (int \<times> 'd fs) outcome" where
  "writei dsw p ip src off s =
     (let x = inodes s ip; n = of_nat (length src)
      in if itype x = T_DEV
         then
           if sint (imajor x) < 0 \<or> sint (imajor x) \<ge> NDEV then Ok (-1, s)
           else (case snd (dsw (sint (imajor x))) of
                   None \<Rightarrow> Ok (-1, s)
                 | Some wr \<Rightarrow> wr p ip src s)
         else if off > isize x \<or> off + n < off then Ok (-1, s)
         else if off + n > of_nat (MAXFILE * BSIZE) then Ok (-1, s)
         else
           andthen (writei_loop p ip (unat off) src s) (\<lambda>s1.
             let off1 = off + n
             in if n > 0 \<and> off1 > isize (inodes s1 ip)
                then andthen (iupdate p ip (upd_inode ip (\<lambda>x. x\<lparr>isize := off1\<rparr>) s1)) (\<lambda>s2. Ok (sint n, s2))
                else Ok (sint n, s1)))"

section \<open>Directories\<close>

text \<open>\<^verbatim>\<open>strncmp\<close> on the bytes of two buffers; a buffer that is shorter than \<open>n\<close> is ended by a NUL.\<close>

fun strncmp_bytes :: "nat \<Rightarrow> uchar list \<Rightarrow> uchar list \<Rightarrow> int" where
  "strncmp_bytes 0 s t = 0"
| "strncmp_bytes (Suc n) s t =
     (let a = (case s of [] \<Rightarrow> 0 | c # _ \<Rightarrow> c); b = (case t of [] \<Rightarrow> 0 | c # _ \<Rightarrow> c)
      in if a \<noteq> 0 \<and> a = b then strncmp_bytes n (tl s) (tl t) else int (unat a) - int (unat b))"

definition namecmp :: "uchar list \<Rightarrow> uchar list \<Rightarrow> int" where
  "namecmp s t = strncmp_bytes DIRSIZ s t"

text \<open>\<^verbatim>\<open>struct dirent\<close>: two bytes of inode number, 14 bytes of name.\<close>

definition dirent :: "ushort \<Rightarrow> uchar list \<Rightarrow> uchar list" where
  "dirent n nm = put16 0 n (replicate 2 0 @ take DIRSIZ (nm @ replicate DIRSIZ 0))"

definition dir_offsets :: "nat \<Rightarrow> uint \<Rightarrow> nat list" where
  "dir_offsets k sz = map (\<lambda>i. 16 * i) [k..<(unat sz + 15) div 16]"

fun dirlookup_loop :: "'d devsw \<Rightarrow> int \<Rightarrow> nat \<Rightarrow> uchar list \<Rightarrow> nat list \<Rightarrow> 'd fs \<Rightarrow> ((nat \<times> uint) option \<times> 'd fs) outcome" where
  "dirlookup_loop dsw p dp nm [] s = Ok (None, s)"
| "dirlookup_loop dsw p dp nm (off # offs) s =
     andthen (readi dsw p dp (of_nat off) 16 s) (\<lambda>((r, de), s1).
       if r \<noteq> 16 then Panic ''dirlookup read''
       else if get16 de 0 \<noteq> 0 \<and> namecmp nm (drop 2 de) = 0
       then andthen (iget (idev (inodes s1 dp)) (ucast (get16 de 0)) s1) (\<lambda>(ip, s2). Ok (Some (ip, of_nat off), s2))
       else dirlookup_loop dsw p dp nm offs s1)"

definition dirlookup :: "'d devsw \<Rightarrow> int \<Rightarrow> nat \<Rightarrow> uchar list \<Rightarrow> 'd fs \<Rightarrow> ((nat \<times> uint) option \<times> 'd fs) outcome" where
  "dirlookup dsw p dp nm s =
     (if itype (inodes s dp) \<noteq> T_DIR then Panic ''dirlookup not DIR''
      else dirlookup_loop dsw p dp nm (dir_offsets 0 (isize (inodes s dp))) s)"

text \<open>The search of \<^verbatim>\<open>dirlink\<close> for a free entry: its offset, or the offset after the last entry.\<close>

fun dirlink_scan :: "'d devsw \<Rightarrow> int \<Rightarrow> nat \<Rightarrow> nat list \<Rightarrow> nat \<Rightarrow> 'd fs \<Rightarrow> (nat \<times> 'd fs) outcome" where
  "dirlink_scan dsw p dp [] after s = Ok (after, s)"
| "dirlink_scan dsw p dp (off # offs) after s =
     andthen (readi dsw p dp (of_nat off) 16 s) (\<lambda>((r, de), s1).
       if r \<noteq> 16 then Panic ''dirlink read''
       else if get16 de 0 = 0 then Ok (off, s1)
       else dirlink_scan dsw p dp offs (off + 16) s1)"

definition dirlink :: "'d devsw \<Rightarrow> int \<Rightarrow> nat \<Rightarrow> uchar list \<Rightarrow> uint \<Rightarrow> 'd fs \<Rightarrow> (int \<times> 'd fs) outcome" where
  "dirlink dsw p dp nm n s =
     andthen (dirlookup dsw p dp nm s) (\<lambda>(r, s1).
       case r of
         Some (ip, _) \<Rightarrow> andthen (iput p ip s1) (\<lambda>s2. Ok (-1, s2))
       | None \<Rightarrow>
           andthen (dirlink_scan dsw p dp (dir_offsets 0 (isize (inodes s1 dp))) 0 s1) (\<lambda>(off, s2).
           andthen (writei dsw p dp (dirent (ucast n) nm) (of_nat off) s2) (\<lambda>(r, s3).
             if r \<noteq> 16 then Panic ''dirlink'' else Ok (0, s3))))"

section \<open>Paths\<close>

abbreviation "slash \<equiv> (47 :: uchar)"

definition skipelem :: "uchar list \<Rightarrow> (uchar list \<times> uchar list) option" where
  "skipelem path =
     (let s = dropWhile (\<lambda>c. c = slash) path
      in if s = [] then None
         else Some (take DIRSIZ (takeWhile (\<lambda>c. c \<noteq> slash) s), dropWhile (\<lambda>c. c = slash) (dropWhile (\<lambda>c. c \<noteq> slash) s)))"

lemma skipelem_shorter: "skipelem path = Some (nm, rest) \<Longrightarrow> length rest < length path"
proof -
  assume "skipelem path = Some (nm, rest)"
  then obtain c s where s: "dropWhile (\<lambda>c. c = slash) path = c # s" "rest = dropWhile (\<lambda>c. c = slash) (dropWhile (\<lambda>c. c \<noteq> slash) (c # s))"
    by (cases "dropWhile (\<lambda>c. c = slash) path") (simp_all add: skipelem_def Let_def split: if_splits)
  then have "c \<noteq> slash" by (metis (mono_tags) hd_dropWhile list.distinct(1) list.sel(1))
  then have "length rest \<le> length s" using s(2) by (simp add: le_trans [OF length_dropWhile_le length_dropWhile_le])
  moreover have "length (c # s) \<le> length path" unfolding s(1) [symmetric] by (rule length_dropWhile_le)
  ultimately show ?thesis by simp
qed

function namex_loop ::
    "'d devsw \<Rightarrow> int \<Rightarrow> bool \<Rightarrow> nat \<Rightarrow> uchar list \<Rightarrow> uchar list \<Rightarrow> 'd fs \<Rightarrow> ((nat \<times> uchar list) option \<times> 'd fs) outcome" where
  "namex_loop dsw p parent ip path nm0 s =
     (case skipelem path of
        None \<Rightarrow> if parent then andthen (iput p ip s) (\<lambda>s1. Ok (None, s1)) else Ok (Some (ip, nm0), s)
      | Some (nm, rest) \<Rightarrow>
          andthen (ilock p (Some ip) s) (\<lambda>s1.
            if itype (inodes s1 ip) \<noteq> T_DIR then andthen (iunlockput p ip s1) (\<lambda>s2. Ok (None, s2))
            else if parent \<and> rest = [] then andthen (iunlock p (Some ip) s1) (\<lambda>s2. Ok (Some (ip, nm), s2))
            else
              andthen (dirlookup dsw p ip nm s1) (\<lambda>(r, s2).
                case r of
                  None \<Rightarrow> andthen (iunlockput p ip s2) (\<lambda>s3. Ok (None, s3))
                | Some (nxt, _) \<Rightarrow> andthen (iunlockput p ip s2) (namex_loop dsw p parent nxt rest nm))))"
  by auto
termination namex_loop
  by (relation "measure (\<lambda>(dsw, p, parent, ip, path, nm, s). length path)") (auto simp: skipelem_shorter)

definition namex :: "'d devsw \<Rightarrow> int \<Rightarrow> nat \<Rightarrow> uchar list \<Rightarrow> bool \<Rightarrow> 'd fs \<Rightarrow> ((nat \<times> uchar list) option \<times> 'd fs) outcome" where
  "namex dsw p cwd path parent s =
     andthen (if path \<noteq> [] \<and> hd path = slash then iget ROOTDEV ROOTINO s else Ok (idup cwd s))
       (\<lambda>(ip, s1). namex_loop dsw p parent ip path [] s1)"

definition namei :: "'d devsw \<Rightarrow> int \<Rightarrow> nat \<Rightarrow> uchar list \<Rightarrow> 'd fs \<Rightarrow> (nat option \<times> 'd fs) outcome" where
  "namei dsw p cwd path s = andthen (namex dsw p cwd path False s) (\<lambda>(r, s1). Ok (map_option fst r, s1))"

definition nameiparent :: "'d devsw \<Rightarrow> int \<Rightarrow> nat \<Rightarrow> uchar list \<Rightarrow> 'd fs \<Rightarrow> ((nat \<times> uchar list) option \<times> 'd fs) outcome" where
  "nameiparent dsw p cwd path s = namex dsw p cwd path True s"

end
