(* ===== verification/Pipe.thy ===== *)
theory Pipe
  imports Prelude
begin

text \<open>
  Pipes, \<^verbatim>\<open>pipe.c\<close>: a ring buffer of 512 bytes between two counters that run modulo \<open>2 ^ 32\<close>.
  \<^verbatim>\<open>pipewrite\<close> and \<^verbatim>\<open>piperead\<close> hold the lock of the pipe except while they sleep, so each stretch between two
  sleeps is one transition. \<open>rwait\<close> and \<open>wwait\<close> say whether processes sleep on \<^verbatim>\<open>&p->nread\<close> and on
  \<^verbatim>\<open>&p->nwrite\<close>. \<^verbatim>\<open>pipealloc\<close> is in the theory on files.
\<close>

section \<open>Definitions\<close>

abbreviation "PIPESIZE \<equiv> (512 :: nat)"

record pipe =
  pdata :: "nat \<Rightarrow> uchar"
  nread :: uint
  nwrite :: uint
  readopen :: bool
  writeopen :: bool
  rwait :: bool
  wwait :: bool

text \<open>\<open>Done n\<close>: the call returns \<open>n\<close>; \<open>Sleep x\<close>: it sleeps, with \<open>x\<close> still to do.\<close>

datatype 'a pipe_result = Done int | Sleep 'a

text \<open>\<^verbatim>\<open>pipewrite(p, addr, n)\<close> with \<open>bs\<close> the bytes not yet stored; \<open>killed\<close> is \<^verbatim>\<open>myproc()->killed\<close>.\<close>

fun pipewrite :: "bool \<Rightarrow> int \<Rightarrow> uchar list \<Rightarrow> pipe \<Rightarrow> uchar list pipe_result \<times> pipe" where
  "pipewrite killed n [] p = (Done n, p\<lparr>rwait := False\<rparr>)"
| "pipewrite killed n (b # bs) p =
     (if nwrite p = nread p + of_nat PIPESIZE
      then
        if \<not> readopen p \<or> killed then (Done (-1), p)
        else (Sleep (b # bs), p\<lparr>rwait := False, wwait := True\<rparr>)
      else pipewrite killed n bs (p\<lparr>pdata := (pdata p)(unat (nwrite p) mod PIPESIZE := b), nwrite := nwrite p + 1\<rparr>))"

text \<open>The copy loop of \<^verbatim>\<open>piperead\<close>: the bytes copied and the pipe.\<close>

fun piperead_copy :: "nat \<Rightarrow> pipe \<Rightarrow> uchar list \<times> pipe" where
  "piperead_copy 0 p = ([], p)"
| "piperead_copy (Suc k) p =
     (if nread p = nwrite p then ([], p)
      else
        let c = pdata p (unat (nread p) mod PIPESIZE);
            (cs, p1) = piperead_copy k (p\<lparr>nread := nread p + 1\<rparr>)
        in (c # cs, p1))"

definition piperead :: "bool \<Rightarrow> int \<Rightarrow> pipe \<Rightarrow> (unit pipe_result \<times> uchar list) \<times> pipe" where
  "piperead killed n p =
     (if nread p = nwrite p \<and> writeopen p
      then if killed then ((Done (-1), []), p) else ((Sleep (), []), p\<lparr>rwait := True\<rparr>)
      else
        let (cs, p1) = piperead_copy (nat n) p
        in ((Done (int (length cs)), cs), p1\<lparr>wwait := False\<rparr>))"

text \<open>The flag of the result is set when the pipe is to be freed.\<close>

definition pipeclose :: "bool \<Rightarrow> pipe \<Rightarrow> bool \<times> pipe" where
  "pipeclose writable p =
     (let p1 = (if writable then p\<lparr>writeopen := False, rwait := False\<rparr> else p\<lparr>readopen := False, wwait := False\<rparr>)
      in (\<not> readopen p1 \<and> \<not> writeopen p1, p1))"

definition pipe_init :: "pipe \<Rightarrow> pipe" where
  "pipe_init p = p\<lparr>readopen := True, writeopen := True, nwrite := 0, nread := 0\<rparr>"

section \<open>The bytes in a pipe\<close>

definition fill :: "pipe \<Rightarrow> nat" where
  "fill p = unat (nwrite p - nread p)"

definition contents :: "pipe \<Rightarrow> uchar list" where
  "contents p = map (\<lambda>i. pdata p ((unat (nread p) + i) mod PIPESIZE)) [0..<fill p]"

definition pipe_ok :: "pipe \<Rightarrow> bool" where
  "pipe_ok p \<longleftrightarrow> fill p \<le> PIPESIZE"

lemma full_iff: "nwrite p = nread p + of_nat PIPESIZE \<longleftrightarrow> fill p = PIPESIZE"
proof -
  have "fill p = PIPESIZE \<longleftrightarrow> nwrite p - nread p = 512" by (simp add: fill_def word_unat_eq_iff)
  also have "\<dots> \<longleftrightarrow> nwrite p = nread p + of_nat PIPESIZE" by (simp add: diff_eq_eq add.commute)
  finally show ?thesis ..
qed

lemma empty_iff: "nread p = nwrite p \<longleftrightarrow> fill p = 0"
  by (auto simp: fill_def unat_eq_0)

lemma mod_wrap: "unat (a + b :: uint) mod PIPESIZE = (unat a + unat b) mod PIPESIZE"
proof -
  have "unat (a + b) = (unat a + unat b) mod (512 * 8388608)" by (simp add: unat_word_ariths)
  then show ?thesis by (simp only: mod_mult2_eq) simp
qed

lemma fill_write:
  assumes "fill p < PIPESIZE" and "q = p\<lparr>pdata := (pdata p)(unat (nwrite p) mod PIPESIZE := b), nwrite := nwrite p + 1\<rparr>"
  shows "fill q = Suc (fill p)" "contents q = contents p @ [b]"
proof -
  have e: "nwrite p + 1 - nread p = (nwrite p - nread p) + 1" by simp
  have fq: "fill q = unat (nwrite p + 1 - nread p)" by (simp add: fill_def assms(2))
  have "unat (nwrite p - nread p) < 512" using assms(1) by (simp add: fill_def)
  then have "unat ((nwrite p - nread p) + 1) = Suc (unat (nwrite p - nread p))" by (simp add: unat_add_lem [THEN iffD1])
  then show f: "fill q = Suc (fill p)" unfolding fq e by (simp add: fill_def)
  have w: "unat (nwrite p) mod PIPESIZE = (unat (nread p) + fill p) mod PIPESIZE"
    using mod_wrap [of "nread p" "nwrite p - nread p"] by (simp add: fill_def)
  have ne: "(unat (nread p) + i) mod PIPESIZE \<noteq> (unat (nread p) + fill p) mod PIPESIZE" if "i < fill p" for i
  proof
    assume "(unat (nread p) + i) mod PIPESIZE = (unat (nread p) + fill p) mod PIPESIZE"
    then have "i mod PIPESIZE = fill p mod PIPESIZE" by (simp add: nat_mod_eq_iff)
    then show False using that assms(1) by simp
  qed
  have "contents q = map (\<lambda>i. pdata q ((unat (nread q) + i) mod PIPESIZE)) [0..<Suc (fill p)]"
    by (simp only: contents_def f)
  also have "\<dots> = contents p @ [b]" using ne by (simp add: contents_def assms(2) w)
  finally show "contents q = contents p @ [b]" .
qed

lemma fill_read:
  assumes "0 < fill p" and "q = p\<lparr>nread := nread p + 1\<rparr>"
  shows "fill q = fill p - 1" "contents p = pdata p (unat (nread p) mod PIPESIZE) # contents q"
proof -
  have ne: "nwrite p - nread p \<noteq> 0" using assms(1) by (auto simp: fill_def)
  have e: "nwrite p - (nread p + 1) = (nwrite p - nread p) - 1" by simp
  have fq: "fill q = unat (nwrite p - (nread p + 1))" by (simp add: fill_def assms(2))
  show f: "fill q = fill p - 1" unfolding fq e using unat_minus_one [OF ne] by (simp add: fill_def)
  have nq: "nread q = nread p + 1" by (simp add: assms(2))
  have r: "(unat (nread q) + i) mod PIPESIZE = (unat (nread p) + Suc i) mod PIPESIZE" for i
  proof -
    have "(unat (nread p + 1) + i) mod PIPESIZE = (unat (nread p + 1) mod PIPESIZE + i) mod PIPESIZE"
      by (rule mod_add_left_eq [symmetric])
    also have "\<dots> = ((unat (nread p) + 1) mod PIPESIZE + i) mod PIPESIZE"
      using mod_wrap [of "nread p" 1] by (simp only: unat_1)
    also have "\<dots> = (unat (nread p) + 1 + i) mod PIPESIZE" by (rule mod_add_left_eq)
    finally show ?thesis
      unfolding nq by (simp only: add_Suc_right add_Suc add_0_left add_0_right One_nat_def)
  qed
  have "[0..<fill p] = 0 # map Suc [0..<fill q]" using assms(1) f by (simp add: map_Suc_upt upt_conv_Cons)
  then show "contents p = pdata p (unat (nread p) mod PIPESIZE) # contents q"
    by (simp add: contents_def r) (simp add: assms(2))
qed

section \<open>First in, first out\<close>

lemma pipewrite_contents:
  assumes "pipe_ok p" and "pipewrite killed n bs p = (r, p')"
  shows "\<exists>k. contents p' = contents p @ take k bs \<and> pipe_ok p' \<and> readopen p' = readopen p \<and> writeopen p' = writeopen p \<and>
    (case r of Sleep rest \<Rightarrow> rest = drop k bs \<and> rest \<noteq> [] \<and> fill p' = PIPESIZE \<and> readopen p \<and> \<not> killed \<and> wwait p' \<and> \<not> rwait p'
     | Done m \<Rightarrow> if length bs \<le> k then m = n \<and> \<not> rwait p' \<and> wwait p' = wwait p
                 else m = -1 \<and> fill p' = PIPESIZE \<and> (\<not> readopen p \<or> killed) \<and> rwait p' = rwait p \<and> wwait p' = wwait p)"
  using assms
proof (induction killed n bs p arbitrary: r p' rule: pipewrite.induct)
  case (1 killed n p)
  then show ?case by (auto simp: contents_def fill_def pipe_ok_def)
next
  case (2 killed n b bs p)
  show ?case
  proof (cases "fill p = PIPESIZE")
    case True
    then show ?thesis
      using 2(2,3) full_iff [of p] by (auto simp: contents_def fill_def pipe_ok_def split: if_splits intro!: exI [of _ 0])
  next
    case False
    define q where "q = p\<lparr>pdata := (pdata p)(unat (nwrite p) mod PIPESIZE := b), nwrite := nwrite p + 1\<rparr>"
    have f: "fill p < PIPESIZE" "nwrite p \<noteq> nread p + of_nat PIPESIZE" using False 2(2) full_iff [of p] by (auto simp: pipe_ok_def)
    note fw = fill_write [OF f(1) q_def]
    have "pipe_ok q" using fw(1) f(1) by (simp add: pipe_ok_def)
    moreover have "pipewrite killed n bs q = (r, p')" using 2(3) f(2) by (simp add: q_def)
    ultimately obtain k where k: "contents p' = contents q @ take k bs \<and> pipe_ok p' \<and> readopen p' = readopen q \<and> writeopen p' = writeopen q \<and>
        (case r of Sleep rest \<Rightarrow> rest = drop k bs \<and> rest \<noteq> [] \<and> fill p' = PIPESIZE \<and> readopen q \<and> \<not> killed \<and> wwait p' \<and> \<not> rwait p'
         | Done m \<Rightarrow> if length bs \<le> k then m = n \<and> \<not> rwait p' \<and> wwait p' = wwait q
                 else m = -1 \<and> fill p' = PIPESIZE \<and> (\<not> readopen q \<or> killed) \<and> rwait p' = rwait q \<and> wwait p' = wwait q)"
      using 2(1) [of r p'] f(2) unfolding q_def by blast
    moreover have "readopen q = readopen p" "writeopen q = writeopen p" "rwait q = rwait p" "wwait q = wwait p"
      by (simp_all add: q_def)
    ultimately show ?thesis
      using fw(2) by (intro exI [of _ "Suc k"]) (cases r, auto split: if_splits)
  qed
qed

lemma piperead_copy_contents:
  "piperead_copy k p = (cs, p') \<Longrightarrow> pipe_ok p \<Longrightarrow> contents p = cs @ contents p' \<and> length cs = min k (fill p) \<and> pipe_ok p' \<and>
    readopen p' = readopen p \<and> writeopen p' = writeopen p \<and> rwait p' = rwait p \<and> wwait p' = wwait p"
proof (induction k arbitrary: p cs)
  case (Suc k)
  show ?case
  proof (cases "fill p = 0")
    case True
    then show ?thesis using Suc.prems empty_iff [of p] by auto
  next
    case False
    define q where "q = p\<lparr>nread := nread p + 1\<rparr>"
    note fr = fill_read [OF _ q_def]
    have "nread p \<noteq> nwrite p" using False empty_iff [of p] by simp
    then obtain ds where ds: "piperead_copy k q = (ds, p')" "cs = pdata p (unat (nread p) mod PIPESIZE) # ds"
      using Suc.prems(1) by (auto simp: q_def Let_def split: prod.splits)
    have "pipe_ok q" using fr(1) False Suc.prems(2) by (simp add: pipe_ok_def)
    from Suc.IH [OF ds(1) this] show ?thesis using fr False ds(2) by (auto simp: q_def)
  qed
qed auto

text \<open>A history of a pipe: write calls and read calls, each up to its next sleep, by processes that may
  have been killed. The result has the bytes accepted and the bytes delivered.\<close>

datatype pipe_call = Write bool "uchar list" | Read bool int | Close bool

fun pipe_history :: "pipe_call list \<Rightarrow> pipe \<Rightarrow> uchar list \<times> uchar list \<times> pipe" where
  "pipe_history [] p = ([], [], p)"
| "pipe_history (Write killed bs # cs) p =
     (let (r, p1) = pipewrite killed (int (length bs)) bs p;
          acc = take (length (contents p1) - length (contents p)) bs;
          (ins, outs, p2) = pipe_history cs p1
      in (acc @ ins, outs, p2))"
| "pipe_history (Read killed n # cs) p =
     (let ((r, d), p1) = piperead killed n p; (ins, outs, p2) = pipe_history cs p1 in (ins, d @ outs, p2))"
| "pipe_history (Close w # cs) p = pipe_history cs (snd (pipeclose w p))"

lemma piperead_contents:
  assumes "pipe_ok p" and "piperead killed n p = ((r, d), p1)"
  shows "contents p = d @ contents p1" "pipe_ok p1"
proof -
  have "contents p = d @ contents p1 \<and> pipe_ok p1"
  proof (cases "nread p = nwrite p \<and> writeopen p")
    case True
    then show ?thesis using assms by (auto simp: piperead_def contents_def fill_def pipe_ok_def split: if_splits)
  next
    case False
    obtain ds q where q: "piperead_copy (nat n) p = (ds, q)" by force
    then have "d = ds" "p1 = q\<lparr>wwait := False\<rparr>" using False assms(2) by (auto simp: piperead_def)
    then show ?thesis
      using piperead_copy_contents [OF q assms(1)] by (auto simp: contents_def fill_def pipe_ok_def)
  qed
  then show "contents p = d @ contents p1" "pipe_ok p1" by auto
qed

lemma pipeclose_contents:
  "contents (snd (pipeclose w p)) = contents p" "pipe_ok (snd (pipeclose w p)) = pipe_ok p"
  by (simp_all add: pipeclose_def Let_def contents_def fill_def pipe_ok_def)

lemma pipe_history_contents:
  "pipe_ok p \<Longrightarrow> pipe_history cs p = (ins, outs, p') \<Longrightarrow> outs @ contents p' = contents p @ ins \<and> pipe_ok p'"
proof (induction cs arbitrary: p ins outs)
  case (Cons c cs)
  show ?case
  proof (cases c)
    case (Write killed bs)
    obtain r p1 where w: "pipewrite killed (int (length bs)) bs p = (r, p1)" by force
    obtain i2 o2 p2 where h: "pipe_history cs p1 = (i2, o2, p2)" by (cases "pipe_history cs p1") auto
    from pipewrite_contents [OF Cons.prems(1) w] obtain k where k: "contents p1 = contents p @ take k bs" "pipe_ok p1" by blast
    have "take (length (contents p1) - length (contents p)) bs = take k bs" using k(1) by (simp add: min_def)
    then have e: "ins = take k bs @ i2" "outs = o2" "p' = p2" using Cons.prems(2) Write w h by auto
    have "o2 @ contents p' = contents p1 @ i2 \<and> pipe_ok p'" using Cons.IH [OF k(2), of i2 o2] h e(3) by simp
    then show ?thesis using e k(1) by simp
  next
    case (Read killed n)
    obtain r d p1 where w: "piperead killed n p = ((r, d), p1)" by (metis prod.exhaust)
    obtain i2 o2 p2 where h: "pipe_history cs p1 = (i2, o2, p2)" by (cases "pipe_history cs p1") auto
    have e: "ins = i2" "outs = d @ o2" "p' = p2" using Cons.prems(2) Read w h by auto
    note c = piperead_contents [OF Cons.prems(1) w]
    have "o2 @ contents p' = contents p1 @ i2 \<and> pipe_ok p'" using Cons.IH [OF c(2), of i2 o2] h e(3) by simp
    then show ?thesis using e c(1) by simp
  next
    case (Close w)
    then show ?thesis using Cons.IH [of "snd (pipeclose w p)" ins outs] Cons.prems by (simp add: pipeclose_contents)
  qed
qed simp

text \<open>C28: A pipe is a queue of at most 512 bytes. In every sequence of write calls, read calls and closes, of
  any length (the counters may wrap around), the bytes delivered followed by the bytes still in the pipe are
  the bytes that were in the pipe followed by the bytes accepted: nothing is lost, repeated or reordered.\<close>

theorem pipe_fifo:
  assumes "pipe_ok p" and "pipe_history cs p = (ins, outs, p')"
  shows "outs @ contents p' = contents p @ ins \<and> length (contents p') \<le> PIPESIZE \<and> pipe_ok p'"
  using pipe_history_contents [OF assms] by (simp add: contents_def pipe_ok_def)

theorem pipe_fifo_witness:
  "pipe_ok \<lparr>pdata = (\<lambda>_. 0), nread = 4294967294, nwrite = 4294967294, readopen = True, writeopen = True,
     rwait = False, wwait = False\<rparr> \<and>
   (\<exists>ins outs p'. pipe_history [Write False [7, 8, 9], Read False 2, Write False [4], Close True, Read False 2]
     \<lparr>pdata = (\<lambda>_. 0), nread = 4294967294, nwrite = 4294967294, readopen = True, writeopen = True,
      rwait = False, wwait = False\<rparr> = (ins, outs, p') \<and> outs = [7, 8, 9, 4] \<and> contents p' = [])"
proof -
  let ?p = "\<lparr>pdata = (\<lambda>_. 0), nread = 4294967294, nwrite = 4294967294, readopen = True, writeopen = True,
     rwait = False, wwait = False\<rparr> :: pipe"
  let ?cs = "[Write False [7, 8, 9], Read False 2, Write False [4], Close True, Read False 2]"
  have ok: "pipe_ok ?p" "contents ?p = []" by (simp_all add: pipe_ok_def fill_def contents_def)
  have copy2: "piperead_copy 2 p = piperead_copy (Suc (Suc 0)) p" for p by (simp only: numeral_2_eq_2)
  obtain ins outs p' where h: "pipe_history ?cs ?p = (ins, outs, p')" by (metis prod.exhaust)
  have c: "outs @ contents p' = contents ?p @ ins" using pipe_fifo [OF ok(1) h] by blast
  have "fst (snd (pipe_history ?cs ?p)) = [7, 8, 9, 4] \<and> fst (pipe_history ?cs ?p) = [7, 8, 9, 4]"
    by (simp add: contents_def fill_def piperead_def pipeclose_def Let_def copy2)
  then have "outs = [7, 8, 9, 4]" and "ins = [7, 8, 9, 4]" unfolding h by simp_all
  then have "contents p' = []" using c ok(2) \<open>outs = [7, 8, 9, 4]\<close> by simp
  then show ?thesis using ok(1) h \<open>outs = [7, 8, 9, 4]\<close> by blast
qed

section \<open>Wake-ups\<close>

text \<open>A reader sleeps only on an empty pipe that can still be written and read; a writer sleeps only on a full
  pipe that can still be read and written.\<close>

definition pipe_awake :: "pipe \<Rightarrow> bool" where
  "pipe_awake p \<longleftrightarrow> (rwait p \<longrightarrow> fill p = 0 \<and> readopen p \<and> writeopen p) \<and>
     (wwait p \<longrightarrow> fill p = PIPESIZE \<and> readopen p \<and> writeopen p)"

fun pipe_act :: "pipe_call \<Rightarrow> pipe \<Rightarrow> pipe" where
  "pipe_act (Write killed bs) p = snd (pipewrite killed (int (length bs)) bs p)"
| "pipe_act (Read killed n) p = snd (piperead killed n p)"
| "pipe_act (Close w) p = snd (pipeclose w p)"

text \<open>The calls that processes can make: through a file that is open, and a side is closed when no process
  has the file any more, so none sleeps in a call on it. No caller has been killed.\<close>

fun pipe_allowed :: "pipe_call \<Rightarrow> pipe \<Rightarrow> bool" where
  "pipe_allowed (Write killed bs) p \<longleftrightarrow> writeopen p \<and> \<not> killed"
| "pipe_allowed (Read killed n) p \<longleftrightarrow> readopen p \<and> \<not> killed"
| "pipe_allowed (Close w) p \<longleftrightarrow> (if w then writeopen p \<and> \<not> wwait p else readopen p \<and> \<not> rwait p)"

fun pipe_calls_allowed :: "pipe_call list \<Rightarrow> pipe \<Rightarrow> bool" where
  "pipe_calls_allowed [] p \<longleftrightarrow> True"
| "pipe_calls_allowed (c # cs) p \<longleftrightarrow> pipe_allowed c p \<and> pipe_calls_allowed cs (pipe_act c p)"

lemma pipewrite_awake:
  assumes "pipe_ok p" "pipe_awake p" and "pipewrite False n bs p = (r, p')" and "writeopen p"
  shows "pipe_ok p' \<and> pipe_awake p'"
proof -
  from pipewrite_contents [OF assms(1,3)] obtain k where k: "contents p' = contents p @ take k bs" "pipe_ok p'"
    "readopen p' = readopen p" "writeopen p' = writeopen p"
    "case r of Sleep rest \<Rightarrow> rest = drop k bs \<and> rest \<noteq> [] \<and> fill p' = PIPESIZE \<and> readopen p \<and> \<not> False \<and> wwait p' \<and> \<not> rwait p'
     | Done m \<Rightarrow> if length bs \<le> k then m = n \<and> \<not> rwait p' \<and> wwait p' = wwait p
                 else m = -1 \<and> fill p' = PIPESIZE \<and> (\<not> readopen p \<or> False) \<and> rwait p' = rwait p \<and> wwait p' = wwait p"
    by blast
  have f: "fill p' = fill p + min (length bs) k" using arg_cong [OF k(1), of length] by (simp add: contents_def)
  show ?thesis
  proof (cases r)
    case (Sleep rest)
    then show ?thesis using k assms(4) by (simp add: pipe_awake_def)
  next
    case (Done m)
    show ?thesis
    proof (cases "length bs \<le> k")
      case True
      then show ?thesis using k Done assms(2) f by (auto simp: pipe_awake_def pipe_ok_def)
    next
      case False
      have "\<not> readopen p" "rwait p' = rwait p" "wwait p' = wwait p" "fill p' = PIPESIZE"
        using k(5) Done False by simp_all
      then show ?thesis using k(2-4) assms(2) by (auto simp: pipe_awake_def)
    qed
  qed
qed

lemma piperead_awake:
  assumes "pipe_ok p" "pipe_awake p" "readopen p"
  shows "pipe_ok (snd (piperead False n p)) \<and> pipe_awake (snd (piperead False n p))"
proof (cases "nread p = nwrite p \<and> writeopen p")
  case True
  then show ?thesis
    using assms by (auto simp: piperead_def pipe_awake_def pipe_ok_def empty_iff) (simp_all add: fill_def)
next
  case False
  obtain ds q where q: "piperead_copy (nat n) p = (ds, q)" by force
  have "\<not> rwait p" using False assms(2) empty_iff [of p] by (auto simp: pipe_awake_def)
  moreover have "snd (piperead False n p) = q\<lparr>wwait := False\<rparr>" using False q by (auto simp: piperead_def)
  ultimately show ?thesis
    using piperead_copy_contents [OF q assms(1)] by (simp add: pipe_awake_def pipe_ok_def fill_def)
qed

lemma pipeclose_awake:
  "pipe_allowed (Close w) p \<Longrightarrow> pipe_awake p \<Longrightarrow> pipe_awake (snd (pipeclose w p))"
  by (auto simp: pipeclose_def pipe_awake_def Let_def fill_def split: if_splits)

lemma pipe_act_awake:
  assumes "pipe_allowed c p" "pipe_ok p" "pipe_awake p"
  shows "pipe_ok (pipe_act c p) \<and> pipe_awake (pipe_act c p)"
proof (cases c)
  case (Write killed bs)
  then show ?thesis
    using assms pipewrite_awake [of p "int (length bs)" bs] by (cases "pipewrite False (int (length bs)) bs p") auto
next
  case (Read killed n)
  then show ?thesis using assms piperead_awake by auto
next
  case (Close w)
  then show ?thesis using assms pipeclose_awake pipeclose_contents(2) by auto
qed



text \<open>C30: A writer that is killed while it fills the pipe returns -1 without the wake-up of the readers. A reader
  that sleeps on the empty pipe then stays asleep although 512 bytes are waiting for it.\<close>

theorem pipe_killed_writer_leaves_reader_asleep:
  assumes "pipe_ok p" "fill p = 0" "rwait p" and "PIPESIZE < length bs"
  shows "\<exists>p'. pipewrite True n bs p = (Done (-1), p') \<and> contents p' = take PIPESIZE bs \<and> rwait p' \<and> \<not> pipe_awake p'"
proof -
  obtain r p' where w: "pipewrite True n bs p = (r, p')" by force
  from pipewrite_contents [OF assms(1) w] obtain k where k: "contents p' = contents p @ take k bs" "pipe_ok p'"
    "case r of Sleep rest \<Rightarrow> rest = drop k bs \<and> rest \<noteq> [] \<and> fill p' = PIPESIZE \<and> readopen p \<and> \<not> True \<and> wwait p' \<and> \<not> rwait p'
     | Done m \<Rightarrow> if length bs \<le> k then m = n \<and> \<not> rwait p' \<and> wwait p' = wwait p
                 else m = -1 \<and> fill p' = PIPESIZE \<and> (\<not> readopen p \<or> True) \<and> rwait p' = rwait p \<and> wwait p' = wwait p"
    by blast
  have c: "contents p = []" using assms(2) by (simp add: contents_def)
  have f: "fill p' = min (length bs) k" using arg_cong [OF k(1), of length] c by (simp add: contents_def)
  then have "\<not> length bs \<le> k" using k(2) assms(4) by (simp add: pipe_ok_def)
  then have "r = Done (-1)" "fill p' = PIPESIZE" "rwait p'" using k(3) assms(3) by (auto split: pipe_result.splits)
  then show ?thesis using w k(1) c f \<open>\<not> length bs \<le> k\<close> by (auto simp: pipe_awake_def)
qed

theorem pipe_killed_writer_leaves_reader_asleep_witness:
  "\<exists>p'. pipewrite True 513 (replicate 513 7) \<lparr>pdata = (\<lambda>_. 0), nread = 5, nwrite = 5, readopen = True, writeopen = True,
     rwait = True, wwait = False\<rparr> = (Done (-1), p') \<and> contents p' = take PIPESIZE (replicate 513 7) \<and> rwait p' \<and> \<not> pipe_awake p'"
  by (rule pipe_killed_writer_leaves_reader_asleep) (simp_all add: pipe_ok_def fill_def)

end
