(* ===== verification/File.thy ===== *)
theory File
  imports Fs Pipe Vm
begin

text \<open>
  Open files, \<^verbatim>\<open>file.c\<close>, and \<^verbatim>\<open>pipealloc\<close> of \<^verbatim>\<open>pipe.c\<close>. The 100 entries of \<^verbatim>\<open>ftable\<close> are numbered; a pipe is
  named by the kernel address of its page, and its fields are kept in the store \<open>kpipes\<close>. A read or write
  of a pipe that sleeps returns \<open>Sleep\<close>; a call that would have to wait for an inode or for the log has the
  outcome \<open>Hang\<close>.
\<close>

section \<open>Definitions\<close>

abbreviation "NFILE \<equiv> (100 :: nat)"

datatype file_type = FD_NONE | FD_PIPE | FD_INODE

record kfile =
  ftype :: file_type
  fref :: int
  readable :: bool
  writable :: bool
  fpipe :: uint
  fip :: nat
  foff :: uint

record 'd kfiles =
  ftable :: "nat \<Rightarrow> kfile"
  kpipes :: "uint \<Rightarrow> pipe"
  fsys :: "'d fs"
  kvm :: vm

definition upd_file :: "nat \<Rightarrow> (kfile \<Rightarrow> kfile) \<Rightarrow> ('d, 'z) kfiles_scheme \<Rightarrow> ('d, 'z) kfiles_scheme" where
  "upd_file f g s = s\<lparr>ftable := (ftable s)(f := g (ftable s f))\<rparr>"

text \<open>An operation of the file system as one of this state.\<close>

definition on_fs :: "('d fs \<Rightarrow> ('a \<times> 'd fs) outcome) \<Rightarrow> ('d, 'z) kfiles_scheme \<Rightarrow> ('a \<times> ('d, 'z) kfiles_scheme) outcome" where
  "on_fs g s = andthen (g (fsys s)) (\<lambda>(r, t). Ok (r, s\<lparr>fsys := t\<rparr>))"

definition do_fs :: "('d fs \<Rightarrow> 'd fs outcome) \<Rightarrow> ('d, 'z) kfiles_scheme \<Rightarrow> ('d, 'z) kfiles_scheme outcome" where
  "do_fs g s = andthen (g (fsys s)) (\<lambda>t. Ok (s\<lparr>fsys := t\<rparr>))"

definition fs_begin_op :: "'d fs \<Rightarrow> 'd fs outcome" where
  "fs_begin_op s = (case begin_op (flog s) of (True, l) \<Rightarrow> Ok (s\<lparr>flog := l\<rparr>) | (False, l) \<Rightarrow> Hang)"

definition fs_end_op :: "int \<Rightarrow> 'd fs \<Rightarrow> 'd fs outcome" where
  "fs_end_op p s = andthen (end_op p (flog s)) (\<lambda>l. Ok (s\<lparr>flog := l\<rparr>))"

definition filealloc :: "('d, 'z) kfiles_scheme \<Rightarrow> nat option \<times> ('d, 'z) kfiles_scheme" where
  "filealloc s =
     (case find (\<lambda>f. fref (ftable s f) = 0) [0..<NFILE] of
        None \<Rightarrow> (None, s)
      | Some f \<Rightarrow> (Some f, upd_file f (\<lambda>x. x\<lparr>fref := 1\<rparr>) s))"

definition filedup :: "nat \<Rightarrow> ('d, 'z) kfiles_scheme \<Rightarrow> ('d, 'z) kfiles_scheme outcome" where
  "filedup f s =
     (if fref (ftable s f) < 1 then Panic ''filedup''
      else Ok (upd_file f (\<lambda>x. x\<lparr>fref := fref x + 1\<rparr>) s))"

text \<open>\<^verbatim>\<open>pipeclose\<close> with the release of the page.\<close>

definition kpipeclose :: "uint \<Rightarrow> bool \<Rightarrow> ('d, 'z) kfiles_scheme \<Rightarrow> ('d, 'z) kfiles_scheme outcome" where
  "kpipeclose pp w s =
     (let (free, p1) = pipeclose w (kpipes s pp); s1 = s\<lparr>kpipes := (kpipes s)(pp := p1)\<rparr>
      in if free then andthen (kfree pp (km (kvm s1))) (\<lambda>m. Ok (s1\<lparr>kvm := (kvm s1)\<lparr>km := m\<rparr>\<rparr>)) else Ok s1)"

definition fileclose :: "int \<Rightarrow> nat \<Rightarrow> ('d, 'z) kfiles_scheme \<Rightarrow> ('d, 'z) kfiles_scheme outcome" where
  "fileclose p f s =
     (let x = ftable s f
      in if fref x < 1 then Panic ''fileclose''
         else if fref x - 1 > 0 then Ok (upd_file f (\<lambda>x. x\<lparr>fref := fref x - 1\<rparr>) s)
         else
           let s1 = upd_file f (\<lambda>x. x\<lparr>fref := 0, ftype := FD_NONE\<rparr>) s
           in case ftype x of
                FD_PIPE \<Rightarrow> kpipeclose (fpipe x) (writable x) s1
              | FD_INODE \<Rightarrow> do_fs (\<lambda>t. andthen (fs_begin_op t) (\<lambda>t. andthen (iput p (fip x) t) (fs_end_op p))) s1
              | FD_NONE \<Rightarrow> Ok s1)"

definition filestat :: "int \<Rightarrow> nat \<Rightarrow> ('d, 'z) kfiles_scheme \<Rightarrow> ((int \<times> stat option) \<times> ('d, 'z) kfiles_scheme) outcome" where
  "filestat p f s =
     (let x = ftable s f
      in if ftype x = FD_INODE
         then on_fs (\<lambda>t. andthen (ilock p (Some (fip x)) t) (\<lambda>t1.
                andthen (iunlock p (Some (fip x)) t1) (\<lambda>t2. Ok ((0, Some (stati (fip x) t1)), t2)))) s
         else Ok ((-1, None), s))"

definition fileread ::
    "'d devsw \<Rightarrow> int \<Rightarrow> bool \<Rightarrow> nat \<Rightarrow> int \<Rightarrow> ('d, 'z) kfiles_scheme \<Rightarrow> ((unit pipe_result \<times> uchar list) \<times> ('d, 'z) kfiles_scheme) outcome" where
  "fileread dsw p killed f n s =
     (let x = ftable s f
      in if \<not> readable x then Ok ((Done (-1), []), s)
         else case ftype x of
                FD_PIPE \<Rightarrow>
                  let (r, q) = piperead killed n (kpipes s (fpipe x))
                  in Ok (r, s\<lparr>kpipes := (kpipes s)(fpipe x := q)\<rparr>)
              | FD_INODE \<Rightarrow>
                  andthen (do_fs (ilock p (Some (fip x))) s) (\<lambda>s1.
                  andthen (on_fs (readi dsw p (fip x) (foff (ftable s1 f)) (word_of_int n)) s1) (\<lambda>((r, dat), s2).
                    let s3 = (if r > 0 then upd_file f (\<lambda>x. x\<lparr>foff := foff x + word_of_int r\<rparr>) s2 else s2)
                    in andthen (do_fs (iunlock p (Some (fip x))) s3) (\<lambda>s4. Ok ((Done r, dat), s4))))
              | FD_NONE \<Rightarrow> Panic ''fileread'')"

text \<open>The loop of \<^verbatim>\<open>filewrite\<close>: chunks of at most \<open>((10 - 1 - 1 - 2) / 2) * 512 = 1536\<close> bytes, each in
  a transaction of its own; \<open>i\<close> bytes are written and \<open>bs\<close> remain.\<close>

definition filewrite_max :: nat where
  "filewrite_max = ((10 - 1 - 1 - 2) div 2) * 512"

function filewrite_loop ::
    "'d devsw \<Rightarrow> int \<Rightarrow> nat \<Rightarrow> int \<Rightarrow> uchar list \<Rightarrow> ('d, 'z) kfiles_scheme \<Rightarrow> (int \<times> ('d, 'z) kfiles_scheme) outcome" where
  "filewrite_loop dsw p f i bs s =
     (if bs = [] then Ok (i, s)
      else
        let n1 = min (length bs) filewrite_max; ip = fip (ftable s f)
        in andthen (do_fs (\<lambda>t. andthen (fs_begin_op t) (ilock p (Some ip))) s) (\<lambda>s1.
           andthen (on_fs (writei dsw p ip (take n1 bs) (foff (ftable s1 f))) s1) (\<lambda>(r, s2).
             let s3 = (if r > 0 then upd_file f (\<lambda>x. x\<lparr>foff := foff x + word_of_int r\<rparr>) s2 else s2)
             in andthen (do_fs (\<lambda>t. andthen (iunlock p (Some ip) t) (fs_end_op p)) s3) (\<lambda>s4.
                  if r < 0 then Ok (i, s4)
                  else if r \<noteq> int n1 then Panic ''short filewrite''
                  else filewrite_loop dsw p f (i + r) (drop n1 bs) s4))))"
  by auto
termination filewrite_loop
  by (relation "measure (\<lambda>(dsw, p, f, i, bs, s). length bs)") (auto simp: filewrite_max_def)

definition filewrite ::
    "'d devsw \<Rightarrow> int \<Rightarrow> bool \<Rightarrow> nat \<Rightarrow> uchar list \<Rightarrow> ('d, 'z) kfiles_scheme \<Rightarrow> (uchar list pipe_result \<times> ('d, 'z) kfiles_scheme) outcome" where
  "filewrite dsw p killed f bs s =
     (let x = ftable s f; n = int (length bs)
      in if \<not> writable x then Ok (Done (-1), s)
         else case ftype x of
                FD_PIPE \<Rightarrow>
                  let (r, q) = pipewrite killed n bs (kpipes s (fpipe x))
                  in Ok (r, s\<lparr>kpipes := (kpipes s)(fpipe x := q)\<rparr>)
              | FD_INODE \<Rightarrow>
                  andthen (filewrite_loop dsw p f 0 bs s) (\<lambda>(i, s1). Ok (Done (if i = n then n else -1), s1))
              | FD_NONE \<Rightarrow> Panic ''filewrite'')"

text \<open>\<^verbatim>\<open>pipealloc(&f0, &f1)\<close>: the two files, or \<open>None\<close> after giving back what was taken.\<close>

definition pipealloc :: "int \<Rightarrow> ('d, 'z) kfiles_scheme \<Rightarrow> ((nat \<times> nat) option \<times> ('d, 'z) kfiles_scheme) outcome" where
  "pipealloc p s =
     (case filealloc s of
        (None, s1) \<Rightarrow> Ok (None, s1)
      | (Some f0, s1) \<Rightarrow>
          (case filealloc s1 of
             (None, s2) \<Rightarrow> andthen (fileclose p f0 s2) (\<lambda>s3. Ok (None, s3))
           | (Some f1, s2) \<Rightarrow>
               let (pp, m) = kalloc (km (kvm s2)); s3 = s2\<lparr>kvm := (kvm s2)\<lparr>km := m\<rparr>\<rparr>
               in if pp = 0
                  then andthen (fileclose p f0 s3) (\<lambda>s4. andthen (fileclose p f1 s4) (\<lambda>s5. Ok (None, s5)))
                  else
                    let s4 = s3\<lparr>kpipes := (kpipes s3)(pp := pipe_init (kpipes s3 pp))\<rparr>;
                        s5 = upd_file f0 (\<lambda>x. x\<lparr>ftype := FD_PIPE, readable := True, writable := False, fpipe := pp\<rparr>) s4;
                        s6 = upd_file f1 (\<lambda>x. x\<lparr>ftype := FD_PIPE, readable := False, writable := True, fpipe := pp\<rparr>) s5
                    in Ok (Some (f0, f1), s6)))"

end
