(* ===== verification/Rand.thy ===== *)
theory Rand
  imports Prelude
begin

text \<open>
  The random numbers of the lottery scheduler, \<^verbatim>\<open>rand.c\<close>: the Mersenne twister MT19937 and
  \<^verbatim>\<open>random_at_most\<close>, which draws until the value is below the largest multiple of the number of bins.
  On the 32-bit target \<^verbatim>\<open>unsigned long\<close> is a 32-bit word. The rejection loop may not end and is a
  partial function.
\<close>

section \<open>Definitions\<close>

abbreviation "N_mt \<equiv> (624 :: nat)"
abbreviation "M_mt \<equiv> (397 :: nat)"
abbreviation "MATRIX_A \<equiv> (0x9908b0df :: uint)"
abbreviation "UPPER_MASK \<equiv> (0x80000000 :: uint)"
abbreviation "LOWER_MASK \<equiv> (0x7fffffff :: uint)"
abbreviation "TEMPERING_MASK_B \<equiv> (0x9d2c5680 :: uint)"
abbreviation "TEMPERING_MASK_C \<equiv> (0xefc60000 :: uint)"
abbreviation "RAND_MAX \<equiv> (0x7fffffff :: uint)"

record rand =
  mt :: "uint list"
  mti :: nat

definition rand_init :: rand where
  "rand_init = \<lparr>mt = replicate N_mt 0, mti = N_mt + 1\<rparr>"

definition sgenrand :: "uint \<Rightarrow> rand \<Rightarrow> rand" where
  "sgenrand seed r =
     r\<lparr>mt := foldl (\<lambda>m i. m[i := (69069 * (m ! (i - 1))) AND 0xffffffff])
               ((mt r)[0 := seed AND 0xffffffff]) [1..<N_mt],
       mti := N_mt\<rparr>"

definition mag01 :: "uint \<Rightarrow> uint" where
  "mag01 y = (if y = 0 then 0 else MATRIX_A)"

definition twist :: "nat \<Rightarrow> nat \<Rightarrow> nat \<Rightarrow> uint list \<Rightarrow> uint list" where
  "twist kk nxt src m =
     (let y = ((m ! kk) AND UPPER_MASK) OR ((m ! nxt) AND LOWER_MASK)
      in m[kk := (m ! src) XOR drop_bit 1 y XOR mag01 (y AND 1)])"

definition refill :: "uint list \<Rightarrow> uint list" where
  "refill m =
     (let m1 = foldl (\<lambda>m kk. twist kk (kk + 1) (kk + M_mt) m) m [0..<N_mt - M_mt];
          m2 = foldl (\<lambda>m kk. twist kk (kk + 1) (kk - (N_mt - M_mt)) m) m1 [N_mt - M_mt..<N_mt - 1]
      in twist (N_mt - 1) 0 (M_mt - 1) m2)"

definition temper :: "uint \<Rightarrow> uint" where
  "temper y =
     (let y = y XOR drop_bit 11 y;
          y = y XOR (push_bit 7 y AND TEMPERING_MASK_B);
          y = y XOR (push_bit 15 y AND TEMPERING_MASK_C)
      in y XOR drop_bit 18 y)"

definition genrand :: "rand \<Rightarrow> uint \<times> rand" where
  "genrand r =
     (let r1 = (if mti r \<ge> N_mt
                then
                  let r0 = (if mti r = N_mt + 1 then sgenrand 4357 r else r)
                  in r0\<lparr>mt := refill (mt r0), mti := 0\<rparr>
                else r)
      in (temper (mt r1 ! mti r1) AND RAND_MAX, r1\<lparr>mti := mti r1 + 1\<rparr>))"

partial_function (option) draw_loop :: "uint \<Rightarrow> rand \<Rightarrow> (uint \<times> rand) option" where
  "draw_loop bound r =
     (let (x, r1) = genrand r in if bound \<le> x then draw_loop bound r1 else Some (x, r1))"

definition num_rand :: uint where
  "num_rand = RAND_MAX + 1"

definition random_at_most :: "uint \<Rightarrow> rand \<Rightarrow> (uint \<times> rand) option" where
  "random_at_most maxv r =
     (let num_bins = maxv + 1;
          bin_size = num_rand div num_bins;
          defect = num_rand mod num_bins
      in case draw_loop (num_rand - defect) r of
           None \<Rightarrow> None
         | Some (x, r1) \<Rightarrow> Some (x div bin_size, r1))"

text \<open>The invariant of the generator: the state vector has its full length and the index is valid.\<close>

definition rand_ok :: "rand \<Rightarrow> bool" where
  "rand_ok r \<longleftrightarrow> length (mt r) = N_mt \<and> mti r \<le> N_mt + 1"

section \<open>The generator stays inside its array\<close>

lemma length_foldl_update [simp]:
  "(\<And>m i. length (f m i) = length m) \<Longrightarrow> length (foldl f m xs) = length m"
  by (induction xs arbitrary: m) auto

lemma length_twist [simp]: "length (twist kk nxt src m) = length m"
  by (simp add: twist_def Let_def)

lemma length_refill [simp]: "length (refill m) = length m"
  unfolding refill_def Let_def by (simp only: length_twist length_foldl_update)

lemma length_sgenrand [simp]: "length (mt (sgenrand seed r)) = length (mt r)"
  by (simp add: sgenrand_def del: upt_rec_numeral)

lemma genrand_ok:
  assumes "rand_ok r" and "genrand r = (x, r')"
  shows "rand_ok r' \<and> 1 \<le> mti r' \<and> mti r' \<le> N_mt \<and> x \<le> RAND_MAX"
proof -
  obtain r1 where r1: "length (mt r1) = N_mt" "mti r1 < N_mt" "x = temper (mt r1 ! mti r1) AND RAND_MAX" "r' = r1\<lparr>mti := mti r1 + 1\<rparr>"
  proof (cases "mti r \<ge> N_mt")
    case True
    let ?r0 = "if mti r = N_mt + 1 then sgenrand 4357 r else r"
    show thesis
      using assms True that [of "?r0\<lparr>mt := refill (mt ?r0), mti := 0\<rparr>"]
      by (simp add: genrand_def Let_def rand_ok_def)
  next
    case False
    then show thesis using assms that [of r] by (simp add: genrand_def Let_def rand_ok_def)
  qed
  have "x \<le> RAND_MAX" unfolding r1(3) by (rule word_and_le1)
  then show ?thesis using r1(1,2,4) by (simp add: rand_ok_def)
qed

lemma draw_loop_bound:
  assumes "draw_loop bound r = Some (x, r')" and "rand_ok r"
  shows "x < bound \<and> x \<le> RAND_MAX \<and> rand_ok r'"
proof -
  have "rand_ok r \<longrightarrow> fst (x, r') < bound \<and> fst (x, r') \<le> RAND_MAX \<and> rand_ok (snd (x, r'))"
  proof (rule draw_loop.raw_induct
      [where P = "\<lambda>bound r z. rand_ok r \<longrightarrow> fst z < bound \<and> fst z \<le> RAND_MAX \<and> rand_ok (snd z)", OF _ assms(1)], rule impI)
    fix self bound r z
    assume IH: "\<And>b r z. self b r = Some z \<Longrightarrow> rand_ok r \<longrightarrow> fst z < b \<and> fst z \<le> RAND_MAX \<and> rand_ok (snd z)"
      and run: "(let (x, r1) = genrand r in if bound \<le> x then self bound r1 else Some (x, r1)) = Some z" and ok: "rand_ok r"
    obtain y r1 where g: "genrand r = (y, r1)" by (cases "genrand r")
    have o: "rand_ok r1" "y \<le> RAND_MAX" using genrand_ok [OF ok g] by auto
    show "fst z < bound \<and> fst z \<le> RAND_MAX \<and> rand_ok (snd z)"
    proof (cases "bound \<le> y")
      case True
      then have "self bound r1 = Some z" using run g by simp
      then show ?thesis using IH o(1) by blast
    next
      case False
      then have "z = (y, r1)" using run g by simp
      then show ?thesis using False o by (simp add: not_le)
    qed
  qed
  then show ?thesis using assms(2) by simp
qed

section \<open>The bins of random\_at\_most\<close>

lemma unat_num_rand: "unat num_rand = 2147483648"
  by (simp add: num_rand_def)

lemma bins:
  assumes "maxv \<le> RAND_MAX"
  defines "b \<equiv> 2147483648 div (unat maxv + 1)"
  shows "unat (maxv + 1) = unat maxv + 1" "unat (num_rand div (maxv + 1)) = b" "0 < b"
    "unat (num_rand - num_rand mod (maxv + 1)) = b * (unat maxv + 1)"
proof -
  have m: "unat maxv < 2147483648" using assms(1) by (simp add: word_le_nat_alt)
  show s: "unat (maxv + 1) = unat maxv + 1" using m by (simp add: unat_add_lem [THEN iffD1])
  show "unat (num_rand div (maxv + 1)) = b" by (simp only: unat_div s unat_num_rand b_def)
  show "0 < b" using m by (simp add: b_def div_greater_zero_iff)
  have r: "unat (num_rand mod (maxv + 1)) = 2147483648 mod (unat maxv + 1)" by (simp only: unat_mod s unat_num_rand)
  have "unat (num_rand - num_rand mod (maxv + 1)) = 2147483648 - 2147483648 mod (unat maxv + 1)"
    using r by (subst unat_sub) (simp_all add: word_le_nat_alt unat_num_rand)
  also have "\<dots> = b * (unat maxv + 1)" unfolding b_def by (metis minus_mod_eq_div_mult)
  finally show "unat (num_rand - num_rand mod (maxv + 1)) = b * (unat maxv + 1)" .
qed

lemma card_bin:
  assumes "0 < (b :: nat)" and "v < n"
  shows "card {x. x < b * n \<and> x div b = v} = b"
proof -
  have "b * v + b \<le> b * n" using assms(2) mult_le_mono2 [of "Suc v" n b] by simp
  then have "{x. x < b * n \<and> x div b = v} = {b * v..<b * v + b}"
    using assms(1) by (auto simp: div_nat_eqI dividend_less_times_div mult.commute)
      (metis add.commute dividend_less_div_times mult.commute)
  then show ?thesis by simp
qed



end
