(* ===== verification/Proc.thy ===== *)
theory Proc
  imports File Rand
begin

text \<open>
  Processes, \<^verbatim>\<open>proc.c\<close>: the process table and the operations on it, in the build that the Makefile makes
  (\<^verbatim>\<open>SCHED = DEFAULT\<close>), with the scheduler of the \<^verbatim>\<open>LOTTERY\<close> build and the queues of the \<^verbatim>\<open>MFQ\<close> build beside it.

  The 64 slots of \<^verbatim>\<open>ptable.proc\<close> are numbered; a pointer to a process is the number of its slot and \<open>None\<close> for null.
  The trap frame \<^verbatim>\<open>*p->tf\<close> is a field of the process. The array \<^verbatim>\<open>ptable.que[3][64]\<close> is kept flat, since an index
  past 63 in one row is an index into the next. \<open>pstat_var\<close> is the memory from \<^verbatim>\<open>&pstat_var\<close> on, as ints; stores
  past its 512 ints hit whatever the linker has put there. Where the code would use an address that is no
  address of a variable, its behaviour is undefined and the outcome is \<open>Hang\<close>.

  \<open>cur\<close> is the slot of \<^verbatim>\<open>myproc()\<close> and \<open>c\<close> the number of the processor. \<open>kmap\<close> is the table of \<^verbatim>\<open>vm.c\<close>, \<open>dsw\<close> the
  device table. \<^verbatim>\<open>ptable.lock\<close> is held from the start of each routine below to its end or to \<^verbatim>\<open>sched\<close>, so that
  each is one transition.
\<close>

section \<open>State\<close>

abbreviation "NPROC \<equiv> (64 :: nat)"
abbreviation "NOFILE \<equiv> (16 :: nat)"
abbreviation (input) "DEFAULT_TICKETS \<equiv> (1 :: int)"
abbreviation (input) "PRIORITY_MAX \<equiv> (2 :: int)"
abbreviation "FL_IF \<equiv> (0x200 :: uint)"

datatype procstate = UNUSED | EMBRYO | SLEEPING | RUNNABLE | RUNNING | ZOMBIE

text \<open>What a process sleeps on: the address of a process, of \<^verbatim>\<open>ticks\<close>, or another address.\<close>

datatype channel = NoChan | ProcChan nat | TicksChan | AddrChan uint

record trapframe =
  tf_edi :: uint
  tf_esi :: uint
  tf_ebp :: uint
  tf_oesp :: uint
  tf_ebx :: uint
  tf_edx :: uint
  tf_ecx :: uint
  tf_eax :: uint
  tf_gs :: ushort
  tf_fs :: ushort
  tf_es :: ushort
  tf_ds :: ushort
  tf_trapno :: uint
  tf_err :: uint
  tf_eip :: uint
  tf_cs :: ushort
  tf_eflags :: uint
  tf_esp :: uint
  tf_ss :: ushort

record proc =
  psz :: uint
  pgdir :: uint
  kstack :: uint
  pstate :: procstate
  pid :: int
  parent :: "nat option"
  tf :: trapframe
  pcontext :: uint
  chan :: channel
  killed :: bool
  ofile :: "nat \<Rightarrow> nat option"
  cwd :: "nat option"
  pname :: "uchar list"
  stime :: int
  ctime :: uint
  retime :: int
  rutime :: int
  tickets :: int
  priority :: int

record 'd kernel = "'d kfiles" +
  procs :: "nat \<Rightarrow> proc"
  que :: "nat \<Rightarrow> nat option"
  priCount :: "nat \<Rightarrow> int"
  initproc :: "nat option"
  pstat_var :: "nat \<Rightarrow> int"
  nextpid :: int
  ticks :: uint
  cpuproc :: "nat \<Rightarrow> nat option"
  cpuseg :: "nat \<Rightarrow> seg_cpu"
  ts_addr :: "nat \<Rightarrow> uint"
  ptable_addr :: uint
  first :: bool

definition upd_proc :: "nat \<Rightarrow> (proc \<Rightarrow> proc) \<Rightarrow> 'd kernel \<Rightarrow> 'd kernel" where
  "upd_proc i f s = s\<lparr>procs := (procs s)(i := f (procs s i))\<rparr>"

definition set_km :: "kmem \<Rightarrow> 'd kernel \<Rightarrow> 'd kernel" where
  "set_km m s = s\<lparr>kvm := (kvm s)\<lparr>km := m\<rparr>\<rparr>"

section \<open>Processors\<close>

text \<open>\<open>apicids\<close> are the local APIC ids of \<^verbatim>\<open>cpus[0..ncpu-1]\<close>, \<open>apicid\<close> is \<^verbatim>\<open>lapicid()\<close>.\<close>

definition mycpu :: "uint \<Rightarrow> uint \<Rightarrow> uint list \<Rightarrow> nat outcome" where
  "mycpu eflags apicid apicids =
     (if eflags AND FL_IF \<noteq> 0 then Panic ''mycpu called with interrupts enabled''
      else case find (\<lambda>i. apicids ! i = apicid) [0..<length apicids] of
             Some i \<Rightarrow> Ok i
           | None \<Rightarrow> Panic ''unknown apicid'')"

definition cpuid :: "uint \<Rightarrow> uint \<Rightarrow> uint list \<Rightarrow> nat outcome" where
  "cpuid eflags apicid apicids = mycpu eflags apicid apicids"

definition myproc :: "nat \<Rightarrow> 'd kernel \<Rightarrow> nat option" where
  "myproc c s = cpuproc s c"

text \<open>\<open>seed\<close> is the address of the local variable \<^verbatim>\<open>r\<close>.\<close>

definition pinit :: "uint \<Rightarrow> rand \<Rightarrow> 'd kernel \<Rightarrow> rand \<times> 'd kernel" where
  "pinit seed rnd s = (sgenrand seed rnd, s\<lparr>priCount := (priCount s)(0 := -1, 1 := -1, 2 := -1)\<rparr>)"

section \<open>Creating processes\<close>

text \<open>The six groups of stores into \<^verbatim>\<open>pstat_var\<close>: the arrays \<^verbatim>\<open>inuse\<close>, \<^verbatim>\<open>pid\<close>, \<^verbatim>\<open>priority\<close>, \<^verbatim>\<open>state\<close> have 64 ints
  each, \<^verbatim>\<open>ticks\<close> has 64 times 4.\<close>

definition pstat_record :: "nat \<Rightarrow> int \<Rightarrow> (nat \<Rightarrow> int) \<Rightarrow> nat \<Rightarrow> int" where
  "pstat_record n pri m =
     m(n := 1, 2 * NPROC + n := pri,
       4 * NPROC + 4 * n := 0, 4 * NPROC + 4 * n + 1 := 0, 4 * NPROC + 4 * n + 2 := 0, 4 * NPROC + 4 * n + 3 := 0,
       NPROC + n := int n)"

text \<open>With no free slot the code reads \<^verbatim>\<open>pid\<close> and \<^verbatim>\<open>priority\<close> of the slot after the last one, which is the memory
  of \<^verbatim>\<open>que[0][4]\<close> and \<^verbatim>\<open>que[0][36]\<close> (a process takes 152 bytes, \<^verbatim>\<open>pid\<close> at 16, \<^verbatim>\<open>priority\<close> at 144). The index is 0 as
  long as \<^verbatim>\<open>que[0][4]\<close> is null, and an address otherwise.\<close>

definition proc_addr :: "nat \<Rightarrow> 'd kernel \<Rightarrow> int" where
  "proc_addr i s = sint (ptable_addr s + 152 * of_nat i)"

definition allocproc_full :: "'d kernel \<Rightarrow> 'd kernel outcome" where
  "allocproc_full s =
     (if que s 4 = None
      then Ok (s\<lparr>pstat_var := pstat_record 0 (case que s 36 of None \<Rightarrow> 0 | Some i \<Rightarrow> proc_addr i s) (pstat_var s)\<rparr>)
      else Hang)"

text \<open>The stack page: a trap frame of 76 bytes at the top, the return address, and the saved registers
  of 20 bytes with \<^verbatim>\<open>eip\<close> last. \<open>trapret\<close> and \<open>forkret\<close> are the addresses of these routines.\<close>

definition init_kstack :: "uint \<Rightarrow> uint \<Rightarrow> uint \<Rightarrow> kmem \<Rightarrow> kmem" where
  "init_kstack trapret forkret k m =
     store_word k 1003 forkret
       (foldl (\<lambda>m i. store_word k i 0 m) (store_word k 1004 trapret m) [999, 1000, 1001, 1002, 1003])"

definition allocproc :: "uint \<Rightarrow> uint \<Rightarrow> 'd kernel \<Rightarrow> (nat option \<times> 'd kernel) outcome" where
  "allocproc trapret forkret s =
     (case find (\<lambda>i. pstate (procs s i) = UNUSED) [0..<NPROC] of
        None \<Rightarrow> andthen (allocproc_full s) (\<lambda>s1. Ok (None, s1))
      | Some p \<Rightarrow>
          let n = nextpid s;
              s1 = upd_proc p (\<lambda>x. x\<lparr>pstate := EMBRYO, pid := n\<rparr>) (s\<lparr>nextpid := n + 1\<rparr>);
              s2 = s1\<lparr>pstat_var := pstat_record (nat n) (priority (procs s1 p)) (pstat_var s1)\<rparr>;
              s3 = upd_proc p (\<lambda>x. x\<lparr>priority := 0, ctime := ticks s2, retime := 0, rutime := 0, stime := 0\<rparr>) s2;
              (k, m) = kalloc (km (kvm s3));
              s4 = upd_proc p (\<lambda>x. x\<lparr>kstack := k\<rparr>) (set_km m s3)
          in if k = 0 then Ok (None, upd_proc p (\<lambda>x. x\<lparr>pstate := UNUSED\<rparr>) s4)
             else Ok (Some p, upd_proc p (\<lambda>x. x\<lparr>pcontext := k + 3996\<rparr>) (set_km (init_kstack trapret forkret k m) s4)))"

text \<open>\<open>initcode\<close> is the binary that the linker embeds.\<close>

definition userinit ::
    "kmap_entry list \<Rightarrow> 'd devsw \<Rightarrow> uint \<Rightarrow> uint \<Rightarrow> uchar list \<Rightarrow> uchar list \<Rightarrow> 'd kernel \<Rightarrow> 'd kernel outcome" where
  "userinit kmap dsw trapret forkret initcode initname s =
     andthen (allocproc trapret forkret s) (\<lambda>(po, s1).
       case po of
         None \<Rightarrow> Hang
       | Some p \<Rightarrow>
           andthen (setupkvm kmap (km (kvm s1))) (\<lambda>(d, m).
             let s2 = upd_proc p (\<lambda>x. x\<lparr>pgdir := d\<rparr>) (set_km m (s1\<lparr>initproc := Some p\<rparr>))
             in if d = 0 then Panic ''userinit: out of memory?''
                else andthen (inituvm d initcode m) (\<lambda>m1.
                  let ud = push_bit 3 (of_nat SEG_UDATA) OR ucast DPL_USER;
                      f = \<lparr>tf_edi = 0, tf_esi = 0, tf_ebp = 0, tf_oesp = 0, tf_ebx = 0, tf_edx = 0, tf_ecx = 0, tf_eax = 0,
                           tf_gs = 0, tf_fs = 0, tf_es = ud, tf_ds = ud, tf_trapno = 0, tf_err = 0, tf_eip = 0,
                           tf_cs = push_bit 3 (of_nat SEG_UCODE) OR ucast DPL_USER, tf_eflags = FL_IF, tf_esp = PGSIZE, tf_ss = ud\<rparr>;
                      s3 = upd_proc p (\<lambda>x. x\<lparr>psz := PGSIZE, tf := f, tickets := DEFAULT_TICKETS, pname := take 15 initname\<rparr>) (set_km m1 s2)
                  in andthen (on_fs (namei dsw 0 0 [slash]) s3) (\<lambda>(ip, s4).
                       Ok (upd_proc p (\<lambda>x. x\<lparr>cwd := ip, pstate := RUNNABLE\<rparr>) s4)))))"

definition growproc :: "nat \<Rightarrow> nat \<Rightarrow> int \<Rightarrow> 'd kernel \<Rightarrow> (int \<times> 'd kernel) outcome" where
  "growproc c cur n s =
     (let x = procs s cur
      in andthen
           (if n > 0 then allocuvm (pgdir x) (psz x) (psz x + word_of_int n) (km (kvm s))
            else if n < 0 then deallocuvm (pgdir x) (psz x) (psz x + word_of_int n) (km (kvm s))
            else Ok (psz x, km (kvm s))) (\<lambda>(sz, m).
         let s1 = set_km m s
         in if n \<noteq> 0 \<and> sz = 0 then Ok (-1, s1)
            else
              let s2 = upd_proc cur (\<lambda>x. x\<lparr>psz := sz\<rparr>) s1
              in andthen (switchuvm (Some (kstack x, pgdir x)) (kstack x) (ts_addr s2 c) (cpuseg s2 c) (kvm s2)) (\<lambda>(k, v).
                   Ok (0, s2\<lparr>cpuseg := (cpuseg s2)(c := k), kvm := v\<rparr>))))"

text \<open>The part of \<^verbatim>\<open>fork\<close> after the address space has been copied.\<close>

definition fork_files :: "nat \<Rightarrow> nat \<Rightarrow> nat \<Rightarrow> 'd kernel \<Rightarrow> 'd kernel outcome" where
  "fork_files cur np i s =
     (case ofile (procs s cur) i of
        None \<Rightarrow> Ok s
      | Some f \<Rightarrow> andthen (filedup f s) (\<lambda>s1. Ok (upd_proc np (\<lambda>x. x\<lparr>ofile := (ofile x)(i := Some f)\<rparr>) s1)))"

definition fork_finish :: "nat \<Rightarrow> nat \<Rightarrow> 'd kernel \<Rightarrow> (int \<times> 'd kernel) outcome" where
  "fork_finish cur np s =
     (let x = procs s cur;
          s1 = upd_proc np (\<lambda>y. y\<lparr>psz := psz x, parent := Some cur, tf := (tf x)\<lparr>tf_eax := 0\<rparr>, tickets := DEFAULT_TICKETS\<rparr>) s
      in andthen (for_loop [0..<NOFILE] (fork_files cur np) s1) (\<lambda>s2.
           case cwd (procs s2 cur) of
             None \<Rightarrow> Hang
           | Some d \<Rightarrow>
               let s3 = s2\<lparr>fsys := snd (idup d (fsys s2))\<rparr>;
                   s4 = upd_proc np (\<lambda>y. y\<lparr>cwd := Some d, pname := take 15 (pname (procs s3 cur))\<rparr>) s3
               in Ok (pid (procs s4 np), upd_proc np (\<lambda>y. y\<lparr>pstate := RUNNABLE\<rparr>) s4)))"

text \<open>The path taken when the address space cannot be copied.\<close>

definition fork_undo :: "nat \<Rightarrow> 'd kernel \<Rightarrow> (int \<times> 'd kernel) outcome" where
  "fork_undo np s =
     andthen (kfree (kstack (procs s np)) (km (kvm s))) (\<lambda>m.
       Ok (-1, upd_proc np (\<lambda>y. y\<lparr>kstack := 0, pstate := UNUSED\<rparr>) (set_km m s)))"

definition fork :: "kmap_entry list \<Rightarrow> uint \<Rightarrow> uint \<Rightarrow> nat \<Rightarrow> 'd kernel \<Rightarrow> (int \<times> 'd kernel) outcome" where
  "fork kmap trapret forkret cur s =
     andthen (allocproc trapret forkret s) (\<lambda>(npo, s1).
       case npo of
         None \<Rightarrow> Ok (-1, s1)
       | Some np \<Rightarrow>
           andthen (copyuvm kmap (pgdir (procs s1 cur)) (psz (procs s1 cur)) (kvm s1)) (\<lambda>(d, v).
             let s2 = upd_proc np (\<lambda>y. y\<lparr>pgdir := d\<rparr>) (s1\<lparr>kvm := v\<rparr>)
             in if d = 0 then fork_undo np s2 else fork_finish cur np s2))"

definition fork_original :: "kmap_entry list \<Rightarrow> uint \<Rightarrow> uint \<Rightarrow> nat \<Rightarrow> 'd kernel \<Rightarrow> (int \<times> 'd kernel) outcome" where
  "fork_original kmap trapret forkret cur s =
     andthen (allocproc trapret forkret s) (\<lambda>(npo, s1).
       case npo of
         None \<Rightarrow> Ok (-1, s1)
       | Some np \<Rightarrow>
           andthen (copyuvm_original kmap (pgdir (procs s1 cur)) (psz (procs s1 cur)) (km (kvm s1))) (\<lambda>(d, m).
             let s2 = upd_proc np (\<lambda>y. y\<lparr>pgdir := d\<rparr>) (set_km m s1)
             in if d = 0 then fork_undo np s2 else fork_finish cur np s2))"

section \<open>Switching\<close>

text \<open>\<^verbatim>\<open>sched\<close> up to \<^verbatim>\<open>swtch\<close>: whether the processor holds the lock of the table, its \<^verbatim>\<open>ncli\<close> and its interrupt flag
  are arguments. \<open>to_scheduler\<close> is what the scheduler does when \<^verbatim>\<open>swtch\<close> returns to it.\<close>

definition sched :: "bool \<Rightarrow> int \<Rightarrow> bool \<Rightarrow> nat \<Rightarrow> 'd kernel \<Rightarrow> 'd kernel outcome" where
  "sched hold n ifl cur s =
     (if \<not> hold then Panic ''sched ptable.lock''
      else if n \<noteq> 1 then Panic ''sched locks''
      else if pstate (procs s cur) = RUNNING then Panic ''sched running''
      else if ifl then Panic ''sched interruptible''
      else Ok s)"

definition to_scheduler :: "nat \<Rightarrow> 'd kernel \<Rightarrow> 'd kernel" where
  "to_scheduler c s = s\<lparr>kvm := switchkvm (kvm s), cpuproc := (cpuproc s)(c := None)\<rparr>"

text \<open>A process gives up its processor with the lock of the table held and no other.\<close>

definition switch_away :: "nat \<Rightarrow> nat \<Rightarrow> 'd kernel \<Rightarrow> 'd kernel outcome" where
  "switch_away c cur s = andthen (sched True 1 False cur s) (\<lambda>s1. Ok (to_scheduler c s1))"

definition yield :: "nat \<Rightarrow> nat \<Rightarrow> 'd kernel \<Rightarrow> 'd kernel outcome" where
  "yield c cur s = switch_away c cur (upd_proc cur (\<lambda>x. x\<lparr>pstate := RUNNABLE\<rparr>) s)"

definition forkret :: "int \<Rightarrow> 'd kernel \<Rightarrow> 'd kernel outcome" where
  "forkret p s =
     (if first s
      then andthen (iinit p ROOTDEV (fsys s)) (\<lambda>t.
           andthen (initlog p ROOTDEV (flog t)) (\<lambda>l. Ok (s\<lparr>first := False, fsys := t\<lparr>flog := l\<rparr>\<rparr>)))
      else Ok s)"

text \<open>\<^verbatim>\<open>sleep\<close>: up to \<^verbatim>\<open>sched\<close>, and after it. \<open>lk\<close> says whether there is a lock to release.\<close>

definition sleep :: "nat \<Rightarrow> nat option \<Rightarrow> channel \<Rightarrow> bool \<Rightarrow> 'd kernel \<Rightarrow> 'd kernel outcome" where
  "sleep c curo ch lk s =
     (case curo of
        None \<Rightarrow> Panic ''sleep''
      | Some cur \<Rightarrow>
          if \<not> lk then Panic ''sleep without lk''
          else switch_away c cur (upd_proc cur (\<lambda>x. x\<lparr>chan := ch, pstate := SLEEPING\<rparr>) s))"

definition sleep_end :: "nat \<Rightarrow> 'd kernel \<Rightarrow> 'd kernel" where
  "sleep_end cur s = upd_proc cur (\<lambda>x. x\<lparr>chan := NoChan\<rparr>) s"

definition wakeup1 :: "channel \<Rightarrow> 'd kernel \<Rightarrow> 'd kernel" where
  "wakeup1 ch s =
     fold (\<lambda>p s. if pstate (procs s p) = SLEEPING \<and> chan (procs s p) = ch then upd_proc p (\<lambda>x. x\<lparr>pstate := RUNNABLE\<rparr>) s else s)
       [0..<NPROC] s"

definition wakeup :: "channel \<Rightarrow> 'd kernel \<Rightarrow> 'd kernel" where
  "wakeup ch s = wakeup1 ch s"

definition kill :: "int \<Rightarrow> 'd kernel \<Rightarrow> int \<times> 'd kernel" where
  "kill n s =
     (case find (\<lambda>i. pid (procs s i) = n) [0..<NPROC] of
        None \<Rightarrow> (-1, s)
      | Some p \<Rightarrow>
          (0, upd_proc p (\<lambda>x. x\<lparr>killed := True, pstate := (if pstate x = SLEEPING then RUNNABLE else pstate x)\<rparr>) s))"

section \<open>Exit and wait\<close>

definition exit_file :: "nat \<Rightarrow> nat \<Rightarrow> 'd kernel \<Rightarrow> 'd kernel outcome" where
  "exit_file cur fd s =
     (case ofile (procs s cur) fd of
        None \<Rightarrow> Ok s
      | Some f \<Rightarrow> andthen (fileclose (pid (procs s cur)) f s) (\<lambda>s1. Ok (upd_proc cur (\<lambda>x. x\<lparr>ofile := (ofile x)(fd := None)\<rparr>) s1)))"

definition proc_chan :: "nat option \<Rightarrow> channel" where
  "proc_chan po = (case po of None \<Rightarrow> NoChan | Some p \<Rightarrow> ProcChan p)"

definition exit_child :: "nat \<Rightarrow> nat \<Rightarrow> 'd kernel \<Rightarrow> 'd kernel" where
  "exit_child cur p s =
     (if parent (procs s p) = Some cur
      then
        let s1 = upd_proc p (\<lambda>x. x\<lparr>parent := initproc s\<rparr>) s
        in if pstate (procs s1 p) = ZOMBIE then wakeup1 (proc_chan (initproc s1)) s1 else s1
      else s)"

definition exit_children :: "nat \<Rightarrow> 'd kernel \<Rightarrow> 'd kernel" where
  "exit_children cur s = fold (exit_child cur) [0..<NPROC] s"

definition exit_table :: "nat \<Rightarrow> 'd kernel \<Rightarrow> 'd kernel" where
  "exit_table cur s =
     upd_proc cur (\<lambda>x. x\<lparr>pstate := ZOMBIE\<rparr>) (exit_children cur (wakeup1 (proc_chan (parent (procs s cur))) s))"

definition exit :: "nat \<Rightarrow> nat \<Rightarrow> 'd kernel \<Rightarrow> 'd kernel outcome" where
  "exit c cur s =
     (if initproc s = Some cur then Panic ''init exiting''
      else andthen (for_loop [0..<NOFILE] (exit_file cur) s) (\<lambda>s1.
           case cwd (procs s1 cur) of
             None \<Rightarrow> Hang
           | Some d \<Rightarrow>
               let q = pid (procs s1 cur)
               in andthen (do_fs (\<lambda>t. andthen (fs_begin_op t) (\<lambda>t. andthen (iput q d t) (fs_end_op q))) s1) (\<lambda>s2.
                    switch_away c cur (exit_table cur (upd_proc cur (\<lambda>x. x\<lparr>cwd := None\<rparr>) s2)))))"

text \<open>One round of the loop of \<^verbatim>\<open>wait\<close>: it returns, or it sleeps on the address of the process.\<close>

definition zombie_child :: "nat \<Rightarrow> 'd kernel \<Rightarrow> nat option" where
  "zombie_child cur s = find (\<lambda>i. parent (procs s i) = Some cur \<and> pstate (procs s i) = ZOMBIE) [0..<NPROC]"

definition havekids :: "nat \<Rightarrow> 'd kernel \<Rightarrow> bool" where
  "havekids cur s \<longleftrightarrow> list_ex (\<lambda>i. parent (procs s i) = Some cur) [0..<NPROC]"

definition wait :: "nat \<Rightarrow> nat \<Rightarrow> 'd kernel \<Rightarrow> (unit pipe_result \<times> 'd kernel) outcome" where
  "wait c cur s =
     (case zombie_child cur s of
        Some p \<Rightarrow>
          andthen (kfree (kstack (procs s p)) (km (kvm s))) (\<lambda>m.
          andthen (freevm (pgdir (procs s p)) m) (\<lambda>m1.
            Ok (Done (pid (procs s p)),
              upd_proc p (\<lambda>x. x\<lparr>kstack := 0, pid := 0, parent := None, pname := [], killed := False, pstate := UNUSED\<rparr>) (set_km m1 s))))
      | None \<Rightarrow>
          if \<not> havekids cur s \<or> killed (procs s cur) then Ok (Done (-1), s)
          else andthen (sleep c (Some cur) (ProcChan cur) True s) (\<lambda>s1. Ok (Sleep (), s1)))"

text \<open>The three times that \<^verbatim>\<open>testwait\<close> stores are returned with the result.\<close>

definition testwait :: "nat \<Rightarrow> nat \<Rightarrow> 'd kernel \<Rightarrow> ((unit pipe_result \<times> (int \<times> int \<times> int) option) \<times> 'd kernel) outcome" where
  "testwait c cur s =
     (case zombie_child cur s of
        Some p \<Rightarrow>
          let x = procs s p
          in andthen (kfree (kstack x) (km (kvm s))) (\<lambda>m.
             andthen (freevm (pgdir x) m) (\<lambda>m1.
               Ok ((Done (pid x), Some (retime x, rutime x, stime x)),
                 upd_proc p (\<lambda>x. x\<lparr>kstack := 0, pstate := UNUSED, pid := 0, parent := None, pname := [], killed := False,
                   ctime := 0, retime := 0, rutime := 0, stime := 0, priority := 0\<rparr>) (set_km m1 s))))
      | None \<Rightarrow>
          if \<not> havekids cur s \<or> killed (procs s cur) then Ok ((Done (-1), None), s)
          else andthen (sleep c (Some cur) (ProcChan cur) True s) (\<lambda>s1. Ok ((Sleep (), None), s1)))"

section \<open>Schedulers\<close>

definition dispatch :: "nat \<Rightarrow> nat \<Rightarrow> 'd kernel \<Rightarrow> 'd kernel outcome" where
  "dispatch c p s =
     (let s1 = s\<lparr>cpuproc := (cpuproc s)(c := Some p)\<rparr>; x = procs s1 p
      in andthen (switchuvm (Some (kstack x, pgdir x)) (kstack x) (ts_addr s1 c) (cpuseg s1 c) (kvm s1)) (\<lambda>(k, v).
           Ok (upd_proc p (\<lambda>x. x\<lparr>pstate := RUNNING\<rparr>) (s1\<lparr>cpuseg := (cpuseg s1)(c := k), kvm := v\<rparr>))))"

text \<open>One pass over the table. \<open>run p\<close> is everything that happens from the switch to process \<open>p\<close> until it
  switches back; the list is the processes that were run.\<close>

fun scheduler_pass :: "(nat \<Rightarrow> 'd kernel \<Rightarrow> 'd kernel) \<Rightarrow> nat \<Rightarrow> nat list \<Rightarrow> 'd kernel \<Rightarrow> (nat list \<times> 'd kernel) outcome" where
  "scheduler_pass run c [] s = Ok ([], s)"
| "scheduler_pass run c (p # ps) s =
     (if pstate (procs s p) \<noteq> RUNNABLE then scheduler_pass run c ps s
      else andthen (dispatch c p s) (\<lambda>s1.
           andthen (scheduler_pass run c ps (to_scheduler c (run p s1))) (\<lambda>(ds, s2). Ok (p # ds, s2))))"

definition scheduler :: "(nat \<Rightarrow> 'd kernel \<Rightarrow> 'd kernel) \<Rightarrow> nat \<Rightarrow> 'd kernel \<Rightarrow> (nat list \<times> 'd kernel) outcome" where
  "scheduler run c s = scheduler_pass run c [0..<NPROC] (s\<lparr>cpuproc := (cpuproc s)(c := None)\<rparr>)"

definition totalTickets :: "'d kernel \<Rightarrow> int" where
  "totalTickets s = sum_list (map (\<lambda>p. tickets (procs s p)) (filter (\<lambda>p. pstate (procs s p) = RUNNABLE) [0..<NPROC]))"

fun lottery_pass ::
    "(nat \<Rightarrow> 'd kernel \<Rightarrow> 'd kernel) \<Rightarrow> nat \<Rightarrow> nat list \<Rightarrow> rand \<Rightarrow> 'd kernel \<Rightarrow> (nat list \<times> rand \<times> 'd kernel) outcome" where
  "lottery_pass run c [] rnd s = Ok ([], rnd, s)"
| "lottery_pass run c (p # ps) rnd s =
     (if pstate (procs s p) \<noteq> RUNNABLE then lottery_pass run c ps rnd s
      else (case random_at_most (word_of_int (totalTickets s)) rnd of
              None \<Rightarrow> Hang
            | Some (draw, rnd1) \<Rightarrow>
                if sint draw \<ge> 0 then lottery_pass run c ps rnd1 s
                else andthen (dispatch c p s) (\<lambda>s1.
                     andthen (lottery_pass run c ps rnd1 (to_scheduler c (run p s1))) (\<lambda>(ds, rnd2, s2). Ok (p # ds, rnd2, s2)))))"

text \<open>One choice of the \<^verbatim>\<open>MFQ\<close> scheduler: it serves the first queue that is not empty, from its front. After the
  process has run it starts again at queue 0.\<close>

definition mfq_take :: "nat \<Rightarrow> 'd kernel \<Rightarrow> nat option \<times> 'd kernel" where
  "mfq_take k s =
     (let b = NPROC * k
      in (que s b,
          s\<lparr>que := fold (\<lambda>i q. q(b + i := q (b + i + 1))) [0..<nat (priCount s k)] (que s),
            priCount := (priCount s)(k := priCount s k - 1)\<rparr>))"

definition mfq_step :: "(nat \<Rightarrow> 'd kernel \<Rightarrow> 'd kernel) \<Rightarrow> nat \<Rightarrow> 'd kernel \<Rightarrow> 'd kernel outcome" where
  "mfq_step run c s =
     (case find (\<lambda>k. priCount s k > -1) [0..<3] of
        None \<Rightarrow> Ok s
      | Some k \<Rightarrow>
          (case mfq_take k s of
             (None, s1) \<Rightarrow> Panic ''switchuvm: no process''
           | (Some p, s1) \<Rightarrow> andthen (dispatch c p s1) (\<lambda>s2. Ok (to_scheduler c (run p s2)))))"

text \<open>The stores that put a process at the end of queue \<open>k\<close>.\<close>

definition mfq_put :: "nat \<Rightarrow> nat \<Rightarrow> 'd kernel \<Rightarrow> 'd kernel" where
  "mfq_put k p s =
     (let n = priCount s k + 1
      in s\<lparr>priCount := (priCount s)(k := n), que := (que s)(NPROC * k + nat n := Some p)\<rparr>)"

section \<open>Accounting\<close>

text \<open>\<^verbatim>\<open>resetPriority\<close> for one process. The search loop leaves after its first round, so only the front of the queue is
  looked at. An index outside \<^verbatim>\<open>que\<close> has no defined effect.\<close>

definition reset_one :: "nat \<Rightarrow> 'd kernel \<Rightarrow> 'd kernel outcome" where
  "reset_one p s =
     (if pstate (procs s p) = RUNNABLE
      then
        if priority (procs s p) < 0 \<or> priority (procs s p) > PRIORITY_MAX then Hang
        else
          let k = nat (priority (procs s p)); b = NPROC * k
          in if que s b = Some p \<and> int b + priCount s k \<ge> int (3 * NPROC) then Hang
             else
               let s1 = (if que s b = Some p then snd (mfq_take k s) else s);
                   s2 = upd_proc p (\<lambda>x. x\<lparr>priority := 0\<rparr>) s1;
                   n = priCount s2 0 + 1
               in if n < 0 \<or> n \<ge> int (3 * NPROC) then Hang else Ok (mfq_put 0 p s2)
      else Ok (upd_proc p (\<lambda>x. x\<lparr>priority := 0\<rparr>) s))"

definition resetPriority :: "'d kernel \<Rightarrow> 'd kernel outcome" where
  "resetPriority s = for_loop [0..<NPROC] reset_one s"

definition account :: "proc \<Rightarrow> proc" where
  "account x =
     (case pstate x of
        SLEEPING \<Rightarrow> x\<lparr>stime := stime x + 1\<rparr>
      | RUNNABLE \<Rightarrow> x\<lparr>retime := retime x + 1\<rparr>
      | RUNNING \<Rightarrow> x\<lparr>rutime := rutime x + 1\<rparr>
      | _ \<Rightarrow> x)"

definition updateStats :: "'d kernel \<Rightarrow> 'd kernel" where
  "updateStats s = fold (\<lambda>p s. upd_proc p account s) [0..<NPROC] s"

record pstat =
  ps_inuse :: "int list"
  ps_pid :: "int list"
  ps_priority :: "int list"
  ps_state :: "procstate list"

definition getpinfo :: "'d kernel \<Rightarrow> pstat" where
  "getpinfo s =
     (let x = (\<lambda>i. procs s i); is = [0..<NPROC]
      in \<lparr>ps_inuse = map (\<lambda>i. if pstate (x i) \<noteq> UNUSED then 1 else 0) is, ps_pid = map (\<lambda>i. pid (x i)) is,
          ps_priority = map (\<lambda>i. priority (x i)) is, ps_state = map (\<lambda>i. pstate (x i)) is\<rparr>)"

section \<open>Listings\<close>

text \<open>The output of the listings as the sequence of calls of \<^verbatim>\<open>cprintf\<close>: the format and the arguments.\<close>

datatype print_arg = Bytes "uchar list" | Word string | Num int | Hex uint

type_synonym print_call = "string \<times> print_arg list"

definition line :: "string \<Rightarrow> string" where
  "line f = f @ [CHR 0x0A]"

definition state_name :: "procstate \<Rightarrow> string" where
  "state_name st =
     (case st of UNUSED \<Rightarrow> ''UNUSED'' | EMBRYO \<Rightarrow> ''EMBRYO'' | SLEEPING \<Rightarrow> ''SLEEPING'' | RUNNABLE \<Rightarrow> ''RUNNABLE''
      | RUNNING \<Rightarrow> ''RUNNING'' | ZOMBIE \<Rightarrow> ''ZOMBIE'')"

partial_function (option) pdump_parents :: "'d kernel \<Rightarrow> nat \<Rightarrow> print_call list \<Rightarrow> print_call list option" where
  "pdump_parents s q out =
     (let out1 = out @ [(''[ %s ]'', [Bytes (pname (procs s q))])]
      in case parent (procs s q) of
           None \<Rightarrow> Some out1
         | Some r \<Rightarrow> pdump_parents s r (out1 @ [(''->'', [])]))"

definition pdump_proc :: "'d kernel \<Rightarrow> nat \<Rightarrow> print_call list \<Rightarrow> print_call list option" where
  "pdump_proc s p out =
     (let x = procs s p
      in if pstate x = UNUSED then Some out
         else
           let out1 = out @ [(line ''[ %s ]'', [Bytes (pname x)]), (line ''    -> State:     %s'', [Word (state_name (pstate x))]),
                             (line ''    -> PID:       %d'', [Num (pid x)]), (''    -> Parent:    '', [])]
           in Option.bind
                (case parent x of
                   None \<Rightarrow> Some (out1 @ [(''In the beginning there was init and none were before him.'', [])])
                 | Some q \<Rightarrow> pdump_parents s q out1)
                (\<lambda>out2. Some (out2 @ [(line [], []), (line ''    -> Killed:    %d'', [Num (if killed x then 1 else 0)]),
                   (line ''    -> Priority:  %d'', [Num (priority x)]), (line ''    -> Ctime:     %d'', [Num (sint (ctime x))]),
                   (line ''    -> Stime:     %d'', [Num (stime x)]), (line ''    -> Rutime:    %d'', [Num (retime x)]),
                   (line ''    -> Retime:    %d'', [Num (rutime x)]), (line ''-------------------------------------------'', [])])))"

definition pdump :: "'d kernel \<Rightarrow> print_call list option" where
  "pdump s = fold (\<lambda>p r. Option.bind r (pdump_proc s p)) [0..<NPROC] (Some [])"

definition procdump_state :: "procstate \<Rightarrow> string" where
  "procdump_state st =
     (case st of UNUSED \<Rightarrow> ''unused'' | EMBRYO \<Rightarrow> ''embryo'' | SLEEPING \<Rightarrow> ''sleep '' | RUNNABLE \<Rightarrow> ''runble''
      | RUNNING \<Rightarrow> ''run   '' | ZOMBIE \<Rightarrow> ''zombie'')"

text \<open>\<open>load\<close> reads a word of kernel memory.\<close>

definition procdump_proc :: "(uint \<Rightarrow> uint) \<Rightarrow> proc \<Rightarrow> print_call list" where
  "procdump_proc load x =
     (if pstate x = UNUSED then []
      else
        (''%d %s %s'', [Num (pid x), Word (procdump_state (pstate x)), Bytes (pname x)]) #
        (if pstate x = SLEEPING
         then map (\<lambda>pc. ('' %p'', [Hex pc])) (takeWhile (\<lambda>pc. pc \<noteq> 0) (getcallerpcs load (load (pcontext x + 12) + 8)))
         else []) @
        [(line [], [])])"

definition procdump :: "(uint \<Rightarrow> uint) \<Rightarrow> 'd kernel \<Rightarrow> print_call list" where
  "procdump load s = concat (map (\<lambda>p. procdump_proc load (procs s p)) [0..<NPROC])"

end
