(* ===== verification/Proc_Table.thy ===== *)
theory Proc_Table
  imports Proc
begin

text \<open>
  What the operations of \<^verbatim>\<open>proc.c\<close> do to the process table. The loops over the table are put into closed form;
  the operations on files and on memory are shown to leave the table alone (\<open>same_table\<close>).
\<close>

section \<open>Loops over the table\<close>

lemma upd_proc_simps [simp]:
  "procs (upd_proc p f s) = (procs s)(p := f (procs s p))"
  "cpuproc (upd_proc p f s) = cpuproc s" "initproc (upd_proc p f s) = initproc s" "nextpid (upd_proc p f s) = nextpid s"
  "que (upd_proc p f s) = que s" "priCount (upd_proc p f s) = priCount s" "ticks (upd_proc p f s) = ticks s"
  "kvm (upd_proc p f s) = kvm s" "fsys (upd_proc p f s) = fsys s" "ftable (upd_proc p f s) = ftable s" "first (upd_proc p f s) = first s"
  by (simp_all add: upd_proc_def)

lemma set_km_simps [simp]:
  "procs (set_km m s) = procs s" "cpuproc (set_km m s) = cpuproc s" "initproc (set_km m s) = initproc s"
  "nextpid (set_km m s) = nextpid s" "que (set_km m s) = que s" "priCount (set_km m s) = priCount s" "ticks (set_km m s) = ticks s"
  by (simp_all add: set_km_def)

definition woken :: "channel \<Rightarrow> proc \<Rightarrow> proc" where
  "woken ch x = (if pstate x = SLEEPING \<and> chan x = ch then x\<lparr>pstate := RUNNABLE\<rparr> else x)"

lemma fold_upd_proc:
  assumes "\<And>p s. f p s = (if P (procs s p) then upd_proc p g s else s)"
  shows "fold f [0..<n] s = s\<lparr>procs := (\<lambda>i. if i < n \<and> P (procs s i) then g (procs s i) else procs s i)\<rparr>"
  by (induction n) (auto simp: assms upd_proc_def fun_eq_iff intro!: kernel.equality)

lemma wakeup1_eq: "wakeup1 ch s = s\<lparr>procs := (\<lambda>i. if i < NPROC then woken ch (procs s i) else procs s i)\<rparr>"
  unfolding wakeup1_def
  by (subst fold_upd_proc [where P = "\<lambda>x. pstate x = SLEEPING \<and> chan x = ch" and g = "\<lambda>x. x\<lparr>pstate := RUNNABLE\<rparr>"])
    (auto simp: woken_def fun_eq_iff intro!: kernel.equality)

lemma updateStats_eq: "updateStats s = s\<lparr>procs := (\<lambda>i. if i < NPROC then account (procs s i) else procs s i)\<rparr>"
  unfolding updateStats_def by (subst fold_upd_proc [where P = "\<lambda>_. True" and g = account]) (auto intro!: kernel.equality)

lemma woken_simps [simp]:
  "parent (woken ch x) = parent x" "pid (woken ch x) = pid x" "chan (woken ch x) = chan x" "killed (woken ch x) = killed x"
  "pstate (woken ch x) = (if pstate x = SLEEPING \<and> chan x = ch then RUNNABLE else pstate x)"
  by (auto simp: woken_def)

text \<open>The effect of \<^verbatim>\<open>exit\<close> on the table.\<close>

definition adopted :: "nat \<Rightarrow> nat option \<Rightarrow> proc \<Rightarrow> proc" where
  "adopted cur ini x = (if parent x = Some cur then x\<lparr>parent := ini\<rparr> else x)"

lemma adopted_simps [simp]:
  "pstate (adopted cur ini x) = pstate x" "pid (adopted cur ini x) = pid x" "chan (adopted cur ini x) = chan x"
  "parent (adopted cur ini x) = (if parent x = Some cur then ini else parent x)" "killed (adopted cur ini x) = killed x"
  by (auto simp: adopted_def)

lemma exit_children_loop:
  assumes "n \<le> NPROC" and "initproc s \<noteq> Some cur"
  shows "fold (exit_child cur) [0..<n] s = s\<lparr>procs := (\<lambda>i.
    let x = (if i < n then adopted cur (initproc s) (procs s i) else procs s i)
    in if i < NPROC \<and> (\<exists>p < n. parent (procs s p) = Some cur \<and> pstate (procs s p) = ZOMBIE) then woken (proc_chan (initproc s)) x else x)\<rparr>"
  using assms(1)
proof (induction n)
  case (Suc n)
  let ?Z = "\<lambda>n. \<exists>p < n. parent (procs s p) = Some cur \<and> pstate (procs s p) = ZOMBIE"
  define z where "z \<longleftrightarrow> ?Z n"
  define F where "F = (\<lambda>i. let x = (if i < n then adopted cur (initproc s) (procs s i) else procs s i)
      in if i < NPROC \<and> z then woken (proc_chan (initproc s)) x else x)"
  define G where "G = (\<lambda>i. let x = (if i < Suc n then adopted cur (initproc s) (procs s i) else procs s i)
      in if i < NPROC \<and> ?Z (Suc n) then woken (proc_chan (initproc s)) x else x)"
  have Fn: "parent (F n) = parent (procs s n)" "pstate (F n) = ZOMBIE \<longleftrightarrow> pstate (procs s n) = ZOMBIE"
    by (simp_all add: F_def Let_def)
  have Z: "?Z (Suc n) \<longleftrightarrow> z \<or> parent (procs s n) = Some cur \<and> pstate (procs s n) = ZOMBIE" unfolding z_def by (auto simp: less_Suc_eq)
  have "fold (exit_child cur) [0..<Suc n] s = exit_child cur n (s\<lparr>procs := F\<rparr>)"
    using Suc by (simp add: F_def z_def)
  also have "\<dots> = s\<lparr>procs := G\<rparr>"
  proof (cases "parent (procs s n) = Some cur")
    case False
    then have "G = F" unfolding G_def F_def Z by (auto simp: fun_eq_iff less_Suc_eq adopted_def)
    then show ?thesis using False Fn by (simp add: exit_child_def)
  next
    case True
    have "n < NPROC" using Suc.prems by simp
    show ?thesis
    proof (cases "pstate (procs s n) = ZOMBIE")
      case z: True
      have "G = (\<lambda>i. if i < NPROC then woken (proc_chan (initproc s)) ((F(n := (F n)\<lparr>parent := initproc s\<rparr>)) i) else F i)"
        unfolding G_def F_def Z using True z \<open>n < NPROC\<close> by (auto simp: fun_eq_iff less_Suc_eq adopted_def woken_def Let_def)
      then show ?thesis using True z Fn \<open>n < NPROC\<close> by (auto simp: exit_child_def wakeup1_eq upd_proc_def Let_def fun_eq_iff intro!: kernel.equality)
    next
      case z: False
      have "G = F(n := (F n)\<lparr>parent := initproc s\<rparr>)"
        unfolding G_def F_def Z using True z \<open>n < NPROC\<close> by (auto simp: fun_eq_iff less_Suc_eq adopted_def woken_def Let_def)
      then show ?thesis using True z Fn by (simp add: exit_child_def upd_proc_def Let_def)
    qed
  qed
  finally show ?case unfolding G_def .
qed (simp add: Let_def)

lemma exit_children_eq:
  assumes "initproc s \<noteq> Some cur"
  shows "exit_children cur s = s\<lparr>procs := (\<lambda>i.
    if i < NPROC
    then (let x = adopted cur (initproc s) (procs s i)
          in if \<exists>p < NPROC. parent (procs s p) = Some cur \<and> pstate (procs s p) = ZOMBIE then woken (proc_chan (initproc s)) x else x)
    else procs s i)\<rparr>"
  unfolding exit_children_def by (subst exit_children_loop [OF le_refl assms]) (auto simp: fun_eq_iff Let_def intro!: kernel.equality)

section \<open>Operations that leave the table alone\<close>

text \<open>The fields of a process that the scheduling of the system depends on, and states that agree on them.\<close>

definition control :: "proc \<Rightarrow> procstate \<times> int \<times> nat option \<times> channel" where
  "control x = (pstate x, pid x, parent x, chan x)"

definition same_table :: "'d kernel \<Rightarrow> 'd kernel \<Rightarrow> bool" where
  "same_table s s' \<longleftrightarrow> (\<forall>i. control (procs s' i) = control (procs s i)) \<and> cpuproc s' = cpuproc s \<and>
     initproc s' = initproc s \<and> nextpid s' = nextpid s"

lemma same_table_refl: "same_table s s"
  by (simp add: same_table_def)

lemma same_table_trans: "same_table s t \<Longrightarrow> same_table t u \<Longrightarrow> same_table s u"
  by (simp add: same_table_def)

lemma same_tableD:
  assumes "same_table s s'"
  shows "pstate (procs s' i) = pstate (procs s i)" "pid (procs s' i) = pid (procs s i)" "parent (procs s' i) = parent (procs s i)"
    "chan (procs s' i) = chan (procs s i)" "cpuproc s' = cpuproc s" "initproc s' = initproc s" "nextpid s' = nextpid s"
  using assms by (auto simp: same_table_def control_def)

lemma same_table_procs:
  "procs s' = procs s \<Longrightarrow> cpuproc s' = cpuproc s \<Longrightarrow> initproc s' = initproc s \<Longrightarrow> nextpid s' = nextpid s \<Longrightarrow> same_table s s'"
  by (simp add: same_table_def)

lemma same_table_upd: "control (f (procs s p)) = control (procs s p) \<Longrightarrow> same_table s (upd_proc p f s)"
  by (simp add: same_table_def)

lemma for_loop_same_table:
  assumes "\<And>i s s'. i \<in> set xs \<Longrightarrow> f i s = Ok s' \<Longrightarrow> same_table s s'"
  shows "for_loop xs f s = Ok s' \<Longrightarrow> same_table s s'"
  using assms
proof (induction xs arbitrary: s)
  case (Cons i xs)
  then obtain t where t: "f i s = Ok t" "for_loop xs f t = Ok s'" by (auto simp: outcome_simps)
  have "same_table t s'" using Cons.IH [OF t(2)] Cons.prems(2) by (meson list.set_intros(2))
  moreover have "same_table s t" by (rule Cons.prems(2) [OF _ t(1)]) simp
  ultimately show ?case by (rule same_table_trans [rotated])
qed (simp add: same_table_refl)

lemma do_fs_same_table: "do_fs g s = Ok s' \<Longrightarrow> same_table s s'"
  by (auto simp: do_fs_def outcome_simps intro!: same_table_procs)

lemma fileclose_same_table: "fileclose p f s = Ok s' \<Longrightarrow> same_table s s'"
  by (auto simp: fileclose_def Let_def upd_file_def kpipeclose_def outcome_simps split: if_splits file_type.splits prod.splits
      dest!: do_fs_same_table intro!: same_table_procs elim!: same_table_trans [rotated])

lemma exit_file_same_table: "exit_file cur fd s = Ok s' \<Longrightarrow> same_table s s'"
  by (auto simp: exit_file_def outcome_simps control_def split: option.splits dest!: fileclose_same_table
      intro: same_table_refl intro!: same_table_trans [OF _ same_table_upd])

lemma fork_files_same_table: "fork_files cur np i s = Ok s' \<Longrightarrow> same_table s s'"
  by (auto simp: fork_files_def filedup_def upd_file_def outcome_simps control_def same_table_def split: option.splits if_splits)

end
