(* ===== verification/Proc_Inv.thy ===== *)
theory Proc_Inv
  imports Proc_Table
begin

text \<open>
  The invariant of the process table. \<open>kstep\<close> is the interleaving of all processors: each of its steps is one
  critical section of \<^verbatim>\<open>ptable.lock\<close>. A configuration has the kernel state and, for each process inside \<^verbatim>\<open>fork\<close>, the
  slot it is filling, which is \<^verbatim>\<open>EMBRYO\<close> between the two critical sections of the call. The invariant is stated on
  the control fields of the slots and has four parts: processors, process ids, families and waiting parents.
\<close>

section \<open>The invariant\<close>

definition active :: "procstate \<Rightarrow> bool" where
  "active x \<longleftrightarrow> x = SLEEPING \<or> x = RUNNABLE \<or> x = RUNNING"

definition cpu_ok :: "(nat \<Rightarrow> nat option) \<Rightarrow> (nat \<Rightarrow> procstate) \<Rightarrow> bool" where
  "cpu_ok cp st \<longleftrightarrow> (\<forall>c p. cp c = Some p \<longrightarrow> p < NPROC \<and> st p = RUNNING) \<and>
     (\<forall>c d p. cp c = Some p \<and> cp d = Some p \<longrightarrow> c = d) \<and> (\<forall>p < NPROC. st p = RUNNING \<longrightarrow> (\<exists>c. cp c = Some p))"

definition pid_ok :: "(nat \<Rightarrow> procstate) \<Rightarrow> (nat \<Rightarrow> int) \<Rightarrow> int \<Rightarrow> bool" where
  "pid_ok st pd n \<longleftrightarrow> 0 < n \<and> (\<forall>p < NPROC. st p \<noteq> UNUSED \<longrightarrow> 0 < pd p \<and> pd p < n) \<and>
     (\<forall>p < NPROC. \<forall>q < NPROC. st p \<noteq> UNUSED \<and> st q \<noteq> UNUSED \<and> pd p = pd q \<longrightarrow> p = q)"

definition family_ok :: "(nat \<Rightarrow> procstate) \<Rightarrow> (nat \<Rightarrow> nat option) \<Rightarrow> nat option \<Rightarrow> (nat \<Rightarrow> nat option) \<Rightarrow> bool" where
  "family_ok st par ini emb \<longleftrightarrow>
     (\<exists>i < NPROC. ini = Some i \<and> active (st i) \<and> par i = None) \<and>
     (\<forall>p < NPROC. \<forall>q. par p = Some q \<longrightarrow> q < NPROC \<and> q \<noteq> p \<and> active (st q) \<and> st p \<noteq> UNUSED \<and> st p \<noteq> EMBRYO) \<and>
     (\<forall>p < NPROC. (active (st p) \<or> st p = ZOMBIE) \<and> ini \<noteq> Some p \<longrightarrow> par p \<noteq> None) \<and>
     (\<forall>p < NPROC. st p = EMBRYO \<longrightarrow> (\<exists>q. emb q = Some p)) \<and>
     (\<forall>p q. emb q = Some p \<longrightarrow> q < NPROC \<and> active (st q) \<and> p < NPROC \<and> st p = EMBRYO) \<and>
     (\<forall>p q r. emb q = Some p \<and> emb r = Some p \<longrightarrow> q = r)"

text \<open>A process asleep in \<^verbatim>\<open>wait\<close> has a child, and none of its children is a zombie.\<close>

definition wait_ok :: "(nat \<Rightarrow> procstate) \<Rightarrow> (nat \<Rightarrow> nat option) \<Rightarrow> (nat \<Rightarrow> channel) \<Rightarrow> bool" where
  "wait_ok st par ch \<longleftrightarrow> (\<forall>q < NPROC. \<forall>r. st q = SLEEPING \<and> ch q = ProcChan r \<longrightarrow>
     r = q \<and> (\<exists>p < NPROC. par p = Some q) \<and> (\<forall>p < NPROC. par p = Some q \<longrightarrow> st p \<noteq> ZOMBIE))"

definition proc_inv :: "'d kernel \<Rightarrow> (nat \<Rightarrow> nat option) \<Rightarrow> bool" where
  "proc_inv s emb \<longleftrightarrow>
     cpu_ok (cpuproc s) (\<lambda>i. pstate (procs s i)) \<and>
     pid_ok (\<lambda>i. pstate (procs s i)) (\<lambda>i. pid (procs s i)) (nextpid s) \<and>
     family_ok (\<lambda>i. pstate (procs s i)) (\<lambda>i. parent (procs s i)) (initproc s) emb \<and>
     wait_ok (\<lambda>i. pstate (procs s i)) (\<lambda>i. parent (procs s i)) (\<lambda>i. chan (procs s i))"

section \<open>Steps\<close>

inductive kstep :: "uint \<Rightarrow> uint \<Rightarrow> 'd kernel \<times> (nat \<Rightarrow> nat option) \<Rightarrow> 'd kernel \<times> (nat \<Rightarrow> nat option) \<Rightarrow> bool" for ta fa where
  fork_begin: "cpuproc s c = Some cur \<Longrightarrow> emb cur = None \<Longrightarrow> allocproc ta fa s = Ok (Some np, s') \<Longrightarrow>
    kstep ta fa (s, emb) (s', emb(cur := Some np))"
| fork_fail: "cpuproc s c = Some cur \<Longrightarrow> allocproc ta fa s = Ok (None, s') \<Longrightarrow> kstep ta fa (s, emb) (s', emb)"
| fork_end: "cpuproc s c = Some cur \<Longrightarrow> emb cur = Some np \<Longrightarrow> fork_finish cur np s = Ok (r, s') \<Longrightarrow>
    kstep ta fa (s, emb) (s', emb(cur := None))"
| fork_abort: "cpuproc s c = Some cur \<Longrightarrow> emb cur = Some np \<Longrightarrow> fork_undo np s = Ok (r, s') \<Longrightarrow>
    kstep ta fa (s, emb) (s', emb(cur := None))"
| exits: "cpuproc s c = Some cur \<Longrightarrow> emb cur = None \<Longrightarrow> initproc s \<noteq> Some cur \<Longrightarrow>
    switch_away c cur (exit_table cur s) = Ok s' \<Longrightarrow> kstep ta fa (s, emb) (s', emb)"
| waits: "cpuproc s c = Some cur \<Longrightarrow> wait c cur s = Ok (r, s') \<Longrightarrow> kstep ta fa (s, emb) (s', emb)"
| testwaits: "cpuproc s c = Some cur \<Longrightarrow> testwait c cur s = Ok (r, s') \<Longrightarrow> kstep ta fa (s, emb) (s', emb)"
| sleeps: "cpuproc s c = Some cur \<Longrightarrow> \<forall>r. ch \<noteq> ProcChan r \<Longrightarrow> sleep c (Some cur) ch True s = Ok s' \<Longrightarrow>
    kstep ta fa (s, emb) (s', emb)"
| sleep_ends: "cpuproc s c = Some cur \<Longrightarrow> kstep ta fa (s, emb) (sleep_end cur s, emb)"
| wakes: "kstep ta fa (s, emb) (wakeup ch s, emb)"
| kills: "kstep ta fa (s, emb) (snd (kill n s), emb)"
| yields: "cpuproc s c = Some cur \<Longrightarrow> yield c cur s = Ok s' \<Longrightarrow> kstep ta fa (s, emb) (s', emb)"
| dispatches: "cpuproc s c = None \<Longrightarrow> p < NPROC \<Longrightarrow> pstate (procs s p) = RUNNABLE \<Longrightarrow> dispatch c p s = Ok s' \<Longrightarrow>
    kstep ta fa (s, emb) (s', emb)"
| others: "same_table s s' \<Longrightarrow> kstep ta fa (s, emb) (s', emb)"

text \<open>The table after \<^verbatim>\<open>userinit\<close>: one process, runnable, on no processor.\<close>

definition boot_table :: "'d kernel \<Rightarrow> bool" where
  "boot_table s \<longleftrightarrow> (\<exists>i < NPROC. initproc s = Some i \<and> pstate (procs s i) = RUNNABLE \<and> 0 < pid (procs s i) \<and> pid (procs s i) < nextpid s \<and>
     (\<forall>p < NPROC. p \<noteq> i \<longrightarrow> pstate (procs s p) = UNUSED)) \<and>
     (\<forall>p < NPROC. parent (procs s p) = None) \<and> (\<forall>c. cpuproc s c = None)"

inductive kreach :: "uint \<Rightarrow> uint \<Rightarrow> 'd kernel \<times> (nat \<Rightarrow> nat option) \<Rightarrow> bool" for ta fa where
  kreach_boot: "boot_table s \<Longrightarrow> kreach ta fa (s, \<lambda>_. None)"
| kreach_step: "kreach ta fa x \<Longrightarrow> kstep ta fa x y \<Longrightarrow> kreach ta fa y"

section \<open>Processors and process ids\<close>

lemma cpu_leave:
  "cpu_ok cp st \<Longrightarrow> cp c = Some p \<Longrightarrow> x \<noteq> RUNNING \<Longrightarrow> cpu_ok (cp(c := None)) (st(p := x))"
  by (auto simp: cpu_ok_def) (metis option.inject)

lemma cpu_enter:
  assumes ok: "cpu_ok cp st" and c: "cp c = None" and p: "p < NPROC" "st p = RUNNABLE"
  shows "cpu_ok (cp(c := Some p)) (st(p := RUNNING))"
proof -
  have "cp d \<noteq> Some p" for d using ok p(2) by (auto simp: cpu_ok_def)
  moreover have "\<exists>d. d \<noteq> c \<and> cp d = Some q" if "q < NPROC" "st q = RUNNING" for q using ok c that unfolding cpu_ok_def by (metis option.distinct(1))
  ultimately show ?thesis using ok p(1) unfolding cpu_ok_def by (simp add: fun_upd_apply) blast
qed

lemma cpu_still:
  "cpu_ok cp st \<Longrightarrow> \<forall>i < NPROC. st' i = RUNNING \<longleftrightarrow> st i = RUNNING \<Longrightarrow> cpu_ok cp st'"
  by (auto simp: cpu_ok_def)

lemma pid_still:
  "pid_ok st pd n \<Longrightarrow> \<forall>i < NPROC. st' i \<noteq> UNUSED \<longrightarrow> st i \<noteq> UNUSED \<and> pd' i = pd i \<Longrightarrow> n \<le> n' \<Longrightarrow> pid_ok st' pd' n'"
  unfolding pid_ok_def by (metis order_less_le_trans)

lemma pid_new:
  "pid_ok st pd n \<Longrightarrow> st p = UNUSED \<Longrightarrow> pid_ok (st(p := x)) (pd(p := n)) (n + 1)"
  unfolding pid_ok_def by (auto simp: less_imp_neq)

section \<open>Families\<close>

lemma active_simps [simp]: "active SLEEPING" "active RUNNABLE" "active RUNNING" "\<not> active UNUSED" "\<not> active EMBRYO" "\<not> active ZOMBIE"
  by (simp_all add: active_def)

lemma family_okD:
  assumes "family_ok st par ini emb"
  shows "\<exists>i < NPROC. ini = Some i \<and> active (st i) \<and> par i = None"
    "p < NPROC \<Longrightarrow> par p = Some q \<Longrightarrow> q < NPROC \<and> q \<noteq> p \<and> active (st q) \<and> st p \<noteq> UNUSED \<and> st p \<noteq> EMBRYO"
    "p < NPROC \<Longrightarrow> active (st p) \<or> st p = ZOMBIE \<Longrightarrow> ini \<noteq> Some p \<Longrightarrow> par p \<noteq> None"
    "p < NPROC \<Longrightarrow> st p = EMBRYO \<Longrightarrow> \<exists>q. emb q = Some p"
    "emb q = Some p \<Longrightarrow> q < NPROC \<and> active (st q) \<and> p < NPROC \<and> st p = EMBRYO"
    "emb q = Some p \<Longrightarrow> emb r = Some p \<Longrightarrow> q = r"
  using assms unfolding family_ok_def by blast+

lemma family_okI:
  assumes "i < NPROC" "ini = Some i" "active (st i)" "par i = None"
    and "\<And>p q. p < NPROC \<Longrightarrow> par p = Some q \<Longrightarrow> q < NPROC \<and> q \<noteq> p \<and> active (st q) \<and> st p \<noteq> UNUSED \<and> st p \<noteq> EMBRYO"
    and "\<And>p. p < NPROC \<Longrightarrow> active (st p) \<or> st p = ZOMBIE \<Longrightarrow> ini \<noteq> Some p \<Longrightarrow> par p \<noteq> None"
    and "\<And>p. p < NPROC \<Longrightarrow> st p = EMBRYO \<Longrightarrow> \<exists>q. emb q = Some p"
    and "\<And>p q. emb q = Some p \<Longrightarrow> q < NPROC \<and> active (st q) \<and> p < NPROC \<and> st p = EMBRYO"
    and "\<And>p q r. emb q = Some p \<Longrightarrow> emb r = Some p \<Longrightarrow> q = r"
  shows "family_ok st par ini emb"
  unfolding family_ok_def
proof (intro conjI)
  show "\<exists>i < NPROC. ini = Some i \<and> active (st i) \<and> par i = None" using assms(1-4) by blast
  show "\<forall>p < NPROC. \<forall>q. par p = Some q \<longrightarrow> q < NPROC \<and> q \<noteq> p \<and> active (st q) \<and> st p \<noteq> UNUSED \<and> st p \<noteq> EMBRYO"
    by (intro allI impI) (rule assms(5))
  show "\<forall>p < NPROC. (active (st p) \<or> st p = ZOMBIE) \<and> ini \<noteq> Some p \<longrightarrow> par p \<noteq> None" by (intro allI impI, elim conjE) (rule assms(6))
  show "\<forall>p < NPROC. st p = EMBRYO \<longrightarrow> (\<exists>q. emb q = Some p)" by (intro allI impI) (rule assms(7))
  show "\<forall>p q. emb q = Some p \<longrightarrow> q < NPROC \<and> active (st q) \<and> p < NPROC \<and> st p = EMBRYO" by (intro allI impI) (rule assms(8))
  show "\<forall>p q r. emb q = Some p \<and> emb r = Some p \<longrightarrow> q = r" by (intro allI impI, elim conjE) (rule assms(9))
qed

lemma family_still:
  assumes f: "family_ok st par ini emb" and e: "\<forall>i < NPROC. st' i = st i \<or> active (st i) \<and> active (st' i)"
  shows "family_ok st' par ini emb"
proof -
  have c: "active (st' i) = active (st i)" "st' i = UNUSED \<longleftrightarrow> st i = UNUSED" "st' i = EMBRYO \<longleftrightarrow> st i = EMBRYO" "st' i = ZOMBIE \<longleftrightarrow> st i = ZOMBIE"
    if "i < NPROC" for i using e that by (auto simp: active_def)
  obtain i where i: "i < NPROC" "ini = Some i" "active (st i)" "par i = None" using family_okD(1) [OF f] by blast
  show ?thesis
  proof (rule family_okI [of i])
    fix p q
    assume "p < NPROC" "par p = Some q"
    then show "q < NPROC \<and> q \<noteq> p \<and> active (st' q) \<and> st' p \<noteq> UNUSED \<and> st' p \<noteq> EMBRYO" using family_okD(2) [OF f] c by blast
  next
    fix p q
    assume "emb q = Some p"
    then show "q < NPROC \<and> active (st' q) \<and> p < NPROC \<and> st' p = EMBRYO" using family_okD(5) [OF f] c by blast
  next
    fix p
    assume "p < NPROC" "active (st' p) \<or> st' p = ZOMBIE" "ini \<noteq> Some p"
    then show "par p \<noteq> None" using family_okD(3) [OF f, of p] c by simp
  next
    fix p
    assume "p < NPROC" "st' p = EMBRYO"
    then show "\<exists>q. emb q = Some p" using family_okD(4) [OF f, of p] c by simp
  next
    fix p q r
    assume "emb q = Some p" "emb r = Some p"
    then show "q = r" by (rule family_okD(6) [OF f])
  qed (simp_all add: i c)
qed

lemma family_begin:
  assumes f: "family_ok st par ini emb" and p: "p < NPROC" "st p = UNUSED" and q: "q < NPROC" "active (st q)" "emb q = None"
  shows "family_ok (st(p := EMBRYO)) par ini (emb(q := Some p))"
proof -
  obtain i where i: "i < NPROC" "ini = Some i" "active (st i)" "par i = None" using family_okD(1) [OF f] by blast
  have n: "i \<noteq> p" "q \<noteq> p" using i p q by auto
  have e: "emb r \<noteq> Some p" for r using family_okD(5) [OF f, of r p] p(2) by auto
  show ?thesis
  proof (rule family_okI [of i])
    fix a b
    assume a: "a < NPROC" "par a = Some b"
    note d = family_okD(2) [OF f a]
    then show "b < NPROC \<and> b \<noteq> a \<and> active ((st(p := EMBRYO)) b) \<and> (st(p := EMBRYO)) a \<noteq> UNUSED \<and> (st(p := EMBRYO)) a \<noteq> EMBRYO"
      using p by auto
  next
    fix a
    assume a: "a < NPROC" "(st(p := EMBRYO)) a = EMBRYO"
    show "\<exists>b. (emb(q := Some p)) b = Some a"
    proof (cases "a = p")
      case False
      then obtain b where "emb b = Some a" using family_okD(4) [OF f a(1)] a(2) by auto
      then show ?thesis using q(3) by (intro exI [of _ b]) auto
    qed auto
  next
    fix a b
    assume "(emb(q := Some p)) b = Some a"
    then show "b < NPROC \<and> active ((st(p := EMBRYO)) b) \<and> a < NPROC \<and> (st(p := EMBRYO)) a = EMBRYO"
      using family_okD(5) [OF f, of b a] p q n by (auto split: if_splits)
  next
    fix a
    assume "a < NPROC" "active ((st(p := EMBRYO)) a) \<or> (st(p := EMBRYO)) a = ZOMBIE" "ini \<noteq> Some a"
    then show "par a \<noteq> None" using family_okD(3) [OF f, of a] by (auto split: if_splits)
  next
    fix a b d
    assume "(emb(q := Some p)) b = Some a" "(emb(q := Some p)) d = Some a"
    then show "b = d" using e family_okD(6) [OF f, of b a d] by (auto split: if_splits)
  qed (use i n in simp_all)
qed

lemma family_end:
  assumes f: "family_ok st par ini emb" and e: "emb q = Some p" and x: "active x"
  shows "family_ok (st(p := x)) (par(p := Some q)) ini (emb(q := None))"
proof -
  obtain i where i: "i < NPROC" "ini = Some i" "active (st i)" "par i = None" using family_okD(1) [OF f] by blast
  note q = family_okD(5) [OF f e]
  have n: "i \<noteq> p" "q \<noteq> p" using i q by auto
  have x': "x \<noteq> UNUSED" "x \<noteq> EMBRYO" using x by auto
  show ?thesis
  proof (rule family_okI [of i])
    fix a b
    assume a: "a < NPROC" "(par(p := Some q)) a = Some b"
    then show "b < NPROC \<and> b \<noteq> a \<and> active ((st(p := x)) b) \<and> (st(p := x)) a \<noteq> UNUSED \<and> (st(p := x)) a \<noteq> EMBRYO"
      using q n x x' family_okD(2) [OF f a(1)] by (auto split: if_splits)
  next
    fix a
    assume a: "a < NPROC" "(st(p := x)) a = EMBRYO"
    then have "a \<noteq> p" using x' by auto
    then obtain b where "emb b = Some a" using family_okD(4) [OF f a(1)] a(2) by auto
    then show "\<exists>b. (emb(q := None)) b = Some a" using e \<open>a \<noteq> p\<close> by (intro exI [of _ b]) auto
  next
    fix a b
    assume b: "(emb(q := None)) b = Some a"
    then have "b \<noteq> q" "emb b = Some a" by (auto split: if_splits)
    moreover have "a \<noteq> p" using family_okD(6) [OF f e] calculation by auto
    ultimately show "b < NPROC \<and> active ((st(p := x)) b) \<and> a < NPROC \<and> (st(p := x)) a = EMBRYO"
      using family_okD(5) [OF f, of b a] x by auto
  next
    fix a
    assume "a < NPROC" "active ((st(p := x)) a) \<or> (st(p := x)) a = ZOMBIE" "ini \<noteq> Some a"
    then show "(par(p := Some q)) a \<noteq> None" using family_okD(3) [OF f, of a] by (auto split: if_splits)
  next
    fix a b d
    assume "(emb(q := None)) b = Some a" "(emb(q := None)) d = Some a"
    then show "b = d" using n family_okD(6) [OF f, of b a d] by (auto split: if_splits)
  qed (use i n in simp_all)
qed

lemma family_abort:
  assumes f: "family_ok st par ini emb" and e: "emb q = Some p"
  shows "family_ok (st(p := UNUSED)) par ini (emb(q := None))"
proof -
  obtain i where i: "i < NPROC" "ini = Some i" "active (st i)" "par i = None" using family_okD(1) [OF f] by blast
  note q = family_okD(5) [OF f e]
  have n: "i \<noteq> p" "q \<noteq> p" using i q by auto
  show ?thesis
  proof (rule family_okI [of i])
    fix a b
    assume a: "a < NPROC" "par a = Some b"
    then show "b < NPROC \<and> b \<noteq> a \<and> active ((st(p := UNUSED)) b) \<and> (st(p := UNUSED)) a \<noteq> UNUSED \<and> (st(p := UNUSED)) a \<noteq> EMBRYO"
      using q family_okD(2) [OF f a] by auto
  next
    fix a
    assume a: "a < NPROC" "(st(p := UNUSED)) a = EMBRYO"
    then have "a \<noteq> p" by auto
    then obtain b where "emb b = Some a" using family_okD(4) [OF f a(1)] a(2) by auto
    then show "\<exists>b. (emb(q := None)) b = Some a" using e \<open>a \<noteq> p\<close> by (intro exI [of _ b]) auto
  next
    fix a b
    assume b: "(emb(q := None)) b = Some a"
    then have "b \<noteq> q" "emb b = Some a" by (auto split: if_splits)
    moreover have "a \<noteq> p" using family_okD(6) [OF f e] calculation by auto
    ultimately show "b < NPROC \<and> active ((st(p := UNUSED)) b) \<and> a < NPROC \<and> (st(p := UNUSED)) a = EMBRYO"
      using family_okD(5) [OF f, of b a] q by auto
  next
    fix a
    assume "a < NPROC" "active ((st(p := UNUSED)) a) \<or> (st(p := UNUSED)) a = ZOMBIE" "ini \<noteq> Some a"
    then show "par a \<noteq> None" using family_okD(3) [OF f, of a] by (auto split: if_splits)
  next
    fix a b d
    assume "(emb(q := None)) b = Some a" "(emb(q := None)) d = Some a"
    then show "b = d" using n family_okD(6) [OF f, of b a d] by (auto split: if_splits)
  qed (use i n in simp_all)
qed

lemma family_exit:
  assumes f: "family_ok st par ini emb" and c: "cur < NPROC" "active (st cur)" "ini \<noteq> Some cur" "emb cur = None"
  shows "family_ok (st(cur := ZOMBIE)) (\<lambda>i. if par i = Some cur then ini else par i) ini emb"
proof -
  obtain i where i: "i < NPROC" "ini = Some i" "active (st i)" "par i = None" using family_okD(1) [OF f] by blast
  have n: "i \<noteq> cur" using i c by auto
  show ?thesis
  proof (rule family_okI [of i])
    fix a b
    assume a: "a < NPROC" "(if par a = Some cur then ini else par a) = Some b"
    then obtain d where d: "par a = Some d" by (cases "par a") auto
    have "b \<noteq> a \<and> b \<noteq> cur \<and> b < NPROC \<and> active (st b)" using a(2) d i n family_okD(2) [OF f a(1) d] by (auto split: if_splits)
    then show "b < NPROC \<and> b \<noteq> a \<and> active ((st(cur := ZOMBIE)) b) \<and> (st(cur := ZOMBIE)) a \<noteq> UNUSED \<and> (st(cur := ZOMBIE)) a \<noteq> EMBRYO"
      using family_okD(2) [OF f a(1) d] by auto
  next
    fix a
    assume "a < NPROC" "active ((st(cur := ZOMBIE)) a) \<or> (st(cur := ZOMBIE)) a = ZOMBIE" "ini \<noteq> Some a"
    then show "(if par a = Some cur then ini else par a) \<noteq> None"
      using family_okD(3) [OF f, of a] c i by (auto split: if_splits)
  next
    fix a
    assume "a < NPROC" "(st(cur := ZOMBIE)) a = EMBRYO"
    then show "\<exists>q. emb q = Some a" using family_okD(4) [OF f, of a] by (auto split: if_splits)
  next
    fix a b
    assume b: "emb b = Some a"
    then have "b \<noteq> cur" "a \<noteq> cur" using c family_okD(5) [OF f b] by auto
    then show "b < NPROC \<and> active ((st(cur := ZOMBIE)) b) \<and> a < NPROC \<and> (st(cur := ZOMBIE)) a = EMBRYO"
      using family_okD(5) [OF f b] by auto
  next
    fix a b d
    assume "emb b = Some a" "emb d = Some a"
    then show "b = d" by (rule family_okD(6) [OF f])
  qed (use i n in simp_all)
qed

lemma family_reap:
  assumes f: "family_ok st par ini emb" and p: "p < NPROC" "st p = ZOMBIE"
  shows "family_ok (st(p := UNUSED)) (par(p := None)) ini emb"
proof -
  obtain i where i: "i < NPROC" "ini = Some i" "active (st i)" "par i = None" using family_okD(1) [OF f] by blast
  have n: "i \<noteq> p" using i p by auto
  show ?thesis
  proof (rule family_okI [of i])
    fix a b
    assume a: "a < NPROC" "(par(p := None)) a = Some b"
    then show "b < NPROC \<and> b \<noteq> a \<and> active ((st(p := UNUSED)) b) \<and> (st(p := UNUSED)) a \<noteq> UNUSED \<and> (st(p := UNUSED)) a \<noteq> EMBRYO"
      using p family_okD(2) [OF f a(1)] by (auto split: if_splits)
  next
    fix a b
    assume b: "emb b = Some a"
    then show "b < NPROC \<and> active ((st(p := UNUSED)) b) \<and> a < NPROC \<and> (st(p := UNUSED)) a = EMBRYO"
      using family_okD(5) [OF f b] p by auto
  next
    fix a
    assume "a < NPROC" "(st(p := UNUSED)) a = EMBRYO"
    then show "\<exists>q. emb q = Some a" using family_okD(4) [OF f, of a] by (auto split: if_splits)
  next
    fix a
    assume "a < NPROC" "active ((st(p := UNUSED)) a) \<or> (st(p := UNUSED)) a = ZOMBIE" "ini \<noteq> Some a"
    then show "(par(p := None)) a \<noteq> None" using family_okD(3) [OF f, of a] by (auto split: if_splits)
  next
    fix a b d
    assume "emb b = Some a" "emb d = Some a"
    then show "b = d" using n family_okD(6) [OF f, of b a d] by (auto split: if_splits)
  qed (use i n in simp_all)
qed

section \<open>Waiting parents\<close>

lemma wait_mono:
  assumes "wait_ok st par ch"
    and "\<And>i r. i < NPROC \<Longrightarrow> st' i = SLEEPING \<Longrightarrow> ch' i = ProcChan r \<Longrightarrow> st i = SLEEPING \<and> ch i = ch' i \<and>
      (\<forall>p < NPROC. par p = Some i \<longrightarrow> par' p = Some i) \<and>
      (\<forall>p < NPROC. par' p = Some i \<and> st' p = ZOMBIE \<longrightarrow> par p = Some i \<and> st p = ZOMBIE)"
  shows "wait_ok st' par' ch'"
  unfolding wait_ok_def
proof (intro allI impI)
  fix q r
  assume "q < NPROC" and "st' q = SLEEPING \<and> ch' q = ProcChan r"
  note a = assms(2) [OF this(1)] this
  then have s: "st q = SLEEPING" "ch q = ProcChan r" by auto
  then have "r = q" "\<exists>p < NPROC. par p = Some q" "\<forall>p < NPROC. par p = Some q \<longrightarrow> st p \<noteq> ZOMBIE"
    using assms(1) a(2) unfolding wait_ok_def by blast+
  then show "r = q \<and> (\<exists>p < NPROC. par' p = Some q) \<and> (\<forall>p < NPROC. par' p = Some q \<longrightarrow> st' p \<noteq> ZOMBIE)"
    using a by blast
qed

lemma wait_sleep:
  assumes "wait_ok st par ch" and "\<exists>p < NPROC. par p = Some cur" "\<forall>p < NPROC. par p = Some cur \<longrightarrow> st p \<noteq> ZOMBIE"
  shows "wait_ok (st(cur := SLEEPING)) par (ch(cur := ProcChan cur))"
  using assms unfolding wait_ok_def by auto

lemma wait_okD:
  "wait_ok st par ch \<Longrightarrow> q < NPROC \<Longrightarrow> st q = SLEEPING \<Longrightarrow> ch q = ProcChan r \<Longrightarrow> r = q"
  unfolding wait_ok_def by blast

section \<open>Every step keeps the invariant\<close>

abbreviation states :: "'d kernel \<Rightarrow> nat \<Rightarrow> procstate" where "states s \<equiv> \<lambda>i. pstate (procs s i)"
abbreviation pids :: "'d kernel \<Rightarrow> nat \<Rightarrow> int" where "pids s \<equiv> \<lambda>i. pid (procs s i)"
abbreviation parents :: "'d kernel \<Rightarrow> nat \<Rightarrow> nat option" where "parents s \<equiv> \<lambda>i. parent (procs s i)"
abbreviation chans :: "'d kernel \<Rightarrow> nat \<Rightarrow> channel" where "chans s \<equiv> \<lambda>i. chan (procs s i)"

lemma proc_invD:
  assumes "proc_inv s emb"
  shows "cpu_ok (cpuproc s) (states s)" "pid_ok (states s) (pids s) (nextpid s)"
    "family_ok (states s) (parents s) (initproc s) emb" "wait_ok (states s) (parents s) (chans s)"
  using assms by (simp_all add: proc_inv_def)

lemma proc_inv_running:
  assumes "proc_inv s emb" "cpuproc s c = Some cur"
  shows "cur < NPROC" "pstate (procs s cur) = RUNNING"
  using proc_invD(1) [OF assms(1)] assms(2) unfolding cpu_ok_def by blast+

lemma proc_inv_others:
  assumes "proc_inv s emb" and "same_table s s'"
  shows "proc_inv s' emb"
  using assms(1) same_tableD [OF assms(2)] by (simp add: proc_inv_def)

text \<open>A process leaves its processor in a state other than \<^verbatim>\<open>RUNNING\<close>.\<close>

lemma switch_away_Ok:
  assumes "switch_away c cur s = Ok s'"
  shows "procs s' = procs s" "cpuproc s' = (cpuproc s)(c := None)" "initproc s' = initproc s" "nextpid s' = nextpid s"
  using assms by (auto simp: switch_away_def sched_def to_scheduler_def outcome_simps split: if_splits)

lemma proc_inv_yield:
  assumes inv: "proc_inv s emb" and c: "cpuproc s c = Some cur" and r: "yield c cur s = Ok s'"
  shows "proc_inv s' emb"
proof -
  note run = proc_inv_running [OF inv c] and d = proc_invD [OF inv]
  note s' = switch_away_Ok [OF r [unfolded yield_def]]
  have st: "states s' = (states s)(cur := RUNNABLE)" "pids s' = pids s" "parents s' = parents s" "chans s' = chans s"
    by (auto simp: s' fun_eq_iff)
  have "cpu_ok (cpuproc s') (states s')" unfolding st s'(2) using cpu_leave [OF d(1) c, of RUNNABLE] by simp
  moreover have "pid_ok (states s') (pids s') (nextpid s')"
    using pid_still [OF d(2), of "states s'" "pids s'" "nextpid s'"] run by (simp add: st s')
  moreover have "family_ok (states s') (parents s') (initproc s') emb"
    unfolding st s'(3) upd_proc_simps by (rule family_still [OF d(3)]) (use run in auto)
  moreover have "wait_ok (states s') (parents s') (chans s')"
    unfolding st by (rule wait_mono [OF d(4)]) (auto split: if_splits)
  ultimately show ?thesis by (simp add: proc_inv_def)
qed

lemma proc_inv_sleep:
  assumes inv: "proc_inv s emb" and c: "cpuproc s c = Some cur" and r: "sleep c (Some cur) ch True s = Ok s'"
    and w: "wait_ok ((states s)(cur := SLEEPING)) (parents s) ((chans s)(cur := ch))"
  shows "proc_inv s' emb"
proof -
  note run = proc_inv_running [OF inv c] and d = proc_invD [OF inv]
  have r': "switch_away c cur (upd_proc cur (\<lambda>x. x\<lparr>chan := ch, pstate := SLEEPING\<rparr>) s) = Ok s'" using r by (simp add: sleep_def)
  note s' = switch_away_Ok [OF r']
  have st: "states s' = (states s)(cur := SLEEPING)" "pids s' = pids s" "parents s' = parents s" "chans s' = (chans s)(cur := ch)"
    by (auto simp: s' fun_eq_iff)
  have "cpu_ok (cpuproc s') (states s')" unfolding st s'(2) using cpu_leave [OF d(1) c, of SLEEPING] by simp
  moreover have "pid_ok (states s') (pids s') (nextpid s')"
    using pid_still [OF d(2), of "states s'" "pids s'" "nextpid s'"] run by (simp add: st s')
  moreover have "family_ok (states s') (parents s') (initproc s') emb"
    unfolding st s'(3) upd_proc_simps by (rule family_still [OF d(3)]) (use run in auto)
  ultimately show ?thesis using w by (simp add: proc_inv_def st)
qed

lemma proc_inv_dispatch:
  assumes inv: "proc_inv s emb" and c: "cpuproc s c = None" "p < NPROC" "pstate (procs s p) = RUNNABLE" and r: "dispatch c p s = Ok s'"
  shows "proc_inv s' emb"
proof -
  note d = proc_invD [OF inv]
  have s': "procs s' = (procs s)(p := (procs s p)\<lparr>pstate := RUNNING\<rparr>)" "cpuproc s' = (cpuproc s)(c := Some p)"
    "initproc s' = initproc s" "nextpid s' = nextpid s"
    using r by (auto simp: dispatch_def Let_def outcome_simps)
  have st: "states s' = (states s)(p := RUNNING)" "pids s' = pids s" "parents s' = parents s" "chans s' = chans s"
    by (auto simp: s' fun_eq_iff)
  have "cpu_ok (cpuproc s') (states s')" unfolding st s'(2) using cpu_enter [OF d(1) c] by simp
  moreover have "pid_ok (states s') (pids s') (nextpid s')"
    using pid_still [OF d(2), of "states s'" "pids s'" "nextpid s'"] c by (simp add: st s')
  moreover have "family_ok (states s') (parents s') (initproc s') emb"
    unfolding st s'(3) by (rule family_still [OF d(3)]) (use c in auto)
  moreover have "wait_ok (states s') (parents s') (chans s')"
    unfolding st by (rule wait_mono [OF d(4)]) (auto split: if_splits)
  ultimately show ?thesis by (simp add: proc_inv_def)
qed

text \<open>Sleeping processes become runnable.\<close>

lemma proc_inv_waken:
  assumes inv: "proc_inv s emb" and t: "cpuproc s' = cpuproc s" "initproc s' = initproc s" "nextpid s' = nextpid s"
    and st: "pids s' = pids s" "parents s' = parents s" "chans s' = chans s"
    and w: "\<And>i. states s' i = states s i \<or> states s i = SLEEPING \<and> states s' i = RUNNABLE"
  shows "proc_inv s' emb"
proof -
  note d = proc_invD [OF inv]
  have "cpu_ok (cpuproc s') (states s')"
    unfolding t(1) by (rule cpu_still [OF d(1)]) (metis w procstate.distinct)
  moreover have "pid_ok (states s') (pids s') (nextpid s')"
    unfolding st(1) t(3) by (rule pid_still [OF d(2)]) (use w in \<open>auto, metis procstate.distinct\<close>)
  moreover have "family_ok (states s') (parents s') (initproc s') emb"
    unfolding st(2) t(2) by (rule family_still [OF d(3)]) (metis w active_simps(1,2))
  moreover have "wait_ok (states s') (parents s') (chans s')"
    unfolding st(2,3)
  proof (rule wait_mono [OF d(4)])
    fix i r
    assume "states s' i = SLEEPING"
    then have "states s i = SLEEPING" using w [of i] by auto
    moreover have "states s p = ZOMBIE" if "states s' p = ZOMBIE" for p using w [of p] that by auto
    ultimately show "states s i = SLEEPING \<and> chans s i = chans s i \<and> (\<forall>p < NPROC. parents s p = Some i \<longrightarrow> parents s p = Some i) \<and>
        (\<forall>p < NPROC. parents s p = Some i \<and> states s' p = ZOMBIE \<longrightarrow> parents s p = Some i \<and> states s p = ZOMBIE)" by simp
  qed
  ultimately show ?thesis by (simp add: proc_inv_def)
qed

lemma proc_inv_wakeup: "proc_inv s emb \<Longrightarrow> proc_inv (wakeup ch s) emb"
  by (rule proc_inv_waken [of s]) (auto simp: wakeup_def wakeup1_eq fun_eq_iff)

lemma proc_inv_kill: "proc_inv s emb \<Longrightarrow> proc_inv (snd (kill n s)) emb"
  by (rule proc_inv_waken [of s]) (auto simp: kill_def fun_eq_iff split: option.splits)

lemma proc_inv_sleep_end:
  assumes inv: "proc_inv s emb" and c: "cpuproc s c = Some cur"
  shows "proc_inv (sleep_end cur s) emb"
proof -
  note run = proc_inv_running [OF inv c] and d = proc_invD [OF inv]
  have "wait_ok (states s) (parents s) ((chans s)(cur := NoChan))"
    by (rule wait_mono [OF d(4)]) (auto split: if_splits)
  moreover have "chans (sleep_end cur s) = (chans s)(cur := NoChan)" "states (sleep_end cur s) = states s"
    "parents (sleep_end cur s) = parents s" "pids (sleep_end cur s) = pids s" by (auto simp: sleep_end_def fun_eq_iff)
  ultimately show ?thesis using d by (simp add: proc_inv_def) (simp add: sleep_end_def)
qed

subsection \<open>Fork\<close>

lemma find_upt_SomeD: "find P [0..<n] = Some i \<Longrightarrow> i < n \<and> P i"
  by (auto dest!: find_SomeD)

lemma allocproc_Some:
  assumes "allocproc ta fa s = Ok (Some np, s')"
  shows "np < NPROC" "pstate (procs s np) = UNUSED" "states s' = (states s)(np := EMBRYO)" "pids s' = (pids s)(np := nextpid s)"
    "parents s' = parents s" "chans s' = chans s" "cpuproc s' = cpuproc s" "initproc s' = initproc s" "nextpid s' = nextpid s + 1"
  using assms
  by (auto simp: allocproc_def Let_def outcome_simps fun_eq_iff split: option.splits prod.splits if_splits dest!: find_upt_SomeD)

lemma allocproc_None:
  assumes "allocproc ta fa s = Ok (None, s')"
  shows "(\<exists>p. states s' = states s \<and> pids s' = (pids s)(p := nextpid s) \<and> pstate (procs s p) = UNUSED \<and> parents s' = parents s \<and>
      chans s' = chans s \<and> cpuproc s' = cpuproc s \<and> initproc s' = initproc s \<and> nextpid s' = nextpid s + 1) \<or> same_table s s'"
proof (cases "find (\<lambda>i. pstate (procs s i) = UNUSED) [0..<NPROC]")
  case None
  then show ?thesis
    using assms by (auto simp: allocproc_def allocproc_full_def same_table_def split: if_splits)
next
  case (Some p)
  then show ?thesis
    using assms find_upt_SomeD [OF Some]
    by (intro disjI1 exI [of _ p]) (auto simp: allocproc_def Let_def fun_eq_iff split: prod.splits if_splits)
qed

lemma proc_inv_fork_begin:
  assumes inv: "proc_inv s emb" and c: "cpuproc s c = Some cur" "emb cur = None" and r: "allocproc ta fa s = Ok (Some np, s')"
  shows "proc_inv s' (emb(cur := Some np))"
proof -
  note run = proc_inv_running [OF inv c(1)] and d = proc_invD [OF inv] and a = allocproc_Some [OF r]
  have "cpu_ok (cpuproc s') (states s')" unfolding a by (rule cpu_still [OF d(1)]) (use a(2) in auto)
  moreover have "pid_ok (states s') (pids s') (nextpid s')" unfolding a(3,4,9) using pid_new [OF d(2) a(2), of EMBRYO] by simp
  moreover have "family_ok (states s') (parents s') (initproc s') (emb(cur := Some np))"
    unfolding a(3,5,8) by (rule family_begin [OF d(3)]) (use a(1,2) run c in auto)
  moreover have "wait_ok (states s') (parents s') (chans s')"
    unfolding a(3,5,6) by (rule wait_mono [OF d(4)]) (auto split: if_splits)
  ultimately show ?thesis by (simp add: proc_inv_def)
qed

lemma proc_inv_fork_fail:
  assumes inv: "proc_inv s emb" and r: "allocproc ta fa s = Ok (None, s')"
  shows "proc_inv s' emb"
proof -
  note d = proc_invD [OF inv]
  consider p where "states s' = states s" "pids s' = (pids s)(p := nextpid s)" "pstate (procs s p) = UNUSED" "parents s' = parents s"
      "chans s' = chans s" "cpuproc s' = cpuproc s" "initproc s' = initproc s" "nextpid s' = nextpid s + 1" | "same_table s s'"
    using allocproc_None [OF r] by blast
  then show ?thesis
  proof cases
    case 1
    have "pid_ok (states s) (pids s') (nextpid s')"
      unfolding 1(2,8) by (rule pid_still [OF d(2)]) (use 1(3) in auto)
    then show ?thesis using d 1 by (simp add: proc_inv_def)
  next
    case 2
    then show ?thesis using proc_inv_others [OF inv] by blast
  qed
qed

lemma fork_finish_Ok:
  assumes "fork_finish cur np s = Ok (r, s')" and "cur \<noteq> np"
  shows "states s' = (states s)(np := RUNNABLE)" "pids s' = pids s" "parents s' = (parents s)(np := Some cur)" "chans s' = chans s"
    "cpuproc s' = cpuproc s" "initproc s' = initproc s" "nextpid s' = nextpid s" "r = pid (procs s np)"
proof -
  define s1 where "s1 = upd_proc np (\<lambda>y. y\<lparr>psz := psz (procs s cur), parent := Some cur, tf := (tf (procs s cur))\<lparr>tf_eax := 0\<rparr>,
    tickets := DEFAULT_TICKETS\<rparr>) s"
  obtain s2 d where l: "for_loop [0..<NOFILE] (fork_files cur np) s1 = Ok s2" and d: "cwd (procs s2 cur) = Some d"
    and s': "s' = upd_proc np (\<lambda>y. y\<lparr>pstate := RUNNABLE\<rparr>) (upd_proc np (\<lambda>y. y\<lparr>cwd := Some d, pname := take 15 (pname (procs s2 cur))\<rparr>)
      (s2\<lparr>fsys := snd (idup d (fsys s2))\<rparr>))" "r = pid (procs s2 np)"
    using assms(1) unfolding fork_finish_def Let_def s1_def [symmetric] by (auto simp: outcome_simps split: option.splits)
  have t: "same_table s1 s2" by (rule for_loop_same_table [OF _ l]) (rule fork_files_same_table)
  show "states s' = (states s)(np := RUNNABLE)" "pids s' = pids s" "parents s' = (parents s)(np := Some cur)" "chans s' = chans s"
    "cpuproc s' = cpuproc s" "initproc s' = initproc s" "nextpid s' = nextpid s" "r = pid (procs s np)"
    using same_tableD [OF t] by (auto simp: s' s1_def fun_eq_iff)
qed

lemma proc_inv_fork_end:
  assumes inv: "proc_inv s emb" and e: "emb cur = Some np" and r: "fork_finish cur np s = Ok (r, s')"
  shows "proc_inv s' (emb(cur := None))"
proof -
  note d = proc_invD [OF inv]
  note q = family_okD(5) [OF d(3) e]
  have ne: "cur \<noteq> np" using q by auto
  note a = fork_finish_Ok [OF r ne]
  have "cpu_ok (cpuproc s') (states s')" unfolding a(1,5) by (rule cpu_still [OF d(1)]) (use q in auto)
  moreover have "pid_ok (states s') (pids s') (nextpid s')" unfolding a(1,2,7) by (rule pid_still [OF d(2)]) (use q in auto)
  moreover have "family_ok (states s') (parents s') (initproc s') (emb(cur := None))"
    unfolding a(1,3,6) by (rule family_end [OF d(3) e]) simp
  moreover have "wait_ok (states s') (parents s') (chans s')"
    unfolding a(1,3,4) by (rule wait_mono [OF d(4)]) (use q family_okD(2) [OF d(3), of np] in \<open>auto split: if_splits\<close>)
  ultimately show ?thesis by (simp add: proc_inv_def)
qed

lemma proc_inv_fork_abort:
  assumes inv: "proc_inv s emb" and e: "emb cur = Some np" and r: "fork_undo np s = Ok (r, s')"
  shows "proc_inv s' (emb(cur := None))"
proof -
  note d = proc_invD [OF inv]
  note q = family_okD(5) [OF d(3) e]
  have a: "states s' = (states s)(np := UNUSED)" "pids s' = pids s" "parents s' = parents s" "chans s' = chans s"
    "cpuproc s' = cpuproc s" "initproc s' = initproc s" "nextpid s' = nextpid s"
    using r by (auto simp: fork_undo_def outcome_simps fun_eq_iff)
  have "cpu_ok (cpuproc s') (states s')" unfolding a(1,5) by (rule cpu_still [OF d(1)]) (use q in auto)
  moreover have "pid_ok (states s') (pids s') (nextpid s')" unfolding a(1,2,7) by (rule pid_still [OF d(2)]) auto
  moreover have "family_ok (states s') (parents s') (initproc s') (emb(cur := None))"
    unfolding a(1,3,6) by (rule family_abort [OF d(3) e])
  moreover have "wait_ok (states s') (parents s') (chans s')"
    unfolding a(1,3,4) by (rule wait_mono [OF d(4)]) (auto split: if_splits)
  ultimately show ?thesis by (simp add: proc_inv_def)
qed

subsection \<open>Wait\<close>

lemma zombie_child_Some:
  "zombie_child cur s = Some p \<Longrightarrow> p < NPROC \<and> parent (procs s p) = Some cur \<and> pstate (procs s p) = ZOMBIE"
  by (auto simp: zombie_child_def dest!: find_upt_SomeD)

lemma zombie_child_None:
  "zombie_child cur s = None \<Longrightarrow> p < NPROC \<Longrightarrow> parent (procs s p) = Some cur \<Longrightarrow> pstate (procs s p) \<noteq> ZOMBIE"
  by (auto simp: zombie_child_def find_None_iff)

lemma havekids_iff: "havekids cur s \<longleftrightarrow> (\<exists>p < NPROC. parent (procs s p) = Some cur)"
  by (auto simp: havekids_def list_ex_iff)

text \<open>A zombie child has been released.\<close>

lemma proc_inv_reap:
  assumes inv: "proc_inv s emb" and c: "cpuproc s c = Some cur" and z: "zombie_child cur s = Some p"
    and s': "states s' = (states s)(p := UNUSED)" "parents s' = (parents s)(p := None)" "pids s' = (pids s)(p := 0)" "chans s' = chans s"
    "cpuproc s' = cpuproc s" "initproc s' = initproc s" "nextpid s' = nextpid s"
  shows "proc_inv s' emb"
proof -
  note run = proc_inv_running [OF inv c] and d = proc_invD [OF inv] and p = zombie_child_Some [OF z]
  have "cpu_ok (cpuproc s') (states s')" unfolding s' by (rule cpu_still [OF d(1)]) (use p in auto)
  moreover have "pid_ok (states s') (pids s') (nextpid s')" unfolding s' by (rule pid_still [OF d(2)]) auto
  moreover have "family_ok (states s') (parents s') (initproc s') emb" unfolding s' by (rule family_reap [OF d(3)]) (use p in auto)
  moreover have "wait_ok (states s') (parents s') (chans s')"
    unfolding s' by (rule wait_mono [OF d(4)]) (use p run in \<open>auto split: if_splits\<close>)
  ultimately show ?thesis by (simp add: proc_inv_def)
qed

lemma proc_inv_wait_sleep:
  assumes inv: "proc_inv s emb" and c: "cpuproc s c = Some cur" and z: "zombie_child cur s = None" and k: "havekids cur s"
    and r: "sleep c (Some cur) (ProcChan cur) True s = Ok s'"
  shows "proc_inv s' emb"
  using wait_sleep [OF proc_invD(4) [OF inv], of cur] zombie_child_None [OF z] k [unfolded havekids_iff]
  by (intro proc_inv_sleep [OF inv c r]) blast

lemma proc_inv_wait:
  assumes inv: "proc_inv s emb" and c: "cpuproc s c = Some cur" and r: "wait c cur s = Ok (w, s')"
  shows "proc_inv s' emb"
proof (cases "zombie_child cur s")
  case None
  then show ?thesis
    using r inv proc_inv_wait_sleep [OF inv c None] by (auto simp: wait_def outcome_simps split: if_splits)
next
  case (Some p)
  then show ?thesis
    using r by (intro proc_inv_reap [OF inv c Some]) (auto simp: wait_def outcome_simps fun_eq_iff)
qed

lemma proc_inv_testwait:
  assumes inv: "proc_inv s emb" and c: "cpuproc s c = Some cur" and r: "testwait c cur s = Ok (w, s')"
  shows "proc_inv s' emb"
proof (cases "zombie_child cur s")
  case None
  then show ?thesis
    using r inv proc_inv_wait_sleep [OF inv c None] by (auto simp: testwait_def outcome_simps split: if_splits)
next
  case (Some p)
  then show ?thesis
    using r by (intro proc_inv_reap [OF inv c Some]) (auto simp: testwait_def Let_def outcome_simps fun_eq_iff)
qed

subsection \<open>Exit\<close>

lemma family_parents_cong:
  assumes f: "family_ok st par ini emb" and e: "\<forall>i < NPROC. par' i = par i"
  shows "family_ok st par' ini emb"
proof -
  obtain i where i: "i < NPROC" "ini = Some i" "active (st i)" "par i = None" using family_okD(1) [OF f] by blast
  show ?thesis
  proof (rule family_okI [of i])
    fix p q
    assume "p < NPROC" "par' p = Some q"
    then show "q < NPROC \<and> q \<noteq> p \<and> active (st q) \<and> st p \<noteq> UNUSED \<and> st p \<noteq> EMBRYO" using family_okD(2) [OF f, of p q] e by simp
  next
    fix p
    assume "p < NPROC" "active (st p) \<or> st p = ZOMBIE" "ini \<noteq> Some p"
    then show "par' p \<noteq> None" using family_okD(3) [OF f, of p] e by simp
  next
    show "par' i = None" using i e by simp
  qed (fact i(1), fact i(2), fact i(3), erule (1) family_okD(4) [OF f], erule family_okD(5) [OF f], erule (1) family_okD(6) [OF f])
qed

definition exit_states :: "nat \<Rightarrow> 'd kernel \<Rightarrow> nat \<Rightarrow> procstate" where
  "exit_states cur s i =
     (if i < NPROC \<and> pstate (procs s i) = SLEEPING \<and>
         (chan (procs s i) = proc_chan (parent (procs s cur)) \<or>
          chan (procs s i) = proc_chan (initproc s) \<and> (\<exists>p < NPROC. parent (procs s p) = Some cur \<and> pstate (procs s p) = ZOMBIE))
      then RUNNABLE else pstate (procs s i))"

lemma exit_table_eq:
  assumes "initproc s \<noteq> Some cur"
  shows "states (exit_table cur s) = (exit_states cur s)(cur := ZOMBIE)" "pids (exit_table cur s) = pids s"
    "parents (exit_table cur s) = (\<lambda>i. if i < NPROC \<and> parents s i = Some cur then initproc s else parents s i)"
    "chans (exit_table cur s) = chans s" "cpuproc (exit_table cur s) = cpuproc s" "initproc (exit_table cur s) = initproc s"
    "nextpid (exit_table cur s) = nextpid s"
proof -
  let ?s1 = "wakeup1 (proc_chan (parent (procs s cur))) s"
  let ?z = "\<exists>p < NPROC. parent (procs s p) = Some cur \<and> pstate (procs s p) = ZOMBIE"
  have "initproc ?s1 \<noteq> Some cur" using assms by (simp add: wakeup1_eq)
  note e = exit_children_eq [OF this]
  have z: "(\<exists>p < NPROC. parent (procs ?s1 p) = Some cur \<and> pstate (procs ?s1 p) = ZOMBIE) \<longleftrightarrow> ?z"
    by (intro ex_cong1) (auto simp: wakeup1_eq)
  have t: "exit_table cur s = upd_proc cur (\<lambda>x. x\<lparr>pstate := ZOMBIE\<rparr>) (s\<lparr>procs := (\<lambda>i. if i < NPROC then
      (let x = adopted cur (initproc s) (woken (proc_chan (parent (procs s cur))) (procs s i))
       in if ?z then woken (proc_chan (initproc s)) x else x) else procs s i)\<rparr>)"
    unfolding exit_table_def e z by (auto simp: wakeup1_eq fun_eq_iff Let_def intro!: arg_cong [of _ _ "upd_proc cur _"] kernel.equality)
  show "states (exit_table cur s) = (exit_states cur s)(cur := ZOMBIE)" "pids (exit_table cur s) = pids s"
    "parents (exit_table cur s) = (\<lambda>i. if i < NPROC \<and> parents s i = Some cur then initproc s else parents s i)"
    "chans (exit_table cur s) = chans s" "cpuproc (exit_table cur s) = cpuproc s" "initproc (exit_table cur s) = initproc s"
    "nextpid (exit_table cur s) = nextpid s"
    unfolding t by (auto simp: fun_eq_iff Let_def exit_states_def)
qed

lemma proc_inv_exit:
  assumes inv: "proc_inv s emb" and c: "cpuproc s c = Some cur" and e: "emb cur = None" and i: "initproc s \<noteq> Some cur"
    and r: "switch_away c cur (exit_table cur s) = Ok s'"
  shows "proc_inv s' emb"
proof -
  note run = proc_inv_running [OF inv c] and d = proc_invD [OF inv] and x = exit_table_eq [OF i] and s' = switch_away_Ok [OF r]
  let ?st = "exit_states cur s" and ?par = "\<lambda>i. if parents s i = Some cur then initproc s else parents s i"
  have w: "?st j = states s j \<or> states s j = SLEEPING \<and> ?st j = RUNNABLE" for j by (simp add: exit_states_def)
  have st: "states s' = ?st(cur := ZOMBIE)" "pids s' = pids s" "chans s' = chans s"
    "parents s' = (\<lambda>i. if i < NPROC \<and> parents s i = Some cur then initproc s else parents s i)" using x s'(1) by simp_all
  have t: "cpuproc s' = (cpuproc s)(c := None)" "initproc s' = initproc s" "nextpid s' = nextpid s" using x s' by simp_all
  have "cpu_ok (cpuproc s) ?st" by (rule cpu_still [OF d(1)]) (metis w procstate.distinct)
  then have "cpu_ok (cpuproc s') (states s')" unfolding t(1) st(1) by (rule cpu_leave) (simp_all add: c)
  moreover have "pid_ok (states s') (pids s') (nextpid s')"
    unfolding st(1,2) t(3) by (rule pid_still [OF d(2)]) (use run in \<open>auto simp: exit_states_def split: if_splits\<close>)
  moreover have "family_ok ?st (parents s) (initproc s) emb" by (rule family_still [OF d(3)]) (metis w active_simps(1,2))
  then have "family_ok (?st(cur := ZOMBIE)) ?par (initproc s) emb"
    by (rule family_exit) (use run i e in \<open>auto simp: exit_states_def\<close>)
  then have "family_ok (states s') (parents s') (initproc s') emb" unfolding st(1,4) t(2) by (rule family_parents_cong) simp
  moreover have "wait_ok (states s') (parents s') (chans s')"
    unfolding st(3)
  proof (rule wait_mono [OF d(4)])
    fix j r
    assume j: "j < NPROC" "states s' j = SLEEPING" "chans s j = ProcChan r"
    then have sl: "j \<noteq> cur" "?st j = SLEEPING" "states s j = SLEEPING" using w [of j] fun_cong [OF st(1), of j] by (auto split: if_splits)
    have "r = j" using wait_okD [OF d(4)] j sl by blast
    then have pc: "parents s cur \<noteq> Some j" and iz: "initproc s = Some j \<longrightarrow> \<not> (\<exists>p < NPROC. parents s p = Some cur \<and> states s p = ZOMBIE)"
      using sl j by (auto simp: exit_states_def proc_chan_def split: if_splits)
    have "parents s p = Some j \<and> states s p = ZOMBIE" if p: "p < NPROC" "parents s' p = Some j" "states s' p = ZOMBIE" for p
    proof -
      have z: "p = cur \<or> states s p = ZOMBIE" using p(3) w [of p] fun_cong [OF st(1), of p] by (auto split: if_splits)
      have nc: "parents s p \<noteq> Some cur"
      proof
        assume pp: "parents s p = Some cur"
        then have "initproc s = Some j" using p(1,2) fun_cong [OF st(4), of p] by simp
        moreover have "p \<noteq> cur" using family_okD(2) [OF d(3) p(1) pp] by auto
        ultimately show False using iz z pp p(1) by blast
      qed
      then have "parents s p = Some j" using p(2) fun_cong [OF st(4), of p] by simp
      then show ?thesis using z pc by auto
    qed
    moreover have "parents s' p = Some j" if "parents s p = Some j" for p using that sl(1) fun_cong [OF st(4), of p] by simp
    ultimately show "states s j = SLEEPING \<and> chans s j = chans s j \<and> (\<forall>p < NPROC. parents s p = Some j \<longrightarrow> parents s' p = Some j) \<and>
        (\<forall>p < NPROC. parents s' p = Some j \<and> states s' p = ZOMBIE \<longrightarrow> parents s p = Some j \<and> states s p = ZOMBIE)" using sl(3) by blast
  qed
  ultimately show ?thesis by (simp add: proc_inv_def)
qed

subsection \<open>Reachable states\<close>

lemma proc_inv_sleeps:
  assumes inv: "proc_inv s emb" and c: "cpuproc s c = Some cur" and n: "\<forall>r. ch \<noteq> ProcChan r" and r: "sleep c (Some cur) ch True s = Ok s'"
  shows "proc_inv s' emb"
proof (rule proc_inv_sleep [OF inv c r])
  show "wait_ok ((states s)(cur := SLEEPING)) (parents s) ((chans s)(cur := ch))"
    by (rule wait_mono [OF proc_invD(4) [OF inv]]) (use n in \<open>auto split: if_splits\<close>)
qed

lemma proc_inv_step: "kstep ta fa (s, emb) (s', emb') \<Longrightarrow> proc_inv s emb \<Longrightarrow> proc_inv s' emb'"
  by (erule kstep.cases) (auto intro: proc_inv_fork_begin proc_inv_fork_fail proc_inv_fork_end proc_inv_fork_abort proc_inv_exit proc_inv_wait
    proc_inv_testwait proc_inv_sleeps proc_inv_sleep_end proc_inv_wakeup proc_inv_kill proc_inv_yield proc_inv_dispatch proc_inv_others)

lemma proc_inv_boot:
  assumes "boot_table s"
  shows "proc_inv s (\<lambda>_. None)"
proof -
  obtain i where i: "i < NPROC" "initproc s = Some i" "pstate (procs s i) = RUNNABLE" "0 < pid (procs s i)" "pid (procs s i) < nextpid s"
    and u: "\<And>p. p < NPROC \<Longrightarrow> p \<noteq> i \<Longrightarrow> pstate (procs s p) = UNUSED"
    and n: "\<And>p. p < NPROC \<Longrightarrow> parent (procs s p) = None" and c: "\<And>c. cpuproc s c = None"
    using assms unfolding boot_table_def by blast
  have st: "p < NPROC \<Longrightarrow> pstate (procs s p) = (if p = i then RUNNABLE else UNUSED)" for p using i(3) u by simp
  have "cpu_ok (cpuproc s) (states s)" using st c by (simp add: cpu_ok_def)
  moreover have "pid_ok (states s) (pids s) (nextpid s)" using st i by (auto simp: pid_ok_def split: if_splits)
  moreover have "family_ok (states s) (parents s) (initproc s) (\<lambda>_. None)"
    by (rule family_okI [of i]) (use i n st in \<open>auto split: if_splits\<close>)
  moreover have "wait_ok (states s) (parents s) (chans s)" using st by (auto simp: wait_ok_def split: if_splits)
  ultimately show ?thesis by (simp add: proc_inv_def)
qed

lemma kreach_inv: "kreach ta fa x \<Longrightarrow> proc_inv (fst x) (snd x)"
proof (induction rule: kreach.induct)
  case (kreach_step x y)
  then show ?case using proc_inv_step [of ta fa "fst x" "snd x" "fst y" "snd y"] by simp
qed (simp add: proc_inv_boot)

end
