(* ===== verification/Sysfile.thy ===== *)
theory Sysfile
  imports Proc
begin

text \<open>
  System call arguments, \<^verbatim>\<open>syscall.c\<close>, and the system calls on files, \<^verbatim>\<open>sysfile.c\<close>.

  The kernel reads and writes user memory through the page table of the process. A load from a page that is not
  mapped faults in kernel mode without end and has the outcome \<open>Hang\<close>; a store to a read-only user page goes
  through the copy-on-write fault first, since \<^verbatim>\<open>CR0_WP\<close> is set. A string argument is the list of its bytes.

  A system call returns (\<open>Ret\<close>), sleeps (\<open>Block\<close>, and \<open>BlockWrite f bs\<close> when \<open>bs\<close> is still to be
  written), gives up the processor to return 0 when it runs again (\<open>Yield\<close>), or does not come back (\<open>Gone\<close>). That a
  process sleeps on a pipe is recorded in the pipe (\<open>rwait\<close>, \<open>wwait\<close>), not in the process table.
\<close>

section \<open>User memory and arguments\<close>

record 'd env =
  ekmap :: "kmap_entry list"
  edsw :: "'d devsw"
  etrapret :: uint
  eforkret :: uint
  ecpu :: nat
  ecur :: nat

datatype sysres = Ret int | Block | BlockWrite nat "uchar list" | Yield | Gone

abbreviation me :: "'d env \<Rightarrow> 'd kernel \<Rightarrow> proc" where
  "me e s \<equiv> procs s (ecur e)"

text \<open>The current directory; a process that makes system calls has one (the number 50 is no inode).\<close>

definition curdir :: "'d env \<Rightarrow> 'd kernel \<Rightarrow> nat" where
  "curdir e s = (case cwd (me e s) of Some d \<Rightarrow> d | None \<Rightarrow> NINODE)"

definition fetch_byte :: "'d env \<Rightarrow> uint \<Rightarrow> 'd kernel \<Rightarrow> uchar outcome" where
  "fetch_byte e a s =
     (case walkpgdir (pgdir (me e s)) a False (km (kvm s)) of
        (None, m) \<Rightarrow> Hang
      | (Some pte, m) \<Rightarrow>
          if read_pte pte m AND PTE_P = 0 then Hang
          else Ok (load_byte m (P2V (PTE_ADDR (read_pte pte m)) + (a AND 0xFFF))))"

primrec fetch_bytes :: "'d env \<Rightarrow> nat \<Rightarrow> uint \<Rightarrow> 'd kernel \<Rightarrow> uchar list outcome" where
  "fetch_bytes e 0 a s = Ok []"
| "fetch_bytes e (Suc n) a s =
     andthen (fetch_byte e a s) (\<lambda>b. andthen (fetch_bytes e n (a + 1) s) (\<lambda>bs. Ok (b # bs)))"

definition put_byte :: "uint \<Rightarrow> uint \<Rightarrow> uchar \<Rightarrow> vm \<Rightarrow> vm outcome" where
  "put_byte d a b v =
     (case walkpgdir d a False (km v) of
        (None, m) \<Rightarrow> Hang
      | (Some pte, m) \<Rightarrow>
          if read_pte pte m AND PTE_P = 0 \<or> read_pte pte m AND PTE_W = 0 then Hang
          else Ok (v\<lparr>km := store_byte (P2V (PTE_ADDR (read_pte pte m)) + (a AND 0xFFF)) b m\<rparr>))"

definition store_user_byte :: "'d env \<Rightarrow> uint \<Rightarrow> uchar \<Rightarrow> 'd kernel \<Rightarrow> 'd kernel outcome" where
  "store_user_byte e a b s =
     (let d = pgdir (me e s)
      in case walkpgdir d a False (km (kvm s)) of
           (None, m) \<Rightarrow> Hang
         | (Some pte, m) \<Rightarrow>
             andthen
               (if read_pte pte m AND PTE_W = 0
                then andthen (pagefault (Some d) a (kvm s)) (\<lambda>(dead, v). if dead then Hang else Ok v)
                else Ok (kvm s))
               (\<lambda>v. andthen (put_byte d a b v) (\<lambda>v1. Ok (s\<lparr>kvm := v1\<rparr>))))"

primrec store_user :: "'d env \<Rightarrow> uint \<Rightarrow> uchar list \<Rightarrow> 'd kernel \<Rightarrow> 'd kernel outcome" where
  "store_user e a [] s = Ok s"
| "store_user e a (b # bs) s = andthen (store_user_byte e a b s) (store_user e (a + 1) bs)"

definition fetchint :: "'d env \<Rightarrow> uint \<Rightarrow> 'd kernel \<Rightarrow> uint option outcome" where
  "fetchint e addr s =
     (if addr \<ge> psz (me e s) \<or> addr + 4 > psz (me e s) then Ok None
      else andthen (fetch_bytes e 4 addr s) (\<lambda>bs. Ok (Some (get32 bs 0))))"

primrec fetchstr_loop :: "'d env \<Rightarrow> nat \<Rightarrow> uint \<Rightarrow> 'd kernel \<Rightarrow> uchar list option outcome" where
  "fetchstr_loop e 0 a s = Ok None"
| "fetchstr_loop e (Suc n) a s =
     andthen (fetch_byte e a s) (\<lambda>b.
       if b = 0 then Ok (Some [])
       else andthen (fetchstr_loop e n (a + 1) s) (\<lambda>r. Ok (map_option (Cons b) r)))"

definition fetchstr :: "'d env \<Rightarrow> uint \<Rightarrow> 'd kernel \<Rightarrow> uchar list option outcome" where
  "fetchstr e addr s =
     (if addr \<ge> psz (me e s) then Ok None
      else fetchstr_loop e (unat (psz (me e s)) - unat addr) addr s)"

definition argint :: "'d env \<Rightarrow> nat \<Rightarrow> 'd kernel \<Rightarrow> uint option outcome" where
  "argint e n s = fetchint e (tf_esp (tf (me e s)) + 4 + 4 * of_nat n) s"

definition argptr :: "'d env \<Rightarrow> nat \<Rightarrow> uint \<Rightarrow> 'd kernel \<Rightarrow> uint option outcome" where
  "argptr e n sz s =
     andthen (argint e n s) (\<lambda>io.
       case io of
         None \<Rightarrow> Ok None
       | Some i \<Rightarrow> if sint sz < 0 \<or> i \<ge> psz (me e s) \<or> i + sz > psz (me e s) then Ok None else Ok (Some i))"

definition argstr :: "'d env \<Rightarrow> nat \<Rightarrow> 'd kernel \<Rightarrow> uchar list option outcome" where
  "argstr e n s = andthen (argint e n s) (\<lambda>io. case io of None \<Rightarrow> Ok None | Some a \<Rightarrow> fetchstr e a s)"

section \<open>File descriptors\<close>

definition argfd :: "'d env \<Rightarrow> nat \<Rightarrow> 'd kernel \<Rightarrow> (nat \<times> nat) option outcome" where
  "argfd e n s =
     andthen (argint e n s) (\<lambda>io.
       case io of
         None \<Rightarrow> Ok None
       | Some w \<Rightarrow>
           if sint w < 0 \<or> sint w \<ge> int NOFILE then Ok None
           else (case ofile (me e s) (unat w) of None \<Rightarrow> Ok None | Some f \<Rightarrow> Ok (Some (unat w, f))))"

definition fdalloc :: "'d env \<Rightarrow> nat \<Rightarrow> 'd kernel \<Rightarrow> nat option \<times> 'd kernel" where
  "fdalloc e f s =
     (case find (\<lambda>fd. ofile (me e s) fd = None) [0..<NOFILE] of
        None \<Rightarrow> (None, s)
      | Some fd \<Rightarrow> (Some fd, upd_proc (ecur e) (\<lambda>x. x\<lparr>ofile := (ofile x)(fd := Some f)\<rparr>) s))"

definition sys_dup :: "'d env \<Rightarrow> 'd kernel \<Rightarrow> (sysres \<times> 'd kernel) outcome" where
  "sys_dup e s =
     andthen (argfd e 0 s) (\<lambda>r.
       case r of
         None \<Rightarrow> Ok (Ret (-1), s)
       | Some (_, f) \<Rightarrow>
           (case fdalloc e f s of
              (None, s1) \<Rightarrow> Ok (Ret (-1), s1)
            | (Some fd, s1) \<Rightarrow> andthen (filedup f s1) (\<lambda>s2. Ok (Ret (int fd), s2))))"

text \<open>The arguments of \<^verbatim>\<open>sys_read\<close> and \<^verbatim>\<open>sys_write\<close>: the file, the count and the buffer.\<close>

definition rw_args :: "'d env \<Rightarrow> 'd kernel \<Rightarrow> (nat \<times> uint \<times> uint) option outcome" where
  "rw_args e s =
     andthen (argfd e 0 s) (\<lambda>r.
       case r of
         None \<Rightarrow> Ok None
       | Some (_, f) \<Rightarrow>
           andthen (argint e 2 s) (\<lambda>no.
             case no of
               None \<Rightarrow> Ok None
             | Some n \<Rightarrow> andthen (argptr e 1 n s) (\<lambda>po. Ok (map_option (\<lambda>q. (f, n, q)) po))))"

definition sys_read :: "'d env \<Rightarrow> 'd kernel \<Rightarrow> (sysres \<times> 'd kernel) outcome" where
  "sys_read e s =
     andthen (rw_args e s) (\<lambda>r.
       case r of
         None \<Rightarrow> Ok (Ret (-1), s)
       | Some (f, n, q) \<Rightarrow>
           andthen (fileread (edsw e) (pid (me e s)) (killed (me e s)) f (sint n) s) (\<lambda>((r, dat), s1).
             case r of
               Sleep _ \<Rightarrow> Ok (Block, s1)
             | Done k \<Rightarrow> andthen (store_user e q dat s1) (\<lambda>s2. Ok (Ret k, s2))))"

definition sys_write :: "'d env \<Rightarrow> 'd kernel \<Rightarrow> (sysres \<times> 'd kernel) outcome" where
  "sys_write e s =
     andthen (rw_args e s) (\<lambda>r.
       case r of
         None \<Rightarrow> Ok (Ret (-1), s)
       | Some (f, n, q) \<Rightarrow>
           andthen (fetch_bytes e (unat n) q s) (\<lambda>bs.
           andthen (filewrite (edsw e) (pid (me e s)) (killed (me e s)) f bs s) (\<lambda>(r, s1).
             case r of
               Sleep rest \<Rightarrow> Ok (BlockWrite f rest, s1)
             | Done k \<Rightarrow> Ok (Ret k, s1))))"

definition sys_close :: "'d env \<Rightarrow> 'd kernel \<Rightarrow> (sysres \<times> 'd kernel) outcome" where
  "sys_close e s =
     andthen (argfd e 0 s) (\<lambda>r.
       case r of
         None \<Rightarrow> Ok (Ret (-1), s)
       | Some (fd, f) \<Rightarrow>
           andthen (fileclose (pid (me e s)) f (upd_proc (ecur e) (\<lambda>x. x\<lparr>ofile := (ofile x)(fd := None)\<rparr>) s)) (\<lambda>s1. Ok (Ret 0, s1)))"

text \<open>The layout of \<^verbatim>\<open>struct stat\<close>: type at 0, dev at 4, ino at 8, nlink at 12, size at 16, 20 bytes in all;
  the two bytes of padding after each short are not written. \<open>old\<close> are the bytes that are there.\<close>

definition put_stat :: "stat \<Rightarrow> uchar list \<Rightarrow> uchar list" where
  "put_stat st old =
     put32 16 (st_size st) (put16 12 (st_nlink st) (put32 8 (st_ino st) (put32 4 (st_dev st) (put16 0 (st_type st) old))))"

definition sys_fstat :: "'d env \<Rightarrow> 'd kernel \<Rightarrow> (sysres \<times> 'd kernel) outcome" where
  "sys_fstat e s =
     andthen (argfd e 0 s) (\<lambda>r.
       case r of
         None \<Rightarrow> Ok (Ret (-1), s)
       | Some (_, f) \<Rightarrow>
           andthen (argptr e 1 20 s) (\<lambda>po.
             case po of
               None \<Rightarrow> Ok (Ret (-1), s)
             | Some q \<Rightarrow>
                 andthen (filestat (pid (me e s)) f s) (\<lambda>((r, sto), s1).
                   case sto of
                     None \<Rightarrow> Ok (Ret r, s1)
                   | Some st \<Rightarrow>
                       andthen (fetch_bytes e 20 q s1) (\<lambda>old.
                       andthen (store_user e q (put_stat st old) s1) (\<lambda>s2. Ok (Ret r, s2))))))"

section \<open>Names\<close>

text \<open>The bodies of the calls between \<^verbatim>\<open>begin_op\<close> and \<^verbatim>\<open>end_op\<close> act on the file system. \<open>with_op\<close> brackets them.\<close>

definition with_op :: "int \<Rightarrow> ('d fs \<Rightarrow> ('a \<times> 'd fs) outcome) \<Rightarrow> 'd fs \<Rightarrow> ('a \<times> 'd fs) outcome" where
  "with_op p f t =
     andthen (fs_begin_op t) (\<lambda>t1. andthen (f t1) (\<lambda>(r, t2). andthen (fs_end_op p t2) (\<lambda>t3. Ok (r, t3))))"

definition link_bad :: "int \<Rightarrow> nat \<Rightarrow> 'd fs \<Rightarrow> (int \<times> 'd fs) outcome" where
  "link_bad p ip t =
     andthen (ilock p (Some ip) t) (\<lambda>t1.
     andthen (iupdate p ip (upd_inode ip (\<lambda>x. x\<lparr>inlink := inlink x - 1\<rparr>) t1)) (\<lambda>t2.
     andthen (iunlockput p ip t2) (\<lambda>t3. Ok (-1, t3))))"

definition link_fs :: "'d devsw \<Rightarrow> int \<Rightarrow> nat \<Rightarrow> uchar list \<Rightarrow> uchar list \<Rightarrow> 'd fs \<Rightarrow> (int \<times> 'd fs) outcome" where
  "link_fs dsw p wd old new t =
     andthen (namei dsw p wd old t) (\<lambda>(ipo, t1).
       case ipo of
         None \<Rightarrow> Ok (-1, t1)
       | Some ip \<Rightarrow>
           andthen (ilock p (Some ip) t1) (\<lambda>t2.
             if itype (inodes t2 ip) = T_DIR then andthen (iunlockput p ip t2) (\<lambda>t3. Ok (-1, t3))
             else
               andthen (iupdate p ip (upd_inode ip (\<lambda>x. x\<lparr>inlink := inlink x + 1\<rparr>) t2)) (\<lambda>t3.
               andthen (iunlock p (Some ip) t3) (\<lambda>t4.
               andthen (nameiparent dsw p wd new t4) (\<lambda>(dpo, t5).
                 case dpo of
                   None \<Rightarrow> link_bad p ip t5
                 | Some (dp, nm) \<Rightarrow>
                     andthen (ilock p (Some dp) t5) (\<lambda>t6.
                     andthen (if idev (inodes t6 dp) \<noteq> idev (inodes t6 ip) then Ok (-1, t6)
                              else dirlink dsw p dp nm (inum (inodes t6 ip)) t6) (\<lambda>(r, t7).
                       if r < 0 then andthen (iunlockput p dp t7) (link_bad p ip)
                       else andthen (iunlockput p dp t7) (\<lambda>t8. andthen (iput p ip t8) (\<lambda>t9. Ok (0, t9))))))))))"

definition sys_link :: "'d env \<Rightarrow> 'd kernel \<Rightarrow> (sysres \<times> 'd kernel) outcome" where
  "sys_link e s =
     andthen (argstr e 0 s) (\<lambda>oldo.
       case oldo of
         None \<Rightarrow> Ok (Ret (-1), s)
       | Some old \<Rightarrow>
           andthen (argstr e 1 s) (\<lambda>newo.
             case newo of
               None \<Rightarrow> Ok (Ret (-1), s)
             | Some new \<Rightarrow>
                 andthen (on_fs (with_op (pid (me e s)) (link_fs (edsw e) (pid (me e s)) (curdir e s) old new)) s)
                   (\<lambda>(r, s1). Ok (Ret r, s1))))"

fun isdirempty_loop :: "'d devsw \<Rightarrow> int \<Rightarrow> nat \<Rightarrow> nat list \<Rightarrow> 'd fs \<Rightarrow> (bool \<times> 'd fs) outcome" where
  "isdirempty_loop dsw p dp [] t = Ok (True, t)"
| "isdirempty_loop dsw p dp (off # offs) t =
     andthen (readi dsw p dp (of_nat off) 16 t) (\<lambda>((r, de), t1).
       if r \<noteq> 16 then Panic ''isdirempty: readi''
       else if get16 de 0 \<noteq> 0 then Ok (False, t1)
       else isdirempty_loop dsw p dp offs t1)"

definition isdirempty :: "'d devsw \<Rightarrow> int \<Rightarrow> nat \<Rightarrow> 'd fs \<Rightarrow> (bool \<times> 'd fs) outcome" where
  "isdirempty dsw p dp t = isdirempty_loop dsw p dp (dir_offsets 2 (isize (inodes t dp))) t"

abbreviation "dot \<equiv> [46 :: uchar]"
abbreviation "dotdot \<equiv> [46 :: uchar, 46]"

text \<open>The part of \<^verbatim>\<open>sys_unlink\<close> after the entry has been found and both inodes are locked.\<close>

definition unlink_entry :: "'d devsw \<Rightarrow> int \<Rightarrow> nat \<Rightarrow> nat \<Rightarrow> uint \<Rightarrow> 'd fs \<Rightarrow> (int \<times> 'd fs) outcome" where
  "unlink_entry dsw p dp ip off t =
     andthen (writei dsw p dp (replicate 16 0) off t) (\<lambda>(r, t1).
       if r \<noteq> 16 then Panic ''unlink: writei''
       else
         andthen
           (if itype (inodes t1 ip) = T_DIR
            then iupdate p dp (upd_inode dp (\<lambda>x. x\<lparr>inlink := inlink x - 1\<rparr>) t1) else Ok t1) (\<lambda>t2.
         andthen (iunlockput p dp t2) (\<lambda>t3.
         andthen (iupdate p ip (upd_inode ip (\<lambda>x. x\<lparr>inlink := inlink x - 1\<rparr>) t3)) (\<lambda>t4.
         andthen (iunlockput p ip t4) (\<lambda>t5. Ok (0, t5))))))"

definition unlink_fs :: "'d devsw \<Rightarrow> int \<Rightarrow> nat \<Rightarrow> uchar list \<Rightarrow> 'd fs \<Rightarrow> (int \<times> 'd fs) outcome" where
  "unlink_fs dsw p wd path t =
     andthen (nameiparent dsw p wd path t) (\<lambda>(dpo, t1).
       case dpo of
         None \<Rightarrow> Ok (-1, t1)
       | Some (dp, nm) \<Rightarrow>
           andthen (ilock p (Some dp) t1) (\<lambda>t2.
             if namecmp nm dot = 0 \<or> namecmp nm dotdot = 0 then andthen (iunlockput p dp t2) (\<lambda>t3. Ok (-1, t3))
             else
               andthen (dirlookup dsw p dp nm t2) (\<lambda>(r, t3).
                 case r of
                   None \<Rightarrow> andthen (iunlockput p dp t3) (\<lambda>t4. Ok (-1, t4))
                 | Some (ip, off) \<Rightarrow>
                     andthen (ilock p (Some ip) t3) (\<lambda>t4.
                       if sint (inlink (inodes t4 ip)) < 1 then Panic ''unlink: nlink < 1''
                       else
                         andthen (if itype (inodes t4 ip) = T_DIR then isdirempty dsw p ip t4 else Ok (True, t4)) (\<lambda>(ok, t5).
                           if \<not> ok
                           then andthen (iunlockput p ip t5) (\<lambda>t6. andthen (iunlockput p dp t6) (\<lambda>t7. Ok (-1, t7)))
                           else unlink_entry dsw p dp ip off t5)))))"

definition sys_unlink :: "'d env \<Rightarrow> 'd kernel \<Rightarrow> (sysres \<times> 'd kernel) outcome" where
  "sys_unlink e s =
     andthen (argstr e 0 s) (\<lambda>po.
       case po of
         None \<Rightarrow> Ok (Ret (-1), s)
       | Some path \<Rightarrow>
           andthen (on_fs (with_op (pid (me e s)) (unlink_fs (edsw e) (pid (me e s)) (curdir e s) path)) s)
             (\<lambda>(r, s1). Ok (Ret r, s1)))"

section \<open>Creating and opening\<close>

text \<open>\<^verbatim>\<open>create\<close> after the inode has been allocated and locked: \<open>dp\<close> is locked too.\<close>

definition create_new ::
    "'d devsw \<Rightarrow> int \<Rightarrow> nat \<Rightarrow> nat \<Rightarrow> uchar list \<Rightarrow> ushort \<Rightarrow> ushort \<Rightarrow> ushort \<Rightarrow> 'd fs \<Rightarrow> (nat option \<times> 'd fs) outcome" where
  "create_new dsw p dp ip nm ty major minor t =
     andthen (iupdate p ip (upd_inode ip (\<lambda>x. x\<lparr>imajor := major, iminor := minor, inlink := 1\<rparr>) t)) (\<lambda>t1.
     andthen
       (if ty = T_DIR
        then
          andthen (iupdate p dp (upd_inode dp (\<lambda>x. x\<lparr>inlink := inlink x + 1\<rparr>) t1)) (\<lambda>t2.
          andthen (dirlink dsw p ip dot (inum (inodes t2 ip)) t2) (\<lambda>(r1, t3).
            if r1 < 0 then Panic ''create dots''
            else
              andthen (dirlink dsw p ip dotdot (inum (inodes t3 dp)) t3) (\<lambda>(r2, t4).
                if r2 < 0 then Panic ''create dots'' else Ok t4)))
        else Ok t1) (\<lambda>t5.
     andthen (dirlink dsw p dp nm (inum (inodes t5 ip)) t5) (\<lambda>(r, t6).
       if r < 0 then Panic ''create: dirlink''
       else andthen (iunlockput p dp t6) (\<lambda>t7. Ok (Some ip, t7)))))"

definition create ::
    "'d devsw \<Rightarrow> int \<Rightarrow> nat \<Rightarrow> uchar list \<Rightarrow> ushort \<Rightarrow> ushort \<Rightarrow> ushort \<Rightarrow> 'd fs \<Rightarrow> (nat option \<times> 'd fs) outcome" where
  "create dsw p wd path ty major minor t =
     andthen (nameiparent dsw p wd path t) (\<lambda>(dpo, t1).
       case dpo of
         None \<Rightarrow> Ok (None, t1)
       | Some (dp, nm) \<Rightarrow>
           andthen (ilock p (Some dp) t1) (\<lambda>t2.
           andthen (dirlookup dsw p dp nm t2) (\<lambda>(r, t3).
             case r of
               Some (ip, _) \<Rightarrow>
                 andthen (iunlockput p dp t3) (\<lambda>t4.
                 andthen (ilock p (Some ip) t4) (\<lambda>t5.
                   if ty = T_FILE \<and> itype (inodes t5 ip) = T_FILE then Ok (Some ip, t5)
                   else andthen (iunlockput p ip t5) (\<lambda>t6. Ok (None, t6))))
             | None \<Rightarrow>
                 andthen (ialloc p (idev (inodes t3 dp)) ty t3) (\<lambda>(ip, t4).
                 andthen (ilock p (Some ip) t4) (create_new dsw p dp ip nm ty major minor)))))"

abbreviation (input) "O_WRONLY \<equiv> (1 :: uint)"
abbreviation (input) "O_RDWR \<equiv> (2 :: uint)"
abbreviation (input) "O_CREATE \<equiv> (0x200 :: uint)"

text \<open>\<^verbatim>\<open>sys_open\<close> up to the locked inode.\<close>

definition open_inode :: "'d devsw \<Rightarrow> int \<Rightarrow> nat \<Rightarrow> uchar list \<Rightarrow> uint \<Rightarrow> 'd fs \<Rightarrow> (nat option \<times> 'd fs) outcome" where
  "open_inode dsw p wd path omode t =
     (if omode AND O_CREATE \<noteq> 0 then create dsw p wd path T_FILE 0 0 t
      else
        andthen (namei dsw p wd path t) (\<lambda>(ipo, t1).
          case ipo of
            None \<Rightarrow> Ok (None, t1)
          | Some ip \<Rightarrow>
              andthen (ilock p (Some ip) t1) (\<lambda>t2.
                if itype (inodes t2 ip) = T_DIR \<and> omode \<noteq> 0 then andthen (iunlockput p ip t2) (\<lambda>t3. Ok (None, t3))
                else Ok (Some ip, t2))))"

text \<open>The file and the descriptor for it; when one of them is not to be had, what was taken is given back.\<close>

definition open_file :: "'d env \<Rightarrow> 'd kernel \<Rightarrow> ((nat \<times> nat) option \<times> 'd kernel) outcome" where
  "open_file e s =
     (case filealloc s of
        (None, s1) \<Rightarrow> Ok (None, s1)
      | (Some f, s1) \<Rightarrow>
          (case fdalloc e f s1 of
             (None, s2) \<Rightarrow> andthen (fileclose (pid (me e s2)) f s2) (\<lambda>s3. Ok (None, s3))
           | (Some fd, s2) \<Rightarrow> Ok (Some (f, fd), s2)))"

definition sys_open :: "'d env \<Rightarrow> 'd kernel \<Rightarrow> (sysres \<times> 'd kernel) outcome" where
  "sys_open e s =
     andthen (argstr e 0 s) (\<lambda>po.
       case po of
         None \<Rightarrow> Ok (Ret (-1), s)
       | Some path \<Rightarrow>
           andthen (argint e 1 s) (\<lambda>mo.
             case mo of
               None \<Rightarrow> Ok (Ret (-1), s)
             | Some omode \<Rightarrow>
                 let p = pid (me e s)
                 in andthen (do_fs fs_begin_op s) (\<lambda>s1.
                    andthen (on_fs (open_inode (edsw e) p (curdir e s1) path omode) s1) (\<lambda>(ipo, s2).
                      case ipo of
                        None \<Rightarrow> andthen (do_fs (fs_end_op p) s2) (\<lambda>s3. Ok (Ret (-1), s3))
                      | Some ip \<Rightarrow>
                          andthen (open_file e s2) (\<lambda>(r, s3).
                            case r of
                              None \<Rightarrow>
                                andthen (do_fs (\<lambda>t. andthen (iunlockput p ip t) (fs_end_op p)) s3) (\<lambda>s4. Ok (Ret (-1), s4))
                            | Some (f, fd) \<Rightarrow>
                                andthen (do_fs (\<lambda>t. andthen (iunlock p (Some ip) t) (fs_end_op p)) s3) (\<lambda>s4.
                                  Ok (Ret (int fd),
                                    upd_file f (\<lambda>x. x\<lparr>ftype := FD_INODE, fip := ip, foff := 0,
                                      readable := (omode AND O_WRONLY = 0),
                                      writable := (omode AND O_WRONLY \<noteq> 0 \<or> omode AND O_RDWR \<noteq> 0)\<rparr>) s4)))))))"

text \<open>\<^verbatim>\<open>sys_mkdir\<close> and \<^verbatim>\<open>sys_mknod\<close> fetch their arguments inside the transaction.\<close>

definition create_node :: "'d env \<Rightarrow> ushort \<Rightarrow> (uchar list \<times> ushort \<times> ushort) option \<Rightarrow> 'd kernel \<Rightarrow> (sysres \<times> 'd kernel) outcome" where
  "create_node e ty args s =
     (let p = pid (me e s)
      in case args of
           None \<Rightarrow> andthen (do_fs (fs_end_op p) s) (\<lambda>s1. Ok (Ret (-1), s1))
         | Some (path, major, minor) \<Rightarrow>
             andthen (on_fs (create (edsw e) p (curdir e s) path ty major minor) s) (\<lambda>(ipo, s1).
               case ipo of
                 None \<Rightarrow> andthen (do_fs (fs_end_op p) s1) (\<lambda>s2. Ok (Ret (-1), s2))
               | Some ip \<Rightarrow> andthen (do_fs (\<lambda>t. andthen (iunlockput p ip t) (fs_end_op p)) s1) (\<lambda>s2. Ok (Ret 0, s2))))"

definition sys_mkdir :: "'d env \<Rightarrow> 'd kernel \<Rightarrow> (sysres \<times> 'd kernel) outcome" where
  "sys_mkdir e s =
     andthen (do_fs fs_begin_op s) (\<lambda>s1.
     andthen (argstr e 0 s1) (\<lambda>po. create_node e T_DIR (map_option (\<lambda>path. (path, 0, 0)) po) s1))"

definition sys_mknod :: "'d env \<Rightarrow> 'd kernel \<Rightarrow> (sysres \<times> 'd kernel) outcome" where
  "sys_mknod e s =
     andthen (do_fs fs_begin_op s) (\<lambda>s1.
     andthen (argstr e 0 s1) (\<lambda>po.
       case po of
         None \<Rightarrow> create_node e T_DEV None s1
       | Some path \<Rightarrow>
           andthen (argint e 1 s1) (\<lambda>mo.
             case mo of
               None \<Rightarrow> create_node e T_DEV None s1
             | Some major \<Rightarrow>
                 andthen (argint e 2 s1) (\<lambda>no.
                   create_node e T_DEV (map_option (\<lambda>minor. (path, ucast major, ucast minor)) no) s1))))"

definition chdir_fs :: "'d devsw \<Rightarrow> int \<Rightarrow> nat \<Rightarrow> uchar list \<Rightarrow> 'd fs \<Rightarrow> (nat option \<times> 'd fs) outcome" where
  "chdir_fs dsw p wd path t =
     andthen (namei dsw p wd path t) (\<lambda>(ipo, t1).
       case ipo of
         None \<Rightarrow> Ok (None, t1)
       | Some ip \<Rightarrow>
           andthen (ilock p (Some ip) t1) (\<lambda>t2.
             if itype (inodes t2 ip) \<noteq> T_DIR then andthen (iunlockput p ip t2) (\<lambda>t3. Ok (None, t3))
             else andthen (iunlock p (Some ip) t2) (\<lambda>t3. andthen (iput p wd t3) (\<lambda>t4. Ok (Some ip, t4)))))"

definition sys_chdir :: "'d env \<Rightarrow> 'd kernel \<Rightarrow> (sysres \<times> 'd kernel) outcome" where
  "sys_chdir e s =
     (let p = pid (me e s)
      in andthen (do_fs fs_begin_op s) (\<lambda>s1.
         andthen (argstr e 0 s1) (\<lambda>po.
         andthen (case po of None \<Rightarrow> Ok (None, s1) | Some path \<Rightarrow> on_fs (chdir_fs (edsw e) p (curdir e s1) path) s1) (\<lambda>(r, s2).
         andthen (do_fs (fs_end_op p) s2) (\<lambda>s3.
           case r of
             None \<Rightarrow> Ok (Ret (-1), s3)
           | Some ip \<Rightarrow> Ok (Ret 0, upd_proc (ecur e) (\<lambda>x. x\<lparr>cwd := Some ip\<rparr>) s3))))))"

text \<open>\<^verbatim>\<open>fd[0] = fd0; fd[1] = fd1\<close> at the user's address \<open>q\<close>.\<close>

definition sys_pipe :: "'d env \<Rightarrow> 'd kernel \<Rightarrow> (sysres \<times> 'd kernel) outcome" where
  "sys_pipe e s =
     andthen (argptr e 0 8 s) (\<lambda>qo.
       case qo of
         None \<Rightarrow> Ok (Ret (-1), s)
       | Some q \<Rightarrow>
           let p = pid (me e s)
           in andthen (pipealloc p s) (\<lambda>(r, s1).
                case r of
                  None \<Rightarrow> Ok (Ret (-1), s1)
                | Some (rfl, wfl) \<Rightarrow>
                    let (fd0, s2) = fdalloc e rfl s1;
                        (fd1, s3) = (case fd0 of None \<Rightarrow> (None, s2) | Some _ \<Rightarrow> fdalloc e wfl s2)
                    in (case (fd0, fd1) of
                         (Some a, Some b) \<Rightarrow>
                           andthen (store_user e q (put32 4 (of_nat b) (put32 0 (of_nat a) (replicate 8 0))) s3) (\<lambda>s4. Ok (Ret 0, s4))
                       | _ \<Rightarrow>
                           let s4 = (case fd0 of None \<Rightarrow> s3 | Some a \<Rightarrow> upd_proc (ecur e) (\<lambda>x. x\<lparr>ofile := (ofile x)(a := None)\<rparr>) s3)
                           in andthen (fileclose p rfl s4) (\<lambda>s5. andthen (fileclose p wfl s5) (\<lambda>s6. Ok (Ret (-1), s6))))))"

end
