(* ===== verification/Exec.thy ===== *)
theory Exec
  imports Sysfile
begin

text \<open>
  Program loading, \<^verbatim>\<open>exec.c\<close> with the headers of \<^verbatim>\<open>elf.h\<close>, and \<^verbatim>\<open>sys_exec\<close> of \<^verbatim>\<open>sysfile.c\<close>. The headers are
  the bytes of the file, read at the offsets that the structures give their fields. An argument string is the
  list of its bytes before the NUL; the list \<open>argv\<close> has no null pointer at its end.
\<close>

abbreviation "ELF_MAGIC \<equiv> (0x464C457F :: uint)"
abbreviation "MAXARG \<equiv> (32 :: nat)"

record elfhdr =
  elf_magic :: uint
  elf_entry :: uint
  elf_phoff :: uint
  elf_phnum :: ushort

definition decode_elf :: "uchar list \<Rightarrow> elfhdr" where
  "decode_elf d = \<lparr>elf_magic = get32 d 0, elf_entry = get32 d 24, elf_phoff = get32 d 28, elf_phnum = get16 d 44\<rparr>"

record proghdr =
  ph_type :: uint
  ph_off :: uint
  ph_vaddr :: uint
  ph_filesz :: uint
  ph_memsz :: uint

definition decode_ph :: "uchar list \<Rightarrow> proghdr" where
  "decode_ph d = \<lparr>ph_type = get32 d 0, ph_off = get32 d 4, ph_vaddr = get32 d 8, ph_filesz = get32 d 16, ph_memsz = get32 d 20\<rparr>"

text \<open>The label \<^verbatim>\<open>bad\<close>: \<open>pg\<close> is 0 when there is no new page table, \<open>ipo\<close> is \<open>None\<close> once the inode has been released.\<close>

definition exec_bad :: "int \<Rightarrow> uint \<Rightarrow> nat option \<Rightarrow> 'd kernel \<Rightarrow> (int \<times> 'd kernel) outcome" where
  "exec_bad p pg ipo s =
     andthen (if pg \<noteq> 0 then andthen (freevm pg (km (kvm s))) (\<lambda>m. Ok (set_km m s)) else Ok s) (\<lambda>s1.
       case ipo of
         None \<Rightarrow> Ok (-1, s1)
       | Some ip \<Rightarrow> andthen (do_fs (\<lambda>t. andthen (iunlockput p ip t) (fs_end_op p)) s1) (\<lambda>s2. Ok (-1, s2)))"

text \<open>The loop over the program headers: the new size, or \<open>None\<close> for a jump to \<^verbatim>\<open>bad\<close>.\<close>

fun exec_load :: "'d devsw \<Rightarrow> int \<Rightarrow> nat \<Rightarrow> uint \<Rightarrow> uint \<Rightarrow> nat list \<Rightarrow> uint \<Rightarrow> 'd kernel \<Rightarrow> (uint option \<times> 'd kernel) outcome" where
  "exec_load dsw p ip pg phoff [] sz s = Ok (Some sz, s)"
| "exec_load dsw p ip pg phoff (i # is) sz s =
     andthen (on_fs (readi dsw p ip (phoff + 32 * of_nat i) 32) s) (\<lambda>((r, d), s1).
       let ph = decode_ph d
       in if r \<noteq> 32 then Ok (None, s1)
          else if ph_type ph \<noteq> 1 then exec_load dsw p ip pg phoff is sz s1
          else if ph_memsz ph < ph_filesz ph then Ok (None, s1)
          else if ph_vaddr ph + ph_memsz ph < ph_vaddr ph then Ok (None, s1)
          else
            andthen (allocuvm pg sz (ph_vaddr ph + ph_memsz ph) (km (kvm s1))) (\<lambda>(sz1, m).
              let s2 = set_km m s1
              in if sz1 = 0 then Ok (None, s2)
                 else if ph_vaddr ph mod PGSIZE \<noteq> 0 then Ok (None, s2)
                 else
                   andthen (loaduvm (readi dsw p ip) pg (ph_vaddr ph) (ph_off ph) (ph_filesz ph) (km (kvm s2)) (fsys s2)) (\<lambda>(r2, m2, t).
                     let s3 = set_km m2 (s2\<lparr>fsys := t\<rparr>)
                     in if r2 < 0 then Ok (None, s3) else exec_load dsw p ip pg phoff is sz1 s3)))"

text \<open>The argument strings, pushed from the top of the stack; the result has the stack pointer and the addresses.\<close>

fun exec_args :: "uint \<Rightarrow> nat \<Rightarrow> uchar list list \<Rightarrow> uint \<Rightarrow> uint list \<Rightarrow> vm \<Rightarrow> ((uint \<times> uint list) option \<times> vm) outcome" where
  "exec_args pg argc [] sp ptrs v = Ok (Some (sp, ptrs), v)"
| "exec_args pg argc (a # as) sp ptrs v =
     (if argc \<ge> MAXARG then Ok (None, v)
      else
        let sp1 = (sp - (of_nat (length a) + 1)) AND NOT 3
        in andthen (copyout pg sp1 (a @ [0]) v) (\<lambda>(r, v1).
             if r < 0 then Ok (None, v1) else exec_args pg (Suc argc) as sp1 (ptrs @ [sp1]) v1))"

definition le32 :: "uint \<Rightarrow> uchar list" where
  "le32 w = put32 0 w (replicate 4 0)"

definition exec_ustack :: "uint \<Rightarrow> uint list \<Rightarrow> uint list" where
  "exec_ustack sp ptrs =
     [0xffffffff, of_nat (length ptrs), sp - (of_nat (length ptrs) + 1) * 4] @ ptrs @ [0]"

text \<open>The two stack pages, the arguments and the vector; the result has the size and the stack pointer.\<close>

definition exec_stack :: "uint \<Rightarrow> uint \<Rightarrow> uchar list list \<Rightarrow> vm \<Rightarrow> ((uint \<times> uint) option \<times> vm) outcome" where
  "exec_stack pg sz0 argv v =
     (let sz1 = PGROUNDUP sz0
      in andthen (allocuvm pg sz1 (sz1 + 2 * PGSIZE) (km v)) (\<lambda>(sz, m).
           if sz = 0 then Ok (None, v\<lparr>km := m\<rparr>)
           else
             andthen (clearpteu pg (sz - 2 * PGSIZE) m) (\<lambda>m1.
             andthen (exec_args pg 0 argv sz [] (v\<lparr>km := m1\<rparr>)) (\<lambda>(r, v1).
               case r of
                 None \<Rightarrow> Ok (None, v1)
               | Some (sp, ptrs) \<Rightarrow>
                   let sp1 = sp - (3 + of_nat (length ptrs) + 1) * 4
                   in andthen (copyout pg sp1 (concat (map le32 (exec_ustack sp ptrs))) v1) (\<lambda>(r, v2).
                        if r < 0 then Ok (None, v2) else Ok (Some (sz, sp1), v2))))))"

definition exec_name :: "uchar list \<Rightarrow> uchar list" where
  "exec_name path = take 15 (rev (takeWhile (\<lambda>c. c \<noteq> slash) (rev path)))"

definition exec_commit :: "'d env \<Rightarrow> uchar list \<Rightarrow> uint \<Rightarrow> uint \<Rightarrow> uint \<Rightarrow> uint \<Rightarrow> 'd kernel \<Rightarrow> (int \<times> 'd kernel) outcome" where
  "exec_commit e path pg sz entry sp s =
     (let old = pgdir (me e s); c = ecpu e;
          s1 = upd_proc (ecur e) (\<lambda>x. x\<lparr>pname := exec_name path, pgdir := pg, psz := sz,
                 tf := (tf x)\<lparr>tf_eip := entry, tf_esp := sp\<rparr>\<rparr>) s;
          k = kstack (me e s1)
      in andthen (switchuvm (Some (k, pg)) k (ts_addr s1 c) (cpuseg s1 c) (kvm s1)) (\<lambda>(g, v).
         andthen (freevm old (km v)) (\<lambda>m.
           Ok (0, s1\<lparr>cpuseg := (cpuseg s1)(c := g), kvm := v\<lparr>km := m\<rparr>\<rparr>))))"

definition exec_image :: "'d env \<Rightarrow> nat \<Rightarrow> uchar list \<Rightarrow> uchar list list \<Rightarrow> elfhdr \<Rightarrow> uint \<Rightarrow> 'd kernel \<Rightarrow> (int \<times> 'd kernel) outcome" where
  "exec_image e ip path argv elf pg s =
     (let p = pid (me e s)
      in andthen (exec_load (edsw e) p ip pg (elf_phoff elf) [0..<unat (elf_phnum elf)] 0 s) (\<lambda>(r, s1).
           case r of
             None \<Rightarrow> exec_bad p pg (Some ip) s1
           | Some sz \<Rightarrow>
               andthen (do_fs (\<lambda>t. andthen (iunlockput p ip t) (fs_end_op p)) s1) (\<lambda>s2.
               andthen (exec_stack pg sz argv (kvm s2)) (\<lambda>(r, v).
                 let s3 = s2\<lparr>kvm := v\<rparr>
                 in case r of
                      None \<Rightarrow> exec_bad p pg None s3
                    | Some (sz1, sp) \<Rightarrow> exec_commit e path pg sz1 (elf_entry elf) sp s3))))"

definition exec :: "'d env \<Rightarrow> uchar list \<Rightarrow> uchar list list \<Rightarrow> 'd kernel \<Rightarrow> (int \<times> 'd kernel) outcome" where
  "exec e path argv s =
     (let p = pid (me e s)
      in andthen (do_fs fs_begin_op s) (\<lambda>s1.
         andthen (on_fs (namei (edsw e) p (curdir e s1) path) s1) (\<lambda>(ipo, s2).
           case ipo of
             None \<Rightarrow> andthen (do_fs (fs_end_op p) s2) (\<lambda>s3. Ok (-1, s3))
           | Some ip \<Rightarrow>
               andthen (do_fs (ilock p (Some ip)) s2) (\<lambda>s3.
               andthen (on_fs (readi (edsw e) p ip 0 52) s3) (\<lambda>((r, d), s4).
                 let elf = decode_elf d
                 in if r \<noteq> 52 \<or> elf_magic elf \<noteq> ELF_MAGIC then exec_bad p 0 (Some ip) s4
                    else
                      andthen (setupkvm (ekmap e) (km (kvm s4))) (\<lambda>(pg, m).
                        if pg = 0 then exec_bad p 0 (Some ip) (set_km m s4)
                        else exec_image e ip path argv elf pg (set_km m s4)))))))"

text \<open>The loop of \<^verbatim>\<open>sys_exec\<close> over the user's vector: \<open>n\<close> slots of \<^verbatim>\<open>argv\<close> are left.\<close>

primrec sys_exec_args :: "'d env \<Rightarrow> nat \<Rightarrow> uint \<Rightarrow> 'd kernel \<Rightarrow> uchar list list option outcome" where
  "sys_exec_args e 0 a s = Ok None"
| "sys_exec_args e (Suc n) a s =
     andthen (fetchint e a s) (\<lambda>uo.
       case uo of
         None \<Rightarrow> Ok None
       | Some uarg \<Rightarrow>
           if uarg = 0 then Ok (Some [])
           else andthen (fetchstr e uarg s) (\<lambda>so.
             case so of
               None \<Rightarrow> Ok None
             | Some str \<Rightarrow> andthen (sys_exec_args e n (a + 4) s) (\<lambda>r. Ok (map_option (Cons str) r))))"

definition sys_exec :: "'d env \<Rightarrow> 'd kernel \<Rightarrow> (sysres \<times> 'd kernel) outcome" where
  "sys_exec e s =
     andthen (argstr e 0 s) (\<lambda>po.
       case po of
         None \<Rightarrow> Ok (Ret (-1), s)
       | Some path \<Rightarrow>
           andthen (argint e 1 s) (\<lambda>uo.
             case uo of
               None \<Rightarrow> Ok (Ret (-1), s)
             | Some uargv \<Rightarrow>
                 andthen (sys_exec_args e MAXARG uargv s) (\<lambda>ao.
                   case ao of
                     None \<Rightarrow> Ok (Ret (-1), s)
                   | Some argv \<Rightarrow> andthen (exec e path argv s) (\<lambda>(r, s1). Ok (Ret r, s1)))))"

end
