(* ===== verification/Syscall.thy ===== *)
theory Syscall
  imports Exec
begin

text \<open>
  The system calls on processes, \<^verbatim>\<open>sysproc.c\<close>, the dispatch of \<^verbatim>\<open>syscall.c\<close> and the trap handler of \<^verbatim>\<open>trap.c\<close>.
  The interrupt handlers of the devices (\<^verbatim>\<open>ideintr\<close>, \<^verbatim>\<open>kbdintr\<close>, \<^verbatim>\<open>uartintr\<close>) are arguments of \<^verbatim>\<open>trap\<close>: state
  transformers of the kernel. Acknowledging an interrupt (\<^verbatim>\<open>lapiceoi\<close>) has no effect on this state.
\<close>

section \<open>Processes\<close>

definition ret :: "(int \<times> 'd kernel) outcome \<Rightarrow> (sysres \<times> 'd kernel) outcome" where
  "ret r = andthen r (\<lambda>(n, s). Ok (Ret n, s))"

definition ret_wait :: "(unit pipe_result \<times> 'd kernel) outcome \<Rightarrow> (sysres \<times> 'd kernel) outcome" where
  "ret_wait r = andthen r (\<lambda>(w, s). Ok (case w of Done n \<Rightarrow> Ret n | Sleep _ \<Rightarrow> Block, s))"

definition sys_fork :: "'d env \<Rightarrow> 'd kernel \<Rightarrow> (sysres \<times> 'd kernel) outcome" where
  "sys_fork e s = ret (fork (ekmap e) (etrapret e) (eforkret e) (ecur e) s)"

definition sys_fork_original :: "'d env \<Rightarrow> 'd kernel \<Rightarrow> (sysres \<times> 'd kernel) outcome" where
  "sys_fork_original e s = ret (fork_original (ekmap e) (etrapret e) (eforkret e) (ecur e) s)"

definition sys_exit :: "'d env \<Rightarrow> 'd kernel \<Rightarrow> (sysres \<times> 'd kernel) outcome" where
  "sys_exit e s = andthen (exit (ecpu e) (ecur e) s) (\<lambda>s1. Ok (Gone, s1))"

definition sys_wait :: "'d env \<Rightarrow> 'd kernel \<Rightarrow> (sysres \<times> 'd kernel) outcome" where
  "sys_wait e s = ret_wait (wait (ecpu e) (ecur e) s)"

definition sys_kill :: "'d env \<Rightarrow> 'd kernel \<Rightarrow> (sysres \<times> 'd kernel) outcome" where
  "sys_kill e s =
     andthen (argint e 0 s) (\<lambda>io.
       case io of
         None \<Rightarrow> Ok (Ret (-1), s)
       | Some n \<Rightarrow> let (r, s1) = kill (sint n) s in Ok (Ret r, s1))"

definition sys_getpid :: "'d env \<Rightarrow> 'd kernel \<Rightarrow> (sysres \<times> 'd kernel) outcome" where
  "sys_getpid e s = Ok (Ret (pid (me e s)), s)"

definition sys_sbrk :: "'d env \<Rightarrow> 'd kernel \<Rightarrow> (sysres \<times> 'd kernel) outcome" where
  "sys_sbrk e s =
     andthen (argint e 0 s) (\<lambda>io.
       case io of
         None \<Rightarrow> Ok (Ret (-1), s)
       | Some n \<Rightarrow>
           andthen (growproc (ecpu e) (ecur e) (sint n) s) (\<lambda>(r, s1).
             Ok (Ret (if r < 0 then -1 else sint (psz (me e s))), s1)))"

text \<open>One round of the loop of \<^verbatim>\<open>sys_sleep\<close>, with \<open>ticks0\<close> read at the start of the call; the comparison
  \<^verbatim>\<open>ticks - ticks0 < n\<close> is unsigned.\<close>

definition sys_sleep_round :: "'d env \<Rightarrow> uint \<Rightarrow> uint \<Rightarrow> 'd kernel \<Rightarrow> (sysres \<times> 'd kernel) outcome" where
  "sys_sleep_round e ticks0 n s =
     (if ticks s - ticks0 < n
      then
        if killed (me e s) then Ok (Ret (-1), s)
        else andthen (sleep (ecpu e) (Some (ecur e)) TicksChan True s) (\<lambda>s1. Ok (Block, s1))
      else Ok (Ret 0, s))"

definition sys_sleep :: "'d env \<Rightarrow> 'd kernel \<Rightarrow> (sysres \<times> 'd kernel) outcome" where
  "sys_sleep e s =
     andthen (argint e 0 s) (\<lambda>io. case io of None \<Rightarrow> Ok (Ret (-1), s) | Some n \<Rightarrow> sys_sleep_round e (ticks s) n s)"

definition sys_uptime :: "'d env \<Rightarrow> 'd kernel \<Rightarrow> (sysres \<times> 'd kernel) outcome" where
  "sys_uptime e s = Ok (Ret (sint (ticks s)), s)"

definition sys_getNumFreePages :: "'d env \<Rightarrow> 'd kernel \<Rightarrow> (sysres \<times> 'd kernel) outcome" where
  "sys_getNumFreePages e s = Ok (Ret (sint (getNumFreePages (km (kvm s)))), s)"

definition sys_pdump :: "'d env \<Rightarrow> 'd kernel \<Rightarrow> (sysres \<times> 'd kernel) outcome" where
  "sys_pdump e s = (case pdump s of None \<Rightarrow> Hang | Some out \<Rightarrow> Ok (Ret 0, s))"

definition sys_nice :: "'d env \<Rightarrow> 'd kernel \<Rightarrow> (sysres \<times> 'd kernel) outcome" where
  "sys_nice e s =
     andthen (argint e 0 s) (\<lambda>io.
       case io of
         None \<Rightarrow> Ok (Ret (-1), s)
       | Some n \<Rightarrow> Ok (Ret 0, upd_proc (ecur e) (\<lambda>x. x\<lparr>priority := sint n\<rparr>) s))"

text \<open>\<^verbatim>\<open>sys_getpri\<close> follows \<^verbatim>\<open>proc->parent\<close>, which is null for the first process: a load through a null pointer.\<close>

definition sys_getpri :: "'d env \<Rightarrow> 'd kernel \<Rightarrow> (sysres \<times> 'd kernel) outcome" where
  "sys_getpri e s =
     (case parent (me e s) of
        Some q \<Rightarrow> Ok (Ret 0, s)
      | None \<Rightarrow> andthen (null_load (kvm s)) (\<lambda>_. Ok (Ret 0, s)))"

definition store_times :: "'d env \<Rightarrow> uint \<Rightarrow> uint \<Rightarrow> uint \<Rightarrow> (int \<times> int \<times> int) option \<Rightarrow> 'd kernel \<Rightarrow> 'd kernel outcome" where
  "store_times e a b c ts s =
     (case ts of
        None \<Rightarrow> Ok s
      | Some (t1, t2, t3) \<Rightarrow>
          andthen (store_user e a (le32 (word_of_int t1)) s) (\<lambda>s1.
          andthen (store_user e b (le32 (word_of_int t2)) s1) (store_user e c (le32 (word_of_int t3)))))"

definition sys_testwait :: "'d env \<Rightarrow> 'd kernel \<Rightarrow> (sysres \<times> 'd kernel) outcome" where
  "sys_testwait e s =
     andthen (argptr e 0 4 s) (\<lambda>ao.
       case ao of
         None \<Rightarrow> Ok (Ret (-1), s)
       | Some a \<Rightarrow>
           andthen (argptr e 1 4 s) (\<lambda>bo.
             case bo of
               None \<Rightarrow> Ok (Ret (-1), s)
             | Some b \<Rightarrow>
                 andthen (argptr e 2 4 s) (\<lambda>co.
                   case co of
                     None \<Rightarrow> Ok (Ret (-1), s)
                   | Some c \<Rightarrow>
                       andthen (testwait (ecpu e) (ecur e) s) (\<lambda>((w, ts), s1).
                       andthen (store_times e a b c ts s1) (\<lambda>s2.
                         Ok (case w of Done n \<Rightarrow> Ret n | Sleep _ \<Rightarrow> Block, s2))))))"

definition sys_yield :: "'d env \<Rightarrow> 'd kernel \<Rightarrow> (sysres \<times> 'd kernel) outcome" where
  "sys_yield e s = andthen (yield (ecpu e) (ecur e) s) (\<lambda>s1. Ok (Yield, s1))"

text \<open>The arrays \<^verbatim>\<open>inuse\<close>, \<^verbatim>\<open>pid\<close>, \<^verbatim>\<open>priority\<close> and \<^verbatim>\<open>state\<close> of the user's structure, 1024 bytes; the array \<^verbatim>\<open>ticks\<close>
  after them is not written. The structure has 2048 bytes.\<close>

definition state_code :: "procstate \<Rightarrow> uint" where
  "state_code st =
     (case st of UNUSED \<Rightarrow> 0 | EMBRYO \<Rightarrow> 1 | SLEEPING \<Rightarrow> 2 | RUNNABLE \<Rightarrow> 3 | RUNNING \<Rightarrow> 4 | ZOMBIE \<Rightarrow> 5)"

definition sys_getpinfo :: "'d env \<Rightarrow> 'd kernel \<Rightarrow> (sysres \<times> 'd kernel) outcome" where
  "sys_getpinfo e s =
     andthen (argptr e 0 2048 s) (\<lambda>qo.
       case qo of
         None \<Rightarrow> Ok (Ret (-1), s)
       | Some q \<Rightarrow>
           let i = getpinfo s
           in andthen (store_user e q (concat (map le32 (map word_of_int (ps_inuse i) @ map word_of_int (ps_pid i) @
                map word_of_int (ps_priority i) @ map state_code (ps_state i)))) s) (\<lambda>s1. Ok (Ret 0, s1)))"

section \<open>Dispatch\<close>

definition syscalls :: "(('d env \<Rightarrow> 'd kernel \<Rightarrow> (sysres \<times> 'd kernel) outcome) option) list" where
  "syscalls = None # map Some
     [sys_fork, sys_exit, sys_wait, sys_pipe, sys_read, sys_kill, sys_exec, sys_fstat, sys_chdir, sys_dup,
      sys_getpid, sys_sbrk, sys_sleep, sys_uptime, sys_open, sys_write, sys_mknod, sys_unlink, sys_link, sys_mkdir,
      sys_close, sys_getNumFreePages, sys_fork_original, sys_nice, sys_getpri, sys_pdump, sys_testwait, sys_yield, sys_getpinfo]"

definition set_eax :: "nat \<Rightarrow> int \<Rightarrow> 'd kernel \<Rightarrow> 'd kernel" where
  "set_eax p r s = upd_proc p (\<lambda>x. x\<lparr>tf := (tf x)\<lparr>tf_eax := word_of_int r\<rparr>\<rparr>) s"

text \<open>The result is stored when the call returns; a call that sleeps or is gone has not returned yet.\<close>

definition syscall :: "'d env \<Rightarrow> 'd kernel \<Rightarrow> (sysres \<times> 'd kernel) outcome" where
  "syscall e s =
     (let num = sint (tf_eax (tf (me e s)))
      in if num > 0 \<and> num < int (length (syscalls :: ('d env \<Rightarrow> 'd kernel \<Rightarrow> (sysres \<times> 'd kernel) outcome) option list))
         then (case syscalls ! nat num of
                 None \<Rightarrow> Ok (Ret (-1), set_eax (ecur e) (-1) s)
               | Some f \<Rightarrow> andthen (f e s) (\<lambda>(r, s1). Ok (r, case r of Ret n \<Rightarrow> set_eax (ecur e) n s1 | _ \<Rightarrow> s1)))
         else Ok (Ret (-1), set_eax (ecur e) (-1) s))"

section \<open>Traps\<close>

abbreviation (input) "T_PGFLT \<equiv> (14 :: uint)"
abbreviation (input) "T_SYSCALL \<equiv> (64 :: uint)"
abbreviation (input) "T_IRQ0 \<equiv> (32 :: uint)"
abbreviation (input) "IRQ_TIMER \<equiv> (0 :: uint)"
abbreviation (input) "IRQ_KBD \<equiv> (1 :: uint)"
abbreviation (input) "IRQ_COM1 \<equiv> (4 :: uint)"
abbreviation (input) "IRQ_IDE \<equiv> (14 :: uint)"
abbreviation (input) "IRQ_SPURIOUS \<equiv> (31 :: uint)"

definition tvinit :: "(nat \<Rightarrow> uint) \<Rightarrow> nat \<Rightarrow> gatedesc" where
  "tvinit vectors =
     (let idt = (\<lambda>i. SETGATE False (push_bit 3 (of_nat SEG_KCODE)) (vectors i) 0)
      in idt(unat T_SYSCALL := SETGATE True (push_bit 3 (of_nat SEG_KCODE)) (vectors (unat T_SYSCALL)) DPL_USER))"

definition timer_tick :: "'d kernel \<Rightarrow> 'd kernel outcome" where
  "timer_tick s =
     (let s1 = updateStats (s\<lparr>ticks := ticks s + 1\<rparr>)
      in andthen (if ticks s1 mod 20 = 0 then resetPriority s1 else Ok s1) (\<lambda>s2. Ok (wakeup TicksChan s2)))"

text \<open>The devices' handlers, the value of \<^verbatim>\<open>cr2\<close> and the process on the processor.\<close>

record 'd trap_env =
  tideintr :: "'d kernel \<Rightarrow> 'd kernel outcome"
  tkbdintr :: "'d kernel \<Rightarrow> 'd kernel outcome"
  tuartintr :: "'d kernel \<Rightarrow> 'd kernel outcome"
  tcr2 :: uint

definition kill_self :: "nat \<Rightarrow> 'd kernel \<Rightarrow> 'd kernel" where
  "kill_self p s = upd_proc p (\<lambda>x. x\<lparr>killed := True\<rparr>) s"

definition user_mode :: "trapframe \<Rightarrow> bool" where
  "user_mode f \<longleftrightarrow> tf_cs f AND 3 = 3"

text \<open>The \<^verbatim>\<open>switch\<close> of \<^verbatim>\<open>trap\<close>.\<close>

definition trap_switch :: "'d env \<Rightarrow> 'd trap_env \<Rightarrow> nat option \<Rightarrow> trapframe \<Rightarrow> 'd kernel \<Rightarrow> 'd kernel outcome" where
  "trap_switch e te po f s =
     (let n = tf_trapno f
      in if n = T_PGFLT
         then andthen (pagefault (map_option (\<lambda>p. pgdir (procs s p)) po) (tcr2 te) (kvm s)) (\<lambda>(dead, v).
                let s1 = s\<lparr>kvm := v\<rparr> in Ok (case po of Some p \<Rightarrow> if dead then kill_self p s1 else s1 | None \<Rightarrow> s1))
         else if n = T_IRQ0 + IRQ_TIMER then (if ecpu e = 0 then timer_tick s else Ok s)
         else if n = T_IRQ0 + IRQ_IDE then tideintr te s
         else if n = T_IRQ0 + IRQ_IDE + 1 then Ok s
         else if n = T_IRQ0 + IRQ_KBD then tkbdintr te s
         else if n = T_IRQ0 + IRQ_COM1 then tuartintr te s
         else if n = T_IRQ0 + 7 \<or> n = T_IRQ0 + IRQ_SPURIOUS then Ok s
         else (case po of
                 None \<Rightarrow> Panic ''trap''
               | Some p \<Rightarrow> if tf_cs f AND 3 = 0 then Panic ''trap'' else Ok (kill_self p s)))"

definition exit_if_killed :: "'d env \<Rightarrow> bool \<Rightarrow> 'd kernel \<Rightarrow> (sysres \<times> 'd kernel) outcome" where
  "exit_if_killed e user s = (if killed (me e s) \<and> user then sys_exit e s else Ok (Ret 0, s))"

text \<open>\<^verbatim>\<open>trap\<close> for the process of the environment, or with \<open>po = None\<close> for an interrupt while the processor is in
  the scheduler. A timer interrupt makes the process yield; what follows the \<^verbatim>\<open>yield\<close> happens when it runs again,
  and is \<open>exit_if_killed\<close>.\<close>

definition trap :: "'d env \<Rightarrow> 'd trap_env \<Rightarrow> nat option \<Rightarrow> trapframe \<Rightarrow> 'd kernel \<Rightarrow> (sysres \<times> 'd kernel) outcome" where
  "trap e te po f s =
     (if tf_trapno f = T_SYSCALL
      then
        (case po of
           None \<Rightarrow> Hang
         | Some p \<Rightarrow>
             andthen (exit_if_killed e True s) (\<lambda>(r, s1).
               if r = Gone then Ok (Gone, s1)
               else
                 andthen (syscall e (upd_proc (ecur e) (\<lambda>x. x\<lparr>tf := f\<rparr>) s1)) (\<lambda>(r, s2).
                   case r of Ret n \<Rightarrow> exit_if_killed e True s2 | _ \<Rightarrow> Ok (r, s2))))
      else
        andthen (trap_switch e te po f s) (\<lambda>s1.
          case po of
            None \<Rightarrow> Ok (Ret 0, s1)
          | Some p \<Rightarrow>
              andthen (exit_if_killed e (user_mode f) s1) (\<lambda>(r, s2).
                if r = Gone then Ok (Gone, s2)
                else if pstate (me e s2) = RUNNING \<and> tf_trapno f = T_IRQ0 + IRQ_TIMER
                then andthen (yield (ecpu e) (ecur e) s2) (\<lambda>s3. Ok (Yield, s3))
                else exit_if_killed e (user_mode f) s2)))"

end
