(* ===== verification/Syscall_Run.thy ===== *)
theory Syscall_Run
  imports Proc_Inv Syscall
begin

text \<open>
  Every handler of the kernel is a run of the step relation on the process table: \<^verbatim>\<open>fork\<close> and \<^verbatim>\<open>exit\<close> are two and one
  critical sections among operations that leave the table alone, and so is every system call and every trap.
\<close>

section \<open>Operations outside the table\<close>

text \<open>The part of the state that the steps are about.\<close>

definition tbl :: "'d kernel \<Rightarrow> (nat \<Rightarrow> procstate \<times> int \<times> nat option \<times> channel) \<times> (nat \<Rightarrow> nat option) \<times> nat option \<times> int" where
  "tbl s = ((\<lambda>i. control (procs s i)), cpuproc s, initproc s, nextpid s)"

lemma same_table_iff: "same_table s s' \<longleftrightarrow> tbl s' = tbl s"
  by (auto simp: same_table_def tbl_def fun_eq_iff)

lemma tbl_cpuproc: "tbl s' = tbl s \<Longrightarrow> cpuproc s' = cpuproc s"
  by (simp add: tbl_def)

lemma tbl_simps [simp]:
  "tbl (s\<lparr>kvm := v\<rparr>) = tbl s" "tbl (s\<lparr>fsys := t\<rparr>) = tbl s" "tbl (s\<lparr>ftable := fm\<rparr>) = tbl s" "tbl (s\<lparr>kpipes := q\<rparr>) = tbl s"
  "tbl (s\<lparr>cpuseg := cs\<rparr>) = tbl s" "tbl (s\<lparr>que := qu\<rparr>) = tbl s" "tbl (s\<lparr>priCount := pc\<rparr>) = tbl s" "tbl (s\<lparr>ticks := n\<rparr>) = tbl s"
  "tbl (set_km m s) = tbl s" "tbl (upd_file f g s) = tbl s"
  by (simp_all add: tbl_def set_km_def upd_file_def)

lemma tbl_upd_proc [simp]: "(\<And>x. control (f x) = control x) \<Longrightarrow> tbl (upd_proc p f s) = tbl s"
  by (simp add: tbl_def fun_eq_iff)

lemma control_simps [simp]:
  "control (x\<lparr>ofile := a\<rparr>) = control x" "control (x\<lparr>pgdir := b\<rparr>) = control x" "control (x\<lparr>psz := c\<rparr>) = control x"
  "control (x\<lparr>tf := d\<rparr>) = control x" "control (x\<lparr>killed := k\<rparr>) = control x" "control (x\<lparr>cwd := w\<rparr>) = control x"
  "control (x\<lparr>priority := i\<rparr>) = control x" "control (x\<lparr>pname := n\<rparr>) = control x"
  by (simp_all add: control_def)

named_theorems table_dests \<open>operations that leave the process table alone\<close>

lemma do_fs_tbl [table_dests]: "do_fs g s = Ok s' \<Longrightarrow> tbl s' = tbl s"
  by (auto simp: do_fs_def outcome_simps)

lemma on_fs_tbl [table_dests]: "on_fs g s = Ok (r, s') \<Longrightarrow> tbl s' = tbl s"
  by (auto simp: on_fs_def outcome_simps)

lemma filealloc_tbl [table_dests]: "filealloc s = (r, s') \<Longrightarrow> tbl s' = tbl s"
  by (auto simp: filealloc_def split: option.splits)

lemma filedup_tbl [table_dests]: "filedup f s = Ok s' \<Longrightarrow> tbl s' = tbl s"
  by (auto simp: filedup_def split: if_splits)

lemma kpipeclose_tbl [table_dests]: "kpipeclose pp w s = Ok s' \<Longrightarrow> tbl s' = tbl s"
  by (auto simp: kpipeclose_def Let_def outcome_simps split: if_splits prod.splits)

lemma fileclose_tbl [table_dests]: "fileclose p f s = Ok s' \<Longrightarrow> tbl s' = tbl s"
  by (auto simp: fileclose_def Let_def split: if_splits file_type.splits dest!: table_dests)

lemma pipealloc_tbl [table_dests]: "pipealloc p s = Ok (r, s') \<Longrightarrow> tbl s' = tbl s"
  by (auto simp: pipealloc_def Let_def elim!: ok_elims dest!: table_dests)

lemma filestat_tbl [table_dests]: "filestat p f s = Ok (r, s') \<Longrightarrow> tbl s' = tbl s"
  by (auto simp: filestat_def Let_def split: if_splits dest!: table_dests)

lemma fileread_tbl [table_dests]: "fileread dsw p k f n s = Ok (r, s') \<Longrightarrow> tbl s' = tbl s"
  by (auto simp: fileread_def Let_def elim!: ok_elims split: file_type.split_asm if_split_asm dest!: table_dests)

lemma filewrite_loop_tbl [table_dests]: "filewrite_loop dsw p f i bs s = Ok (r, s') \<Longrightarrow> tbl s' = tbl s"
proof (induction "length bs" arbitrary: i bs s rule: less_induct)
  case less
  note ih = less(1) and run = less(2)
  show ?case
  proof (cases "bs = []")
    case True
    then show ?thesis using run by (simp add: filewrite_loop.simps [of dsw p f i bs])
  next
    case False
    then have l: "length (drop (min (length bs) filewrite_max) bs) < length bs" by (simp add: filewrite_max_def)
    from run show ?thesis
      by (subst (asm) filewrite_loop.simps) (auto simp: False Let_def elim!: ok_elims split: if_split_asm dest!: table_dests ih [OF l])
  qed
qed

lemma filewrite_tbl [table_dests]: "filewrite dsw p k f bs s = Ok (r, s') \<Longrightarrow> tbl s' = tbl s"
  by (auto simp: filewrite_def Let_def elim!: ok_elims split: file_type.split_asm dest!: table_dests)

lemma fdalloc_tbl [table_dests]: "fdalloc e f s = (r, s') \<Longrightarrow> tbl s' = tbl s"
  by (auto simp: fdalloc_def split: option.splits)

lemma open_file_tbl [table_dests]: "open_file e s = Ok (r, s') \<Longrightarrow> tbl s' = tbl s"
  by (auto simp: open_file_def elim!: ok_elims dest!: table_dests)

lemma store_user_tbl [table_dests]: "store_user e a bs s = Ok s' \<Longrightarrow> tbl s' = tbl s"
  by (induction bs arbitrary: a s) (auto simp: store_user_byte_def Let_def outcome_simps split: option.splits prod.splits)

section \<open>System calls outside the table\<close>

lemma sys_file_tbl [table_dests]:
  "sys_dup e s = Ok (r, s') \<Longrightarrow> tbl s' = tbl s" "sys_read e s = Ok (r, s') \<Longrightarrow> tbl s' = tbl s"
  "sys_write e s = Ok (r, s') \<Longrightarrow> tbl s' = tbl s" "sys_close e s = Ok (r, s') \<Longrightarrow> tbl s' = tbl s"
  "sys_fstat e s = Ok (r, s') \<Longrightarrow> tbl s' = tbl s"
  by (auto simp: sys_dup_def sys_read_def sys_write_def sys_close_def sys_fstat_def
      elim!: ok_elims split: pipe_result.split_asm dest!: table_dests)

lemma sys_name_tbl [table_dests]:
  "sys_link e s = Ok (r, s') \<Longrightarrow> tbl s' = tbl s" "sys_unlink e s = Ok (r, s') \<Longrightarrow> tbl s' = tbl s"
  by (auto simp: sys_link_def sys_unlink_def elim!: ok_elims dest!: table_dests)

lemma sys_open_tbl [table_dests]: "sys_open e s = Ok (r, s') \<Longrightarrow> tbl s' = tbl s"
  by (auto simp: sys_open_def Let_def elim!: ok_elims dest!: table_dests)

lemma create_node_tbl [table_dests]: "create_node e ty args s = Ok (r, s') \<Longrightarrow> tbl s' = tbl s"
  by (auto simp: create_node_def Let_def elim!: ok_elims dest!: table_dests)

lemma sys_create_tbl [table_dests]:
  "sys_mkdir e s = Ok (r, s') \<Longrightarrow> tbl s' = tbl s" "sys_mknod e s = Ok (r, s') \<Longrightarrow> tbl s' = tbl s"
  "sys_chdir e s = Ok (r, s') \<Longrightarrow> tbl s' = tbl s"
  by (auto simp: sys_mkdir_def sys_mknod_def sys_chdir_def Let_def elim!: ok_elims dest!: table_dests)

lemma sys_pipe_tbl [table_dests]: "sys_pipe e s = Ok (r, s') \<Longrightarrow> tbl s' = tbl s"
  by (auto simp: sys_pipe_def Let_def elim!: ok_elims dest!: table_dests)

section \<open>Program loading\<close>

lemma exec_bad_tbl [table_dests]: "exec_bad p pg ipo s = Ok (r, s') \<Longrightarrow> tbl s' = tbl s"
  by (auto simp: exec_bad_def elim!: ok_elims dest!: table_dests)

lemma exec_load_tbl [table_dests]: "exec_load dsw p ip pg ph is sz s = Ok (r, s') \<Longrightarrow> tbl s' = tbl s"
  by (induction "is" arbitrary: sz s) (auto simp: Let_def elim!: ok_elims dest!: table_dests)

lemma exec_commit_tbl [table_dests]: "exec_commit e path pg sz en sp s = Ok (r, s') \<Longrightarrow> tbl s' = tbl s"
  by (auto simp: exec_commit_def Let_def elim!: ok_elims)

lemma exec_image_tbl [table_dests]: "exec_image e ip path argv elf pg s = Ok (r, s') \<Longrightarrow> tbl s' = tbl s"
  by (auto simp: exec_image_def Let_def elim!: ok_elims dest!: table_dests)

lemma exec_tbl [table_dests]: "exec e path argv s = Ok (r, s') \<Longrightarrow> tbl s' = tbl s"
  by (auto simp: exec_def Let_def elim!: ok_elims dest!: table_dests)

lemma sys_exec_tbl [table_dests]: "sys_exec e s = Ok (r, s') \<Longrightarrow> tbl s' = tbl s"
  by (auto simp: sys_exec_def elim!: ok_elims dest!: table_dests)

section \<open>Calls on processes that leave the table alone\<close>

lemma growproc_tbl [table_dests]: "growproc c cur n s = Ok (r, s') \<Longrightarrow> tbl s' = tbl s"
  by (auto simp: growproc_def Let_def elim!: ok_elims)

lemma sys_proc_tbl [table_dests]:
  "sys_getpid e s = Ok (r, s') \<Longrightarrow> tbl s' = tbl s" "sys_sbrk e s = Ok (r, s') \<Longrightarrow> tbl s' = tbl s"
  "sys_uptime e s = Ok (r, s') \<Longrightarrow> tbl s' = tbl s" "sys_getNumFreePages e s = Ok (r, s') \<Longrightarrow> tbl s' = tbl s"
  "sys_pdump e s = Ok (r, s') \<Longrightarrow> tbl s' = tbl s" "sys_nice e s = Ok (r, s') \<Longrightarrow> tbl s' = tbl s"
  "sys_getpri e s = Ok (r, s') \<Longrightarrow> tbl s' = tbl s" "sys_getpinfo e s = Ok (r, s') \<Longrightarrow> tbl s' = tbl s"
  by (auto simp: sys_getpid_def sys_sbrk_def sys_uptime_def sys_getNumFreePages_def sys_pdump_def sys_nice_def sys_getpri_def sys_getpinfo_def
      Let_def elim!: ok_elims dest!: table_dests split: option.split_asm)

lemma account_control: "control (account x) = control x"
  by (cases "pstate x") (simp_all add: account_def control_def)

lemma updateStats_tbl [simp]: "tbl (updateStats s) = tbl s"
  by (simp add: updateStats_eq tbl_def account_control fun_eq_iff)

lemma reset_one_tbl: "reset_one p s = Ok s' \<Longrightarrow> tbl s' = tbl s"
  by (auto simp: reset_one_def Let_def mfq_take_def mfq_put_def if_distrib [of tbl] elim!: ok_elims split: if_splits)

lemma resetPriority_tbl [table_dests]: "resetPriority s = Ok s' \<Longrightarrow> tbl s' = tbl s"
  unfolding resetPriority_def same_table_iff [symmetric] by (rule for_loop_same_table) (auto simp: same_table_iff dest: reset_one_tbl)

lemma store_times_tbl [table_dests]: "store_times e a b c ts s = Ok s' \<Longrightarrow> tbl s' = tbl s"
  by (auto simp: store_times_def elim!: ok_elims dest!: table_dests)

section \<open>Runs\<close>

abbreviation krun :: "uint \<Rightarrow> uint \<Rightarrow> 'd kernel \<times> (nat \<Rightarrow> nat option) \<Rightarrow> 'd kernel \<times> (nat \<Rightarrow> nat option) \<Rightarrow> bool" where
  "krun ta fa \<equiv> (kstep ta fa)\<^sup>*\<^sup>*"

lemma krun_tbl: "tbl s' = tbl s \<Longrightarrow> krun ta fa (s, emb) (s', emb)"
  by (rule r_into_rtranclp) (rule kstep.others, simp add: same_table_iff)

lemma krun_step: "kstep ta fa x y \<Longrightarrow> krun ta fa x y"
  by (rule r_into_rtranclp)

lemma krun_kreach: "krun ta fa x y \<Longrightarrow> kreach ta fa x \<Longrightarrow> kreach ta fa y"
  by (induction rule: rtranclp_induct) (auto intro: kreach_step)

text \<open>The two critical sections of \<^verbatim>\<open>fork\<close>, with the copy of the address space between them.\<close>

lemma fork_steps:
  assumes c: "cpuproc s c = Some cur" and e: "emb cur = None" and a: "allocproc ta fa s = Ok (Some np, s1)" and t: "tbl s2 = tbl s1"
    and v: "(if b then fork_undo np s2 else fork_finish cur np s2) = Ok (n, s')"
  shows "krun ta fa (s, emb) (s', emb)"
proof -
  let ?emb = "emb(cur := Some np)"
  have "krun ta fa (s, emb) (s1, ?emb)" by (rule krun_step) (rule kstep.fork_begin [where emb = emb, OF c e a])
  also have "krun ta fa (s1, ?emb) (s2, ?emb)" by (rule krun_tbl [OF t])
  also have "krun ta fa (s2, ?emb) (s', ?emb(cur := None))"
  proof (rule krun_step)
    have c2: "cpuproc s2 c = Some cur" using allocproc_Some(7) [OF a] tbl_cpuproc [OF t] c by simp
    show "kstep ta fa (s2, ?emb) (s', ?emb(cur := None))"
      using v kstep.fork_abort [OF c2, of ?emb np n s'] kstep.fork_end [OF c2, of ?emb np n s'] by (simp split: if_splits)
  qed
  also have "?emb(cur := None) = emb" using e by auto
  finally show ?thesis .
qed

lemma fork_run:
  assumes c: "cpuproc s c = Some cur" and e: "emb cur = None" and r: "fork kmap ta fa cur s = Ok (n, s')"
  shows "krun ta fa (s, emb) (s', emb)"
proof -
  obtain npo s1 where a: "allocproc ta fa s = Ok (npo, s1)" using r by (auto simp: fork_def elim!: ok_elims)
  show ?thesis
  proof (cases npo)
    case None
    then show ?thesis using r a c by (auto simp: fork_def intro!: krun_step kstep.fork_fail)
  next
    case (Some np)
    then obtain d v where v: "(if d = 0 then fork_undo np (upd_proc np (\<lambda>y. y\<lparr>pgdir := d\<rparr>) (s1\<lparr>kvm := v\<rparr>))
        else fork_finish cur np (upd_proc np (\<lambda>y. y\<lparr>pgdir := d\<rparr>) (s1\<lparr>kvm := v\<rparr>))) = Ok (n, s')"
      using r a by (auto simp: fork_def Let_def elim!: andthen_OkE case_prod_OkE)
    show ?thesis by (rule fork_steps [where emb = emb, OF c e _ _ v]) (use a Some in simp_all)
  qed
qed

lemma fork_original_run:
  assumes c: "cpuproc s c = Some cur" and e: "emb cur = None" and r: "fork_original kmap ta fa cur s = Ok (n, s')"
  shows "krun ta fa (s, emb) (s', emb)"
proof -
  obtain npo s1 where a: "allocproc ta fa s = Ok (npo, s1)" using r by (auto simp: fork_original_def elim!: ok_elims)
  show ?thesis
  proof (cases npo)
    case None
    then show ?thesis using r a c by (auto simp: fork_original_def intro!: krun_step kstep.fork_fail)
  next
    case (Some np)
    then obtain d m where v: "(if d = 0 then fork_undo np (upd_proc np (\<lambda>y. y\<lparr>pgdir := d\<rparr>) (set_km m s1))
        else fork_finish cur np (upd_proc np (\<lambda>y. y\<lparr>pgdir := d\<rparr>) (set_km m s1))) = Ok (n, s')"
      using r a by (auto simp: fork_original_def Let_def elim!: andthen_OkE case_prod_OkE)
    show ?thesis by (rule fork_steps [where emb = emb, OF c e _ _ v]) (use a Some in simp_all)
  qed
qed

lemma exit_run:
  assumes c: "cpuproc s c = Some cur" and e: "emb cur = None" and r: "exit c cur s = Ok s'"
  shows "krun ta fa (s, emb) (s', emb)"
proof -
  have i: "initproc s \<noteq> Some cur" using r by (auto simp: exit_def)
  from r obtain s1 d q s2 where f: "for_loop [0..<NOFILE] (exit_file cur) s = Ok s1"
      "do_fs (\<lambda>t. andthen (fs_begin_op t) (\<lambda>t. andthen (iput q d t) (fs_end_op q))) s1 = Ok s2"
      "switch_away c cur (exit_table cur (upd_proc cur (\<lambda>x. x\<lparr>cwd := None\<rparr>) s2)) = Ok s'"
    unfolding exit_def Let_def by (elim ok_elims) auto
  let ?s3 = "upd_proc cur (\<lambda>x. x\<lparr>cwd := None\<rparr>) s2"
  have "same_table s s1" by (rule for_loop_same_table [OF _ f(1)]) (rule exit_file_same_table)
  then have t: "tbl ?s3 = tbl s" using do_fs_tbl [OF f(2)] by (simp add: same_table_iff)
  then have "krun ta fa (s, emb) (?s3, emb)" by (rule krun_tbl)
  moreover have "kstep ta fa (?s3, emb) (s', emb)"
    by (rule kstep.exits [where emb = emb, OF _ e _ f(3)]) (use c i t in \<open>simp_all add: tbl_def\<close>)
  ultimately show ?thesis by (rule rtranclp.rtrancl_into_rtrancl)
qed

text \<open>\<^verbatim>\<open>userinit\<close> makes the table that the steps start from.\<close>

lemma userinit_boot:
  assumes u: "\<And>p. p < NPROC \<Longrightarrow> pstate (procs s p) = UNUSED \<and> parent (procs s p) = None" and c: "\<And>c. cpuproc s c = None" and n: "0 < nextpid s"
    and r: "userinit kmap dsw ta fa code nm s = Ok s'"
  shows "boot_table s'"
proof -
  obtain p s1 where a: "allocproc ta fa s = Ok (Some p, s1)" using r by (auto simp: userinit_def elim!: ok_elims)
  note x = allocproc_Some [OF a]
  have s': "pstate (procs s' i) = (if i = p then RUNNABLE else pstate (procs s1 i))" "parent (procs s' i) = parent (procs s1 i)"
    "pid (procs s' i) = pid (procs s1 i)" "initproc s' = Some p" "cpuproc s' = cpuproc s1" "nextpid s' = nextpid s1" for i
    using r a by (auto simp: userinit_def Let_def on_fs_def elim!: ok_elims)
  show ?thesis
    unfolding boot_table_def s' using x(1) u c n fun_cong [OF x(3)] fun_cong [OF x(4)] fun_cong [OF x(5)] x(7,9) by (auto intro!: exI [of _ p])
qed

section \<open>System calls and traps\<close>

lemma sys_sleep_run:
  assumes c: "cpuproc s (ecpu e) = Some (ecur e)" and r: "sys_sleep e s = Ok (x, s')"
  shows "krun ta fa (s, emb) (s', emb)"
  using r by (auto simp: sys_sleep_def sys_sleep_round_def elim!: ok_elims intro: krun_step [OF kstep.sleeps [OF c, of TicksChan]])

lemma sys_testwait_run:
  assumes c: "cpuproc s (ecpu e) = Some (ecur e)" and r: "sys_testwait e s = Ok (x, s')"
  shows "krun ta fa (s, emb) (s', emb)"
proof -
  consider "s' = s" | w s1 where "testwait (ecpu e) (ecur e) s = Ok (w, s1)" "tbl s' = tbl s1"
    using r by (auto simp: sys_testwait_def elim!: ok_elims dest!: table_dests)
  then show ?thesis
  proof cases
    case 2
    have "krun ta fa (s, emb) (s1, emb)" by (rule krun_step) (rule kstep.testwaits [OF c 2(1)])
    also have "krun ta fa (s1, emb) (s', emb)" by (rule krun_tbl [OF 2(2)])
    finally show ?thesis .
  qed simp
qed

lemma syscalls_run:
  assumes c: "cpuproc s (ecpu e) = Some (ecur e)" and e: "emb (ecur e) = None"
    and f: "Some f \<in> set syscalls" and r: "f e s = Ok (x, s')"
  shows "krun (etrapret e) (eforkret e) (s, emb) (s', emb)"
proof -
  consider "f = sys_fork" | "f = sys_fork_original" | "f = sys_exit" | "f = sys_wait" | "f = sys_kill" | "f = sys_sleep" | "f = sys_testwait"
    | "f = sys_yield" | "tbl s' = tbl s"
    using f r unfolding syscalls_def by (auto dest!: table_dests)
  then show ?thesis
  proof cases
    case 1
    then show ?thesis using r by (auto simp: sys_fork_def ret_def elim!: ok_elims intro: fork_run [where emb = emb, OF c e])
  next
    case 2
    then show ?thesis using r by (auto simp: sys_fork_original_def ret_def elim!: ok_elims intro: fork_original_run [where emb = emb, OF c e])
  next
    case 3
    then show ?thesis using r by (auto simp: sys_exit_def elim!: ok_elims intro: exit_run [where emb = emb, OF c e])
  next
    case 4
    then show ?thesis using r by (auto simp: sys_wait_def ret_wait_def elim!: ok_elims intro: krun_step [OF kstep.waits [OF c]])
  next
    case 5
    then have "s' = s \<or> (\<exists>n. s' = snd (kill n s))" using r by (auto simp: sys_kill_def split_beta elim!: andthen_OkE case_option_OkE)
    then show ?thesis using krun_step [OF kstep.kills] by auto
  next
    case 6
    then show ?thesis using r sys_sleep_run [OF c] by blast
  next
    case 7
    then show ?thesis using r sys_testwait_run [OF c] by blast
  next
    case 8
    then show ?thesis using r by (auto simp: sys_yield_def elim!: ok_elims intro: krun_step [OF kstep.yields [OF c]])
  qed (rule krun_tbl)
qed

text \<open>A call that returns has not given up its processor.\<close>

lemma fork_finish_cpuproc: "fork_finish cur np s = Ok (r, s') \<Longrightarrow> cpuproc s' = cpuproc s"
  using same_tableD(5) [OF for_loop_same_table [OF fork_files_same_table]]
  by (fastforce simp: fork_finish_def Let_def elim!: andthen_OkE case_option_OkE)

lemma fork_undo_cpuproc: "fork_undo np s = Ok (r, s') \<Longrightarrow> cpuproc s' = cpuproc s"
  by (auto simp: fork_undo_def elim!: ok_elims)

lemma allocproc_cpuproc: "allocproc ta fa s = Ok (r, s') \<Longrightarrow> cpuproc s' = cpuproc s"
  using allocproc_Some(7) allocproc_None same_tableD(5) by (cases r) blast+

lemma fork_cpuproc:
  "fork kmap ta fa cur s = Ok (r, s') \<Longrightarrow> cpuproc s' = cpuproc s"
  "fork_original kmap ta fa cur s = Ok (r, s') \<Longrightarrow> cpuproc s' = cpuproc s"
  by (auto simp: fork_def fork_original_def Let_def elim!: ok_elims dest!: allocproc_cpuproc fork_finish_cpuproc fork_undo_cpuproc)

lemma kill_cpuproc: "kill n s = (r, s') \<Longrightarrow> cpuproc s' = cpuproc s"
  by (auto simp: kill_def split: option.splits)

lemma wait_cpuproc: "wait c cur s = Ok (Done n, s') \<Longrightarrow> cpuproc s' = cpuproc s"
  by (auto simp: wait_def elim!: ok_elims)

lemma testwait_cpuproc: "testwait c cur s = Ok ((Done n, ts), s') \<Longrightarrow> cpuproc s' = cpuproc s"
  by (auto simp: testwait_def Let_def elim!: ok_elims)

lemma syscalls_stay:
  assumes f: "Some f \<in> set syscalls" and r: "f e s = Ok (Ret n, s')"
  shows "cpuproc s' = cpuproc s"
proof -
  consider "f = sys_fork" | "f = sys_fork_original" | "f = sys_exit" | "f = sys_wait" | "f = sys_kill" | "f = sys_sleep" | "f = sys_testwait"
    | "f = sys_yield" | "tbl s' = tbl s"
    using f r unfolding syscalls_def by (auto dest!: table_dests)
  then show ?thesis
    using r tbl_cpuproc [of s' s]
    by cases (auto simp: sys_fork_def sys_fork_original_def sys_exit_def sys_wait_def sys_kill_def sys_sleep_def sys_sleep_round_def sys_testwait_def
      sys_yield_def ret_def ret_wait_def elim!: ok_elims split: pipe_result.split_asm
      dest!: fork_cpuproc kill_cpuproc wait_cpuproc testwait_cpuproc store_times_tbl dest: tbl_cpuproc)
qed

lemma set_eax_tbl [simp]: "tbl (set_eax p r s) = tbl s"
  by (simp add: set_eax_def)

lemma nth_in_set: "xs ! nat n = Some f \<Longrightarrow> 0 < n \<Longrightarrow> n < int (length xs) \<Longrightarrow> Some f \<in> set xs"
  by (metis nth_mem nat_less_iff less_imp_le)

lemma syscall_run:
  assumes c: "cpuproc s (ecpu e) = Some (ecur e)" and e: "emb (ecur e) = None" and r: "syscall e s = Ok (x, s')"
  shows "krun (etrapret e) (eforkret e) (s, emb) (s', emb)" and "x = Ret n \<Longrightarrow> cpuproc s' = cpuproc s"
proof -
  consider "tbl s' = tbl s" | f s1 where "Some f \<in> set syscalls" "f e s = Ok (x, s1)" "tbl s' = tbl s1"
    using r by (auto simp: syscall_def Let_def elim!: ok_elims split: sysres.split_asm option.split_asm dest: nth_in_set)
  then have "krun (etrapret e) (eforkret e) (s, emb) (s', emb) \<and> (x = Ret n \<longrightarrow> cpuproc s' = cpuproc s)"
  proof cases
    case 1
    then show ?thesis using krun_tbl tbl_cpuproc by blast
  next
    case 2
    have "krun (etrapret e) (eforkret e) (s, emb) (s1, emb)" by (rule syscalls_run [where emb = emb, OF c e 2(1,2)])
    also have "krun (etrapret e) (eforkret e) (s1, emb) (s', emb)" by (rule krun_tbl [OF 2(3)])
    finally show ?thesis using syscalls_stay 2 tbl_cpuproc by metis
  qed
  then show "krun (etrapret e) (eforkret e) (s, emb) (s', emb)" and "x = Ret n \<Longrightarrow> cpuproc s' = cpuproc s" by blast+
qed

text \<open>The handler of a device wakes processes and leaves the table alone otherwise.\<close>

definition wakes_only :: "('d kernel \<Rightarrow> 'd kernel outcome) \<Rightarrow> bool" where
  "wakes_only h \<longleftrightarrow> (\<forall>s s'. h s = Ok s' \<longrightarrow> (\<exists>chs. tbl s' = tbl (fold wakeup chs s)))"

lemma krun_wakeups: "krun ta fa (s, emb) (fold wakeup chs s, emb)"
proof (induction chs arbitrary: s)
  case (Cons ch chs)
  have "krun ta fa (s, emb) (wakeup ch s, emb)" by (rule krun_step) (rule kstep.wakes)
  also note Cons
  finally show ?case by simp
qed simp

lemma wakeups_cpuproc: "cpuproc (fold wakeup chs s) = cpuproc s"
  by (induction chs arbitrary: s) (simp_all add: wakeup_def wakeup1_eq)

lemma wakes_only_run:
  assumes h: "wakes_only h" and r: "h s = Ok s'"
  shows "krun ta fa (s, emb) (s', emb)" "cpuproc s' = cpuproc s"
proof -
  obtain chs where c: "tbl s' = tbl (fold wakeup chs s)" using h r unfolding wakes_only_def by blast
  have "krun ta fa (s, emb) (fold wakeup chs s, emb)" by (rule krun_wakeups)
  also have "krun ta fa (fold wakeup chs s, emb) (s', emb)" by (rule krun_tbl [OF c])
  finally show "krun ta fa (s, emb) (s', emb)" .
  show "cpuproc s' = cpuproc s" using tbl_cpuproc [OF c] by (simp add: wakeups_cpuproc)
qed

lemma wakes_only_tbl: "(\<And>s s'. h s = Ok s' \<Longrightarrow> tbl s' = tbl s) \<Longrightarrow> wakes_only h"
  unfolding wakes_only_def by (metis fold_simps(1))

lemma control_woken: "control (woken ch x) = (case control x of (st, n, q, h) \<Rightarrow> (if st = SLEEPING \<and> h = ch then RUNNABLE else st, n, q, h))"
  by (simp add: control_def)

lemma tbl_wakeup:
  "tbl (wakeup ch s) = (case tbl s of (c, rest) \<Rightarrow>
     ((\<lambda>i. if i < NPROC then (case c i of (st, n, q, h) \<Rightarrow> (if st = SLEEPING \<and> h = ch then RUNNABLE else st, n, q, h)) else c i), rest))"
  by (simp add: tbl_def wakeup_def wakeup1_eq control_woken if_distrib [of control] cong: if_cong)

lemma wakes_only_timer: "wakes_only timer_tick"
  unfolding wakes_only_def
proof (intro allI impI)
  fix s s' :: "'d kernel"
  assume "timer_tick s = Ok s'"
  then obtain s1 s2 where s1: "s1 = updateStats (s\<lparr>ticks := ticks s + 1\<rparr>)"
      and r: "(if ticks s1 mod 20 = 0 then resetPriority s1 else Ok s1) = Ok s2" and s': "s' = wakeup TicksChan s2"
    by (auto simp: timer_tick_def Let_def elim!: andthen_OkE)
  have t: "tbl s2 = tbl s" using r s1 by (auto elim!: if_OkE dest!: resetPriority_tbl)
  have "tbl s' = tbl (fold wakeup [TicksChan] s)" using t s' by (simp add: tbl_wakeup)
  then show "\<exists>chs. tbl s' = tbl (fold wakeup chs s)" by blast
qed

lemma wakes_only_switch:
  assumes "wakes_only (tideintr te)" "wakes_only (tkbdintr te)" "wakes_only (tuartintr te)" and r: "trap_switch e te po f s = Ok s'"
  shows "krun ta fa (s, emb) (s', emb)" "cpuproc s' = cpuproc s"
proof -
  have "\<exists>h. wakes_only h \<and> h s = Ok s'" if "tbl s' = tbl s"
    by (rule exI [of _ "\<lambda>x. if tbl x = tbl s then Ok s' else Hang"]) (use that in \<open>auto intro: wakes_only_tbl split: if_splits\<close>)
  moreover have "tbl s' = tbl s \<or> timer_tick s = Ok s' \<or> tideintr te s = Ok s' \<or> tkbdintr te s = Ok s' \<or> tuartintr te s = Ok s'"
    using r by (auto simp: trap_switch_def Let_def kill_self_def elim!: ok_elims split: if_splits option.splits)
  ultimately obtain h where "wakes_only h" "h s = Ok s'" using assms(1-3) wakes_only_timer by blast
  then show "krun ta fa (s, emb) (s', emb)" "cpuproc s' = cpuproc s" by (rule wakes_only_run)+
qed

lemma exit_if_killed_run:
  assumes "cpuproc s (ecpu e) = Some (ecur e)" and "u \<Longrightarrow> emb (ecur e) = None" and r: "exit_if_killed e u s = Ok (x, s')"
  shows "krun ta fa (s, emb) (s', emb)" "x \<noteq> Gone \<Longrightarrow> s' = s"
  using assms exit_run [where emb = emb, of s "ecpu e" "ecur e"]
  by (auto simp: exit_if_killed_def sys_exit_def elim!: ok_elims split: if_splits)

lemma trap_run:
  assumes c: "cpuproc s (ecpu e) = po" "po = None \<or> po = Some (ecur e)"
    and u: "user_mode f \<or> tf_trapno f = T_SYSCALL \<Longrightarrow> emb (ecur e) = None"
    and h: "wakes_only (tideintr te)" "wakes_only (tkbdintr te)" "wakes_only (tuartintr te)"
    and r: "trap e te po f s = Ok (x, s')"
  shows "krun (etrapret e) (eforkret e) (s, emb) (s', emb)"
proof (cases "tf_trapno f = T_SYSCALL")
  case True
  then have po: "po = Some (ecur e)" and cc: "cpuproc s (ecpu e) = Some (ecur e)" and e: "emb (ecur e) = None"
    using c u r by (auto simp: trap_def)
  from r True po obtain y s1 where y: "exit_if_killed e True s = Ok (y, s1)"
      "if y = Gone then s' = s1 else (\<exists>z s2. syscall e (upd_proc (ecur e) (\<lambda>x. x\<lparr>tf := f\<rparr>) s1) = Ok (z, s2) \<and>
        (s' = s2 \<or> (\<exists>n. z = Ret n \<and> exit_if_killed e True s2 = Ok (x, s'))))"
    by (auto simp: trap_def elim!: andthen_OkE case_prod_OkE split: if_splits sysres.split_asm)
  note k = exit_if_killed_run [where emb = emb, OF cc e y(1)]
  show ?thesis
  proof (cases "y = Gone")
    case True
    then show ?thesis using k(1) y(2) by simp
  next
    case False
    let ?s = "upd_proc (ecur e) (\<lambda>x. x\<lparr>tf := f\<rparr>) s"
    have "s1 = s" using k(2) False by simp
    then obtain z s2 where z: "syscall e ?s = Ok (z, s2)" "s' = s2 \<or> (\<exists>n. z = Ret n \<and> exit_if_killed e True s2 = Ok (x, s'))"
      using y(2) False by auto
    have cs: "cpuproc ?s (ecpu e) = Some (ecur e)" using cc by simp
    have "krun (etrapret e) (eforkret e) (s, emb) (?s, emb)" by (rule krun_tbl) simp
    also have "krun (etrapret e) (eforkret e) (?s, emb) (s2, emb)" by (rule syscall_run(1) [where emb = emb, OF cs e z(1)])
    also have "krun (etrapret e) (eforkret e) (s2, emb) (s', emb)"
      using z(2)
    proof (elim disjE exE conjE)
      fix n
      assume n: "z = Ret n" "exit_if_killed e True s2 = Ok (x, s')"
      have "cpuproc s2 (ecpu e) = Some (ecur e)" using syscall_run(2) [where emb = emb, OF cs e z(1) n(1)] cs by simp
      then show ?thesis using exit_if_killed_run(1) [where emb = emb, OF _ _ n(2)] e by blast
    qed simp
    finally show ?thesis .
  qed
next
  case False
  then obtain s1 where s1: "trap_switch e te po f s = Ok s1" using r by (auto simp: trap_def elim!: andthen_OkE)
  note w = wakes_only_switch [OF h s1]
  have run: "krun (etrapret e) (eforkret e) (s, emb) (s1, emb)" by (rule w(1))
  show ?thesis
  proof (cases po)
    case None
    then show ?thesis using run r s1 False by (simp add: trap_def)
  next
    case (Some p)
    then have c1: "cpuproc s1 (ecpu e) = Some (ecur e)" using c w(2) by simp
    have e: "user_mode f \<Longrightarrow> emb (ecur e) = None" using u by blast
    from r False Some s1 obtain y s2 where y: "exit_if_killed e (user_mode f) s1 = Ok (y, s2)"
        "s' = s2 \<or> yield (ecpu e) (ecur e) s2 = Ok s' \<and> y \<noteq> Gone \<or> exit_if_killed e (user_mode f) s2 = Ok (x, s') \<and> y \<noteq> Gone"
      by (auto simp: trap_def elim!: andthen_OkE case_prod_OkE split: if_splits)
    note k = exit_if_killed_run [where emb = emb, OF c1 e y(1)]
    note run
    also have "krun (etrapret e) (eforkret e) (s1, emb) (s2, emb)" by (rule k(1))
    also have "krun (etrapret e) (eforkret e) (s2, emb) (s', emb)"
      using y(2) k(2) c1 e exit_if_killed_run(1) [where emb = emb and s = s2 and u = "user_mode f"] krun_step [OF kstep.yields [of s2 "ecpu e" "ecur e" s']]
      by blast
    finally show ?thesis .
  qed
qed

end
