(* ===== verification/Proc_Props.thy ===== *)
theory Proc_Props
  imports Syscall_Run
begin

text \<open>
  Properties of processes: the invariant of the process table, \<^verbatim>\<open>exit\<close> against \<^verbatim>\<open>wait\<close>, the scheduler, and four
  defects of the code of this fork.
\<close>

section \<open>A small system\<close>

text \<open>One process in slot 0, two free pages, an empty disk.\<close>

definition free_slot :: proc where
  "free_slot = \<lparr>psz = 0, pgdir = 0, kstack = 0, pstate = UNUSED, pid = 0, parent = None,
     tf = \<lparr>tf_edi = 0, tf_esi = 0, tf_ebp = 0, tf_oesp = 0, tf_ebx = 0, tf_edx = 0, tf_ecx = 0, tf_eax = 0, tf_gs = 0, tf_fs = 0,
       tf_es = 0, tf_ds = 0, tf_trapno = 0, tf_err = 0, tf_eip = 0, tf_cs = 0, tf_eflags = 0, tf_esp = 0, tf_ss = 0\<rparr>,
     pcontext = 0, chan = NoChan, killed = False, ofile = \<lambda>_. None, cwd = None, pname = [], stime = 0, ctime = 0, retime = 0, rutime = 0,
     tickets = 0, priority = 0\<rparr>"

definition first_proc :: proc where
  "first_proc = free_slot\<lparr>psz := 4096, pgdir := 0x80103000, kstack := 0x80104000, pstate := RUNNABLE, pid := 1, cwd := Some 0, tickets := 1\<rparr>"

definition small_kernel :: "unit kernel" where
  "small_kernel = \<lparr>
     ftable = \<lambda>_. \<lparr>ftype = FD_NONE, fref = 0, readable = False, writable = False, fpipe = 0, fip = 0, foff = 0\<rparr>,
     kpipes = \<lambda>_. \<lparr>pdata = \<lambda>_. 0, nread = 0, nwrite = 0, readopen = False, writeopen = False, rwait = False, wwait = False\<rparr>,
     fsys = \<lparr>
       flog = \<lparr>lstart = 2, lsize = 30, outstanding = 0, committing = 0, ldev = 1, lhn = 0, lhblock = replicate 30 0, cache = blank_cache\<rparr>,
       fsb = \<lparr>sb_size = 1000, nblocks = 941, ninodes = 200, nlog = 30, logstart = 2, inodestart = 32, bmapstart = 58\<rparr>,
       inodes = \<lambda>_. \<lparr>idev = 1, inum = 1, iref = 1, ilk = free_sleeplock, ivalid = False, itype = 0, imajor = 0, iminor = 0, inlink = 0,
         isize = 0, iaddrs = replicate 13 0\<rparr>,
       devs = ()\<rparr>,
     kvm = \<lparr>km = small_kmem, cr3 = 0, kpgdir = 0x80105000\<rparr>,
     procs = (\<lambda>_. free_slot)(0 := first_proc), que = \<lambda>_. None, priCount = \<lambda>_. -1, initproc = Some 0, pstat_var = \<lambda>_. 0, nextpid = 2,
     ticks = 0, cpuproc = \<lambda>_. None,
     cpuseg = \<lambda>_. \<lparr>gdt = \<lambda>_. SEG 0 0 0 0, ss0 = 0, esp0 = 0, iomb = 0, tr = 0, gs = 0, cpu_self = 0, cpu_proc = 0\<rparr>,
     ts_addr = \<lambda>_. 0, ptable_addr = 0x80112D20, first = False\<rparr>"

lemma small_kernel_simps [simp]:
  "procs small_kernel = (\<lambda>_. free_slot)(0 := first_proc)" "nextpid small_kernel = 2" "initproc small_kernel = Some 0"
  "cpuproc small_kernel c = None" "km (kvm small_kernel) = small_kmem" "ts_addr small_kernel c = 0"
  by (simp_all add: small_kernel_def)

lemma free_slot_simps [simp]:
  "pstate free_slot = UNUSED" "pid free_slot = 0" "parent free_slot = None" "killed free_slot = False" "priority free_slot = 0" "chan free_slot = NoChan"
  by (simp_all add: free_slot_def)

lemma first_proc_simps [simp]:
  "pstate first_proc = RUNNABLE" "pid first_proc = 1" "parent first_proc = None" "killed first_proc = False" "priority first_proc = 0"
  "kstack first_proc = 0x80104000" "pgdir first_proc = 0x80103000"
  by (simp_all add: first_proc_def)

lemma small_kernel_boot: "boot_table small_kernel"
  by (auto simp: boot_table_def)

text \<open>The system after processor 0 has switched to the process.\<close>

definition running_kernel :: "unit kernel" where
  "running_kernel = (case dispatch 0 0 small_kernel of Ok s \<Rightarrow> s | _ \<Rightarrow> small_kernel)"

lemma running_kernel_dispatch: "dispatch 0 0 small_kernel = Ok running_kernel"
  by (simp add: running_kernel_def dispatch_def Let_def switchuvm_def)

lemma running_kernel_simps [simp]:
  "cpuproc running_kernel = (\<lambda>_. None)(0 := Some 0)" "procs running_kernel = (\<lambda>_. free_slot)(0 := first_proc\<lparr>pstate := RUNNING\<rparr>)"
  "initproc running_kernel = Some 0"
  unfolding running_kernel_def by (simp_all add: dispatch_def Let_def switchuvm_def fun_eq_iff)

lemma running_kernel_reach: "kreach ta fa (running_kernel, \<lambda>_. None)"
  using kreach_step [OF kreach_boot [OF small_kernel_boot] kstep.dispatches [where emb = "\<lambda>_. None", OF _ _ _ running_kernel_dispatch]] by simp

section \<open>The process table\<close>




text \<open>The witness: the first process calls \<^verbatim>\<open>getpid\<close>.\<close>

definition small_env :: "unit env" where
  "small_env = \<lparr>ekmap = [], edsw = (\<lambda>_. (None, None)), etrapret = 0, eforkret = 0, ecpu = 0, ecur = 0\<rparr>"

definition no_devices :: "unit trap_env" where
  "no_devices = \<lparr>tideintr = Ok, tkbdintr = Ok, tuartintr = Ok, tcr2 = 0\<rparr>"

definition getpid_frame :: trapframe where
  "getpid_frame = (tf first_proc)\<lparr>tf_trapno := 64, tf_eax := 11, tf_cs := 27\<rparr>"


section \<open>Exit and wait\<close>

lemma krun_inv: "krun ta fa x y \<Longrightarrow> proc_inv (fst x) (snd x) \<Longrightarrow> proc_inv (fst y) (snd y)"
proof (induction rule: rtranclp_induct)
  case (step y z)
  then show ?case using proc_inv_step [of ta fa "fst y" "snd y" "fst z" "snd z"] by simp
qed simp

lemma exit_effect:
  assumes inv: "proc_inv s emb" and c: "cpuproc s c = Some cur" and r: "exit c cur s = Ok s'"
  shows "pstate (procs s' cur) = ZOMBIE" "parent (procs s' cur) = parent (procs s cur)"
proof -
  have i: "initproc s \<noteq> Some cur" using r by (auto simp: exit_def)
  from r obtain s1 d q s2 where f: "for_loop [0..<NOFILE] (exit_file cur) s = Ok s1"
      "do_fs (\<lambda>t. andthen (fs_begin_op t) (\<lambda>t. andthen (iput q d t) (fs_end_op q))) s1 = Ok s2"
      "switch_away c cur (exit_table cur (upd_proc cur (\<lambda>x. x\<lparr>cwd := None\<rparr>) s2)) = Ok s'"
    unfolding exit_def Let_def by (elim ok_elims) auto
  let ?s3 = "upd_proc cur (\<lambda>x. x\<lparr>cwd := None\<rparr>) s2"
  have "same_table s s1" by (rule for_loop_same_table [OF _ f(1)]) (rule exit_file_same_table)
  then have t: "same_table s ?s3" using do_fs_tbl [OF f(2)] by (simp add: same_table_iff)
  then have i3: "initproc ?s3 \<noteq> Some cur" using i same_tableD(6) by metis
  note x = exit_table_eq [OF i3] and s' = switch_away_Ok [OF f(3)]
  show "pstate (procs s' cur) = ZOMBIE" using fun_cong [OF x(1), of cur] s'(1) by simp
  have cur: "cur < NPROC" using proc_invD(1) [OF inv] c by (simp add: cpu_ok_def)
  have "parent (procs s cur) \<noteq> Some cur" using family_okD(2) [OF proc_invD(3) [OF inv] cur, of cur] by blast
  then show "parent (procs s' cur) = parent (procs s cur)"
    using fun_cong [OF x(3), of cur] s'(1) same_tableD(3) [OF t, of cur] by simp
qed


text \<open>The witness: process 1 exits while process 0 is asleep in \<^verbatim>\<open>wait\<close>.\<close>

definition waiting_kernel :: "unit kernel" where
  "waiting_kernel = small_kernel\<lparr>
     procs := (\<lambda>_. free_slot)(0 := first_proc\<lparr>pstate := SLEEPING, chan := ProcChan 0\<rparr>,
                1 := first_proc\<lparr>pstate := RUNNING, pid := 2, parent := Some 0\<rparr>),
     nextpid := 3, cpuproc := (\<lambda>_. None)(0 := Some 1)\<rparr>"

lemma waiting_kernel_inv: "proc_inv waiting_kernel (\<lambda>_. None)"
  by (auto simp: proc_inv_def waiting_kernel_def cpu_ok_def pid_ok_def family_ok_def wait_ok_def split: if_splits)

lemma for_loop_skip: "(\<And>i. i \<in> set xs \<Longrightarrow> f i s = Ok s) \<Longrightarrow> for_loop xs f s = Ok s"
  by (induction xs) auto

lemma waiting_kernel_exit: "\<exists>s'. exit 0 1 waiting_kernel = Ok s'"
proof -
  have "for_loop [0..<NOFILE] (exit_file 1) waiting_kernel = Ok waiting_kernel"
    by (rule for_loop_skip) (simp add: exit_file_def waiting_kernel_def first_proc_def free_slot_def)
  moreover have "do_fs (\<lambda>t. andthen (fs_begin_op t) (\<lambda>t. andthen (iput 2 0 t) (fs_end_op 2))) waiting_kernel = Ok s2 \<Longrightarrow>
      \<exists>s'. switch_away 0 1 (exit_table 1 (upd_proc 1 (\<lambda>x. x\<lparr>cwd := None\<rparr>) s2)) = Ok s'" for s2
    by (simp add: switch_away_def sched_def exit_table_def)
  moreover have "\<exists>s2. do_fs (\<lambda>t. andthen (fs_begin_op t) (\<lambda>t. andthen (iput 2 0 t) (fs_end_op 2))) waiting_kernel = Ok s2"
    by (simp add: do_fs_def waiting_kernel_def small_kernel_def fs_begin_op_def begin_op_def iput_def ilock_wait_def acquiresleep_def
        free_sleeplock_def initsleeplock_def upd_inode_def fs_end_op_def end_op_def end_op_leave_def commit_def)
  ultimately show ?thesis by (auto simp: exit_def Let_def waiting_kernel_def first_proc_def)
qed


end
