(* ===== verification/Sched_Props.thy ===== *)
theory Sched_Props
  imports Proc_Props
begin

text \<open>
  The schedulers and the accounting of \<^verbatim>\<open>proc.c\<close>: the default scheduler runs every process that is ready; the lottery
  scheduler runs none; and three defects in the code that this fork adds to the process table.
\<close>

section \<open>The default scheduler\<close>

text \<open>Every process that may be run has a stack and a page table, which \<^verbatim>\<open>switchuvm\<close> checks.\<close>

definition ready :: "'d kernel \<Rightarrow> bool" where
  "ready s \<longleftrightarrow> (\<forall>p < NPROC. pstate (procs s p) = RUNNABLE \<longrightarrow> kstack (procs s p) \<noteq> 0 \<and> pgdir (procs s p) \<noteq> 0)"

lemma dispatch_ready:
  assumes "ready s" "p < NPROC" "pstate (procs s p) = RUNNABLE"
  shows "\<exists>s1. dispatch c p s = Ok s1 \<and> ready s1 \<and> procs s1 = (procs s)(p := (procs s p)\<lparr>pstate := RUNNING\<rparr>)"
  using assms by (auto simp: ready_def dispatch_def switchuvm_def Let_def)

lemma scheduler_pass_serves:
  assumes run: "\<And>p s. ready s \<Longrightarrow> ready (run p s)"
    and keep: "\<And>p s. p \<noteq> q \<Longrightarrow> pstate (procs s q) = RUNNABLE \<Longrightarrow> pstate (procs (run p s) q) = RUNNABLE"
  shows "ready s \<Longrightarrow> distinct ps \<Longrightarrow> set ps \<subseteq> {..<NPROC} \<Longrightarrow> \<exists>ds s'. scheduler_pass run c ps s = Ok (ds, s') \<and> distinct ds \<and>
    set ds \<subseteq> set ps \<and> (q \<in> set ps \<and> pstate (procs s q) = RUNNABLE \<longrightarrow> q \<in> set ds)"
proof (induction ps arbitrary: s)
  case (Cons p ps)
  show ?case
  proof (cases "pstate (procs s p) = RUNNABLE")
    case False
    then show ?thesis using Cons.IH [of s] Cons.prems by auto
  next
    case True
    obtain s1 where s1: "dispatch c p s = Ok s1" "ready s1" "procs s1 = (procs s)(p := (procs s p)\<lparr>pstate := RUNNING\<rparr>)"
      using dispatch_ready [of s p] True Cons.prems by auto
    let ?s2 = "to_scheduler c (run p s1)"
    have p2: "procs ?s2 = procs (run p s1)" by (simp add: to_scheduler_def)
    have "ready ?s2" using run [OF s1(2), of p] by (simp add: ready_def p2)
    then obtain ds s' where ds: "scheduler_pass run c ps ?s2 = Ok (ds, s')" "distinct ds" "set ds \<subseteq> set ps"
        "q \<in> set ps \<and> pstate (procs ?s2 q) = RUNNABLE \<longrightarrow> q \<in> set ds"
      using Cons.IH [of ?s2] Cons.prems by auto
    have "pstate (procs ?s2 q) = RUNNABLE" if "p \<noteq> q" "pstate (procs s q) = RUNNABLE" using keep [of p s1] that s1(3) p2 by simp
    then show ?thesis using True s1(1) ds Cons.prems(2) by (intro exI [of _ "p # ds"] exI [of _ s']) auto
  qed
qed simp

text \<open>C5: One pass of the default scheduler over the table returns, runs no process twice, and runs every process that is ready when
  the pass begins, whatever the processes do while they run. \<open>run p\<close> is what happens from the switch to \<open>p\<close>
  until it switches back; it is assumed to keep the stacks and page tables of ready processes, and not to
  take \<open>q\<close> out of the ready state, as another processor would by running it.\<close>

theorem scheduler_serves:
  assumes "ready s" and "q < NPROC" and "pstate (procs s q) = RUNNABLE"
    and "\<And>p s. ready s \<Longrightarrow> ready (run p s)"
    and "\<And>p s. p \<noteq> q \<Longrightarrow> pstate (procs s q) = RUNNABLE \<Longrightarrow> pstate (procs (run p s) q) = RUNNABLE"
  shows "\<exists>ds s'. scheduler run c s = Ok (ds, s') \<and> distinct ds \<and> q \<in> set ds"
proof -
  have "ready (s\<lparr>cpuproc := (cpuproc s)(c := None)\<rparr>)" using assms(1) by (simp add: ready_def)
  from scheduler_pass_serves [of run q, OF assms(4,5) this, where ps = "[0..<NPROC]" and c = c]
  show ?thesis using assms(2,3) by (auto simp: scheduler_def atLeast0LessThan simp del: upt_rec_numeral)
qed

text \<open>The witness: every process sleeps as soon as it runs.\<close>

theorem scheduler_serves_witness:
  "\<exists>ds s'. scheduler (\<lambda>p. upd_proc p (\<lambda>x. x\<lparr>pstate := SLEEPING\<rparr>)) 0 small_kernel = Ok (ds, s') \<and> distinct ds \<and> 0 \<in> set ds"
  by (rule scheduler_serves) (auto simp: ready_def)

section \<open>The lottery scheduler\<close>

lemma random_at_most_nonneg:
  assumes "rand_ok r" and "random_at_most m r = Some (x, r')"
  shows "0 \<le> sint x" and "rand_ok r'"
proof -
  obtain y where y: "draw_loop (num_rand - num_rand mod (m + 1)) r = Some (y, r')" "x = y div (num_rand div (m + 1))"
    using assms(2) by (auto simp: random_at_most_def Let_def split: option.splits)
  note b = draw_loop_bound [OF y(1) assms(1)]
  show "rand_ok r'" using b by simp
  have m: "y \<le> RAND_MAX" using b by blast
  have "x \<le> y" unfolding y(2) by (simp add: word_le_nat_alt unat_div)
  then have "uint x \<le> uint y" unfolding word_le_def .
  also have "uint y \<le> uint (RAND_MAX :: uint)" using m unfolding word_le_def .
  finally have "uint x < 2 ^ 31" by simp
  then show "0 \<le> sint x" by (simp add: sint_uint signed_take_bit_eq_if_positive bit_iff_odd)
qed

text \<open>C17: The lottery scheduler never runs a process: every draw is at least 0, and the loop goes on to the next process
  on such a draw. A pass over any part of the table that ends has switched to no process and left the kernel as it was.\<close>

theorem lottery_never_runs:
  assumes "rand_ok r"
  shows "lottery_pass run c ps r s = Hang \<or> (\<exists>r'. lottery_pass run c ps r s = Ok ([], r', s))"
  using assms
proof (induction ps arbitrary: r)
  case (Cons p ps)
  show ?case
  proof (cases "pstate (procs s p) = RUNNABLE")
    case True
    show ?thesis
    proof (cases "random_at_most (word_of_int (totalTickets s)) r")
      case (Some d)
      then obtain x r' where d: "random_at_most (word_of_int (totalTickets s)) r = Some (x, r')" by (cases d) simp
      show ?thesis using Cons.IH [OF random_at_most_nonneg(2) [OF Cons.prems d]] random_at_most_nonneg(1) [OF Cons.prems d] True d by simp
    qed (use True in simp)
  qed (use Cons in simp)
qed simp

theorem lottery_never_runs_witness:
  "lottery_pass (\<lambda>p s. s) 0 [0, 1] rand_init small_kernel = Hang \<or>
   (\<exists>r'. lottery_pass (\<lambda>p s. s) 0 [0, 1] rand_init small_kernel = Ok ([], r', small_kernel))"
  by (rule lottery_never_runs) (simp add: rand_ok_def rand_init_def)

section \<open>The queues\<close>

text \<open>The first queue is headed by a process that is not ready.\<close>

definition blocked_head :: "nat \<Rightarrow> 'd kernel \<Rightarrow> bool" where
  "blocked_head f s \<longleftrightarrow> que s 0 = Some f \<and> pstate (procs s f) \<noteq> RUNNABLE \<and> 0 \<le> priCount s 0 \<and> priCount s 0 < 3 * int NPROC \<and>
     (\<forall>p < NPROC. pstate (procs s p) = RUNNABLE \<longrightarrow> priority (procs s p) = 0)"

definition same_states :: "'d kernel \<Rightarrow> 'd kernel \<Rightarrow> bool" where
  "same_states s s' \<longleftrightarrow> (\<forall>i. pstate (procs s' i) = pstate (procs s i))"

lemma reset_one_blocked:
  assumes "blocked_head f s" "p < NPROC"
  shows "reset_one p s = Hang \<or> (\<exists>s'. reset_one p s = Ok s' \<and> blocked_head f s' \<and> same_states s s' \<and>
    priCount s' 0 = priCount s 0 + (if pstate (procs s p) = RUNNABLE then 1 else 0))"
  using assms by (auto simp: blocked_head_def same_states_def reset_one_def mfq_put_def Let_def)

lemma reset_loop_blocked:
  assumes "blocked_head f s" "set ps \<subseteq> {..<NPROC}"
  shows "for_loop ps reset_one s = Hang \<or> (\<exists>s'. for_loop ps reset_one s = Ok s' \<and> blocked_head f s' \<and> same_states s s' \<and>
    priCount s' 0 = priCount s 0 + int (length (filter (\<lambda>p. pstate (procs s p) = RUNNABLE) ps)))"
  using assms
proof (induction ps arbitrary: s)
  case (Cons p ps)
  from reset_one_blocked [OF Cons.prems(1), of p] Cons.prems(2) consider "reset_one p s = Hang"
    | s1 where "reset_one p s = Ok s1" "blocked_head f s1" "same_states s s1"
        "priCount s1 0 = priCount s 0 + (if pstate (procs s p) = RUNNABLE then 1 else 0)" by auto
  then show ?case
  proof cases
    case 2
    then show ?thesis using Cons.IH [OF 2(2)] Cons.prems(2) by (auto simp: same_states_def)
  qed simp
qed (simp add: same_states_def)

text \<open>\<open>n\<close> calls of \<^verbatim>\<open>resetPriority\<close> in a row.\<close>

primrec resets :: "nat \<Rightarrow> 'd kernel \<Rightarrow> 'd kernel outcome" where
  "resets 0 s = Ok s"
| "resets (Suc n) s = andthen (resets n s) resetPriority"

lemma resets_blocked:
  assumes h: "blocked_head f s" and p: "p < NPROC" "pstate (procs s p) = RUNNABLE"
  shows "resets n s = Hang \<or> (\<exists>s'. resets n s = Ok s' \<and> blocked_head f s' \<and> same_states s s' \<and> priCount s 0 + int n \<le> priCount s' 0)"
proof (induction n)
  case (Suc n)
  then consider "resets n s = Hang"
    | s1 where "resets n s = Ok s1" "blocked_head f s1" "same_states s s1" "priCount s 0 + int n \<le> priCount s1 0" by blast
  then show ?case
  proof cases
    case 2
    let ?ready = "filter (\<lambda>p. pstate (procs s1 p) = RUNNABLE) [0..<NPROC]"
    have "p \<in> set ?ready" using p 2(3) by (simp add: same_states_def del: upt_rec_numeral)
    then have "?ready \<noteq> []" by force
    then have "1 \<le> int (length ?ready)" by (cases ?ready) simp_all
    moreover have "set [0..<NPROC] \<subseteq> {..<NPROC}" by (simp add: atLeast0LessThan del: upt_rec_numeral)
    ultimately show ?thesis
      using 2 reset_loop_blocked [OF 2(2), of "[0..<NPROC]"] by (auto simp: resetPriority_def same_states_def simp del: upt_rec_numeral)
  qed simp
qed (simp add: h same_states_def)

text \<open>C15: \<^verbatim>\<open>resetPriority\<close>, which the timer interrupt calls every 20 ticks, overruns the queues. The search loop looks at the front of
  the queue only, so while a process that sleeps is at the front, each call appends every ready process again and
  removes none. With one such process, 192 calls are enough for a store past the end of the three queues.\<close>

theorem resetPriority_overruns:
  assumes "blocked_head f s" and "p < NPROC" and "pstate (procs s p) = RUNNABLE"
  shows "resets 192 s = Hang"
proof -
  from resets_blocked [OF assms, of 192] consider "resets 192 s = Hang" | s' where "resets 192 s = Ok s'" "blocked_head f s'" "priCount s 0 + int 192 \<le> priCount s' 0" by blast
  then show ?thesis using assms(1) by cases (auto simp: blocked_head_def)
qed

theorem resetPriority_overruns_witness:
  "resets 192 (small_kernel\<lparr>procs := (\<lambda>_. free_slot)(0 := first_proc\<lparr>pstate := SLEEPING\<rparr>, 1 := first_proc\<lparr>pid := 2, parent := Some 0\<rparr>),
     que := (\<lambda>_. None)(0 := Some 0), priCount := (\<lambda>_. -1)(0 := 0)\<rparr>) = Hang"
  by (rule resetPriority_overruns [of 0 _ 1]) (auto simp: blocked_head_def)

section \<open>Slots that are marked killed\<close>

lemma find_upt_first: "p < n \<Longrightarrow> P p \<Longrightarrow> (\<And>q. q < p \<Longrightarrow> \<not> P q) \<Longrightarrow> find P [0..<n] = Some p"
  unfolding find_Some_iff by (intro exI [of _ p]) auto

lemma for_loop_inv: "for_loop xs f s = Ok s' \<Longrightarrow> P s \<Longrightarrow> (\<And>i s s'. P s \<Longrightarrow> f i s = Ok s' \<Longrightarrow> P s') \<Longrightarrow> P s'"
  by (induction xs arbitrary: s) (auto simp: outcome_simps)

lemma fork_finish_killed:
  assumes "fork_finish cur np s = Ok (n, s')" and "killed (procs s p)"
  shows "killed (procs s' p)"
proof -
  let ?x = "procs s cur"
  let ?s1 = "upd_proc np (\<lambda>y. y\<lparr>psz := psz ?x, parent := Some cur, tf := (tf ?x)\<lparr>tf_eax := 0\<rparr>, tickets := DEFAULT_TICKETS\<rparr>) s"
  obtain s2 where s2: "for_loop [0..<NOFILE] (fork_files cur np) ?s1 = Ok s2" "killed (procs s2 p) \<longrightarrow> killed (procs s' p)"
    using assms(1) by (auto simp: fork_finish_def Let_def elim!: andthen_OkE case_option_OkE)
  have "killed (procs s2 p)"
    by (rule for_loop_inv [OF s2(1)]) (use assms(2) in \<open>auto simp: fork_files_def filedup_def upd_file_def elim!: ok_elims\<close>)
  then show ?thesis using s2(2) by simp
qed

text \<open>C16: \<^verbatim>\<open>kill(0)\<close> succeeds and kills a process that does not exist yet. The search compares the ids of unused slots too, so it
  marks the first free slot; \<^verbatim>\<open>fork\<close> takes that slot and clears no mark, and the child it makes
  is marked as killed before it has run.\<close>

theorem kill_zero_kills_next_child:
  assumes "proc_inv s emb" and "p < NPROC" and "pstate (procs s p) = UNUSED" and "pid (procs s p) = 0"
    and "\<And>q. q < p \<Longrightarrow> pstate (procs s q) \<noteq> UNUSED"
    and "kill 0 s = (r, s1)" and "fork kmap ta fa cur s1 = Ok (n, s2)" and "n \<noteq> -1"
  shows "r = 0 \<and> n = pid (procs s2 p) \<and> pstate (procs s2 p) = RUNNABLE \<and> killed (procs s2 p)"
proof -
  have "pid (procs s q) \<noteq> 0" if "q < p" for q
    using proc_invD(2) [OF assms(1)] assms(2,5) that unfolding pid_ok_def by (metis less_irrefl order.strict_trans)
  then have f: "find (\<lambda>i. pid (procs s i) = 0) [0..<NPROC] = Some p" using assms(2,4) by (intro find_upt_first) auto
  then have k: "r = 0" "s1 = upd_proc p (\<lambda>x. x\<lparr>killed := True, pstate := UNUSED\<rparr>) s"
    using assms(3,6) by (auto simp: kill_def upd_proc_def)
  have "find (\<lambda>i. pstate (procs s1 i) = UNUSED) [0..<NPROC] = Some p"
    using assms(2,3,5) k(2) by (intro find_upt_first) auto
  then have a: "allocproc ta fa s1 = Ok (npo, s3) \<Longrightarrow> (npo = None \<or> npo = Some p) \<and> killed (procs s3 p)" for npo s3
    using k(2) by (auto simp: allocproc_def Let_def split: prod.splits if_splits)
  obtain d v s3 where r: "allocproc ta fa s1 = Ok (Some p, s3)"
      "(if d = 0 then fork_undo p (upd_proc p (\<lambda>y. y\<lparr>pgdir := d\<rparr>) (s3\<lparr>kvm := v\<rparr>))
        else fork_finish cur p (upd_proc p (\<lambda>y. y\<lparr>pgdir := d\<rparr>) (s3\<lparr>kvm := v\<rparr>))) = Ok (n, s2)"
    using assms(7,8) a by (auto simp: fork_def Let_def elim!: andthen_OkE case_prod_OkE case_option_OkE)
  have "d \<noteq> 0" using r(2) assms(8) by (auto simp: fork_undo_def elim!: ok_elims)
  then have fin: "fork_finish cur p (upd_proc p (\<lambda>y. y\<lparr>pgdir := d\<rparr>) (s3\<lparr>kvm := v\<rparr>)) = Ok (n, s2)" using r(2) by simp
  have "killed (procs s2 p)" by (rule fork_finish_killed [OF fin]) (use a [OF r(1)] in simp)
  then show ?thesis using k(1) fin by (auto simp: fork_finish_def Let_def elim!: andthen_OkE case_option_OkE)
qed

text \<open>The witness: the first process calls \<^verbatim>\<open>kill(0)\<close> and then \<^verbatim>\<open>fork\<close>.\<close>

definition forking_kernel :: "unit kernel" where
  "forking_kernel = small_kernel\<lparr>procs := (\<lambda>_. free_slot)(0 := first_proc\<lparr>psz := 0\<rparr>)\<rparr>"

theorem kill_zero_kills_next_child_witness:
  "\<exists>s1 n s2. kill 0 forking_kernel = (0, s1) \<and> fork [] 0 0 0 s1 = Ok (n, s2) \<and> n = 2 \<and> killed (procs s2 1)"
proof -
  let ?s1 = "upd_proc 1 (\<lambda>x. x\<lparr>killed := True, pstate := UNUSED\<rparr>) forking_kernel"
  have inv: "proc_inv forking_kernel (\<lambda>_. None)"
    by (rule proc_inv_boot) (auto simp: boot_table_def forking_kernel_def)
  have "find (\<lambda>i. pid (procs forking_kernel i) = 0) [0..<NPROC] = Some 1" by (rule find_upt_first) (auto simp: forking_kernel_def)
  then have k: "kill 0 forking_kernel = (0, ?s1)" by (simp add: kill_def upd_proc_def forking_kernel_def)
  have u: "find (\<lambda>i. pstate (procs ?s1 i) = UNUSED) [0..<NPROC] = Some 1" by (rule find_upt_first) (auto simp: forking_kernel_def)
  obtain s3 where s3: "allocproc 0 0 ?s1 = Ok (Some 1, s3)" "freelist (km (kvm s3)) = 0x80102000" "procs s3 0 = first_proc\<lparr>psz := 0\<rparr>"
      "pid (procs s3 1) = 2" "fsys s3 = fsys small_kernel"
    unfolding allocproc_def u
    by (simp add: Let_def kalloc_def small_kmem_def forking_kernel_def small_kernel_def set_km_def upd_proc_def init_kstack_def store_word_def free_slot_def)
  have l: "copyuvm_loop 1048577 a b 0 0 m = Ok (b, m)" for a b m using copyuvm_loop.simps(2) [of page_fuel a b 0 0 m] by simp
  obtain d v where c: "copyuvm [] (pgdir (procs s3 0)) (psz (procs s3 0)) (kvm s3) = Ok (d, v)" "d \<noteq> 0"
    by (simp add: copyuvm_def setupkvm_def kalloc_def s3(2,3) l Let_def P2V_def del: copyuvm_loop.simps)
  have "for_loop [0..<NOFILE] (fork_files 0 1) t = Ok t" if "ofile (procs t 0) = (\<lambda>_. None)" for t :: "unit kernel"
    by (rule for_loop_skip) (simp add: fork_files_def that)
  then obtain s2 where f: "fork [] 0 0 0 ?s1 = Ok (2, s2)"
    using s3 c by (auto simp: fork_def fork_finish_def Let_def first_proc_def free_slot_def)
  show ?thesis
    using kill_zero_kills_next_child [OF inv _ _ _ _ k f, of 1] k f by (auto simp: forking_kernel_def)
qed

section \<open>The statistics\<close>

text \<open>C18: \<^verbatim>\<open>allocproc\<close> indexes the arrays of \<^verbatim>\<open>pstat_var\<close>, which have 64 entries each, by the process id. The id is never reused,
  so the 64th process that is created makes it store zeros behind the end of the 512 ints of the structure.\<close>

theorem allocproc_overruns_pstat:
  assumes "int NPROC \<le> nextpid s" and "allocproc ta fa s = Ok (Some np, s')"
  shows "\<exists>i \<ge> 8 * NPROC. pstat_var s' i = 0 \<and> (\<forall>j \<in> {i..i + 3}. pstat_var s' j = 0) \<and> i = 4 * NPROC + 4 * nat (nextpid s)"
proof -
  have "pstat_var s' = pstat_record (nat (nextpid s)) (priority (procs s np)) (pstat_var s)"
    using assms(2) by (auto simp: allocproc_def Let_def set_km_def upd_proc_def outcome_simps split: option.splits prod.splits if_splits)
  moreover have "j \<in> {i..i + 3} \<longleftrightarrow> j = i \<or> j = i + 1 \<or> j = i + 2 \<or> j = i + 3" for i j :: nat by auto
  ultimately show ?thesis using assms(1) by (intro exI [of _ "4 * NPROC + 4 * nat (nextpid s)"]) (auto simp: pstat_record_def)
qed

theorem allocproc_overruns_pstat_witness:
  "\<exists>s'. allocproc 0 0 (small_kernel\<lparr>nextpid := 64, pstat_var := \<lambda>_. 7\<rparr>) = Ok (Some 1, s') \<and> pstat_var s' 512 = 0"
proof -
  let ?s = "small_kernel\<lparr>nextpid := 64, pstat_var := \<lambda>_. 7\<rparr>"
  have u: "find (\<lambda>i. pstate (procs ?s i) = UNUSED) [0..<NPROC] = Some 1" by (rule find_upt_first) auto
  obtain s' where s': "allocproc 0 0 ?s = Ok (Some 1, s')"
    unfolding allocproc_def u by (simp add: Let_def kalloc_def small_kmem_def small_kernel_def set_km_def upd_proc_def)
  then show ?thesis using allocproc_overruns_pstat [OF _ s'] by auto
qed

end
