(* ===== verification/Fs_Txn.thy ===== *)
theory Fs_Txn
  imports Fs
begin

text \<open>
  Blocks inside a transaction. \<open>txn p H k s\<close> says that process \<open>p\<close> is in a transaction in which it holds
  the buffers \<open>H\<close>, nobody uses another buffer, and \<open>k\<close> more resources are there: reading a block takes one for as long
  as its buffer is held, logging a block takes one for good. The contents of the disk are seen through the
  buffer cache (\<open>blk\<close>), so the operations of the file system become updates of one function from block
  numbers to blocks.

  \<open>runs r Q\<close> is total correctness of a call: it returns normally, and its result satisfies \<open>Q\<close>.
\<close>

section \<open>Calls that return\<close>

definition runs :: "'a outcome \<Rightarrow> ('a \<Rightarrow> bool) \<Rightarrow> bool" where
  "runs r Q \<longleftrightarrow> (\<exists>y. r = Ok y \<and> Q y)"

lemma runs_Ok [simp]: "runs (Ok y) Q \<longleftrightarrow> Q y"
  by (simp add: runs_def)

lemma runs_andthen [simp]: "runs (andthen r f) Q \<longleftrightarrow> runs r (\<lambda>x. runs (f x) Q)"
  by (auto simp: runs_def andthen_eq_Ok)

lemma runs_mono: "runs r P \<Longrightarrow> (\<And>y. P y \<Longrightarrow> Q y) \<Longrightarrow> runs r Q"
  by (auto simp: runs_def)

lemma runs_mono2: "runs (andthen r f) P \<Longrightarrow> (\<And>y. P y \<Longrightarrow> Q y) \<Longrightarrow> runs r (\<lambda>x. runs (f x) Q)"
  by (auto simp: runs_def andthen_eq_Ok)

lemma runsI: "r = Ok y \<Longrightarrow> Q y \<Longrightarrow> runs r Q"
  by (simp add: runs_def)

lemma runsE: "runs r Q \<Longrightarrow> (\<And>y. r = Ok y \<Longrightarrow> Q y \<Longrightarrow> P) \<Longrightarrow> P"
  by (auto simp: runs_def)

section \<open>Transactions\<close>

abbreviation fcache :: "'d fs \<Rightarrow> bcache" where
  "fcache s \<equiv> cache (flog s)"

abbreviation fbuf :: "'d fs \<Rightarrow> nat \<Rightarrow> buf" where
  "fbuf s \<equiv> bufs (fcache s)"

definition blk :: "'d fs \<Rightarrow> uint \<Rightarrow> block" where
  "blk s = view (fcache s)"

definition calm :: "int \<Rightarrow> nat set \<Rightarrow> bcache \<Rightarrow> bool" where
  "calm p H c \<longleftrightarrow> bio_inv c \<and> H \<subseteq> {..<NBUF} \<and> (\<forall>i < NBUF. i \<notin> H \<longrightarrow> refcnt (bufs c i) = 0) \<and>
     (\<forall>i \<in> H. held p c i (blockno (bufs c i)) \<and> (\<not> dirty (bufs c i) \<longrightarrow> bdata (bufs c i) = disk c (blockno (bufs c i))))"

text \<open>Every dirty buffer belongs to a block of the transaction.\<close>

definition recorded :: "log \<Rightarrow> uint set" where
  "recorded l = set (homes l (nat (lhn l)))"

definition logged :: "log \<Rightarrow> bool" where
  "logged l \<longleftrightarrow> (\<forall>i < NBUF. dirty (bufs (cache l) i) \<longrightarrow> bdev (bufs (cache l) i) = 1 \<and> blockno (bufs (cache l) i) \<in> recorded l)"

lemma recorded_cache [simp]: "recorded (l\<lparr>cache := c\<rparr>) = recorded l"
  by (simp add: recorded_def)

lemma logged_cacheI:
  "(\<And>i. i < NBUF \<Longrightarrow> dirty (bufs c i) \<Longrightarrow> bdev (bufs c i) = 1 \<and> blockno (bufs c i) \<in> recorded l) \<Longrightarrow> logged (l\<lparr>cache := c\<rparr>)"
  by (simp add: logged_def)

lemma loggedD: "logged l \<Longrightarrow> i < NBUF \<Longrightarrow> dirty (bufs (cache l) i) \<Longrightarrow> bdev (bufs (cache l) i) = 1 \<and> blockno (bufs (cache l) i) \<in> recorded l"
  by (simp add: logged_def)

definition full_blocks :: "bcache \<Rightarrow> bool" where
  "full_blocks c \<longleftrightarrow> (\<forall>n < disksize c. length (view c n) = BSIZE)"

definition txn :: "int \<Rightarrow> nat set \<Rightarrow> nat \<Rightarrow> 'd fs \<Rightarrow> bool" where
  "txn p H k s \<longleftrightarrow> calm p H (fcache s) \<and> logged (flog s) \<and> head_ok (flog s) \<and> 1 \<le> outstanding (flog s) \<and>
     lhn (flog s) + int (card H) + int k < int LOGSIZE \<and> lhn (flog s) + int (card H) + int k < lsize (flog s) \<and> full_blocks (fcache s)"

text \<open>What the operations on blocks leave alone.\<close>

definition frame :: "'d fs \<Rightarrow> 'd fs \<Rightarrow> bool" where
  "frame s s' \<longleftrightarrow> inodes s' = inodes s \<and> fsb s' = fsb s \<and> devs s' = devs s \<and> disksize (fcache s') = disksize (fcache s) \<and>
     lsize (flog s') = lsize (flog s) \<and> outstanding (flog s') = outstanding (flog s)"

lemma frame_refl [simp]: "frame s s"
  by (simp add: frame_def)

lemma frame_trans: "frame s t \<Longrightarrow> frame t u \<Longrightarrow> frame s u"
  by (simp add: frame_def)

lemma frameD:
  assumes "frame s s'"
  shows "inodes s' = inodes s" "fsb s' = fsb s" "devs s' = devs s" "disksize (fcache s') = disksize (fcache s)"
  using assms by (simp_all add: frame_def)

section \<open>The cache during a transaction\<close>

lemma calmD:
  assumes "calm p H c"
  shows "bio_inv c" "H \<subseteq> {..<NBUF}" "i < NBUF \<Longrightarrow> i \<notin> H \<Longrightarrow> refcnt (bufs c i) = 0" "i \<in> H \<Longrightarrow> held p c i (blockno (bufs c i))"
    "i \<in> H \<Longrightarrow> \<not> dirty (bufs c i) \<Longrightarrow> bdata (bufs c i) = disk c (blockno (bufs c i))" "finite H"
  using assms finite_subset [of H "{..<NBUF}"] by (auto simp: calm_def)

lemma calm_free: "calm p H c \<Longrightarrow> i < NBUF \<Longrightarrow> i \<notin> H \<Longrightarrow> bowner (bufs c i) = None"
  using bio_invD(4) [OF calmD(1)] calmD(3) by blast

lemma calm_ref: "calm p H c \<Longrightarrow> i \<in> H \<Longrightarrow> refcnt (bufs c i) = 1"
  using calmD(4) by (auto simp: held_def)

lemma card_dirty:
  assumes "bio_inv (cache l)" and "logged l" and "head_ok l"
  shows "card {i. i < NBUF \<and> dirty (bufs (cache l) i)} \<le> nat (lhn l)"
proof -
  let ?D = "{i. i < NBUF \<and> dirty (bufs (cache l) i)}" and ?f = "\<lambda>i. blockno (bufs (cache l) i)" and ?hs = "homes l (nat (lhn l))"
  have "inj_on ?f ?D"
  proof (rule inj_onI)
    fix i j assume ij: "i \<in> ?D" "j \<in> ?D" "?f i = ?f j"
    then have "caches (cache l) i (?f i)" "caches (cache l) j (?f i)" using assms(2) by (auto simp: logged_def caches_def)
    then show "i = j" by (rule bio_invD(2) [OF assms(1)])
  qed
  then have "card ?D = card (?f ` ?D)" by (simp add: card_image)
  also have "\<dots> \<le> card (set ?hs)" using assms(2) by (intro card_mono) (auto simp: logged_def recorded_def)
  also have "\<dots> \<le> nat (lhn l)" using card_length [of ?hs] by simp
  finally show ?thesis .
qed

lemma txn_usable:
  assumes t: "txn p H k s" and n: "\<And>i. i \<in> H \<Longrightarrow> blockno (fbuf s i) \<noteq> n"
  shows "usable (fcache s) n"
proof -
  let ?c = "fcache s" and ?D = "{i. i < NBUF \<and> dirty (fbuf s i)}"
  have c: "calm p H ?c" and l: "logged (flog s)" "head_ok (flog s)" and b: "lhn (flog s) + int (card H) < int NBUF"
    using t by (auto simp: txn_def)
  have "refcnt (bufs ?c i) = 0 \<and> bowner (bufs ?c i) = None" if "caches ?c i n" for i
    using that n [of i] calmD(3) [OF c, of i] calm_free [OF c, of i] by (auto simp: caches_def)
  moreover have "\<exists>i < NBUF. refcnt (bufs ?c i) = 0 \<and> \<not> dirty (bufs ?c i)"
  proof -
    have "card (?D \<union> H) \<le> card ?D + card H" by (rule card_Un_le)
    also have "\<dots> < NBUF" using card_dirty [OF calmD(1) [OF c] l] b l(2) unfolding head_ok_def by linarith
    finally have "?D \<union> H \<noteq> {..<NBUF}" using card_lessThan [of NBUF] by (metis less_irrefl)
    moreover have "?D \<union> H \<subseteq> {..<NBUF}" using calmD(2) [OF c] by blast
    ultimately obtain i where "i < NBUF" "i \<notin> ?D \<union> H" by blast
    then show ?thesis using calmD(3) [OF c, of i] by blast
  qed
  ultimately show ?thesis unfolding usable_def by blast
qed

text \<open>Taking a buffer and giving it back.\<close>

abbreviation hold :: "'d fs \<Rightarrow> nat \<Rightarrow> uint" where
  "hold s i \<equiv> blockno (fbuf s i)"

lemma fs_data_blk: "txn p H k s \<Longrightarrow> i \<in> H \<Longrightarrow> fs_data i s = blk s (hold s i)"
  using view_cached [OF calmD(1), of p H "fcache s" i "hold s i"] calmD(4) [of p H "fcache s" i]
  by (simp add: txn_def held_def blk_def fs_data_def)

lemma with_cache_simps [simp]:
  "fcache (with_cache c s) = c" "inodes (with_cache c s) = inodes s" "fsb (with_cache c s) = fsb s" "devs (with_cache c s) = devs s"
  "flog (with_cache c s) = (flog s)\<lparr>cache := c\<rparr>"
  by (simp_all add: with_cache_def)

lemma head_ok_cache [simp]: "head_ok (l\<lparr>cache := c\<rparr>) = head_ok l"
  by (simp add: head_ok_def)

lemma blk_with_cache: "blk (with_cache c s) = view c"
  by (simp add: blk_def)

lemma fs_bread_txn:
  assumes t: "txn p H (Suc k) s" and n: "n < disksize (fcache s)" and h: "\<And>i. i \<in> H \<Longrightarrow> hold s i \<noteq> n"
  shows "runs (fs_bread p 1 n s) (\<lambda>(b, s1). b \<notin> H \<and> txn p (insert b H) k s1 \<and> blk s1 = blk s \<and> frame s s1 \<and> hold s1 b = n \<and>
    fs_data b s1 = blk s n \<and> (\<forall>i \<in> H. hold s1 i = hold s i))"
proof -
  let ?c = "fcache s"
  have c: "calm p H ?c" and l: "logged (flog s)" and fb: "full_blocks ?c" using t by (simp_all add: txn_def)
  note inv = calmD(1) [OF c]
  from bread_ok [OF inv txn_usable [OF t h] n, of p] obtain b x where b: "bread p 1 n ?c = Ok (b, upd_buf b (\<lambda>_. x) ?c)" "b < NBUF" "refcnt (fbuf s b) = 0"
    and x: "bdev x = 1" "blockno x = n" "holdingsleep p (bsl x)" "bowner x = Some p" "refcnt x = 1" "valid x" "bdata x = view ?c n"
      "dirty x \<longleftrightarrow> (\<exists>i. caches ?c i n \<and> dirty (fbuf s i))"
    and i1: "bio_inv (upd_buf b (\<lambda>_. x) ?c)" "view (upd_buf b (\<lambda>_. x) ?c) = view ?c" by blast
  let ?c1 = "upd_buf b (\<lambda>_. x) ?c"
  have bH: "b \<notin> H" using calm_ref [OF c, of b] b(3) by auto
  have clean: "bdata x = disk ?c n" if "\<not> dirty x"
  proof -
    have "\<not> dirty (fbuf s i) \<and> bowner (fbuf s i) = None" if "caches ?c i n" for i
      using that \<open>\<not> dirty x\<close> x(8) h [of i] calm_free [OF c, of i] by (auto simp: caches_def)
    then show ?thesis using view_clean [OF inv, of n] x(7) by simp
  qed
  have "calm p (insert b H) ?c1"
    unfolding calm_def
  proof (intro conjI ballI allI impI)
    fix i assume i: "i \<in> insert b H"
    show "held p ?c1 i (blockno (bufs ?c1 i))"
      using i bH b(2) x calmD(4) [OF c, of i] by (cases "i = b") (auto simp: held_def caches_def)
    show "bdata (bufs ?c1 i) = disk ?c1 (blockno (bufs ?c1 i))" if "\<not> dirty (bufs ?c1 i)"
      using i that clean x(2) calmD(5) [OF c, of i] by (cases "i = b") auto
  qed (use i1(1) b(2) calmD(2,3) [OF c] in auto)
  moreover have "logged ((flog s)\<lparr>cache := ?c1\<rparr>)"
  proof (rule logged_cacheI)
    fix i assume i: "i < NBUF" "dirty (bufs ?c1 i)"
    show "bdev (bufs ?c1 i) = 1 \<and> blockno (bufs ?c1 i) \<in> recorded (flog s)"
    proof (cases "i = b")
      case True
      then obtain j where "caches ?c j n" "dirty (fbuf s j)" using i(2) x(8) by auto
      then show ?thesis using True loggedD [OF l, of j] x(1,2) by (simp add: caches_def)
    qed (use i loggedD [OF l, of i] in simp)
  qed
  moreover have "full_blocks ?c1" using fb i1(2) by (simp add: full_blocks_def)
  moreover have "card (insert b H) = Suc (card H)" using bH calmD(6) [OF c] by simp
  ultimately have "txn p (insert b H) k (with_cache ?c1 s)" using t by (simp add: txn_def)
  then show ?thesis
    using b(1) bH x(2,7) i1(2) by (intro runsI [of _ "(b, with_cache ?c1 s)"]) (auto simp: fs_bread_def blk_def frame_def fs_data_def)
qed

lemma dirty_data:
  fixes d
  assumes c: "calm p H c" and b: "b \<in> H"
  defines "c' \<equiv> upd_buf b (\<lambda>x. x\<lparr>bflags := bflags x OR B_DIRTY\<rparr>) (set_data b d c)"
  shows "calm p H c'" "view c' = (view c)(blockno (bufs c b) := d)"
proof -
  let ?n = "blockno (bufs c b)" and ?x = "(bufs c b)\<lparr>bdata := d, bflags := bflags (bufs c b) OR B_DIRTY\<rparr>"
  have h: "held p c b ?n" by (rule calmD(4) [OF c b])
  have b': "b < NBUF" using calmD(2) [OF c] b by blast
  have c': "bufs c' = (bufs c)(b := ?x)" "bnext c' = bnext c" "bprev c' = bprev c" "disk c' = disk c"
    by (simp_all add: c'_def set_data_def)
  have inv: "bio_inv c'"
    by (rule bio_inv_held [OF calmD(1) [OF c] b' c'(1-3)]) (use h bio_invD(2) [OF calmD(1) [OF c]] in \<open>auto simp: c'(4) held_def bowner_def flag_bits bit_or_iff\<close>)
  have held': "held p c' i (blockno (bufs c' i))" if "i \<in> H" for i
    using calmD(4) [OF c that] b' by (cases "i = b") (auto simp: held_def caches_def c'(1) bowner_def flag_bits bit_or_iff)
  have "bdata (bufs c' i) = disk c' (blockno (bufs c' i))" if "i \<in> H" "\<not> dirty (bufs c' i)" for i
    using calmD(5) [OF c that(1)] that(2) by (cases "i = b") (auto simp: c'(1,4) flag_bits)
  then show "calm p H c'" using inv held' calmD(2,3) [OF c] b by (auto simp: calm_def c'(1))
  show "view c' = (view c)(?n := d)"
  proof
    fix m
    show "view c' m = ((view c)(?n := d)) m"
    proof (cases "m = ?n")
      case True
      have "caches c' b ?n" "valid (bufs c' b)" using held' [OF b] by (simp_all add: held_def c'(1))
      then show ?thesis using True view_cached [OF inv, of b ?n] by (simp add: c'(1))
    next
      case False
      then show ?thesis using view_other [of b c' c m] by (simp add: c'(1,4) caches_def)
    qed
  qed
qed

lemma fs_write_txn:
  assumes t: "txn p H (Suc k) s" and b: "b \<in> H" and d: "length d = BSIZE"
  shows "runs (fs_log_write b (fs_set_data b d s)) (\<lambda>s'. txn p H k s' \<and> blk s' = (blk s)(hold s b := d) \<and> frame s s' \<and>
    (\<forall>i. hold s' i = hold s i))"
proof -
  let ?l = "(flog s)\<lparr>cache := set_data b d (fcache s)\<rparr>"
  have c: "calm p H (fcache s)" and lg: "logged (flog s)" and ho: "head_ok (flog s)" and o: "1 \<le> outstanding (flog s)" and fb: "full_blocks (fcache s)"
    and r: "lhn (flog s) + int (card H) + int (Suc k) < int LOGSIZE" "lhn (flog s) + int (card H) + int (Suc k) < lsize (flog s)"
    using t by (auto simp: txn_def)
  have bn: "blockno (bufs (cache ?l) i) = hold s i" for i by (simp add: set_data_def)
  from log_write_ok [of ?l b] ho o r obtain l' where l': "log_write b ?l = Ok l'" "head_ok l'"
    "homes l' (nat (lhn l')) = (if hold s b \<in> set (homes ?l (nat (lhn ?l))) then homes ?l (nat (lhn ?l)) else homes ?l (nat (lhn ?l)) @ [hold s b])"
    "lhn l' = (if hold s b \<in> set (homes ?l (nat (lhn ?l))) then lhn ?l else lhn ?l + 1)" "outstanding l' = outstanding ?l" "lsize l' = lsize ?l"
    unfolding bn by auto
  have cl: "cache l' = upd_buf b (\<lambda>x. x\<lparr>bflags := bflags x OR B_DIRTY\<rparr>) (set_data b d (fcache s))"
    using l'(1) by (auto simp: log_write_def Let_def split: if_splits)
  note dd = dirty_data [OF c b, of d, folded cl]
  have rec: "recorded l' = insert (hold s b) (recorded (flog s))" unfolding recorded_def l'(3) by auto
  have n: "lhn l' \<le> lhn (flog s) + 1" using l'(4) by (simp split: if_splits)
  have "bdev (fbuf s b) = 1" using calmD(4) [OF c b] by (simp add: held_def caches_def)
  then have "logged l'"
    unfolding logged_def rec using loggedD [OF lg] by (auto simp: cl set_data_def)
  moreover have sz: "disksize (cache l') = disksize (fcache s)" by (simp add: cl set_data_def)
  then have "full_blocks (cache l')" using fb d by (auto simp: full_blocks_def dd(2))
  ultimately have "txn p H k (s\<lparr>flog := l'\<rparr>)" using dd(1) l'(2,5,6) o r n by (simp add: txn_def)
  moreover have "fs_log_write b (fs_set_data b d s) = Ok (s\<lparr>flog := l'\<rparr>)" using l'(1) by (simp add: fs_log_write_def fs_set_data_def with_cache_def)
  ultimately show ?thesis
    using dd(2) sz l'(5,6) by (intro runsI [of _ "s\<lparr>flog := l'\<rparr>"]) (auto simp: blk_def frame_def cl set_data_def)
qed

lemma fs_brelse_txn:
  assumes t: "txn p (insert b H) k s" and b: "b \<notin> H"
  shows "runs (fs_brelse p b s) (\<lambda>s'. txn p H (Suc k) s' \<and> blk s' = blk s \<and> frame s s' \<and> (\<forall>i \<in> H. hold s' i = hold s i))"
proof -
  let ?c = "fcache s" and ?n = "hold s b"
  have c: "calm p (insert b H) ?c" and lg: "logged (flog s)" and fb: "full_blocks ?c" using t by (simp_all add: txn_def)
  have h: "held p ?c b ?n" by (rule calmD(4) [OF c]) simp
  have "\<not> dirty (fbuf s b) \<longrightarrow> bdata (fbuf s b) = disk ?c ?n" using calmD(5) [OF c, of b] by simp
  from brelse_ok [OF calmD(1) [OF c] h this] obtain c' x where c': "brelse p b ?c = Ok c'" "bio_inv c'" "view c' = view ?c" "disk c' = disk ?c"
    "disksize c' = disksize ?c" "bufs c' = (bufs ?c)(b := x)" "refcnt x = 0" "bflags x = bflags (fbuf s b)" "blockno x = ?n" "bdev x = 1" by blast
  have "calm p H c'"
    unfolding calm_def
  proof (intro conjI ballI allI impI)
    fix i assume i: "i \<in> H"
    then have "i \<noteq> b" using b by auto
    then show "held p c' i (blockno (bufs c' i))" using calmD(4) [OF c, of i] i by (simp add: held_def caches_def c'(6))
    show "bdata (bufs c' i) = disk c' (blockno (bufs c' i))" if "\<not> dirty (bufs c' i)"
      using calmD(5) [OF c, of i] i that \<open>i \<noteq> b\<close> by (simp add: c'(4,6))
  next
    show "refcnt (bufs c' i) = 0" if "i < NBUF" "i \<notin> H" for i using calmD(3) [OF c that(1)] that(2) c'(7) by (cases "i = b") (auto simp: c'(6))
  qed (use c'(2) calmD(2) [OF c] in auto)
  moreover have "logged ((flog s)\<lparr>cache := c'\<rparr>)"
  proof (rule logged_cacheI)
    fix i assume "i < NBUF" "dirty (bufs c' i)"
    then show "bdev (bufs c' i) = 1 \<and> blockno (bufs c' i) \<in> recorded (flog s)"
      using loggedD [OF lg, of i] c'(8-10) by (cases "i = b") (auto simp: c'(6))
  qed
  moreover have "full_blocks c'" using fb c'(3,5) by (simp add: full_blocks_def)
  moreover have "card (insert b H) = Suc (card H)" using b calmD(6) [OF c] by simp
  ultimately have "txn p H (Suc k) (with_cache c' s)" using t by (simp add: txn_def)
  then show ?thesis
    using c'(1,3,5,6) b by (intro runsI [of _ "with_cache c' s"]) (auto simp: fs_brelse_def blk_def frame_def)
qed

section \<open>Reading and rewriting a block\<close>

text \<open>The two patterns of \<^verbatim>\<open>fs.c\<close>: \<^verbatim>\<open>bread\<close>, use, \<^verbatim>\<open>brelse\<close>; and \<^verbatim>\<open>bread\<close>, change, \<^verbatim>\<open>log_write\<close>, \<^verbatim>\<open>brelse\<close>.\<close>

definition holds_same :: "nat set \<Rightarrow> 'd fs \<Rightarrow> 'd fs \<Rightarrow> bool" where
  "holds_same H s s' \<longleftrightarrow> (\<forall>i \<in> H. hold s' i = hold s i)"

lemma holds_same_refl [simp]: "holds_same H s s" "holds_same {} s t"
  by (simp_all add: holds_same_def)

lemma holds_same_trans: "holds_same H s t \<Longrightarrow> holds_same H t u \<Longrightarrow> holds_same H s u"
  by (simp add: holds_same_def)

lemma read_rule:
  assumes t: "txn p H (Suc k) s" and n: "n < disksize (fcache s)" and h: "\<And>i. i \<in> H \<Longrightarrow> hold s i \<noteq> n"
    and rest: "\<And>b s1. fs_data b s1 = blk s n \<Longrightarrow> frame s s1 \<Longrightarrow>
      runs (fs_brelse p b s1) (\<lambda>s2. txn p H (Suc k) s2 \<and> blk s2 = blk s \<and> frame s s2 \<and> holds_same H s s2) \<Longrightarrow> runs (body b s1) Q"
  shows "runs (andthen (fs_bread p 1 n s) (\<lambda>(b, s1). body b s1)) Q"
proof -
  from fs_bread_txn [OF t n h] obtain b s1 where b: "fs_bread p 1 n s = Ok (b, s1)" "b \<notin> H" "txn p (insert b H) k s1" "blk s1 = blk s" "frame s s1"
    "fs_data b s1 = blk s n" "\<forall>i \<in> H. hold s1 i = hold s i" by (auto elim!: runsE)
  have "runs (fs_brelse p b s1) (\<lambda>s2. txn p H (Suc k) s2 \<and> blk s2 = blk s \<and> frame s s2 \<and> holds_same H s s2)"
    by (rule runs_mono [OF fs_brelse_txn [OF b(3,2)]]) (use b(4,5,7) in \<open>auto simp: holds_same_def intro: frame_trans\<close>)
  then show ?thesis using rest [OF b(6,5)] b(1) by simp
qed

lemma update_rule:
  assumes t: "txn p H (Suc (Suc k)) s" and n: "n < disksize (fcache s)" and h: "\<And>i. i \<in> H \<Longrightarrow> hold s i \<noteq> n"
    and rest: "\<And>b s1. fs_data b s1 = blk s n \<Longrightarrow> frame s s1 \<Longrightarrow>
      (\<And>d. length d = BSIZE \<Longrightarrow> runs (andthen (fs_log_write b (fs_set_data b d s1)) (fs_brelse p b))
        (\<lambda>s2. txn p H (Suc k) s2 \<and> blk s2 = (blk s)(n := d) \<and> frame s s2 \<and> holds_same H s s2)) \<Longrightarrow>
      runs (fs_brelse p b s1) (\<lambda>s2. txn p H (Suc (Suc k)) s2 \<and> blk s2 = blk s \<and> frame s s2 \<and> holds_same H s s2) \<Longrightarrow> runs (body b s1) Q"
  shows "runs (andthen (fs_bread p 1 n s) (\<lambda>(b, s1). body b s1)) Q"
proof -
  from fs_bread_txn [OF t n h] obtain b s1 where b: "fs_bread p 1 n s = Ok (b, s1)" "b \<notin> H" "txn p (insert b H) (Suc k) s1" "blk s1 = blk s" "frame s s1"
    "hold s1 b = n" "fs_data b s1 = blk s n" "\<forall>i \<in> H. hold s1 i = hold s i" by (auto elim!: runsE)
  have "runs (fs_brelse p b s1) (\<lambda>s2. txn p H (Suc (Suc k)) s2 \<and> blk s2 = blk s \<and> frame s s2 \<and> holds_same H s s2)"
    by (rule runs_mono [OF fs_brelse_txn [OF b(3,2)]]) (use b(4,5,8) in \<open>auto simp: holds_same_def intro: frame_trans\<close>)
  moreover have "runs (andthen (fs_log_write b (fs_set_data b d s1)) (fs_brelse p b))
      (\<lambda>s2. txn p H (Suc k) s2 \<and> blk s2 = (blk s)(n := d) \<and> frame s s2 \<and> holds_same H s s2)" if d: "length d = BSIZE" for d
    unfolding runs_andthen
  proof (rule runs_mono [OF fs_write_txn [OF b(3) _ d]])
    fix s2 assume s2: "txn p (insert b H) k s2 \<and> blk s2 = (blk s1)(hold s1 b := d) \<and> frame s1 s2 \<and> (\<forall>i. hold s2 i = hold s1 i)"
    show "runs (fs_brelse p b s2) (\<lambda>s2. txn p H (Suc k) s2 \<and> blk s2 = (blk s)(n := d) \<and> frame s s2 \<and> holds_same H s s2)"
      by (rule runs_mono [OF fs_brelse_txn [of p b H k s2]]) (use b s2 in \<open>auto simp: holds_same_def intro: frame_trans\<close>)
  qed simp
  ultimately show ?thesis using rest [OF b(7,5)] b(1) by simp
qed

end
