(* ===== verification/Fs_Alloc.thy ===== *)
theory Fs_Alloc
  imports Fs_Txn
begin

text \<open>
  The block allocator of \<^verbatim>\<open>fs.c\<close>. \<open>used s\<close> is the set of blocks whose bit is set in the bitmap;
  \<^verbatim>\<open>balloc\<close> adds one block to it and \<^verbatim>\<open>bfree\<close> takes one out, and no other block is touched.
\<close>

section \<open>The layout of the disk\<close>

abbreviation fssize :: "'d fs \<Rightarrow> nat" where
  "fssize s \<equiv> unat (sb_size (fsb s))"

text \<open>The first block behind the boot block, the super block, the log, the inodes and the bitmap.\<close>

definition datastart :: "'d fs \<Rightarrow> nat" where
  "datastart s = unat (bmapstart (fsb s)) + fssize s div BPB + 1"

definition layout :: "'d fs \<Rightarrow> bool" where
  "layout s \<longleftrightarrow> fssize s \<le> unat (disksize (fcache s)) \<and> datastart s \<le> fssize s \<and>
     1 < inodestart (fsb s) \<and> unat (inodestart (fsb s)) + unat (ninodes (fsb s)) div 8 < unat (bmapstart (fsb s))"

definition bitmap_bit :: "'d fs \<Rightarrow> nat \<Rightarrow> bool" where
  "bitmap_bit s a \<longleftrightarrow> bit (blk s (BBLOCK (of_nat a) (fsb s)) ! (a mod BPB div 8)) (a mod 8)"

definition used :: "'d fs \<Rightarrow> nat set" where
  "used s = {a. a < fssize s \<and> bitmap_bit s a}"

text \<open>The bitmap marks everything in front of the data blocks.\<close>

definition alloc_ok :: "'d fs \<Rightarrow> bool" where
  "alloc_ok s \<longleftrightarrow> layout s \<and> {..<datastart s} \<subseteq> used s"

lemma frame_layout:
  assumes "frame s s'"
  shows "datastart s' = datastart s" "layout s' = layout s" "fssize s' = fssize s"
  using frameD [OF assms] by (simp_all add: datastart_def layout_def)

lemma layoutD:
  assumes "layout s"
  shows "fssize s \<le> unat (disksize (fcache s))" "datastart s \<le> fssize s" "fssize s < 4294967296"
    "unat (inodestart (fsb s)) + unat (ninodes (fsb s)) div 8 < unat (bmapstart (fsb s))"
  using assms unat_uint_bound by (auto simp: layout_def)

lemma unat_BBLOCK:
  assumes l: "layout s" and a: "a < fssize s"
  shows "unat (BBLOCK (of_nat a) (fsb s)) = unat (bmapstart (fsb s)) + a div BPB" "unat (BBLOCK (of_nat a) (fsb s)) < datastart s"
    "BBLOCK (of_nat a) (fsb s) < disksize (fcache s)"
proof -
  note d = layoutD [OF l]
  have "a div BPB \<le> fssize s div BPB" using a by (simp add: div_le_mono)
  then have lt: "unat (bmapstart (fsb s)) + a div BPB < datastart s" by (simp add: datastart_def)
  have "unat (of_nat a :: uint) = a" by (rule unat_of_nat_small) (use a d(3) in linarith)
  then have "unat (of_nat a div of_nat BPB :: uint) = a div BPB" unfolding unat_div by simp
  then show e: "unat (BBLOCK (of_nat a) (fsb s)) = unat (bmapstart (fsb s)) + a div BPB"
    unfolding BBLOCK_def unat_word_ariths using lt d(2,3) by simp
  then show "unat (BBLOCK (of_nat a) (fsb s)) < datastart s" using lt by simp
  then show "BBLOCK (of_nat a) (fsb s) < disksize (fcache s)" using d(1,2) by (simp add: word_less_nat_alt)
qed

lemma BBLOCK_eq_iff:
  assumes "layout s" "a < fssize s" "c < fssize s"
  shows "BBLOCK (of_nat a) (fsb s) = BBLOCK (of_nat c) (fsb s) \<longleftrightarrow> a div BPB = c div BPB"
  using unat_BBLOCK(1) [OF assms(1,2)] unat_BBLOCK(1) [OF assms(1,3)] by (metis add_left_cancel word_unat_eq_iff)

section \<open>Bits\<close>

lemma bit_bmap_bit: "bit (bmap_bit bi) j \<longleftrightarrow> j = bi mod 8"
  by (auto simp: bmap_bit_def bit_push_bit_iff bit_1_iff simp del: push_bit_of_1)

lemma bmap_bit_test: "(x :: uchar) AND bmap_bit bi = 0 \<longleftrightarrow> \<not> bit x (bi mod 8)"
proof
  assume "x AND bmap_bit bi = 0"
  then have "\<not> bit (x AND bmap_bit bi) (bi mod 8)" by simp
  then show "\<not> bit x (bi mod 8)" by (simp add: bit_and_iff bit_bmap_bit)
next
  assume "\<not> bit x (bi mod 8)"
  then show "x AND bmap_bit bi = 0" by (intro bit_word_eqI) (auto simp: bit_and_iff bit_bmap_bit)
qed

lemma bmap_bit_set: "bit ((x :: uchar) OR bmap_bit bi) j \<longleftrightarrow> bit x j \<or> j = bi mod 8"
  by (auto simp: bit_or_iff bit_bmap_bit)

lemma bmap_bit_clear: "j < 8 \<Longrightarrow> bit ((x :: uchar) AND NOT (bmap_bit bi)) j \<longleftrightarrow> bit x j \<and> j \<noteq> bi mod 8"
  by (auto simp: bit_and_iff bit_not_iff bit_bmap_bit)

text \<open>Changing the byte of one bit of the bitmap.\<close>

lemma same_byte:
  assumes "(c :: nat) div BPB = a div BPB" "c mod BPB div 8 = a mod BPB div 8" "c mod 8 = a mod 8"
  shows "c = a"
proof -
  have m: "x mod BPB mod 8 = x mod 8" for x :: nat by (rule mod_mod_cancel) simp
  have "c mod BPB = 8 * (c mod BPB div 8) + c mod BPB mod 8" by simp
  also have "\<dots> = a mod BPB" unfolding m assms(2,3) by (metis m mult_div_mod_eq)
  finally have e: "c mod BPB = a mod BPB" .
  have "c = BPB * (c div BPB) + c mod BPB" by simp
  also have "\<dots> = a" unfolding assms(1) e by simp
  finally show ?thesis .
qed

lemma bitmap_update:
  assumes l: "layout s" and a: "a < fssize s" and len: "length (blk s (BBLOCK (of_nat a) (fsb s))) = BSIZE" and fr: "frame s s'"
    and w: "blk s' (BBLOCK (of_nat a) (fsb s)) = (blk s (BBLOCK (of_nat a) (fsb s)))[a mod BPB div 8 := y]"
    and o: "\<And>n. unat n < datastart s \<Longrightarrow> n \<noteq> BBLOCK (of_nat a) (fsb s) \<Longrightarrow> blk s' n = blk s n"
    and y: "\<And>j. j < 8 \<Longrightarrow> bit y j \<longleftrightarrow> (if j = a mod 8 then v else bit (blk s (BBLOCK (of_nat a) (fsb s)) ! (a mod BPB div 8)) j)"
    and c: "c < fssize s"
  shows "bitmap_bit s' c \<longleftrightarrow> (if c = a then v else bitmap_bit s c)"
proof (cases "c div BPB = a div BPB")
  case False
  then have "blk s' (BBLOCK (of_nat c) (fsb s)) = blk s (BBLOCK (of_nat c) (fsb s))"
    using o [OF unat_BBLOCK(2) [OF l c]] BBLOCK_eq_iff [OF l c a] by simp
  then show ?thesis using False frameD(2) [OF fr] by (auto simp: bitmap_bit_def)
next
  case True
  then have e: "BBLOCK (of_nat c) (fsb s) = BBLOCK (of_nat a) (fsb s)" using BBLOCK_eq_iff [OF l c a] by simp
  have lt: "a mod BPB div 8 < BSIZE" by (simp add: less_mult_imp_div_less)
  show ?thesis
    using y [of "c mod 8"] same_byte [of c a, OF True] lt unfolding bitmap_bit_def frameD(2) [OF fr] e w
    by (cases "c mod BPB div 8 = a mod BPB div 8") (auto simp: nth_list_update len)
qed

section \<open>Allocation\<close>

lemma bzero_ok:
  assumes "txn p H (Suc (Suc k)) s" and "n < disksize (fcache s)" and "\<And>i. i \<in> H \<Longrightarrow> hold s i \<noteq> n"
  shows "runs (bzero p 1 n s) (\<lambda>s'. txn p H (Suc k) s' \<and> blk s' = (blk s)(n := replicate BSIZE 0) \<and> frame s s' \<and> holds_same H s s')"
  unfolding bzero_def by (rule update_rule [OF assms]) simp_all

text \<open>The buffers held are data blocks in use.\<close>

definition holds_data :: "nat set \<Rightarrow> 'd fs \<Rightarrow> bool" where
  "holds_data H s \<longleftrightarrow> (\<forall>i \<in> H. datastart s \<le> unat (hold s i) \<and> unat (hold s i) \<in> used s)"

lemma txn_length: "txn p H k s \<Longrightarrow> n < disksize (fcache s) \<Longrightarrow> length (blk s n) = BSIZE"
  by (simp add: txn_def full_blocks_def blk_def)

text \<open>What \<^verbatim>\<open>balloc\<close> does when it returns \<open>addr\<close>.\<close>

definition allocated :: "'d fs \<Rightarrow> uint \<Rightarrow> 'd fs \<Rightarrow> bool" where
  "allocated s addr s' \<longleftrightarrow> unat addr < fssize s \<and> unat addr \<notin> used s \<and> used s' = insert (unat addr) (used s) \<and> frame s s' \<and>
     blk s' addr = replicate BSIZE 0 \<and> (\<forall>n. n \<noteq> addr \<and> n \<noteq> BBLOCK addr (fsb s) \<longrightarrow> blk s' n = blk s n)"

lemma balloc_found:
  assumes t: "txn p H (Suc (Suc (Suc k))) s" and ok: "alloc_ok s" and h: "holds_data H s" and a: "a < fssize s" "\<not> bitmap_bit s a"
    and bp: "\<And>d. length d = BSIZE \<Longrightarrow> runs (andthen (fs_log_write bp (fs_set_data bp d s1)) (fs_brelse p bp))
        (\<lambda>s2. txn p H (Suc (Suc k)) s2 \<and> blk s2 = (blk s)(BBLOCK (of_nat a) (fsb s) := d) \<and> frame s s2 \<and> holds_same H s s2)"
    and d: "d = blk s (BBLOCK (of_nat a) (fsb s))" and bi: "bi = a mod BPB"
  shows "runs (andthen (fs_log_write bp (fs_set_data bp (d[bi div 8 := d ! (bi div 8) OR bmap_bit bi]) s1)) (\<lambda>s2.
      andthen (fs_brelse p bp s2) (\<lambda>s3. andthen (bzero p 1 (of_nat a) s3) (\<lambda>s4. Ok (of_nat a, s4)))))
    (\<lambda>(addr, s'). txn p H (Suc k) s' \<and> holds_same H s s' \<and> allocated s addr s')"
proof -
  have l: "layout s" and meta: "{..<datastart s} \<subseteq> used s" using ok by (simp_all add: alloc_ok_def)
  let ?B = "BBLOCK (of_nat a) (fsb s)" and ?y = "d ! (bi div 8) OR bmap_bit bi"
  note B = unat_BBLOCK [OF l a(1)]
  have an: "a \<notin> used s" using a(2) by (simp add: used_def)
  then have ge: "datastart s \<le> a" using meta by (meson lessThan_iff not_le subsetD)
  have ua: "unat (of_nat a :: uint) = a" by (rule unat_of_nat_small) (use a(1) layoutD(3) [OF l] in linarith)
  have len: "length d = BSIZE" unfolding d by (rule txn_length [OF t B(3)])
  have m8: "a mod BPB mod 8 = a mod 8" by (rule mod_mod_cancel) simp
  have neB: "of_nat a \<noteq> ?B" using B(2) ge ua by (metis not_le)
  show ?thesis
    unfolding runs_andthen
  proof (rule runs_mono2 [OF bp [of "d[bi div 8 := ?y]"]])
    fix s2 assume s2: "txn p H (Suc (Suc k)) s2 \<and> blk s2 = (blk s)(?B := d[bi div 8 := ?y]) \<and> frame s s2 \<and> holds_same H s s2"
    then have fr: "frame s s2" and hs: "\<And>i. i \<in> H \<Longrightarrow> hold s2 i = hold s i" by (auto simp: holds_same_def)
    have lt: "(of_nat a :: uint) < disksize (fcache s2)" using a(1) layoutD(1) [OF l] frameD(4) [OF fr] ua by (simp add: word_less_nat_alt)
    have hn: "hold s2 i \<noteq> of_nat a" if "i \<in> H" for i using h hs [OF that] that an ua by (auto simp: holds_data_def)
    have "runs (bzero p 1 (of_nat a) s2) (\<lambda>s'. txn p H (Suc k) s' \<and> blk s' = (blk s2)(of_nat a := replicate BSIZE 0) \<and> frame s2 s' \<and> holds_same H s2 s')"
      by (rule bzero_ok [OF _ lt hn]) (use s2 in simp)
    then show "runs (bzero p 1 (of_nat a) s2) (\<lambda>x. runs (Ok (of_nat a, x)) (\<lambda>(addr, s'). txn p H (Suc k) s' \<and> holds_same H s s' \<and> allocated s addr s'))"
    proof (rule runs_mono, unfold runs_Ok split)
      fix s' assume s': "txn p H (Suc k) s' \<and> blk s' = (blk s2)(of_nat a := replicate BSIZE 0) \<and> frame s2 s' \<and> holds_same H s2 s'"
      have fr': "frame s s'" using fr s' frame_trans by blast
      have b': "blk s' n = (if n = of_nat a then replicate BSIZE 0 else if n = ?B then d[bi div 8 := ?y] else blk s n)" for n using s' s2 by simp
      have "bitmap_bit s' c \<longleftrightarrow> (if c = a then True else bitmap_bit s c)" if "c < fssize s" for c
      proof (rule bitmap_update [OF l a(1) _ fr' _ _ _ that])
        show "blk s' ?B = (blk s ?B)[a mod BPB div 8 := ?y]" using neB by (simp add: b' d bi)
        show "blk s' n = blk s n" if "unat n < datastart s" "n \<noteq> ?B" for n using that ge ua by (auto simp: b')
        show "bit ?y j \<longleftrightarrow> (if j = a mod 8 then True else bit (blk s ?B ! (a mod BPB div 8)) j)" if "j < 8" for j
          by (simp add: bmap_bit_set d bi m8)
      qed (use len d in simp)
      then have "used s' = insert a (used s)" using a(1) frame_layout(3) [OF fr'] by (auto simp: used_def)
      then have "allocated s (of_nat a) s'" using fr' an a(1) ua by (simp add: allocated_def b')
      then show "txn p H (Suc k) s' \<and> holds_same H s s' \<and> allocated s (of_nat a) s'" using s' s2 holds_same_trans by blast
    qed
  qed (use len in simp)
qed

text \<open>The inner loop finds the first free block of its group of 4096.\<close>

lemma balloc_scan_bit:
  assumes l: "layout s" and j: "bi < min BPB (fssize s - i * BPB)"
  shows "blk s (BBLOCK (of_nat (i * BPB)) (fsb s)) ! (bi div 8) AND bmap_bit bi = 0 \<longleftrightarrow> \<not> bitmap_bit s (i * BPB + bi)"
    "(i * BPB + bi) mod BPB = bi" "BBLOCK (of_nat (i * BPB + bi)) (fsb s) = BBLOCK (of_nat (i * BPB)) (fsb s)" "i * BPB + bi < fssize s"
proof -
  have b: "bi < BPB" and lt: "i * BPB + bi < fssize s" using j by auto
  then show "i * BPB + bi < fssize s" by simp
  show m: "(i * BPB + bi) mod BPB = bi" using b by simp
  have "(i * BPB + bi) div BPB = i * BPB div BPB" "i * BPB < fssize s" using b lt by simp_all
  then show e: "BBLOCK (of_nat (i * BPB + bi)) (fsb s) = BBLOCK (of_nat (i * BPB)) (fsb s)"
    by (intro iffD2 [OF BBLOCK_eq_iff [OF l lt]])
  have "i * BPB + bi = bi + i * 512 * 8" by simp
  then have "(i * BPB + bi) mod 8 = bi mod 8" by (simp only: mod_mult_self1)
  then show "blk s (BBLOCK (of_nat (i * BPB)) (fsb s)) ! (bi div 8) AND bmap_bit bi = 0 \<longleftrightarrow> \<not> bitmap_bit s (i * BPB + bi)"
    unfolding bmap_bit_test bitmap_bit_def e m by simp
qed

lemma groups:
  "(x :: nat) \<le> (x + BPB - 1) div BPB * BPB" "i < (x + BPB - 1) div BPB \<Longrightarrow> i * BPB < x"
proof -
  define q where "q = (x + BPB - 1) div BPB"
  have e: "q * BPB + (x + BPB - 1) mod BPB = x + BPB - 1" unfolding q_def by (rule div_mult_mod_eq)
  have r: "(x + BPB - 1) mod BPB < BPB" by (rule mod_less_divisor) simp
  show "x \<le> (x + BPB - 1) div BPB * BPB" using e r unfolding q_def [symmetric] by linarith
  assume "i < (x + BPB - 1) div BPB"
  then have "Suc i * BPB \<le> q * BPB" unfolding q_def [symmetric] by (intro mult_le_mono1) simp
  then show "i * BPB < x" using e by simp
qed

lemma balloc_loop_ok:
  assumes "txn p H (Suc (Suc (Suc k))) s" and "alloc_ok s" and "holds_data H s" and "m = (fssize s + BPB - 1) div BPB" and "i \<le> m"
    and "\<And>a. a < i * BPB \<Longrightarrow> a < fssize s \<Longrightarrow> bitmap_bit s a" and "\<exists>a < fssize s. \<not> bitmap_bit s a"
  shows "runs (balloc_loop p 1 (map (\<lambda>k. k * BPB) [i..<m]) s) (\<lambda>(addr, s'). txn p H (Suc k) s' \<and> holds_same H s s' \<and> allocated s addr s')"
  using assms
proof (induction "m - i" arbitrary: i s)
  case 0
  then have "m \<le> i" by simp
  moreover have "fssize s \<le> m * BPB" unfolding 0(5) by (rule groups(1))
  ultimately have "a < i * BPB" if "a < fssize s" for a using that by (meson less_le_trans mult_le_mono1)
  then show ?case using 0(7,8) by blast
next
  case (Suc n)
  note t = Suc.prems(1) and ok = Suc.prems(2) and hd = Suc.prems(3) and m = Suc.prems(4)
  have l: "layout s" using ok by (simp add: alloc_ok_def)
  have im: "i < m" using Suc(2) by simp
  have i0: "i * BPB < fssize s" using im unfolding m by (rule groups(2))
  let ?B = "BBLOCK (of_nat (i * BPB)) (fsb s)"
  note B = unat_BBLOCK [OF l i0]
  have hB: "hold s j \<noteq> ?B" if "j \<in> H" for j using hd that B(2) by (auto simp: holds_data_def)
  note scan = balloc_scan_bit [OF l, of _ i]
  have up: "[i..<m] = i # [Suc i..<m]" using im by (simp add: upt_conv_Cons)
  show ?case
    unfolding up list.map balloc_loop.simps Let_def
  proof (rule update_rule [OF t B(3) hB])
    fix b s1
    assume b: "fs_data b s1 = blk s ?B" and fr: "frame s s1"
      and wr: "\<And>d. length d = BSIZE \<Longrightarrow> runs (andthen (fs_log_write b (fs_set_data b d s1)) (fs_brelse p b))
        (\<lambda>s2. txn p H (Suc (Suc k)) s2 \<and> blk s2 = (blk s)(?B := d) \<and> frame s s2 \<and> holds_same H s s2)"
      and rel: "runs (fs_brelse p b s1) (\<lambda>s2. txn p H (Suc (Suc (Suc k))) s2 \<and> blk s2 = blk s \<and> frame s s2 \<and> holds_same H s s2)"
    let ?P = "\<lambda>bi. blk s ?B ! (bi div 8) AND bmap_bit bi = 0"
    have sc: "balloc_scan (fs_data b s1) (i * BPB) (unat (sb_size (fsb s1))) = find ?P [0..<min BPB (fssize s - i * BPB)]"
      using frameD(2) [OF fr] by (simp only: balloc_scan_def b)
    show "runs (case balloc_scan (fs_data b s1) (i * BPB) (unat (sb_size (fsb s1))) of
        None \<Rightarrow> andthen (fs_brelse p b s1) (balloc_loop p 1 (map (\<lambda>k. k * BPB) [Suc i..<m]))
      | Some bi \<Rightarrow> andthen (fs_log_write b (fs_set_data b ((fs_data b s1)[bi div 8 := fs_data b s1 ! (bi div 8) OR bmap_bit bi]) s1))
            (\<lambda>s2. andthen (fs_brelse p b s2) (\<lambda>s3. andthen (bzero p 1 (of_nat (i * BPB + bi)) s3) (\<lambda>s4. Ok (of_nat (i * BPB + bi), s4)))))
      (\<lambda>(addr, s'). txn p H (Suc k) s' \<and> holds_same H s s' \<and> allocated s addr s')"
    proof (cases "find ?P [0..<min BPB (fssize s - i * BPB)]")
      case (Some bi)
      have bi: "bi < min BPB (fssize s - i * BPB)" "?P bi"
        using find_SomeD [OF Some] unfolding set_upt atLeastLessThan_iff by simp_all
      have nb: "\<not> bitmap_bit s (i * BPB + bi)" using scan(1) [OF bi(1)] bi(2) by blast
      show ?thesis
        unfolding sc Some option.case
      proof (rule balloc_found [OF t ok hd scan(4) [OF bi(1)] nb], unfold scan(3) [OF bi(1)])
        show "bi = (i * BPB + bi) mod BPB" by (rule scan(2) [OF bi(1), symmetric])
      qed (fact wr, fact b)
    next
      case None
      have full: "bitmap_bit s a" if "a < Suc i * BPB" "a < fssize s" for a
      proof (cases "a < i * BPB")
        case False
        have "a - i * BPB < min BPB (fssize s - i * BPB)" using that False by auto
        then have "\<not> ?P (a - i * BPB)" using None unfolding find_None_iff set_upt atLeastLessThan_iff by blast
        then show ?thesis using scan(1) [OF \<open>a - i * BPB < _\<close>] False by simp
      qed (use Suc.prems(6) that in blast)
      show ?thesis
        unfolding sc None option.case runs_andthen
      proof (rule runs_mono [OF rel])
        fix s2 assume s2: "txn p H (Suc (Suc (Suc k))) s2 \<and> blk s2 = blk s \<and> frame s s2 \<and> holds_same H s s2"
        then have f2: "frame s s2" by simp
        have bb: "bitmap_bit s2 = bitmap_bit s" "used s2 = used s"
          using s2 frameD(2) [OF f2] by (auto simp: bitmap_bit_def used_def fun_eq_iff)
        have ok2: "alloc_ok s2" "holds_data H s2"
          using ok hd bb frame_layout [OF f2] s2 by (auto simp: alloc_ok_def holds_data_def holds_same_def)
        have "runs (balloc_loop p 1 (map (\<lambda>k. k * BPB) [Suc i..<m]) s2) (\<lambda>(addr, s'). txn p H (Suc k) s' \<and> holds_same H s2 s' \<and> allocated s2 addr s')"
          by (rule Suc.hyps(1)) (use Suc(2) s2 ok2 m im full Suc.prems(7) bb(1) frame_layout(3) [OF f2] in auto)
        then show "runs (balloc_loop p 1 (map (\<lambda>k. k * BPB) [Suc i..<m]) s2) (\<lambda>(addr, s'). txn p H (Suc k) s' \<and> holds_same H s s' \<and> allocated s addr s')"
          by (rule runs_mono) (use s2 f2 bb(2) frameD(2) [OF f2] in \<open>auto simp: allocated_def intro: frame_trans holds_same_trans\<close>)
      qed
    qed
  qed
qed

lemma balloc_ok:
  assumes "txn p H (Suc (Suc (Suc k))) s" and "alloc_ok s" and "holds_data H s" and "used s \<noteq> {..<fssize s}"
  shows "runs (balloc p 1 s) (\<lambda>(addr, s'). txn p H (Suc k) s' \<and> holds_same H s s' \<and> allocated s addr s')"
  unfolding balloc_def
  by (rule balloc_loop_ok [OF assms(1-3) refl]) (use assms(4) in \<open>auto simp: used_def\<close>)

lemma balloc_loop_full:
  assumes "txn p H (Suc k) s" and "layout s" and "holds_data H s" and "used s = {..<fssize s}" and "m = (fssize s + BPB - 1) div BPB"
  shows "balloc_loop p 1 (map (\<lambda>k. k * BPB) [i..<m]) s = Panic ''balloc: out of blocks''"
  using assms
proof (induction "m - i" arbitrary: i s)
  case (Suc n)
  note t = Suc.prems(1) and l = Suc.prems(2) and hd = Suc.prems(3) and m = Suc.prems(5)
  have im: "i < m" using Suc(2) by simp
  have i0: "i * BPB < fssize s" using im unfolding m by (rule groups(2))
  let ?B = "BBLOCK (of_nat (i * BPB)) (fsb s)"
  note B = unat_BBLOCK [OF l i0]
  have hB: "hold s j \<noteq> ?B" if "j \<in> H" for j using hd that B(2) by (auto simp: holds_data_def)
  have up: "[i..<m] = i # [Suc i..<m]" using im by (simp add: upt_conv_Cons)
  have none: "find (\<lambda>bi. blk s ?B ! (bi div 8) AND bmap_bit bi = 0) [0..<min BPB (fssize s - i * BPB)] = None"
    unfolding find_None_iff set_upt atLeastLessThan_iff
  proof (intro notI, elim exE conjE)
    fix bi assume bi: "bi < min BPB (fssize s - i * BPB)" "blk s ?B ! (bi div 8) AND bmap_bit bi = 0"
    have "\<not> bitmap_bit s (i * BPB + bi)" using balloc_scan_bit(1) [OF l bi(1)] bi(2) by blast
    moreover have "i * BPB + bi \<in> used s" unfolding Suc.prems(4) using balloc_scan_bit(4) [OF l bi(1)] by blast
    ultimately show False by (simp add: used_def)
  qed
  have "runs (andthen (fs_bread p 1 ?B s) (\<lambda>(b, s1). andthen (fs_brelse p b s1) (\<lambda>s2. Ok (fs_data b s1, fsb s1, s2))))
      (\<lambda>(d, sb, s2). d = blk s ?B \<and> sb = fsb s \<and> txn p H (Suc k) s2 \<and> blk s2 = blk s \<and> frame s s2 \<and> holds_same H s s2)"
  proof (rule read_rule [OF t B(3) hB], unfold runs_andthen runs_Ok split)
    fix b s1
    assume b: "fs_data b s1 = blk s ?B" "frame s s1"
      and r: "runs (fs_brelse p b s1) (\<lambda>s2. txn p H (Suc k) s2 \<and> blk s2 = blk s \<and> frame s s2 \<and> holds_same H s s2)"
    show "runs (fs_brelse p b s1) (\<lambda>s2. fs_data b s1 = blk s ?B \<and> fsb s1 = fsb s \<and> txn p H (Suc k) s2 \<and> blk s2 = blk s \<and> frame s s2 \<and> holds_same H s s2)"
      by (rule runs_mono [OF r]) (use b frameD(2) [OF b(2)] in blast)
  qed
  then obtain b s1 s2 where r: "fs_bread p 1 ?B s = Ok (b, s1)" "fs_brelse p b s1 = Ok s2" "fs_data b s1 = blk s ?B" "fsb s1 = fsb s"
      "txn p H (Suc k) s2" "blk s2 = blk s" "frame s s2" "holds_same H s s2"
    by (auto elim!: runsE simp: andthen_eq_Ok)
  have u: "used s2 = used s" using r(6) frameD(2) [OF r(7)] by (auto simp: used_def bitmap_bit_def)
  have "balloc_loop p 1 (map (\<lambda>k. k * BPB) [Suc i..<m]) s2 = Panic ''balloc: out of blocks''"
    by (rule Suc.hyps(1)) (use Suc(2) r(5,8) u Suc.prems(4) hd l m frame_layout [OF r(7)] in \<open>auto simp: holds_data_def holds_same_def\<close>)
  then show ?case unfolding up list.map balloc_loop.simps r(1) by (simp only: andthen.simps split Let_def balloc_scan_def r(2-4) none option.case)
qed simp

section \<open>Release\<close>

lemma fs_readsb_eq:
  "fs_readsb p dev s = andthen (fs_bread p dev 1 s) (\<lambda>(b, s1). andthen (fs_brelse p b s1) (\<lambda>s2. Ok (s2\<lparr>fsb := decode_sb (fs_data b s1)\<rparr>)))"
  by (cases "bread p dev 1 (fcache s)")
    (auto simp: fs_readsb_def readsb_def fs_bread_def fs_brelse_def fs_data_def andthen_assoc Let_def split: prod.splits intro!: arg_cong2 [of _ _ _ _ andthen])

text \<open>The super block in memory is the one on disk.\<close>

definition sb_ok :: "'d fs \<Rightarrow> bool" where
  "sb_ok s \<longleftrightarrow> decode_sb (blk s 1) = fsb s"

lemma fs_readsb_ok:
  assumes t: "txn p H (Suc k) s" and l: "layout s" and sb: "sb_ok s" and h: "holds_data H s"
  shows "runs (fs_readsb p 1 s) (\<lambda>s'. txn p H (Suc k) s' \<and> blk s' = blk s \<and> frame s s' \<and> holds_same H s s')"
  unfolding fs_readsb_eq
proof (rule read_rule [OF t])
  have "unat (1 :: uint) < datastart s" using l by (auto simp: layout_def datastart_def word_less_nat_alt)
  then show "1 < disksize (fcache s)" and "\<And>i. i \<in> H \<Longrightarrow> hold s i \<noteq> 1" using l h by (auto simp: layout_def word_less_nat_alt holds_data_def)
  fix b s1
  assume b: "fs_data b s1 = blk s 1" "frame s s1"
    and r: "runs (fs_brelse p b s1) (\<lambda>s2. txn p H (Suc k) s2 \<and> blk s2 = blk s \<and> frame s s2 \<and> holds_same H s s2)"
  have e: "s2\<lparr>fsb := decode_sb (fs_data b s1)\<rparr> = s2" if "frame s s2" for s2 using sb b(1) frameD(2) [OF that] by (simp add: sb_ok_def)
  show "runs (andthen (fs_brelse p b s1) (\<lambda>s2. Ok (s2\<lparr>fsb := decode_sb (fs_data b s1)\<rparr>)))
      (\<lambda>s'. txn p H (Suc k) s' \<and> blk s' = blk s \<and> frame s s' \<and> holds_same H s s')"
    unfolding runs_andthen by (rule runs_mono [OF r]) (use e in auto)
qed

lemma bfree_ok:
  assumes t: "txn p H (Suc (Suc k)) s" and l: "layout s" and sb: "sb_ok s" and h: "holds_data H s" and b: "unat b \<in> used s"
  shows "runs (bfree p 1 b s) (\<lambda>s'. txn p H (Suc k) s' \<and> holds_same H s s' \<and> frame s s' \<and> used s' = used s - {unat b} \<and>
    (\<forall>n. n \<noteq> BBLOCK b (fsb s) \<longrightarrow> blk s' n = blk s n))"
  unfolding bfree_def runs_andthen
proof (rule runs_mono [OF fs_readsb_ok [OF t l sb h]])
  fix s1 assume s1: "txn p H (Suc (Suc k)) s1 \<and> blk s1 = blk s \<and> frame s s1 \<and> holds_same H s s1"
  then have f1: "frame s s1" and t1: "txn p H (Suc (Suc k)) s1" by auto
  let ?a = "unat b" and ?B = "BBLOCK b (fsb s)"
  have a: "?a < fssize s" "bitmap_bit s ?a" using b by (simp_all add: used_def)
  note B = unat_BBLOCK [OF l a(1), simplified]
  have lt: "BBLOCK b (fsb s1) < disksize (fcache s1)" using B(3) frameD(2,4) [OF f1] by simp
  have hB: "hold s1 j \<noteq> BBLOCK b (fsb s1)" if "j \<in> H" for j
    using h s1 that B(2) frameD(2) [OF f1] by (auto simp: holds_data_def holds_same_def)
  have m8: "?a mod BPB mod 8 = ?a mod 8" by (rule mod_mod_cancel) simp
  have len: "length (blk s ?B) = BSIZE" by (rule txn_length [OF t B(3)])
  show "runs (fs_bread p 1 (BBLOCK b (fsb s1)) s1) (\<lambda>x. runs (case x of (bp, s2) \<Rightarrow> let bi = ?a mod BPB; d = fs_data bp s2
      in if d ! (bi div 8) AND bmap_bit bi = 0 then Panic ''freeing free block''
         else andthen (fs_log_write bp (fs_set_data bp (d[bi div 8 := d ! (bi div 8) AND NOT (bmap_bit bi)]) s2)) (fs_brelse p bp))
     (\<lambda>s'. txn p H (Suc k) s' \<and> holds_same H s s' \<and> frame s s' \<and> used s' = used s - {?a} \<and> (\<forall>n. n \<noteq> ?B \<longrightarrow> blk s' n = blk s n)))"
    unfolding runs_andthen [symmetric] Let_def
  proof (rule update_rule [OF t1 lt hB])
    fix bp s2
    assume bp: "fs_data bp s2 = blk s1 (BBLOCK b (fsb s1))"
      and wr: "\<And>d. length d = BSIZE \<Longrightarrow> runs (andthen (fs_log_write bp (fs_set_data bp d s2)) (fs_brelse p bp))
        (\<lambda>s3. txn p H (Suc k) s3 \<and> blk s3 = (blk s1)(BBLOCK b (fsb s1) := d) \<and> frame s1 s3 \<and> holds_same H s1 s3)"
    have d: "fs_data bp s2 = blk s ?B" using bp s1 frameD(2) [OF f1] by simp
    let ?y = "blk s ?B ! (?a mod BPB div 8) AND NOT (bmap_bit (?a mod BPB))"
    have bs: "\<not> blk s ?B ! (?a mod BPB div 8) AND bmap_bit (?a mod BPB) = 0"
      using a(2) unfolding bmap_bit_test bitmap_bit_def m8 by simp
    show "runs (if fs_data bp s2 ! (?a mod BPB div 8) AND bmap_bit (?a mod BPB) = 0 then Panic ''freeing free block''
         else andthen (fs_log_write bp (fs_set_data bp ((fs_data bp s2)[?a mod BPB div 8 := fs_data bp s2 ! (?a mod BPB div 8) AND NOT (bmap_bit (?a mod BPB))]) s2))
           (fs_brelse p bp))
     (\<lambda>s'. txn p H (Suc k) s' \<and> holds_same H s s' \<and> frame s s' \<and> used s' = used s - {?a} \<and> (\<forall>n. n \<noteq> ?B \<longrightarrow> blk s' n = blk s n))"
      unfolding d if_not_P [OF bs]
    proof (rule runs_mono [OF wr])
      fix s' assume s': "txn p H (Suc k) s' \<and> blk s' = (blk s1)(BBLOCK b (fsb s1) := (blk s ?B)[?a mod BPB div 8 := ?y]) \<and> frame s1 s' \<and> holds_same H s1 s'"
      have fr: "frame s s'" using s' f1 frame_trans by blast
      have b': "blk s' n = (if n = ?B then (blk s ?B)[?a mod BPB div 8 := ?y] else blk s n)" for n using s' s1 frameD(2) [OF f1] by simp
      have "bitmap_bit s' c \<longleftrightarrow> (if c = ?a then False else bitmap_bit s c)" if "c < fssize s" for c
      proof (rule bitmap_update [OF l a(1) _ fr _ _ _ that])
        show "bit ?y j \<longleftrightarrow> (if j = ?a mod 8 then False else bit (blk s (BBLOCK (of_nat ?a) (fsb s)) ! (?a mod BPB div 8)) j)" if "j < 8" for j
          using bmap_bit_clear [OF that] by (simp add: m8)
      qed (use len b' in simp_all)
      then have "used s' = used s - {?a}" using frame_layout(3) [OF fr] by (auto simp: used_def split: if_splits)
      then show "txn p H (Suc k) s' \<and> holds_same H s s' \<and> frame s s' \<and> used s' = used s - {?a} \<and> (\<forall>n. n \<noteq> ?B \<longrightarrow> blk s' n = blk s n)"
        using s' s1 fr holds_same_trans [of H s s1 s'] b' by simp
    qed (use len in simp)
  qed
qed

section \<open>The allocator as a set\<close>

lemma allocated_ge: "alloc_ok s \<Longrightarrow> allocated s addr s' \<Longrightarrow> datastart s \<le> unat addr"
  unfolding alloc_ok_def allocated_def by (meson lessThan_iff not_le subsetD)

lemma allocated_blk:
  assumes "alloc_ok s" "allocated s addr s'" and "unat n < datastart s" "unat n < unat (bmapstart (fsb s))"
  shows "blk s' n = blk s n"
proof -
  have l: "layout s" using assms(1) by (simp add: alloc_ok_def)
  have a: "unat addr < fssize s" and o: "\<And>n. n \<noteq> addr \<and> n \<noteq> BBLOCK addr (fsb s) \<longrightarrow> blk s' n = blk s n" using assms(2) by (simp_all add: allocated_def)
  have "n \<noteq> addr" using allocated_ge [OF assms(1,2)] assms(3) by auto
  moreover have "n \<noteq> BBLOCK addr (fsb s)" using unat_BBLOCK(1) [OF l a] assms(4) by auto
  ultimately show ?thesis using o by blast
qed

lemma allocated_sb:
  assumes "alloc_ok s" "allocated s addr s'" "sb_ok s"
  shows "sb_ok s'" "alloc_ok s'"
proof -
  have l: "layout s" and f: "frame s s'" using assms(1,2) by (simp_all add: alloc_ok_def allocated_def)
  have "unat (1 :: uint) < unat (inodestart (fsb s))" using l by (simp add: layout_def word_less_nat_alt)
  then have "unat (1 :: uint) < unat (bmapstart (fsb s))" using layoutD(4) [OF l] by linarith
  then have "blk s' 1 = blk s 1" by (intro allocated_blk [OF assms(1,2)]) (simp_all add: datastart_def)
  then show "sb_ok s'" using assms(3) frameD(2) [OF f] by (simp add: sb_ok_def)
  show "alloc_ok s'" using assms(1,2) frame_layout [OF f] by (auto simp: alloc_ok_def allocated_def)
qed

text \<open>C8: The block allocator implements a set of blocks. Inside a transaction with room for four more blocks, \<^verbatim>\<open>balloc\<close> panics
  exactly when every block is in use; otherwise it returns a data block that was not in use, adds just this block to the
  set, fills it with zeros and changes no block but it and its block of the bitmap; and \<^verbatim>\<open>bfree\<close> of
  this block gives the old set back.\<close>

theorem block_allocator:
  assumes "txn p {} (Suc (Suc (Suc (Suc k)))) s" and "alloc_ok s" and "sb_ok s"
  shows "if used s = {..<fssize s} then balloc p 1 s = Panic ''balloc: out of blocks''
    else \<exists>addr s1 s2. balloc p 1 s = Ok (addr, s1) \<and> datastart s \<le> unat addr \<and> unat addr \<notin> used s \<and> used s1 = insert (unat addr) (used s) \<and>
      blk s1 addr = replicate BSIZE 0 \<and> (\<forall>n. n \<noteq> addr \<and> n \<noteq> BBLOCK addr (fsb s) \<longrightarrow> blk s1 n = blk s n) \<and>
      bfree p 1 addr s1 = Ok s2 \<and> used s2 = used s"
proof (cases "used s = {..<fssize s}")
  case True
  have "balloc p 1 s = Panic ''balloc: out of blocks''"
    unfolding balloc_def by (rule balloc_loop_full [OF assms(1) _ _ True refl]) (use assms(2) in \<open>simp_all add: alloc_ok_def holds_data_def\<close>)
  then show ?thesis using True by simp
next
  case False
  obtain addr s1 where b: "balloc p 1 s = Ok (addr, s1)" "txn p {} (Suc (Suc k)) s1" "allocated s addr s1"
    using balloc_ok [OF assms(1,2) _ False] by (auto simp: holds_data_def elim!: runsE)
  note ok = allocated_sb [OF assms(2) b(3) assms(3)]
  have u: "used s1 = insert (unat addr) (used s)" "unat addr \<notin> used s" using b(3) by (simp_all add: allocated_def)
  obtain s2 where "bfree p 1 addr s1 = Ok s2" "used s2 = used s1 - {unat addr}"
    using bfree_ok [OF b(2) _ ok(1), of addr] ok(2) u(1) by (auto simp: alloc_ok_def holds_data_def elim!: runsE)
  then show ?thesis using False b(1,3) u allocated_ge [OF assms(2) b(3)] by (auto simp: allocated_def)
qed

text \<open>A disk of 64 blocks: the log from block 2, inodes from 32, the bitmap in 34, data from 35.\<close>

definition demo_sb :: superblock where
  "demo_sb = \<lparr>sb_size = 64, nblocks = 29, ninodes = 8, nlog = 30, logstart = 2, inodestart = 32, bmapstart = 34\<rparr>"

definition demo_disk :: "uint \<Rightarrow> block" where
  "demo_disk n =
     (if n = 1 then put32 24 34 (put32 20 32 (put32 16 2 (put32 12 30 (put32 8 8 (put32 4 29 (put32 0 64 (replicate 512 0)))))))
      else if n = 34 then [255, 255, 255, 255, 7] @ replicate 507 0
      else replicate 512 0)"

definition demo_fs :: "unit fs" where
  "demo_fs = \<lparr>
     flog = \<lparr>lstart = 2, lsize = 30, outstanding = 1, committing = 0, ldev = 1, lhn = 0, lhblock = replicate 30 0,
       cache = binit (blank_cache\<lparr>disk := demo_disk, disksize := 64\<rparr>)\<rparr>,
     fsb = demo_sb,
     inodes = \<lambda>_. \<lparr>idev = 1, inum = 1, iref = 1, ilk = free_sleeplock, ivalid = True, itype = 2, imajor = 0, iminor = 0, inlink = 1,
       isize = 0, iaddrs = replicate 13 0\<rparr>,
     devs = ()\<rparr>"

lemma demo_fs_txn: "k < 30 \<Longrightarrow> txn p {} k demo_fs" and demo_fs_blk: "blk demo_fs = demo_disk"
proof -
  let ?c = "blank_cache\<lparr>disk := demo_disk, disksize := 64\<rparr>"
  have z: "\<forall>i < NBUF. bdev (bufs ?c i) = 0 \<and> bflags (bufs ?c i) = 0" by (simp add: blank_cache_def)
  note b = binit_inv(1,2) [OF z]
  show v: "blk demo_fs = demo_disk" using b(2) by (simp add: blk_def demo_fs_def)
  have bufs: "bufs (binit ?c) i = init_buf (bufs ?c i)" if "i < NBUF" for i using that by (simp add: binit_bufs(1))
  have "calm p {} (binit ?c)" using b(1) bufs by (simp add: calm_def init_buf_def blank_cache_def)
  moreover have "logged (flog demo_fs)" using bufs by (simp add: logged_def demo_fs_def init_buf_def blank_cache_def)
  moreover have "full_blocks (binit ?c)" unfolding full_blocks_def b(2) by (simp add: demo_disk_def)
  ultimately show "txn p {} k demo_fs" if "k < 30" using that by (simp add: txn_def demo_fs_def head_ok_def)
qed

lemma demo_bit: "bitmap_bit demo_fs a \<longleftrightarrow> a < 35" if a: "a < 64"
proof -
  have "unat (of_nat a :: uint) = a" by (rule unat_of_nat_small) (use a in simp)
  then have "unat (of_nat a div of_nat BPB :: uint) = 0" unfolding unat_div using a by simp
  then have B: "BBLOCK (of_nat a) (fsb demo_fs) = 34" by (simp add: BBLOCK_def demo_fs_def demo_sb_def unat_eq_0)
  have all: "\<forall>a \<in> set [0..<64]. bit (([255, 255, 255, 255, 7, 0, 0, 0] :: uchar list) ! (a div 8)) (a mod 8) \<longleftrightarrow> a < 35" by code_simp
  have "blk demo_fs 34 ! (a div 8) = ([255, 255, 255, 255, 7, 0, 0, 0] :: uchar list) ! (a div 8)"
  proof -
    have "replicate 507 (0 :: uchar) = replicate 3 0 @ replicate 504 0" unfolding replicate_add [symmetric] by simp
    also have "replicate 3 (0 :: uchar) = [0, 0, 0]" by (simp add: numeral_3_eq_3)
    finally have "blk demo_fs 34 = [255, 255, 255, 255, 7, 0, 0, 0] @ replicate 504 0" by (simp add: demo_fs_blk demo_disk_def)
    moreover have "a div 8 < length ([255, 255, 255, 255, 7, 0, 0, 0] :: uchar list)" using a by simp
    ultimately show ?thesis by (simp only: nth_append if_True)
  qed
  moreover have "a mod BPB = a" using a by simp
  moreover have "a \<in> set [0..<64]" using a unfolding set_upt by simp
  ultimately show ?thesis using all unfolding bitmap_bit_def B by simp
qed

lemma demo_fs_simps [simp]: "fsb demo_fs = demo_sb" "disksize (fcache demo_fs) = 64"
  by (simp_all add: demo_fs_def binit_bufs(3))

lemma demo_used: "used demo_fs = {..<35}"
  using demo_bit by (auto simp: used_def demo_sb_def)

lemma demo_fs_ok: "alloc_ok demo_fs" "sb_ok demo_fs"
proof -
  show "alloc_ok demo_fs" by (simp add: alloc_ok_def layout_def datastart_def demo_sb_def demo_used)
  have "decode_sb (demo_disk 1) = demo_sb"
    by (simp add: decode_sb_def demo_disk_def demo_sb_def get32_put32 get32_put32_other)
  then show "sb_ok demo_fs" by (simp add: sb_ok_def demo_fs_blk)
qed

theorem block_allocator_witness:
  "\<exists>addr s1 s2. balloc 1 1 demo_fs = Ok (addr, s1) \<and> 35 \<le> unat addr \<and> bfree 1 1 addr s1 = Ok s2 \<and> used s2 = {..<35}"
proof -
  have "txn 1 {} (Suc (Suc (Suc (Suc 0)))) demo_fs" by (rule demo_fs_txn) simp
  moreover have "used demo_fs \<noteq> {..<fssize demo_fs}" by (simp add: demo_used demo_sb_def)
  ultimately show ?thesis using block_allocator [OF _ demo_fs_ok, of 1 0] by (auto simp: datastart_def demo_sb_def demo_used)
qed

end
