(* ===== verification/Fs_Inode.thy ===== *)
theory Fs_Inode
  imports Fs_Alloc
begin

text \<open>
  Inodes: the round trip through their 64 bytes on disk, the blocks of a file and the bytes in them, and \<^verbatim>\<open>bmap\<close>,
  which adds blocks to a file without changing its bytes.
\<close>

section \<open>Inodes on disk\<close>

lemma get16_put16_other: "i + 1 < j \<or> j + 1 < i \<Longrightarrow> get16 (put16 j v d) i = get16 d i"
  by (auto simp: get16_def put16_def)

lemma get16_put32_other: "i + 1 < j \<or> j + 3 < i \<Longrightarrow> get16 (put32 j v d) i = get16 d i"
  by (auto simp: get16_def put32_def)

lemma get32_put16_other: "i + 3 < j \<or> j + 1 < i \<Longrightarrow> get32 (put16 j v d) i = get32 d i"
  by (auto simp: get32_def put16_def)

lemma put_addrs:
  fixes o1 :: nat and f :: "nat \<Rightarrow> uint"
  defines "F \<equiv> \<lambda>d n. foldl (\<lambda>d k. put32 (o1 + 4 * k) (f k) d) d [0..<n]"
  shows "length (F d n) = length d"
    and "o1 + 4 * n \<le> length d \<Longrightarrow> j < n \<Longrightarrow> get32 (F d n) (o1 + 4 * j) = f j"
    and "i + 3 < o1 \<or> o1 + 4 * n \<le> i \<Longrightarrow> get32 (F d n) i = get32 d i"
    and "i + 1 < o1 \<or> o1 + 4 * n \<le> i \<Longrightarrow> get16 (F d n) i = get16 d i"
proof -
  show l: "length (F d n) = length d" for d n unfolding F_def by (induction n) simp_all
  show "o1 + 4 * n \<le> length d \<Longrightarrow> j < n \<Longrightarrow> get32 (F d n) (o1 + 4 * j) = f j"
  proof (induction n)
    case (Suc n)
    have step: "F d (Suc n) = put32 (o1 + 4 * n) (f n) (F d n)" by (simp add: F_def)
    show ?case
    proof (cases "j = n")
      case True
      then show ?thesis unfolding step using Suc.prems(1) l [of d n] by (simp add: get32_put32)
    next
      case False
      then have "get32 (F d n) (o1 + 4 * j) = f j" using Suc by simp
      then show ?thesis unfolding step using False Suc.prems(2) by (subst get32_put32_other) auto
    qed
  qed simp
  show "i + 3 < o1 \<or> o1 + 4 * n \<le> i \<Longrightarrow> get32 (F d n) i = get32 d i"
    unfolding F_def by (induction n) (auto simp: get32_put32_other)
  show "i + 1 < o1 \<or> o1 + 4 * n \<le> i \<Longrightarrow> get16 (F d n) i = get16 d i"
    unfolding F_def by (induction n) (auto simp: get16_put32_other)
qed

lemma length_put_dinode: "length (put_dinode off x d) = length d"
  unfolding put_dinode_def by (subst put_addrs(1)) simp

lemma put_dinode_fields:
  assumes "off + 64 \<le> length d"
  shows "get16 (put_dinode off x d) off = itype x" "get16 (put_dinode off x d) (off + 2) = imajor x"
    "get16 (put_dinode off x d) (off + 4) = iminor x" "get16 (put_dinode off x d) (off + 6) = inlink x"
    "get32 (put_dinode off x d) (off + 8) = isize x" "k < 13 \<Longrightarrow> get32 (put_dinode off x d) (off + 12 + 4 * k) = iaddrs x ! k"
  unfolding put_dinode_def
  using assms by (simp_all add: put_addrs get16_put16 get32_put32 get16_put16_other get16_put32_other get32_put16_other del: upt_Suc)

lemma get_put_dinode:
  assumes "off + 64 \<le> length d" and "length (iaddrs x) = NDIRECT + 1"
  shows "get_dinode (put_dinode off x d) off y =
    y\<lparr>itype := itype x, imajor := imajor x, iminor := iminor x, inlink := inlink x, isize := isize x, iaddrs := iaddrs x\<rparr>"
proof -
  have "map (\<lambda>k. get32 (put_dinode off x d) (off + 12 + 4 * k)) [0..<NDIRECT + 1] = iaddrs x"
    by (rule nth_equalityI) (use put_dinode_fields(6) [OF assms(1), of _ x] assms(2) in \<open>auto simp del: upt_Suc upt_rec_numeral\<close>)
  then show ?thesis unfolding get_dinode_def put_dinode_fields(1-5) [OF assms(1)] by simp
qed

text \<open>C19: \<^verbatim>\<open>iupdate\<close> and \<^verbatim>\<open>ilock\<close> agree on the layout of an inode on disk: copying an inode to its place in a block and back gives all its
  fields, and the seven other inodes of the block are not changed.\<close>

theorem dinode_roundtrip:
  assumes "off + 64 \<le> length d" and "length (iaddrs x) = NDIRECT + 1" and "off' + 64 \<le> off \<or> off + 64 \<le> off'"
  shows "get_dinode (put_dinode off x d) off y =
      y\<lparr>itype := itype x, imajor := imajor x, iminor := iminor x, inlink := inlink x, isize := isize x, iaddrs := iaddrs x\<rparr> \<and>
    get_dinode (put_dinode off x d) off' y = get_dinode d off' y"
proof
  show "get_dinode (put_dinode off x d) off y =
      y\<lparr>itype := itype x, imajor := imajor x, iminor := iminor x, inlink := inlink x, isize := isize x, iaddrs := iaddrs x\<rparr>"
    by (rule get_put_dinode [OF assms(1,2)])
  have o: "get16 (put_dinode off x d) (off' + i) = get16 d (off' + i)" if "i \<le> 6" for i
    unfolding put_dinode_def using assms(3) that by (subst put_addrs(4)) (auto simp: get16_put16_other get16_put32_other)
  have w: "get32 (put_dinode off x d) (off' + i) = get32 d (off' + i)" if "i \<le> 60" for i
    unfolding put_dinode_def using assms(3) that by (subst put_addrs(3)) (auto simp: get32_put16_other get32_put32_other)
  have "get32 (put_dinode off x d) (off' + 12 + 4 * k) = get32 d (off' + 12 + 4 * k)" if "k \<in> set [0..<NDIRECT + 1]" for k
    using w [of "12 + 4 * k"] that by (simp add: add.assoc del: upt_Suc upt_rec_numeral)
  then have "map (\<lambda>k. get32 (put_dinode off x d) (off' + 12 + 4 * k)) [0..<NDIRECT + 1] = map (\<lambda>k. get32 d (off' + 12 + 4 * k)) [0..<NDIRECT + 1]"
    by (intro map_cong refl)
  then show "get_dinode (put_dinode off x d) off' y = get_dinode d off' y"
    unfolding get_dinode_def using o [of 0] o [of 2] o [of 4] o [of 6] w [of 8] by simp
qed

theorem dinode_roundtrip_witness:
  "itype (get_dinode (put_dinode 64 ((inodes demo_fs 0)\<lparr>itype := 1, iaddrs := map of_nat [35..<48]\<rparr>) (replicate 512 0)) 64 (inodes demo_fs 1)) = 1 \<and>
   iaddrs (get_dinode (put_dinode 64 ((inodes demo_fs 0)\<lparr>itype := 1, iaddrs := map of_nat [35..<48]\<rparr>) (replicate 512 0)) 64 (inodes demo_fs 1)) = map of_nat [35..<48]"
proof -
  let ?x = "(inodes demo_fs 0)\<lparr>itype := 1, iaddrs := map of_nat [35..<48]\<rparr>"
  have "length (iaddrs ?x) = NDIRECT + 1" by (simp del: upt_rec_numeral)
  from dinode_roundtrip [OF _ this, of 64 "replicate 512 0" 0 "inodes demo_fs 1"] show ?thesis by (simp del: upt_rec_numeral)
qed

section \<open>The blocks of a file\<close>

abbreviation (input) "NSLOT \<equiv> (140 :: nat)"

definition iblock :: "'d fs \<Rightarrow> inode \<Rightarrow> nat \<Rightarrow> uint" where
  "iblock s x bn =
     (if bn < NDIRECT then iaddrs x ! bn
      else if iaddrs x ! NDIRECT = 0 \<or> NSLOT \<le> bn then 0 else get32 (blk s (iaddrs x ! NDIRECT)) (4 * (bn - NDIRECT)))"

text \<open>All block numbers of an inode: those of the contents and, as number 140, the indirect block.\<close>

definition slot :: "'d fs \<Rightarrow> inode \<Rightarrow> nat \<Rightarrow> uint" where
  "slot s x i = (if i < NSLOT then iblock s x i else iaddrs x ! NDIRECT)"

definition data_block :: "'d fs \<Rightarrow> uint \<Rightarrow> bool" where
  "data_block s a \<longleftrightarrow> datastart s \<le> unat a \<and> unat a \<in> used s"

definition ino_ok :: "'d fs \<Rightarrow> inode \<Rightarrow> bool" where
  "ino_ok s x \<longleftrightarrow> idev x = 1 \<and> length (iaddrs x) = NDIRECT + 1 \<and> (\<forall>i \<le> NSLOT. slot s x i \<noteq> 0 \<longrightarrow> data_block s (slot s x i)) \<and>
     (\<forall>i \<le> NSLOT. \<forall>j \<le> NSLOT. slot s x i = slot s x j \<and> slot s x i \<noteq> 0 \<longrightarrow> i = j)"

text \<open>The bytes of a file; a block that is not there reads as zeros.\<close>

definition file_byte :: "'d fs \<Rightarrow> inode \<Rightarrow> nat \<Rightarrow> uchar" where
  "file_byte s x k = (let a = iblock s x (k div BSIZE) in if a = 0 then 0 else blk s a ! (k mod BSIZE))"

lemma ino_okD:
  assumes "ino_ok s x"
  shows "idev x = 1" "length (iaddrs x) = NDIRECT + 1" "i \<le> NSLOT \<Longrightarrow> slot s x i \<noteq> 0 \<Longrightarrow> data_block s (slot s x i)"
    "i \<le> NSLOT \<Longrightarrow> j \<le> NSLOT \<Longrightarrow> slot s x i = slot s x j \<Longrightarrow> slot s x i \<noteq> 0 \<Longrightarrow> i = j"
  using assms unfolding ino_ok_def by blast+

lemma slot_iblock: "bn < NSLOT \<Longrightarrow> slot s x bn = iblock s x bn"
  by (simp add: slot_def)

lemma slot_indirect [simp]: "slot s x NSLOT = iaddrs x ! NDIRECT"
  by (simp add: slot_def)

lemma iblock_ne_indirect:
  assumes "ino_ok s x" and "bn < NSLOT" and "iblock s x bn \<noteq> 0"
  shows "iblock s x bn \<noteq> iaddrs x ! NDIRECT"
  using ino_okD(4) [OF assms(1), of bn NSLOT] assms(2,3) slot_iblock [OF assms(2), of s x] by auto

lemma frame_blocks:
  assumes "frame s s'" and "blk s' = blk s"
  shows "used s' = used s" "data_block s' = data_block s" "iblock s' = iblock s" "slot s' = slot s" "ino_ok s' = ino_ok s" "file_byte s' = file_byte s"
    "alloc_ok s' = alloc_ok s"
proof -
  show u: "used s' = used s" using assms(2) frameD(2) [OF assms(1)] by (auto simp: used_def bitmap_bit_def)
  show d: "data_block s' = data_block s" using u frame_layout(1) [OF assms(1)] by (auto simp: data_block_def fun_eq_iff)
  show i: "iblock s' = iblock s" using assms(2) by (simp add: iblock_def fun_eq_iff)
  show sl: "slot s' = slot s" using i by (simp add: slot_def fun_eq_iff)
  show "ino_ok s' = ino_ok s" by (simp add: ino_ok_def d sl fun_eq_iff)
  show "file_byte s' = file_byte s" using assms(2) i by (simp add: file_byte_def Let_def fun_eq_iff)
  show "alloc_ok s' = alloc_ok s" using u frame_layout [OF assms(1)] by (simp add: alloc_ok_def)
qed

section \<open>Growing a file\<close>

text \<open>What an operation on the file of slot \<open>ip\<close> of the inode cache may do to the rest: the file keeps its blocks and
  gets new ones only from the free blocks; no block of another file and no block in front of the bitmap is written.\<close>

definition extends :: "nat \<Rightarrow> 'd fs \<Rightarrow> 'd fs \<Rightarrow> bool" where
  "extends ip s s' \<longleftrightarrow> (\<exists>a. frame (upd_inode ip (\<lambda>x. x\<lparr>iaddrs := a\<rparr>) s) s') \<and> used s \<subseteq> used s' \<and>
     (\<forall>i \<le> NSLOT. if slot s (inodes s ip) i = 0 then slot s' (inodes s' ip) i = 0 \<or> unat (slot s' (inodes s' ip) i) \<notin> used s
        else slot s' (inodes s' ip) i = slot s (inodes s ip) i) \<and>
     (\<forall>n. data_block s n \<and> (\<forall>i \<le> NSLOT. slot s (inodes s ip) i \<noteq> n) \<longrightarrow> blk s' n = blk s n) \<and>
     (\<forall>n. unat n < unat (bmapstart (fsb s)) \<longrightarrow> blk s' n = blk s n)"

lemma upd_inode_simps [simp]:
  "flog (upd_inode ip f s) = flog s" "fsb (upd_inode ip f s) = fsb s" "devs (upd_inode ip f s) = devs s" "blk (upd_inode ip f s) = blk s"
  "inodes (upd_inode ip f s) = (inodes s)(ip := f (inodes s ip))"
  by (simp_all add: upd_inode_def blk_def)

lemma upd_inode_state [simp]:
  "used (upd_inode ip f s) = used s" "datastart (upd_inode ip f s) = datastart s" "layout (upd_inode ip f s) = layout s" "alloc_ok (upd_inode ip f s) = alloc_ok s"
  "data_block (upd_inode ip f s) = data_block s" "slot (upd_inode ip f s) = slot s" "iblock (upd_inode ip f s) = iblock s"
  "ino_ok (upd_inode ip f s) = ino_ok s" "file_byte (upd_inode ip f s) = file_byte s" "txn p H k (upd_inode ip f s) = txn p H k s"
proof -
  let ?s = "upd_inode ip f s"
  show u: "used ?s = used s" by (simp add: used_def bitmap_bit_def)
  show d: "datastart ?s = datastart s" by (simp add: datastart_def)
  show "layout ?s = layout s" using d by (simp add: layout_def)
  then show "alloc_ok ?s = alloc_ok s" using u d by (simp add: alloc_ok_def)
  show db: "data_block ?s = data_block s" using u d by (simp add: data_block_def fun_eq_iff)
  show ib: "iblock ?s = iblock s" by (simp add: iblock_def fun_eq_iff)
  then show sl: "slot ?s = slot s" by (simp add: slot_def fun_eq_iff)
  then show "ino_ok ?s = ino_ok s" using db by (simp add: ino_ok_def fun_eq_iff)
  show "file_byte ?s = file_byte s" using ib by (simp add: file_byte_def Let_def fun_eq_iff)
  show "txn p H k ?s = txn p H k s" by (simp add: txn_def)
qed

lemma data_block_nonzero: "data_block s n \<Longrightarrow> n \<noteq> 0"
  by (auto simp: data_block_def datastart_def)

lemma extendsD:
  assumes "extends ip s s'"
  shows "used s \<subseteq> used s'" "datastart s' = datastart s" "fsb s' = fsb s" "disksize (fcache s') = disksize (fcache s)" "layout s' = layout s"
    "alloc_ok s \<Longrightarrow> alloc_ok s'" "data_block s n \<Longrightarrow> data_block s' n" "\<exists>a. inodes s' = (inodes s)(ip := (inodes s ip)\<lparr>iaddrs := a\<rparr>)"
    "idev (inodes s' ip) = idev (inodes s ip)" "isize (inodes s' ip) = isize (inodes s ip)" "itype (inodes s' ip) = itype (inodes s ip)" "devs s' = devs s"
    "inum (inodes s' ip) = inum (inodes s ip)"
proof -
  obtain a where f: "frame (upd_inode ip (\<lambda>x. x\<lparr>iaddrs := a\<rparr>) s) s'" and u: "used s \<subseteq> used s'" using assms by (auto simp: extends_def)
  show "used s \<subseteq> used s'" by (rule u)
  show d: "datastart s' = datastart s" "layout s' = layout s" using frame_layout [OF f] by simp_all
  show "fsb s' = fsb s" "disksize (fcache s') = disksize (fcache s)" "devs s' = devs s" using frameD [OF f] by simp_all
  show "alloc_ok s'" if "alloc_ok s" using that u d by (auto simp: alloc_ok_def)
  show "data_block s' n" if "data_block s n" using that u d by (auto simp: data_block_def)
  show "\<exists>a. inodes s' = (inodes s)(ip := (inodes s ip)\<lparr>iaddrs := a\<rparr>)" using frameD(1) [OF f] by auto
  show "idev (inodes s' ip) = idev (inodes s ip)" "isize (inodes s' ip) = isize (inodes s ip)" "itype (inodes s' ip) = itype (inodes s ip)"
    "inum (inodes s' ip) = inum (inodes s ip)"
    using frameD(1) [OF f] by simp_all
qed

lemma extends_slot:
  assumes "extends ip s s'" and "i \<le> NSLOT"
  shows "slot s (inodes s ip) i \<noteq> 0 \<Longrightarrow> slot s' (inodes s' ip) i = slot s (inodes s ip) i"
    "slot s (inodes s ip) i = 0 \<Longrightarrow> slot s' (inodes s' ip) i = 0 \<or> unat (slot s' (inodes s' ip) i) \<notin> used s"
  using assms by (auto simp: extends_def split: if_splits)

lemma extends_blk:
  assumes "extends ip s s'"
  shows "data_block s n \<Longrightarrow> (\<And>i. i \<le> NSLOT \<Longrightarrow> slot s (inodes s ip) i \<noteq> n) \<Longrightarrow> blk s' n = blk s n" "unat n < unat (bmapstart (fsb s)) \<Longrightarrow> blk s' n = blk s n"
  using assms by (auto simp: extends_def)

lemma extends_same:
  assumes "frame s s'" and "blk s' = blk s"
  shows "extends ip s s'"
proof -
  have "frame (upd_inode ip (\<lambda>x. x\<lparr>iaddrs := iaddrs (inodes s ip)\<rparr>) s) s'" using assms(1) by (auto simp: frame_def fun_upd_idem)
  then show ?thesis using assms frame_blocks [OF assms] frameD(1) [OF assms(1)] unfolding extends_def by (auto intro!: exI [of _ "iaddrs (inodes s ip)"])
qed

lemma extends_trans:
  assumes 1: "extends ip s t" and 2: "extends ip t u"
  shows "extends ip s u"
proof -
  obtain a b where f: "frame (upd_inode ip (\<lambda>x. x\<lparr>iaddrs := a\<rparr>) s) t" "frame (upd_inode ip (\<lambda>x. x\<lparr>iaddrs := b\<rparr>) t) u" using 1 2 by (auto simp: extends_def)
  have fr: "frame (upd_inode ip (\<lambda>x. x\<lparr>iaddrs := b\<rparr>) s) u" using f by (simp add: frame_def)
  note d = extendsD [OF 1]
  have sl: "if slot s (inodes s ip) i = 0 then slot u (inodes u ip) i = 0 \<or> unat (slot u (inodes u ip) i) \<notin> used s
      else slot u (inodes u ip) i = slot s (inodes s ip) i" if i: "i \<le> NSLOT" for i
    using extends_slot [OF 1 i] extends_slot [OF 2 i] d(1) by (cases "slot t (inodes t ip) i = 0") auto
  have "blk u n = blk s n" if n: "data_block s n" "\<forall>i \<le> NSLOT. slot s (inodes s ip) i \<noteq> n" for n
  proof -
    have "slot t (inodes t ip) i \<noteq> n" if "i \<le> NSLOT" for i
      using extends_slot [OF 1 that] n that data_block_nonzero [OF n(1)] by (cases "slot s (inodes s ip) i = 0") (auto simp: data_block_def)
    then show ?thesis using extends_blk(1) [OF 2 d(7) [OF n(1)]] extends_blk(1) [OF 1 n(1)] n(2) by simp
  qed
  moreover have "blk u n = blk s n" if "unat n < unat (bmapstart (fsb s))" for n
    using extends_blk(2) [OF 1 that] extends_blk(2) [OF 2] that d(3) by simp
  ultimately show ?thesis unfolding extends_def using fr d(1) extendsD(1) [OF 2] sl by (intro conjI exI [of _ b]) auto
qed

text \<open>A fresh block of zeros in an empty slot leaves the bytes of the file as they are.\<close>

lemma add_block:
  assumes ok: "ino_ok s (inodes s ip)" and i: "i \<le> NSLOT" "slot s (inodes s ip) i = 0" and al: "alloc_ok s" "allocated s addr s1"
    and f: "frame (upd_inode ip (\<lambda>x. x\<lparr>iaddrs := a\<rparr>) s) s'" "length a = NDIRECT + 1"
    and sl: "\<And>j. j \<le> NSLOT \<Longrightarrow> slot s' (inodes s' ip) j = (if j = i then addr else slot s (inodes s ip) j)"
    and b: "\<And>n. n \<noteq> iaddrs (inodes s ip) ! NDIRECT \<or> n = 0 \<Longrightarrow> blk s' n = blk s1 n"
  shows "ino_ok s' (inodes s' ip)" "file_byte s' (inodes s' ip) = file_byte s (inodes s ip)" "extends ip s s'" "used s' = insert (unat addr) (used s)"
proof -
  let ?x = "inodes s ip" and ?x' = "inodes s' ip"
  have l: "layout s" using al(1) by (simp add: alloc_ok_def)
  have a: "unat addr < fssize s" "unat addr \<notin> used s" "used s1 = insert (unat addr) (used s)" "frame s s1" "blk s1 addr = replicate BSIZE 0"
    "\<And>n. n \<noteq> addr \<Longrightarrow> n \<noteq> BBLOCK addr (fsb s) \<Longrightarrow> blk s1 n = blk s n"
    using al(2) by (simp_all add: allocated_def)
  have fs: "fsb s' = fsb s" "?x' = ?x\<lparr>iaddrs := a\<rparr>" "datastart s' = datastart s" using frameD [OF f(1)] frame_layout [OF f(1)] by simp_all
  have ind: "iaddrs ?x ! NDIRECT = 0 \<or> data_block s (iaddrs ?x ! NDIRECT)" using ino_okD(3) [OF ok, of NSLOT] by auto
  have low: "blk s' n = blk s1 n" if "unat n < datastart s" for n
    by (rule b) (use ind that in \<open>auto simp: data_block_def\<close>)
  note bm = unat_BBLOCK(2) [OF l]
  show u: "used s' = insert (unat addr) (used s)"
    unfolding a(3) [symmetric] using bm low frameD(2) [OF a(4)] by (auto simp: used_def bitmap_bit_def fs(1))
  have az: "addr \<noteq> 0" using allocated_ge [OF al] by (auto simp: datastart_def)
  have fresh: "slot s ?x j \<noteq> addr" if "j \<le> NSLOT" for j using ino_okD(3) [OF ok that] a(2) az by (auto simp: data_block_def)
  have ab: "blk s' addr = replicate BSIZE 0" using b [of addr] fresh [of NSLOT] a(5) by simp
  have old: "blk s' n = blk s n" if "data_block s n" "n \<noteq> iaddrs ?x ! NDIRECT" for n
  proof -
    have "n \<noteq> addr" "n \<noteq> BBLOCK addr (fsb s)" using that(1) a(2) bm [OF a(1)] by (auto simp: data_block_def)
    then show ?thesis using b [of n] that(2) a(6) by simp
  qed
  show "extends ip s s'"
    unfolding extends_def
  proof (intro conjI allI impI exI [of _ a])
    show "if slot s ?x j = 0 then slot s' ?x' j = 0 \<or> unat (slot s' ?x' j) \<notin> used s else slot s' ?x' j = slot s ?x j" if "j \<le> NSLOT" for j
      using sl [OF that] i(2) a(2) by auto
    show "blk s' n = blk s n" if "data_block s n \<and> (\<forall>i \<le> NSLOT. slot s ?x i \<noteq> n)" for n using old [of n] that by (metis le_refl slot_indirect)
    show "blk s' n = blk s n" if n: "unat n < unat (bmapstart (fsb s))" for n
      using low [of n] n allocated_blk [OF al, of n] by (simp add: datastart_def)
  qed (use f u in auto)
  have "slot s' ?x' j \<noteq> 0 \<longrightarrow> data_block s' (slot s' ?x' j)" if "j \<le> NSLOT" for j
    using sl [OF that] ino_okD(3) [OF ok that] u fs(3) allocated_ge [OF al] by (auto simp: data_block_def)
  moreover have "j = k" if "j \<le> NSLOT" "k \<le> NSLOT" "slot s' ?x' j = slot s' ?x' k" "slot s' ?x' j \<noteq> 0" for j k
    using that sl fresh ino_okD(4) [OF ok that(1,2)] by (auto split: if_splits)
  ultimately show "ino_ok s' ?x'" using fs(2) f(2) ino_okD(1) [OF ok] unfolding ino_ok_def by auto
  show "file_byte s' ?x' = file_byte s ?x"
  proof
    fix k
    let ?j = "k div BSIZE"
    have e: "iblock s' ?x' ?j = (if ?j = i then addr else iblock s ?x ?j)" if "?j < NSLOT" using sl [of ?j] that by (simp add: slot_def)
    consider "\<not> ?j < NSLOT" | "?j < NSLOT" "?j = i" | "?j < NSLOT" "?j \<noteq> i" "iblock s ?x ?j = 0" | "?j < NSLOT" "?j \<noteq> i" "iblock s ?x ?j \<noteq> 0" by blast
    then show "file_byte s' ?x' k = file_byte s ?x k"
    proof cases
      case 1
      then show ?thesis by (simp add: file_byte_def iblock_def)
    next
      case 2
      then show ?thesis using e i(2) ab az by (simp add: file_byte_def slot_def Let_def)
    next
      case 3
      then show ?thesis using e by (simp add: file_byte_def)
    next
      case 4
      then have "data_block s (iblock s ?x ?j)" using ino_okD(3) [OF ok, of ?j] by (simp add: slot_def)
      then show ?thesis using e [OF 4(1)] 4 old iblock_ne_indirect [OF ok 4(1,3)] by (simp add: file_byte_def Let_def)
    qed
  qed
qed

end
