(* ===== verification/Fs_File.thy ===== *)
theory Fs_File
  imports Fs_Inode
begin

text \<open>
  The contents of a file: \<^verbatim>\<open>bmap\<close> finds or adds a block, \<^verbatim>\<open>readi\<close> and \<^verbatim>\<open>writei\<close> copy bytes out of and into the blocks.
  A file is seen as the function \<open>file_byte\<close> from offsets to bytes.
\<close>

section \<open>bmap\<close>

lemma txn_mono: "txn p H k s \<Longrightarrow> k' \<le> k \<Longrightarrow> txn p H k' s"
  by (auto simp: txn_def)

text \<open>The state between two steps of an operation on a file.\<close>

definition fstate :: "int \<Rightarrow> nat \<Rightarrow> nat \<Rightarrow> 'd fs \<Rightarrow> bool" where
  "fstate p k ip s \<longleftrightarrow> txn p {} k s \<and> alloc_ok s \<and> ino_ok s (inodes s ip)"

definition nfree :: "'d fs \<Rightarrow> nat" where
  "nfree s = fssize s - card (used s)"

lemma fstateD:
  assumes "fstate p k ip s"
  shows "txn p {} k s" "alloc_ok s" "ino_ok s (inodes s ip)" "idev (inodes s ip) = 1"
  using assms ino_okD(1) by (auto simp: fstate_def)

lemma fstate_mono: "fstate p k ip s \<Longrightarrow> k' \<le> k \<Longrightarrow> fstate p k' ip s"
  by (auto simp: fstate_def intro: txn_mono)

lemma finite_used [simp]: "finite (used s)"
  by (rule finite_subset [of _ "{..<fssize s}"]) (auto simp: used_def)

lemma nfree_pos: "0 < nfree s \<Longrightarrow> used s \<noteq> {..<fssize s}"
  unfolding nfree_def by (metis card_lessThan diff_self_eq_0 less_irrefl)

lemma nfree_insert: "frame s s' \<Longrightarrow> used s' = insert a (used s) \<Longrightarrow> a \<notin> used s \<Longrightarrow> nfree s' = nfree s - 1"
  using frame_layout(3) [of s s'] by (simp add: nfree_def)

lemma data_block_disk: "layout s \<Longrightarrow> data_block s a \<Longrightarrow> a < disksize (fcache s)"
  using layoutD(1) [of s] by (auto simp: data_block_def used_def word_less_nat_alt)

definition mapped :: "nat \<Rightarrow> nat \<Rightarrow> 'd fs \<Rightarrow> uint \<Rightarrow> 'd fs \<Rightarrow> bool" where
  "mapped ip i s addr s' \<longleftrightarrow> addr \<noteq> 0 \<and> slot s' (inodes s' ip) i = addr \<and> extends ip s s' \<and> file_byte s' (inodes s' ip) = file_byte s (inodes s ip)"

lemma zero_block [simp]: "j < NINDIRECT \<Longrightarrow> get32 (replicate BSIZE 0) (4 * j) = 0"
  by (simp add: get32_def)

lemma bmap_add_addr:
  assumes t: "fstate p (Suc (Suc (Suc k))) ip s" and i: "i \<le> NDIRECT" "iaddrs (inodes s ip) ! i = 0" and n: "0 < nfree s"
  shows "runs (andthen (balloc p 1 s) (\<lambda>(addr, s1). Ok (addr, upd_inode ip (\<lambda>x. x\<lparr>iaddrs := (iaddrs x)[i := addr]\<rparr>) s1)))
    (\<lambda>(addr, s'). fstate p (Suc k) ip s' \<and> mapped ip (if i = NDIRECT then NSLOT else i) s addr s' \<and> nfree s' = nfree s - 1)"
proof -
  let ?x = "inodes s ip" and ?i = "if i = NDIRECT then NSLOT else i"
  note d = fstateD [OF t]
  obtain addr s1 where b: "balloc p 1 s = Ok (addr, s1)" "txn p {} (Suc k) s1" "allocated s addr s1"
    using balloc_ok [OF d(1,2) _ nfree_pos [OF n]] by (auto simp: holds_data_def elim!: runsE)
  let ?s = "upd_inode ip (\<lambda>x. x\<lparr>iaddrs := (iaddrs x)[i := addr]\<rparr>) s1"
  have a: "frame s s1" "blk s1 addr = replicate BSIZE 0" "\<And>n. n \<noteq> addr \<Longrightarrow> n \<noteq> BBLOCK addr (fsb s) \<Longrightarrow> blk s1 n = blk s n"
    "unat addr < fssize s" "unat addr \<notin> used s" using b(3) by (simp_all add: allocated_def)
  have l: "layout s" using d(2) by (simp add: alloc_ok_def)
  have az: "addr \<noteq> 0" using allocated_ge [OF d(2) b(3)] by (auto simp: datastart_def)
  have ip: "inodes s1 ip = ?x" using frameD(1) [OF a(1)] by simp
  have len: "length (iaddrs ?x) = 13" using ino_okD(2) [OF d(3)] by simp
  have sl: "slot ?s (inodes ?s ip) j = (if j = ?i then addr else slot s ?x j)" if j: "j \<le> NSLOT" for j
  proof (cases "i = NDIRECT")
    case True
    then show ?thesis using i(2) ip len a(2) az j by (auto simp: slot_def iblock_def nth_list_update)
  next
    case False
    have "blk s1 (iaddrs ?x ! NDIRECT) = blk s (iaddrs ?x ! NDIRECT)" if "iaddrs ?x ! NDIRECT \<noteq> 0"
    proof (rule a(3))
      have "data_block s (iaddrs ?x ! NDIRECT)" using ino_okD(3) [OF d(3), of NSLOT] that by simp
      then show "iaddrs ?x ! NDIRECT \<noteq> addr" "iaddrs ?x ! NDIRECT \<noteq> BBLOCK addr (fsb s)"
        using a(5) unat_BBLOCK(2) [OF l a(4)] by (auto simp: data_block_def)
    qed
    then show ?thesis using False i ip len j by (auto simp: slot_def iblock_def nth_list_update)
  qed
  have fr: "frame (upd_inode ip (\<lambda>x. x\<lparr>iaddrs := (iaddrs ?x)[i := addr]\<rparr>) s) ?s" using a(1) by (simp add: frame_def)
  have "slot s ?x ?i = 0" using i by (auto simp: slot_def iblock_def)
  note ab = add_block [OF d(3) _ this d(2) b(3) fr _ sl]
  have r: "ino_ok ?s (inodes ?s ip)" "file_byte ?s (inodes ?s ip) = file_byte s ?x" "extends ip s ?s" "used ?s = insert (unat addr) (used s)"
    using ab i(1) len by auto
  have "nfree ?s = nfree s - 1" using r(4) a(5) frameD(2) [OF a(1)] by (simp add: nfree_def)
  then show ?thesis using b(1,2) r az sl [of ?i] i(1) extendsD(6) [OF r(3) d(2)] by (auto simp: fstate_def mapped_def)
qed

lemma allocated_frame:
  assumes "frame s s1" "blk s1 = blk s" "allocated s1 addr s3"
  shows "allocated s addr s3"
  using assms frame_blocks(1) [OF assms(1,2)] frame_layout(3) [OF assms(1)] frameD(2) [OF assms(1)] by (auto simp: allocated_def intro: frame_trans)

lemma bmap_add_indirect:
  assumes t: "fstate p (Suc (Suc (Suc (Suc k)))) ip s" and n: "n < NINDIRECT" and nf: "0 < nfree s"
  defines "ind \<equiv> iaddrs (inodes s ip) ! NDIRECT"
  assumes ind: "ind \<noteq> 0" and z: "get32 (blk s ind) (4 * n) = 0"
  shows "runs (andthen (fs_bread p 1 ind s) (\<lambda>(bp, s2). andthen (balloc p 1 s2) (\<lambda>(addr, s3).
      andthen (fs_log_write bp (fs_set_data bp (put32 (4 * n) addr (fs_data bp s3)) s3)) (\<lambda>s4. andthen (fs_brelse p bp s4) (\<lambda>s6. Ok (addr, s6))))))
    (\<lambda>(addr, s'). fstate p (Suc k) ip s' \<and> mapped ip (NDIRECT + n) s addr s' \<and> nfree s' = nfree s - 1)"
proof -
  let ?x = "inodes s ip"
  note d = fstateD [OF t]
  have l: "layout s" using d(2) by (simp add: alloc_ok_def)
  have db: "data_block s ind" using ino_okD(3) [OF d(3), of NSLOT] ind by (simp add: ind_def)
  obtain b s2 where b: "fs_bread p 1 ind s = Ok (b, s2)" "txn p {b} (Suc (Suc (Suc k))) s2" "blk s2 = blk s" "frame s s2" "hold s2 b = ind"
    using fs_bread_txn [OF d(1) data_block_disk [OF l db]] by (auto elim!: runsE)
  note fb = frame_blocks [OF b(4,3)]
  have "holds_data {b} s2" using db b(5) fb(2) by (simp add: holds_data_def data_block_def fb(1) frame_layout(1) [OF b(4)])
  moreover have "used s2 \<noteq> {..<fssize s2}" using nfree_pos [OF nf] fb(1) frame_layout(3) [OF b(4)] by simp
  ultimately obtain addr s3 where a: "balloc p 1 s2 = Ok (addr, s3)" "txn p {b} (Suc k) s3" "hold s3 b = ind" "allocated s2 addr s3"
    using balloc_ok [OF b(2)] d(2) fb(7) b(5) by (auto simp: holds_same_def elim!: runsE)
  note al = allocated_frame [OF b(4,3) a(4)]
  have f3: "frame s s3" "unat addr \<notin> used s" "unat addr < fssize s" using al by (simp_all add: allocated_def)
  have bs: "ind \<noteq> addr" "ind \<noteq> BBLOCK addr (fsb s)"
    using db f3(2) unat_BBLOCK(2) [OF l f3(3)] by (auto simp: data_block_def)
  then have ib: "blk s3 ind = blk s ind" using al by (simp add: allocated_def)
  have len: "length (blk s ind) = BSIZE" by (rule txn_length [OF d(1) data_block_disk [OF l db]])
  let ?d = "put32 (4 * n) addr (blk s ind)"
  have "fs_data b s3 = blk s ind" using fs_data_blk [OF a(2), of b] a(3) ib by simp
  moreover obtain s4 where w: "fs_log_write b (fs_set_data b ?d s3) = Ok s4" "txn p {b} k s4" "blk s4 = (blk s3)(ind := ?d)" "frame s3 s4"
    using fs_write_txn [OF a(2), of b ?d] len a(3) by (auto simp: put32_def elim!: runsE)
  moreover obtain s6 where r: "fs_brelse p b s4 = Ok s6" "txn p {} (Suc k) s6" "blk s6 = blk s4" "frame s4 s6"
    using fs_brelse_txn [OF w(2)] by (auto elim!: runsE)
  ultimately have run: "andthen (fs_bread p 1 ind s) (\<lambda>(bp, s2). andthen (balloc p 1 s2) (\<lambda>(addr, s3).
      andthen (fs_log_write bp (fs_set_data bp (put32 (4 * n) addr (fs_data bp s3)) s3)) (\<lambda>s4. andthen (fs_brelse p bp s4) (\<lambda>s6. Ok (addr, s6))))) = Ok (addr, s6)"
    using b(1) a(1) by simp
  have fr: "frame s s6" using f3(1) w(4) r(4) frame_trans by blast
  have ip: "inodes s6 ip = ?x" using frameD(1) [OF fr] by simp
  have blk6: "blk s6 = (blk s3)(ind := ?d)" using r(3) w(3) by simp
  have sl: "slot s6 (inodes s6 ip) j = (if j = NDIRECT + n then addr else slot s ?x j)" if j: "j \<le> NSLOT" for j
  proof (cases "j < NDIRECT \<or> j = NSLOT")
    case False
    then have jj: "j - NDIRECT < NINDIRECT" "NDIRECT \<le> j" "j \<noteq> NSLOT" using j by auto
    show ?thesis
    proof (cases "j = NDIRECT + n")
      case True
      then show ?thesis using ip ind n len by (simp add: slot_def iblock_def blk6 ind_def [symmetric] get32_put32)
    next
      case ne: False
      then have "4 * (j - NDIRECT) + 3 < 4 * n \<or> 4 * n + 3 < 4 * (j - NDIRECT)" using jj(2) by arith
      then show ?thesis using ip ind jj ne ib by (simp add: slot_def iblock_def blk6 ind_def [symmetric] get32_put32_other)
    qed
  qed (use n ip in \<open>auto simp: slot_def iblock_def\<close>)
  have "slot s ?x (NDIRECT + n) = 0" using n z ind by (simp add: slot_def iblock_def ind_def)
  moreover have "frame (upd_inode ip (\<lambda>x. x\<lparr>iaddrs := iaddrs ?x\<rparr>) s) s6" using fr by (auto simp: frame_def fun_upd_idem)
  ultimately have q: "ino_ok s6 (inodes s6 ip)" "file_byte s6 (inodes s6 ip) = file_byte s ?x" "extends ip s s6" "used s6 = insert (unat addr) (used s)"
    using add_block [OF d(3) _ _ d(2) al _ _ sl, of "iaddrs ?x"] n ino_okD(2) [OF d(3)] ind by (auto simp: blk6 ind_def [symmetric])
  have "addr \<noteq> 0" using allocated_ge [OF d(2) al] by (auto simp: datastart_def)
  then show ?thesis using run r(2) q sl [of "NDIRECT + n"] n extendsD(6) [OF q(3) d(2)] nfree_insert [OF fr q(4) f3(2)]
    by (auto simp: fstate_def mapped_def runs_def)
qed

lemma fstate_frame: "fstate p k ip s \<Longrightarrow> txn p {} k' s' \<Longrightarrow> blk s' = blk s \<Longrightarrow> frame s s' \<Longrightarrow> fstate p k' ip s'"
  using frame_blocks [of s s'] frameD(1) [of s s'] by (simp add: fstate_def)

lemma mapped_same: "frame s s' \<Longrightarrow> blk s' = blk s \<Longrightarrow> slot s (inodes s ip) i = addr \<Longrightarrow> addr \<noteq> 0 \<Longrightarrow> mapped ip i s addr s'"
  using frame_blocks [of s s'] frameD(1) [of s s'] by (simp add: mapped_def extends_same)

lemma mapped_trans: "extends ip s t \<Longrightarrow> file_byte t (inodes t ip) = file_byte s (inodes s ip) \<Longrightarrow> mapped ip i t addr u \<Longrightarrow> mapped ip i s addr u"
  by (auto simp: mapped_def intro: extends_trans)

lemma bmap_indirect_eq:
  assumes "NDIRECT \<le> bn" "bn < NSLOT" "iaddrs (inodes s ip) ! NDIRECT = ind" "ind \<noteq> 0" "idev (inodes s ip) = 1"
  shows "bmap p ip bn s = andthen (fs_bread p 1 ind s) (\<lambda>(bp, s2).
    andthen (if get32 (fs_data bp s2) (4 * (bn - NDIRECT)) = 0
       then andthen (balloc p 1 s2) (\<lambda>(addr, s3).
         andthen (fs_log_write bp (fs_set_data bp (put32 (4 * (bn - NDIRECT)) addr (fs_data bp s3)) s3)) (\<lambda>s4. Ok (addr, s4)))
       else Ok (get32 (fs_data bp s2) (4 * (bn - NDIRECT)), s2)) (\<lambda>(addr, s5).
    andthen (fs_brelse p bp s5) (\<lambda>s6. Ok (addr, s6))))"
proof -
  have "\<not> bn < NDIRECT" "bn - NDIRECT < NINDIRECT" using assms(1,2) by simp_all
  then show ?thesis unfolding bmap_def Let_def assms(3,5) using assms(4) by (simp only: if_True if_False andthen.simps prod.case)
qed

text \<open>A block that is there is found, and nothing changes.\<close>

lemma bmap_there:
  assumes t: "fstate p (Suc k) ip s" and bn: "bn < NSLOT" and nz: "iblock s (inodes s ip) bn \<noteq> 0"
  shows "runs (bmap p ip bn s) (\<lambda>(addr, s'). addr = iblock s (inodes s ip) bn \<and> fstate p (Suc k) ip s' \<and> blk s' = blk s \<and> frame s s')"
proof (cases "bn < NDIRECT")
  case True
  then show ?thesis using t nz by (simp add: bmap_def iblock_def)
next
  case False
  let ?ind = "iaddrs (inodes s ip) ! NDIRECT"
  note d = fstateD [OF t]
  have l: "layout s" using d(2) by (simp add: alloc_ok_def)
  have ind: "?ind \<noteq> 0" and g: "iblock s (inodes s ip) bn = get32 (blk s ?ind) (4 * (bn - NDIRECT))" using nz False bn by (auto simp: iblock_def split: if_splits)
  have n: "?ind < disksize (fcache s)" using data_block_disk [OF l ino_okD(3) [OF d(3), of NSLOT]] ind by simp
  show ?thesis
    unfolding bmap_indirect_eq [OF leI [OF False] bn refl ind d(4)]
    by (rule read_rule [OF d(1) n]) (use g nz fstate_frame [OF t] in \<open>auto simp: runs_def\<close>)
qed

lemma bmap_indirect:
  assumes t: "fstate p (Suc (Suc (Suc (Suc k)))) ip s" and n: "n < NINDIRECT" and nf: "0 < nfree s" and ind: "iaddrs (inodes s ip) ! NDIRECT \<noteq> 0"
  shows "runs (bmap p ip (NDIRECT + n) s) (\<lambda>(addr, s'). fstate p (Suc k) ip s' \<and> mapped ip (NDIRECT + n) s addr s' \<and> nfree s \<le> nfree s' + 1)"
proof (cases "iblock s (inodes s ip) (NDIRECT + n) = 0")
  case False
  show ?thesis
    by (rule runs_mono [OF bmap_there [OF t _ False]])
      (use n False in \<open>auto simp: slot_def nfree_def frame_layout(3) frame_blocks(1) intro!: mapped_same elim: fstate_mono\<close>)
next
  case True
  let ?ind = "iaddrs (inodes s ip) ! NDIRECT"
  note d = fstateD [OF t]
  have z: "get32 (blk s ?ind) (4 * n) = 0" using True n ind by (simp add: iblock_def)
  have l: "layout s" using d(2) by (simp add: alloc_ok_def)
  have "data_block s ?ind" using ino_okD(3) [OF d(3), of NSLOT] ind by simp
  from fs_bread_txn [OF d(1) data_block_disk [OF l this]] obtain b s2 where "fs_bread p 1 ?ind s = Ok (b, s2)" "fs_data b s2 = blk s ?ind"
    by (auto elim!: runsE)
  then have "bmap p ip (NDIRECT + n) s = Ok r" if "andthen (fs_bread p 1 ?ind s) (\<lambda>(bp, s2). andthen (balloc p 1 s2) (\<lambda>(addr, s3).
      andthen (fs_log_write bp (fs_set_data bp (put32 (4 * n) addr (fs_data bp s3)) s3)) (\<lambda>s4. andthen (fs_brelse p bp s4) (\<lambda>s6. Ok (addr, s6))))) = Ok r" for r
    using that n z by (auto simp: bmap_indirect_eq [OF _ _ refl ind d(4)] elim!: ok_elims)
  then show ?thesis using bmap_add_indirect [OF t n nf ind z] by (auto elim!: runsE intro!: runsI)
qed

lemma bmap_ok:
  assumes t: "fstate p (k + 6) ip s" and bn: "bn < NSLOT" and nf: "2 \<le> nfree s"
  shows "runs (bmap p ip bn s) (\<lambda>(addr, s'). fstate p (k + 1) ip s' \<and> mapped ip bn s addr s' \<and> nfree s \<le> nfree s' + 2)"
proof -
  let ?x = "inodes s ip"
  note d = fstateD [OF t]
  have t3: "fstate p (Suc (Suc (Suc k))) ip s" and t4: "fstate p (Suc (Suc (Suc (Suc k)))) ip s" and t6: "fstate p (Suc (Suc (Suc (Suc (Suc (Suc k)))))) ip s"
    using t by (auto elim: fstate_mono)
  consider "bn < NDIRECT" "iaddrs ?x ! bn = 0" | "bn < NDIRECT" "iaddrs ?x ! bn \<noteq> 0" | "NDIRECT \<le> bn" "iaddrs ?x ! NDIRECT \<noteq> 0" |
    "NDIRECT \<le> bn" "iaddrs ?x ! NDIRECT = 0" by linarith
  then show ?thesis
  proof cases
    case 1
    have "runs (bmap p ip bn s) (\<lambda>(addr, s'). fstate p (Suc k) ip s' \<and> mapped ip (if bn = NDIRECT then NSLOT else bn) s addr s' \<and> nfree s' = nfree s - 1)"
      using bmap_add_addr [OF t3 _ 1(2)] 1 nf d(4) by (simp add: bmap_def)
    then show ?thesis by (rule runs_mono) (use 1(1) in auto)
  next
    case 2
    then have nz: "iblock s ?x bn \<noteq> 0" by (simp add: iblock_def)
    show ?thesis
      by (rule runs_mono [OF bmap_there [OF t4 bn nz]])
        (use bn nz in \<open>auto simp: slot_def nfree_def frame_layout(3) frame_blocks(1) intro!: mapped_same elim: fstate_mono\<close>)
  next
    case 3
    then have n: "bn - NDIRECT < NINDIRECT" "0 < nfree s" "NDIRECT + (bn - NDIRECT) = bn" using bn nf by simp_all
    show ?thesis by (rule runs_mono [OF bmap_indirect [OF t4 n(1,2) 3(2), unfolded n(3)]]) auto
  next
    case 4
    from bmap_add_addr [OF t6 _ 4(2)] nf obtain ind s1 where a: "balloc p 1 s = Ok (ind, s1)"
      "fstate p (Suc (Suc (Suc (Suc k)))) ip (upd_inode ip (\<lambda>x. x\<lparr>iaddrs := (iaddrs x)[NDIRECT := ind]\<rparr>) s1)"
      "mapped ip NSLOT s ind (upd_inode ip (\<lambda>x. x\<lparr>iaddrs := (iaddrs x)[NDIRECT := ind]\<rparr>) s1)"
      "nfree (upd_inode ip (\<lambda>x. x\<lparr>iaddrs := (iaddrs x)[NDIRECT := ind]\<rparr>) s1) = nfree s - 1"
      by (auto elim!: runsE ok_elims)
    define t where "t = upd_inode ip (\<lambda>x. x\<lparr>iaddrs := (iaddrs x)[NDIRECT := ind]\<rparr>) s1"
    note a = a [folded t_def]
    have i: "iaddrs (inodes t ip) ! NDIRECT = ind" "ind \<noteq> 0" "extends ip s t" "file_byte t (inodes t ip) = file_byte s ?x"
      using a(3) by (simp_all add: mapped_def)
    have "bmap p ip bn s = bmap p ip bn t"
    proof -
      have "\<not> bn < NDIRECT" "bn - NDIRECT < NINDIRECT" using 4(1) bn by simp_all
      then show ?thesis
        unfolding bmap_indirect_eq [OF 4(1) bn i(1,2) fstateD(4) [OF a(2)]]
        unfolding bmap_def Let_def d(4) using 4(2) a(1) by (simp only: if_True if_False andthen.simps prod.case t_def [symmetric] simp_thms)
    qed
    moreover have "runs (bmap p ip bn t) (\<lambda>(addr, s'). fstate p (Suc k) ip s' \<and> mapped ip bn t addr s' \<and> nfree t \<le> nfree s' + 1)"
      using bmap_indirect [OF a(2), of "bn - NDIRECT"] bn 4(1) i(1,2) nf a(4) by simp
    ultimately show ?thesis using mapped_trans [OF i(3,4)] a(4) nf by (auto elim!: runs_mono)
  qed
qed

section \<open>Reading\<close>

lemma div_mod_within:
  fixes a b i :: nat
  assumes "a mod b + i < b"
  shows "(a + i) div b = a div b" "(a + i) mod b = a mod b + i"
proof -
  have e: "a + i = b * (a div b) + (a mod b + i)" using div_mult_mod_eq [of a b] by (simp add: mult.commute)
  show "(a + i) div b = a div b" by (subst e, subst div_mult_self4) (use assms in auto)
  show "(a + i) mod b = a mod b + i" by (subst e, subst mod_mult_self4) (use assms in auto)
qed

lemma in_block:
  assumes "i < BSIZE - off mod BSIZE"
  shows "(off + i) div BSIZE = off div BSIZE" "(off + i) mod BSIZE = off mod BSIZE + i"
  using div_mod_within [of off BSIZE i] assms by linarith+

lemma read_chunk:
  assumes "iblock s x (off div BSIZE) = a" "a \<noteq> 0" "length (blk s a) = BSIZE" "m \<le> BSIZE - off mod BSIZE"
  shows "take m (drop (off mod BSIZE) (blk s a)) = map (file_byte s x) [off..<off + m]"
proof (rule nth_equalityI)
  show len: "length (take m (drop (off mod BSIZE) (blk s a))) = length (map (file_byte s x) [off..<off + m])" using assms(3,4) by simp
  fix i assume i: "i < length (take m (drop (off mod BSIZE) (blk s a)))"
  then have "i < m" using len by simp
  then have "i < BSIZE - off mod BSIZE" using assms(4) by simp
  note b = in_block [OF this]
  show "take m (drop (off mod BSIZE) (blk s a)) ! i = map (file_byte s x) [off..<off + m] ! i"
    using \<open>i < m\<close> assms(1-3) b by (simp add: file_byte_def Let_def)
qed

lemma iblock_data:
  assumes "fstate p k ip s" and "bn < NSLOT" and "iblock s (inodes s ip) bn \<noteq> 0"
  shows "data_block s (iblock s (inodes s ip) bn)" "iblock s (inodes s ip) bn < disksize (fcache s)" "length (blk s (iblock s (inodes s ip) bn)) = BSIZE"
proof -
  note d = fstateD [OF assms(1)]
  show db: "data_block s (iblock s (inodes s ip) bn)" using ino_okD(3) [OF d(3), of bn] assms(2,3) by (simp add: slot_def)
  then show l: "iblock s (inodes s ip) bn < disksize (fcache s)" using d(2) by (intro data_block_disk) (simp_all add: alloc_ok_def)
  then show "length (blk s (iblock s (inodes s ip) bn)) = BSIZE" by (rule txn_length [OF d(1)])
qed

lemma file_block_read:
  assumes t: "fstate p (Suc k) ip s" and bn: "bn < NSLOT" and a: "iblock s (inodes s ip) bn = a" "a \<noteq> 0"
  shows "\<exists>b s1 s2. fs_bread p 1 a s = Ok (b, s1) \<and> fs_data b s1 = blk s a \<and> fs_brelse p b s1 = Ok s2 \<and> fstate p (Suc k) ip s2 \<and> blk s2 = blk s \<and> frame s s2"
proof -
  note ia = iblock_data [OF t bn, unfolded a(1), OF a(2)]
  obtain b s1 where b: "fs_bread p 1 a s = Ok (b, s1)" "txn p {b} k s1" "blk s1 = blk s" "frame s s1" "fs_data b s1 = blk s a"
    using fs_bread_txn [OF fstateD(1) [OF t] ia(2)] by (auto elim!: runsE)
  obtain s2 where r: "fs_brelse p b s1 = Ok s2" "txn p {} (Suc k) s2" "blk s2 = blk s1" "frame s1 s2"
    using fs_brelse_txn [OF b(2)] by (auto elim!: runsE)
  then show ?thesis using b fstate_frame [OF t r(2)] by (auto intro: frame_trans)
qed

definition there :: "'d fs \<Rightarrow> inode \<Rightarrow> nat \<Rightarrow> nat \<Rightarrow> bool" where
  "there s x off n \<longleftrightarrow> off + n \<le> NSLOT * BSIZE \<and> (\<forall>j. off div BSIZE \<le> j \<and> j * BSIZE < off + n \<longrightarrow> iblock s x j \<noteq> 0)"

lemma thereD:
  assumes "there s x off n" and "0 < n"
  shows "off div BSIZE < NSLOT" "iblock s x (off div BSIZE) \<noteq> 0" "m \<le> n \<Longrightarrow> there s x (off + m) (n - m)"
proof -
  have le: "off div BSIZE * BSIZE \<le> off" by simp
  show "off div BSIZE < NSLOT" using assms le unfolding there_def by linarith
  have "off div BSIZE * BSIZE < off + n" using le assms(2) by linarith
  then show "iblock s x (off div BSIZE) \<noteq> 0" using assms unfolding there_def by blast
  have "off div BSIZE \<le> (off + m) div BSIZE" by (rule div_le_mono) simp
  moreover assume "m \<le> n"
  then have e: "off + m + (n - m) = off + n" by simp
  ultimately show "there s x (off + m) (n - m)" using assms(1) unfolding there_def e by (blast intro: order_trans)
qed

lemma readi_loop_ok:
  assumes "fstate p (Suc k) ip s" and "there s (inodes s ip) off n"
  shows "\<exists>s'. readi_loop p ip off n s = Ok (map (file_byte s (inodes s ip)) [off..<off + n], s') \<and> fstate p (Suc k) ip s' \<and> blk s' = blk s \<and> frame s s'"
  using assms
proof (induction n arbitrary: off s rule: less_induct)
  case (less n)
  show ?case
  proof (cases "n = 0")
    case True
    then show ?thesis using less.prems by simp
  next
    case False
    let ?x = "inodes s ip" and ?a = "iblock s (inodes s ip) (off div BSIZE)"
    define m where "m = min n (BSIZE - off mod BSIZE)"
    have "off mod BSIZE < BSIZE" by simp
    then have m: "0 < m" "m \<le> n" "m \<le> BSIZE - off mod BSIZE" using False unfolding m_def by auto
    note th = thereD [OF less.prems(2) neq0_conv [THEN iffD1, OF False]]
    obtain s1 where s1: "bmap p ip (off div BSIZE) s = Ok (?a, s1)" "fstate p (Suc k) ip s1" "blk s1 = blk s" "frame s s1"
      using bmap_there [OF less.prems(1) th(1,2)] by (auto elim!: runsE)
    have x1: "inodes s1 ip = ?x" using frameD(1) [OF s1(4)] by simp
    have "iblock s1 (inodes s1 ip) (off div BSIZE) = ?a" using x1 frame_blocks(3) [OF s1(4,3)] by simp
    from file_block_read [OF s1(2) th(1) this th(2)] obtain b s2 s3 where r: "fs_bread p 1 ?a s1 = Ok (b, s2)" "fs_data b s2 = blk s ?a"
      "fs_brelse p b s2 = Ok s3" "fstate p (Suc k) ip s3" "blk s3 = blk s" "frame s1 s3" unfolding s1(3) by blast
    have f3: "frame s s3" using s1(4) r(6) by (rule frame_trans)
    have x3: "inodes s3 ip = ?x" using frameD(1) [OF f3] by simp
    have "n - m < n" "there s3 (inodes s3 ip) (off + m) (n - m)" using th(3) [OF m(2)] m(1,2) x3 frame_blocks(3) [OF f3 r(5)] by (simp_all add: there_def)
    from less.IH [OF this(1) r(4) this(2)] obtain s4 where i: "readi_loop p ip (off + m) (n - m) s3 = Ok (map (file_byte s ?x) [off + m..<off + n], s4)"
      "fstate p (Suc k) ip s4" "blk s4 = blk s" "frame s3 s4" unfolding x3 frame_blocks(6) [OF f3 r(5)] r(5) using m(2) by auto
    have c: "take m (drop (off mod BSIZE) (blk s ?a)) = map (file_byte s ?x) [off..<off + m]"
      by (rule read_chunk [OF refl th(2) iblock_data(3) [OF less.prems(1) th(1,2)] m(3)])
    have "off \<le> off + m" "off + m \<le> off + n" using m(2) by simp_all
    then have "[off..<off + m] @ [off + m..<off + n] = [off..<off + n]" using upt_add_eq_append [of off "off + m" "n - m"] m(2) by simp
    then have "readi_loop p ip off n s = Ok (map (file_byte s ?x) [off..<off + n], s4)"
      unfolding readi_loop.simps [of p ip off n] m_def [symmetric] Let_def using False s1(1) fstateD(4) [OF s1(2)] r(1-3) i(1) c
      by (simp add: map_append [symmetric] del: map_append readi_loop.simps)
    then show ?thesis using i(2,3) frame_trans [OF f3 i(4)] by blast
  qed
qed

section \<open>Writing\<close>

text \<open>New contents for one block of the file.\<close>

lemma write_block_state:
  assumes t: "fstate p k1 ip s" and bn: "bn < NSLOT" and a: "iblock s (inodes s ip) bn = a" "a \<noteq> 0"
    and s': "txn p {} k2 s'" "blk s' = (blk s)(a := d)" "frame s s'"
  shows "fstate p k2 ip s'" "extends ip s s'" "nfree s' = nfree s" "iblock s' (inodes s' ip) = iblock s (inodes s ip)"
    "file_byte s' (inodes s' ip) i = (if i div BSIZE = bn then d ! (i mod BSIZE) else file_byte s (inodes s ip) i)"
proof -
  let ?x = "inodes s ip"
  note dd = fstateD [OF t]
  have l: "layout s" using dd(2) by (simp add: alloc_ok_def)
  have db: "data_block s a" using iblock_data(1) [OF t bn] a by simp
  have x': "inodes s' ip = ?x" "fsb s' = fsb s" using frameD [OF s'(3)] by simp_all
  have "blk s' (BBLOCK (of_nat n) (fsb s)) = blk s (BBLOCK (of_nat n) (fsb s))" if "n < fssize s" for n
    using unat_BBLOCK(2) [OF l that] db s'(2) by (auto simp: data_block_def)
  then have u: "used s' = used s" using x'(2) by (auto simp: used_def bitmap_bit_def)
  then show "nfree s' = nfree s" using x'(2) by (simp add: nfree_def)
  have "a \<noteq> iaddrs ?x ! NDIRECT" using iblock_ne_indirect [OF dd(3) bn] a by simp
  then show ib: "iblock s' (inodes s' ip) = iblock s ?x" using s'(2) x'(1) by (simp add: iblock_def fun_eq_iff)
  then have sl: "slot s' (inodes s' ip) = slot s ?x" using x'(1) by (simp add: slot_def fun_eq_iff)
  have dbe: "data_block s' = data_block s" using u frame_layout(1) [OF s'(3)] by (simp add: data_block_def fun_eq_iff)
  have "ino_ok s' (inodes s' ip)" using dd(3) unfolding ino_ok_def dbe sl unfolding x'(1) .
  moreover have "alloc_ok s'" using dd(2) u frame_layout [OF s'(3)] by (simp add: alloc_ok_def)
  ultimately show "fstate p k2 ip s'" using s'(1) by (simp add: fstate_def)
  have "frame (upd_inode ip (\<lambda>x. x\<lparr>iaddrs := iaddrs ?x\<rparr>) s) s'" using s'(3) by (auto simp: frame_def fun_upd_idem)
  moreover have "slot s ?x bn = a" "unat (bmapstart (fsb s)) \<le> unat a" using a(1) bn db by (auto simp: slot_def data_block_def datastart_def)
  then have "\<exists>i \<le> NSLOT. slot s ?x i = a" "\<And>n. unat n < unat (bmapstart (fsb s)) \<Longrightarrow> n \<noteq> a" using bn less_imp_le by (blast, auto)
  ultimately show "extends ip s s'" unfolding extends_def using u sl s'(2) by (auto intro!: exI [of _ "iaddrs ?x"])
  show "file_byte s' (inodes s' ip) i = (if i div BSIZE = bn then d ! (i mod BSIZE) else file_byte s ?x i)"
  proof (cases "i div BSIZE = bn")
    case True
    then show ?thesis using ib a s'(2) by (simp add: file_byte_def Let_def)
  next
    case ne: False
    show ?thesis
    proof (cases "iblock s ?x (i div BSIZE) = 0")
      case False
      then have "i div BSIZE < NSLOT" by (simp add: iblock_def split: if_splits)
      then have "iblock s ?x (i div BSIZE) \<noteq> a" using ino_okD(4) [OF dd(3), of "i div BSIZE" bn] bn a ne by (auto simp: slot_def)
      then show ?thesis using False ne ib s'(2) by (simp add: file_byte_def Let_def)
    qed (use ne ib in \<open>simp add: file_byte_def\<close>)
  qed
qed

lemma file_block_write:
  assumes t: "fstate p (Suc (Suc k)) ip s" and bn: "bn < NSLOT" and a: "iblock s (inodes s ip) bn = a" "a \<noteq> 0"
    and f: "\<And>e. length e = BSIZE \<Longrightarrow> length (f e) = BSIZE"
  shows "\<exists>b s1 s2 s3. fs_bread p 1 a s = Ok (b, s1) \<and> fs_log_write b (fs_set_data b (f (fs_data b s1)) s1) = Ok s2 \<and> fs_brelse p b s2 = Ok s3 \<and>
    txn p {} (Suc k) s3 \<and> blk s3 = (blk s)(a := f (blk s a)) \<and> frame s s3"
proof -
  note ia = iblock_data [OF t bn, unfolded a(1), OF a(2)]
  obtain b s1 where b: "fs_bread p 1 a s = Ok (b, s1)" "txn p {b} (Suc k) s1" "blk s1 = blk s" "frame s s1" "fs_data b s1 = blk s a" "hold s1 b = a"
    using fs_bread_txn [OF fstateD(1) [OF t] ia(2)] by (auto elim!: runsE)
  obtain s2 where w: "fs_log_write b (fs_set_data b (f (blk s a)) s1) = Ok s2" "txn p {b} k s2" "blk s2 = (blk s)(a := f (blk s a))" "frame s1 s2"
    using fs_write_txn [OF b(2) _ f [OF ia(3)]] b(3,6) by (auto elim!: runsE)
  obtain s3 where r: "fs_brelse p b s2 = Ok s3" "txn p {} (Suc k) s3" "blk s3 = blk s2" "frame s2 s3"
    using fs_brelse_txn [OF w(2)] by (auto elim!: runsE)
  have "frame s s3" using b(4) w(4) r(4) by (blast intro: frame_trans)
  then show ?thesis using b(1,5) w(1,3) r by (intro exI [of _ b] exI [of _ s1] exI [of _ s2] exI [of _ s3]) simp
qed

text \<open>The bytes of a file after \<open>src\<close> was written at \<open>off\<close>.\<close>

definition overwrite :: "(nat \<Rightarrow> 'b) \<Rightarrow> nat \<Rightarrow> 'b list \<Rightarrow> nat \<Rightarrow> 'b" where
  "overwrite f off src i = (if off \<le> i \<and> i < off + length src then src ! (i - off) else f i)"

lemma overwrite_Nil [simp]: "overwrite f off [] = f"
  by (auto simp: overwrite_def fun_eq_iff)

lemma overwrite_split: "m \<le> length src \<Longrightarrow> overwrite (overwrite f off (take m src)) (off + m) (drop m src) = overwrite f off src"
  by (auto simp: overwrite_def fun_eq_iff)

lemma there_extends:
  assumes "extends ip s s'" and "there s (inodes s ip) off n"
  shows "there s' (inodes s' ip) off n"
proof -
  have "iblock s' (inodes s' ip) j = iblock s (inodes s ip) j" if "iblock s (inodes s ip) j \<noteq> 0" for j
  proof -
    have "j < NSLOT" using that by (auto simp: iblock_def split: if_splits)
    then show ?thesis using extends_slot(1) [OF assms(1), of j] that by (simp add: slot_def)
  qed
  then have "iblock s' (inodes s' ip) j \<noteq> 0" if "iblock s (inodes s ip) j \<noteq> 0" for j using that by presburger
  then show ?thesis using assms(2) unfolding there_def by blast
qed

lemma splice_nth:
  assumes "q + m \<le> length d" and "m \<le> length src"
  shows "(take q d @ take m src @ drop (q + m) d) ! r = (if q \<le> r \<and> r < q + m then src ! (r - q) else d ! r)"
proof -
  consider "r < q" | "q \<le> r" "r < q + m" | "q + m \<le> r" by linarith
  then show ?thesis by cases (use assms in \<open>auto simp: nth_append\<close>)
qed

lemma write_chunk:
  assumes d: "length d = BSIZE" and m: "m \<le> BSIZE - off mod BSIZE" "m \<le> length src"
    and g: "\<And>i. g i = (if i div BSIZE = off div BSIZE then (take (off mod BSIZE) d @ take m src @ drop (off mod BSIZE + m) d) ! (i mod BSIZE) else f i)"
    and f: "\<And>i. i div BSIZE = off div BSIZE \<Longrightarrow> f i = d ! (i mod BSIZE)"
  shows "g = overwrite f off (take m src)"
proof
  fix i
  have o: "off mod BSIZE < BSIZE" by simp
  have len: "length (take (off mod BSIZE) d) = off mod BSIZE" "length (take m src) = m" using d m(2) o by auto
  have ie: "i = i div BSIZE * BSIZE + i mod BSIZE" "off = off div BSIZE * BSIZE + off mod BSIZE" by simp_all
  show "g i = overwrite f off (take m src) i"
  proof (cases "i div BSIZE = off div BSIZE")
    case True
    then have cmp: "off \<le> i \<longleftrightarrow> off mod BSIZE \<le> i mod BSIZE" "i < off + m \<longleftrightarrow> i mod BSIZE < off mod BSIZE + m" "i - off = i mod BSIZE - off mod BSIZE"
      using ie by linarith+
    have "off mod BSIZE + m \<le> length d" using d m(1) o by linarith
    from splice_nth [OF this m(2)] show ?thesis using True m(2) f [OF True] unfolding overwrite_def len(2) cmp g by auto
  next
    case False
    have "\<not> (off \<le> i \<and> i < off + m)"
    proof
      assume i: "off \<le> i \<and> i < off + m"
      then have "i - off < BSIZE - off mod BSIZE" using m(1) by linarith
      from in_block(1) [OF this] i show False using False by simp
    qed
    then show ?thesis using False len(2) by (auto simp: g overwrite_def)
  qed
qed

text \<open>What is left after the first block.\<close>

lemma next_chunk:
  assumes n: "off mod BSIZE + n \<le> Suc c * BSIZE" and m: "m = min n (BSIZE - off mod BSIZE)" "m < n"
  shows "(off + m) mod BSIZE = 0" "(off + m) div BSIZE = Suc (off div BSIZE)" "n - m \<le> c * BSIZE"
proof -
  have o: "off mod BSIZE < BSIZE" "off = off div BSIZE * BSIZE + off mod BSIZE" by simp_all
  have m': "m = BSIZE - off mod BSIZE" using m by linarith
  have e: "off + m = Suc (off div BSIZE) * BSIZE" unfolding mult_Suc using o m' by linarith
  show "(off + m) mod BSIZE = 0" unfolding e by (rule mod_mult_self2_is_0)
  show "(off + m) div BSIZE = Suc (off div BSIZE)" unfolding e by (rule div_mult_self_is_m) simp
  show "n - m \<le> c * BSIZE" using n m' o(1) unfolding mult_Suc by linarith
qed

lemma writei_loop_ok:
  assumes "fstate p (k + 6 * c + 1) ip s" and "2 * c \<le> nfree s" and "off + length src \<le> NSLOT * BSIZE" and "src = [] \<or> off mod BSIZE + length src \<le> c * BSIZE"
  shows "\<exists>s'. writei_loop p ip off src s = Ok s' \<and> fstate p (k + 1) ip s' \<and> extends ip s s' \<and>
    file_byte s' (inodes s' ip) = overwrite (file_byte s (inodes s ip)) off src \<and> (src \<noteq> [] \<longrightarrow> there s' (inodes s' ip) off (length src))"
  using assms
proof (induction "length src" arbitrary: off src s c rule: less_induct)
  case less
  show ?case
  proof (cases "src = []")
    case True
    then show ?thesis using less.prems(1) by (auto elim: fstate_mono intro: extends_same)
  next
    case False
    let ?x = "inodes s ip" and ?bn = "off div BSIZE"
    define m where "m = min (length src) (BSIZE - off mod BSIZE)"
    have "off mod BSIZE < BSIZE" by simp
    then have m: "0 < m" "m \<le> length src" "m \<le> BSIZE - off mod BSIZE" using False unfolding m_def by auto
    obtain c' where c: "c = Suc c'" using less.prems(4) False by (cases c) auto
    have "?bn * BSIZE \<le> off" "0 < length src" using False by simp_all
    then have bn: "?bn < NSLOT" using less.prems(3) by linarith
    have t: "fstate p ((k + 6 * c' + 1) + 6) ip s" using less.prems(1) by (simp add: c algebra_simps)
    obtain a s1 where b: "bmap p ip ?bn s = Ok (a, s1)" "fstate p (k + 6 * c' + 1 + 1) ip s1" "mapped ip ?bn s a s1" "nfree s \<le> nfree s1 + 2"
      using bmap_ok [OF t bn] less.prems(2) by (auto simp: c elim!: runsE)
    have a: "iblock s1 (inodes s1 ip) ?bn = a" "a \<noteq> 0" "extends ip s s1" "file_byte s1 (inodes s1 ip) = file_byte s ?x"
      using b(3) bn by (simp_all add: mapped_def slot_def)
    have t1: "fstate p (Suc (Suc (k + 6 * c'))) ip s1" using b(2) by simp
    define f where "f e = take (off mod BSIZE) e @ take m src @ drop (off mod BSIZE + m) e" for e
    have lf: "length (f e) = BSIZE" if "length e = BSIZE" for e using that m(2,3) \<open>off mod BSIZE < BSIZE\<close> unfolding f_def by simp
    obtain b2 s2 s3 s4 where w: "fs_bread p 1 a s1 = Ok (b2, s2)" "fs_log_write b2 (fs_set_data b2 (f (fs_data b2 s2)) s2) = Ok s3" "fs_brelse p b2 s3 = Ok s4"
      "txn p {} (Suc (k + 6 * c')) s4" "blk s4 = (blk s1)(a := f (blk s1 a))" "frame s1 s4"
      using file_block_write [where f = f, OF t1 bn a(1,2) lf] by blast
    note ws = write_block_state [OF t1 bn a(1,2) w(4-6)]
    have fb: "file_byte s4 (inodes s4 ip) = overwrite (file_byte s ?x) off (take m src)"
      unfolding a(4) [symmetric]
      by (rule write_chunk [OF iblock_data(3) [OF t1 bn, unfolded a(1), OF a(2)] m(3,2) ws(5) [unfolded f_def]]) (use a(1,2) in \<open>simp add: file_byte_def Let_def\<close>)
    have e4: "extends ip s s4" by (rule extends_trans [OF a(3) ws(2)])
    let ?r = "drop m src"
    have lr: "length ?r < length src" using m(1) False by simp
    have rest: "?r = [] \<or> (off + m) mod BSIZE + length ?r \<le> c' * BSIZE"
    proof (cases "m < length src")
      case True
      have "off mod BSIZE + length src \<le> Suc c' * BSIZE" using less.prems(4) False c by simp
      from next_chunk [OF this m_def True] show ?thesis by simp
    qed simp
    have "2 * c' \<le> nfree s4" using ws(3) b(4) less.prems(2) c by simp
    moreover have "off + m + length ?r \<le> NSLOT * BSIZE" using less.prems(3) m(2) by simp
    moreover have "fstate p (k + 6 * c' + 1) ip s4" using ws(1) by simp
    ultimately obtain s5 where i: "writei_loop p ip (off + m) ?r s4 = Ok s5" "fstate p (k + 1) ip s5" "extends ip s4 s5"
      "file_byte s5 (inodes s5 ip) = overwrite (file_byte s4 (inodes s4 ip)) (off + m) ?r" "?r \<noteq> [] \<longrightarrow> there s5 (inodes s5 ip) (off + m) (length ?r)"
      using less.hyps [OF lr _ _ _ rest] by blast
    have "iblock s4 (inodes s4 ip) ?bn \<noteq> 0" using ws(4) a(1,2) by simp
    then have b5: "iblock s5 (inodes s5 ip) ?bn \<noteq> 0" using extends_slot(1) [OF i(3), of ?bn] bn by (simp add: slot_def)
    have "iblock s5 (inodes s5 ip) j \<noteq> 0" if j: "?bn \<le> j" "j * BSIZE < off + length src" for j
    proof (cases "j = ?bn")
      case True
      then show ?thesis using b5 unfolding True by blast
    next
      case ne: False
      then have "Suc ?bn * BSIZE \<le> j * BSIZE" using j(1) by (intro mult_le_mono1) simp
      moreover have "off = ?bn * BSIZE + off mod BSIZE" by simp
      ultimately have mr: "m < length src" using j(2) unfolding m_def mult_Suc by linarith
      have "off mod BSIZE + length src \<le> Suc c' * BSIZE" using less.prems(4) False c by simp
      from next_chunk(2) [OF this m_def mr] have "(off + m) div BSIZE \<le> j" using ne j(1) by simp
      moreover have "j * BSIZE < off + m + length ?r" using j(2) m(2) by simp
      ultimately show ?thesis using i(5) mr unfolding there_def by simp
    qed
    then have "there s5 (inodes s5 ip) off (length src)" using less.prems(3) unfolding there_def by blast
    moreover have "writei_loop p ip off src s = Ok s5"
      unfolding writei_loop.simps [of p ip off src] Let_def m_def [symmetric] using False b(1) fstateD(4) [OF b(2)] w(1-3) i(1) by (simp add: f_def del: writei_loop.simps)
    ultimately show ?thesis using i(2) extends_trans [OF e4 i(3)] i(4) fb overwrite_split [OF m(2)] by auto
  qed
qed

section \<open>The size of a file\<close>

lemma unat_IBLOCK:
  assumes "layout s" and "inum x < ninodes (fsb s)"
  shows "unat (IBLOCK (inum x) (fsb s)) < unat (bmapstart (fsb s))"
proof -
  have "unat (inum x) < unat (ninodes (fsb s))" using assms(2) by (simp add: word_less_nat_alt)
  then have "unat (inum x) div 8 \<le> unat (ninodes (fsb s)) div 8" by (intro div_le_mono) simp
  then have lt: "unat (inum x) div 8 + unat (inodestart (fsb s)) < unat (bmapstart (fsb s))" using layoutD(4) [OF assms(1)] by linarith
  have "unat (bmapstart (fsb s)) < 4294967296" using unat_uint_bound by blast
  then show ?thesis unfolding IBLOCK_def unat_word_ariths unat_div using lt by simp
qed

lemma iupdate_ok:
  assumes t: "fstate p (Suc (Suc k)) ip s" and i: "inum (inodes s ip) < ninodes (fsb s)"
  defines "a \<equiv> IBLOCK (inum (inodes s ip)) (fsb s)"
  shows "\<exists>s'. iupdate p ip s = Ok s' \<and> fstate p (Suc k) ip s' \<and> frame s s' \<and> used s' = used s \<and> file_byte s' (inodes s' ip) = file_byte s (inodes s ip) \<and>
    iblock s' (inodes s' ip) = iblock s (inodes s ip) \<and> blk s' = (blk s)(a := put_dinode (dinode_offset (inum (inodes s ip))) (inodes s ip) (blk s a))"
proof -
  let ?x = "inodes s ip" and ?d = "put_dinode (dinode_offset (inum (inodes s ip))) (inodes s ip) (blk s a)"
  note d = fstateD [OF t]
  have l: "layout s" using d(2) by (simp add: alloc_ok_def)
  have lt: "unat a < unat (bmapstart (fsb s))" unfolding a_def by (rule unat_IBLOCK [OF l i])
  then have ad: "unat a < datastart s" by (simp add: datastart_def)
  then have n: "a < disksize (fcache s)" using layoutD(1,2) [OF l] by (simp add: word_less_nat_alt)
  have len: "length ?d = BSIZE" unfolding length_put_dinode by (rule txn_length [OF d(1) n])
  have "runs (iupdate p ip s) (\<lambda>s'. txn p {} (Suc k) s' \<and> blk s' = (blk s)(a := ?d) \<and> frame s s')"
    unfolding iupdate_def Let_def d(4) a_def [symmetric]
    by (rule update_rule [OF d(1) n]) (use len in \<open>auto elim!: runs_mono2 runsE simp: runs_def\<close>)
  then obtain s' where s': "iupdate p ip s = Ok s'" "txn p {} (Suc k) s'" "blk s' = (blk s)(a := ?d)" "frame s s'" by (auto elim!: runsE)
  have x': "inodes s' ip = ?x" "fsb s' = fsb s" using frameD [OF s'(4)] by simp_all
  have db: "n \<noteq> a" if "data_block s n" for n using that ad by (auto simp: data_block_def)
  have "blk s' (BBLOCK (of_nat n) (fsb s)) = blk s (BBLOCK (of_nat n) (fsb s))" if "n < fssize s" for n
    using unat_BBLOCK(1) [OF l that] lt s'(3) by auto
  then have u: "used s' = used s" using x'(2) by (auto simp: used_def bitmap_bit_def)
  have "iaddrs ?x ! NDIRECT = 0 \<or> iaddrs ?x ! NDIRECT \<noteq> a" using ino_okD(3) [OF d(3), of NSLOT] db by auto
  then have ib: "iblock s' (inodes s' ip) = iblock s ?x" using s'(3) x'(1) by (auto simp: iblock_def fun_eq_iff)
  then have sl: "slot s' (inodes s' ip) = slot s ?x" using x'(1) by (simp add: slot_def fun_eq_iff)
  have dbe: "data_block s' = data_block s" using u frame_layout(1) [OF s'(4)] by (simp add: data_block_def fun_eq_iff)
  have "ino_ok s' (inodes s' ip)" using d(3) unfolding ino_ok_def dbe sl unfolding x'(1) .
  moreover have "alloc_ok s'" using d(2) u frame_layout [OF s'(4)] by (simp add: alloc_ok_def)
  moreover have "file_byte s' (inodes s' ip) j = file_byte s ?x j" for j
  proof (cases "iblock s ?x (j div BSIZE) = 0")
    case False
    then have "j div BSIZE < NSLOT" by (simp add: iblock_def split: if_splits)
    from iblock_data(1) [OF t this False] have "iblock s ?x (j div BSIZE) \<noteq> a" by (rule db)
    then show ?thesis using ib s'(3) by (simp add: file_byte_def Let_def)
  qed (use ib in \<open>simp add: file_byte_def\<close>)
  ultimately show ?thesis using s' u ib by (auto simp: fstate_def fun_eq_iff)
qed

section \<open>readi and writei\<close>

lemma isize_simps [simp]:
  "iblock s (x\<lparr>isize := z\<rparr>) = iblock s x" "slot s (x\<lparr>isize := z\<rparr>) = slot s x" "ino_ok s (x\<lparr>isize := z\<rparr>) = ino_ok s x" "file_byte s (x\<lparr>isize := z\<rparr>) = file_byte s x"
  "there s (x\<lparr>isize := z\<rparr>) = there s x"
proof -
  show ib: "iblock s (x\<lparr>isize := z\<rparr>) = iblock s x" by (simp add: iblock_def fun_eq_iff)
  then show sl: "slot s (x\<lparr>isize := z\<rparr>) = slot s x" by (simp add: slot_def fun_eq_iff)
  show "ino_ok s (x\<lparr>isize := z\<rparr>) = ino_ok s x" unfolding ino_ok_def sl by simp
  show "file_byte s (x\<lparr>isize := z\<rparr>) = file_byte s x" "there s (x\<lparr>isize := z\<rparr>) = there s x" unfolding file_byte_def there_def ib by simp_all
qed

lemma size_words:
  assumes "unat off + n \<le> NSLOT * BSIZE"
  shows "unat (off + of_nat n :: uint) = unat off + n" "\<not> off + of_nat n < off" "\<not> of_nat (MAXFILE * BSIZE) < off + of_nat n" "sint (of_nat n :: uint) = int n"
    "unat (of_nat n :: uint) = n"
proof -
  have b: "n < 4294967296" "unat off + n < 4294967296" "int n < 2147483648" using assms by simp_all
  show u: "unat (of_nat n :: uint) = n" by (rule unat_of_nat_small) (use b in simp)
  show e: "unat (off + of_nat n) = unat off + n" unfolding unat_word_ariths u using b by simp
  show "\<not> off + of_nat n < off" unfolding word_less_nat_alt e by simp
  have "unat (of_nat (MAXFILE * BSIZE) :: uint) = MAXFILE * BSIZE" by (rule unat_of_nat_small) simp
  then show "\<not> of_nat (MAXFILE * BSIZE) < off + of_nat n" unfolding word_less_nat_alt e using assms by simp
  have "uint (of_nat n :: uint) = int n" unfolding uint_nat u ..
  moreover have "signed_take_bit 31 (int n) = int n" by (rule signed_take_bit_int_eq_self) (use b(3) in simp_all)
  ultimately show "sint (of_nat n :: uint) = int n" unfolding sint_uint by simp
qed

lemma dinode_offset_le: "dinode_offset i + 64 \<le> BSIZE"
proof -
  have "unat (i mod IPB) < 8" unfolding unat_mod by simp
  then show ?thesis unfolding dinode_offset_def by simp
qed

definition grown :: "nat \<Rightarrow> nat \<Rightarrow> uchar list \<Rightarrow> 'd fs \<Rightarrow> 'd fs \<Rightarrow> bool" where
  "grown ip off src s s' \<longleftrightarrow> (let x = inodes s ip; x' = inodes s' ip in
     file_byte s' x' = overwrite (file_byte s x) off src \<and> unat (isize x') = (if src = [] then unat (isize x) else max (unat (isize x)) (off + length src)) \<and>
     (src \<noteq> [] \<longrightarrow> there s' x' off (length src)) \<and> itype x' = itype x \<and> (\<forall>j. j \<noteq> ip \<longrightarrow> inodes s' j = inodes s j) \<and> used s \<subseteq> used s' \<and>
     (\<forall>n. data_block s n \<and> (\<forall>i \<le> NSLOT. slot s x i \<noteq> n) \<longrightarrow> blk s' n = blk s n) \<and>
     (isize x' \<noteq> isize x \<longrightarrow> get_dinode (blk s' (IBLOCK (inum x) (fsb s))) (dinode_offset (inum x)) x' = x'))"

lemma writei_ok:
  assumes t: "fstate p (k + 6 * c + 2) ip s" and f: "2 * c \<le> nfree s" and ty: "itype (inodes s ip) \<noteq> T_DEV" and off: "off \<le> isize (inodes s ip)"
    and n: "unat off + length src \<le> NSLOT * BSIZE" "unat off mod BSIZE + length src \<le> c * BSIZE" and i: "inum (inodes s ip) < ninodes (fsb s)"
  shows "\<exists>s'. writei dsw p ip src off s = Ok (int (length src), s') \<and> fstate p (Suc k) ip s' \<and> grown ip (unat off) src s s'"
proof -
  let ?x = "inodes s ip" and ?n = "of_nat (length src) :: uint"
  note w = size_words [OF n(1)]
  have "fstate p ((k + 1) + 6 * c + 1) ip s" using t by simp
  from writei_loop_ok [OF this f n(1)] n(2) obtain s1 where s1: "writei_loop p ip (unat off) src s = Ok s1" "fstate p (Suc (Suc k)) ip s1" "extends ip s s1"
    "file_byte s1 (inodes s1 ip) = overwrite (file_byte s ?x) (unat off) src" "src \<noteq> [] \<longrightarrow> there s1 (inodes s1 ip) (unat off) (length src)" by auto
  note e = extendsD [OF s1(3)]
  have others: "\<forall>j. j \<noteq> ip \<longrightarrow> inodes s1 j = inodes s j" using e(8) by auto
  have pos: "0 < ?n \<longleftrightarrow> src \<noteq> []" unfolding word_less_nat_alt w(5) by simp
  have run: "writei dsw p ip src off s = (if src \<noteq> [] \<and> isize ?x < off + ?n
      then andthen (iupdate p ip (upd_inode ip (\<lambda>x. x\<lparr>isize := off + ?n\<rparr>) s1)) (\<lambda>s2. Ok (int (length src), s2)) else Ok (int (length src), s1))"
  proof -
    have c: "(itype ?x = T_DEV) = False" "(isize ?x < off \<or> off + ?n < off) = False" "(of_nat (MAXFILE * BSIZE) < off + ?n) = False"
      using ty off w(2,3) by (simp_all add: not_less)
    show ?thesis unfolding writei_def Let_def c by (simp only: if_False s1(1) andthen.simps e(10) pos w(4))
  qed
  show ?thesis
  proof (cases "src \<noteq> [] \<and> isize ?x < off + ?n")
    case False
    then have "unat (isize ?x) = (if src = [] then unat (isize ?x) else max (unat (isize ?x)) (unat off + length src))"
      unfolding word_less_nat_alt w(1) by auto
    then have "grown ip (unat off) src s s1" unfolding grown_def Let_def using s1 e others extends_blk(1) [OF s1(3)] by auto
    then show ?thesis using False run s1(2) by (auto elim: fstate_mono)
  next
    case True
    let ?t = "upd_inode ip (\<lambda>x. x\<lparr>isize := off + ?n\<rparr>) s1" and ?a = "IBLOCK (inum ?x) (fsb s)" and ?o = "dinode_offset (inum ?x)"
    have t: "fstate p (Suc (Suc k)) ip ?t" using s1(2) by (simp add: fstate_def)
    have eq: "fsb ?t = fsb s" "inum (inodes ?t ip) = inum ?x" using e by simp_all
    from iupdate_ok [OF t] i obtain s2 where s2: "iupdate p ip ?t = Ok s2" "fstate p (Suc k) ip s2" "frame ?t s2" "used s2 = used s1"
      "file_byte s2 (inodes s2 ip) = file_byte s1 (inodes s1 ip)" "iblock s2 (inodes s2 ip) = iblock s1 (inodes s1 ip)"
      "blk s2 = (blk s1)(?a := put_dinode ?o (inodes ?t ip) (blk s1 ?a))"
      unfolding eq by auto
    have x2: "inodes s2 = inodes ?t" using frameD(1) [OF s2(3)] .
    have l: "layout s" using fstateD(2) [OF assms(1)] by (simp add: alloc_ok_def)
    have lt: "unat ?a < unat (bmapstart (fsb s))" by (rule unat_IBLOCK [OF l i])
    have "?a < disksize (fcache s1)" unfolding e(4) word_less_nat_alt using lt layoutD(1,2) [OF l] by (simp add: datastart_def)
    from txn_length [OF fstateD(1) [OF s1(2)] this] have "length (blk s1 ?a) = BSIZE" .
    moreover have "?o + 64 \<le> BSIZE" by (rule dinode_offset_le)
    ultimately have "get_dinode (blk s2 ?a) ?o (inodes s2 ip) = inodes s2 ip"
      using ino_okD(2) [OF fstateD(3) [OF s1(2)]] unfolding s2(7) x2 fun_upd_same by (subst get_put_dinode) simp_all
    moreover have "blk s2 n = blk s n" if "data_block s n" "\<forall>i \<le> NSLOT. slot s ?x i \<noteq> n" for n
    proof -
      have "n \<noteq> ?a" using that(1) lt by (auto simp: data_block_def datastart_def)
      then show ?thesis using s2(7) extends_blk(1) [OF s1(3) that(1)] that(2) by simp
    qed
    moreover have "unat (isize (inodes s2 ip)) = max (unat (isize ?x)) (unat off + length src)" using True w(1) x2 by (simp add: word_less_nat_alt)
    moreover have "there s2 (inodes s2 ip) (unat off) (length src)" using True s1(5) s2(6) unfolding there_def by simp
    ultimately have "grown ip (unat off) src s s2" unfolding grown_def Let_def using True s1(4) s2(4,5) e(1,11) others x2 by auto
    then show ?thesis using True run s2(1,2) by simp
  qed
qed

lemma readi_ok:
  assumes t: "fstate p (Suc k) ip s" and ty: "itype (inodes s ip) \<noteq> T_DEV" and n: "unat off + n \<le> unat (isize (inodes s ip))"
    and th: "n \<noteq> 0 \<Longrightarrow> there s (inodes s ip) (unat off) n" and le: "unat off + n \<le> NSLOT * BSIZE"
  shows "\<exists>s'. readi dsw p ip off (of_nat n) s = Ok ((int n, map (file_byte s (inodes s ip)) [unat off..<unat off + n]), s') \<and> fstate p (Suc k) ip s' \<and> blk s' = blk s"
proof -
  let ?x = "inodes s ip"
  note w = size_words [OF le]
  have c: "(itype ?x = T_DEV) = False" "(isize ?x < off \<or> off + of_nat n < off) = False" "(isize ?x < off + of_nat n) = False"
    using ty n w(2) unfolding word_less_nat_alt w(1) by auto
  have "\<exists>s'. readi_loop p ip (unat off) n s = Ok (map (file_byte s ?x) [unat off..<unat off + n], s') \<and> fstate p (Suc k) ip s' \<and> blk s' = blk s"
  proof (cases "n = 0")
    case False
    then show ?thesis using readi_loop_ok [OF t th [OF False]] by blast
  qed (use t in simp)
  then obtain s' where s': "readi_loop p ip (unat off) n s = Ok (map (file_byte s ?x) [unat off..<unat off + n], s')" "fstate p (Suc k) ip s'" "blk s' = blk s" by blast
  then have "readi dsw p ip off (of_nat n) s = Ok ((int n, map (file_byte s ?x) [unat off..<unat off + n]), s')"
    unfolding readi_def Let_def c by (simp only: if_False w(4,5) andthen.simps prod.case)
  then show ?thesis using s'(2,3) by blast
qed

lemma overwrite_range: "map (overwrite f off src) [off..<off + length src] = src"
  by (rule nth_equalityI) (simp_all add: overwrite_def)

text \<open>C6: What \<^verbatim>\<open>writei\<close> puts into a file \<^verbatim>\<open>readi\<close> gets out of it: inside a transaction with room for the blocks of the write, a write of
  \<open>src\<close> at an offset within the file succeeds completely, and reading the same range afterwards returns exactly \<open>src\<close>. The
  write may allocate blocks, the indirect block included, and may grow the file.\<close>

theorem writei_readi:
  assumes "fstate p (k + 6 * c + 2) ip s" and "2 * c \<le> nfree s" and "itype (inodes s ip) \<noteq> T_DEV" and "off \<le> isize (inodes s ip)"
    and "unat off + length src \<le> MAXFILE * BSIZE" and "unat off mod BSIZE + length src \<le> c * BSIZE" and "inum (inodes s ip) < ninodes (fsb s)"
  shows "\<exists>s1 s2. writei dsw p ip src off s = Ok (int (length src), s1) \<and>
    readi dsw p ip off (of_nat (length src)) s1 = Ok ((int (length src), src), s2) \<and> blk s2 = blk s1"
proof -
  have n: "unat off + length src \<le> NSLOT * BSIZE" using assms(5) by simp
  obtain s1 where s1: "writei dsw p ip src off s = Ok (int (length src), s1)" "fstate p (Suc k) ip s1" "grown ip (unat off) src s s1"
    using writei_ok [OF assms(1-4) n assms(6,7)] by blast
  have g: "file_byte s1 (inodes s1 ip) = overwrite (file_byte s (inodes s ip)) (unat off) src" "itype (inodes s1 ip) \<noteq> T_DEV"
    "unat off + length src \<le> unat (isize (inodes s1 ip))" "length src \<noteq> 0 \<Longrightarrow> there s1 (inodes s1 ip) (unat off) (length src)"
    using s1(3) assms(3,4) by (simp_all add: grown_def Let_def word_le_nat_alt)
  from readi_ok [OF s1(2) g(2-4) n, of dsw] show ?thesis unfolding g(1) overwrite_range using s1(1) by blast
qed

text \<open>The empty file with inode 1 of the sample disk.\<close>

lemma demo_fstate: "k < 30 \<Longrightarrow> fstate p k 0 demo_fs" "nfree demo_fs = 29"
proof -
  have sl: "slot demo_fs (inodes demo_fs 0) i = 0" if "i \<le> NSLOT" for i
    using that by (simp add: slot_def iblock_def demo_fs_def del: replicate.simps)
  have "ino_ok demo_fs (inodes demo_fs 0)" unfolding ino_ok_def using sl by (auto simp: demo_fs_def)
  then show "fstate p k 0 demo_fs" if "k < 30" using demo_fs_txn [OF that] demo_fs_ok(1) by (simp add: fstate_def)
  show "nfree demo_fs = 29" by (simp add: nfree_def demo_used demo_sb_def)
qed

lemma demo_inode: "itype (inodes demo_fs 0) = 2" "isize (inodes demo_fs 0) = 0" "inum (inodes demo_fs 0) = 1"
  by (simp_all add: demo_fs_def)

theorem writei_readi_witness:
  "\<exists>s1 s2. writei (\<lambda>_. (None, None)) 1 0 (replicate 600 7) 0 demo_fs = Ok (600, s1) \<and> readi (\<lambda>_. (None, None)) 1 0 0 600 s1 = Ok ((600, replicate 600 7), s2)"
  using writei_readi [OF demo_fstate(1), of 0 2 0 "replicate 600 7" "\<lambda>_. (None, None)" 1]
  by (auto simp: demo_fstate(2) demo_inode demo_sb_def)



end
