(* ===== verification/Sh.thy ===== *)
theory Sh
  imports Prelude
begin

text \<open>
  The shell, \<^verbatim>\<open>sh.c\<close>: its scanner, its parser, \<^verbatim>\<open>nulterminate\<close> and \<^verbatim>\<open>runcmd\<close>.

  The command line is the list \<open>b\<close> of the bytes in front of its terminating NUL; a pointer into it is an
  index, \<^verbatim>\<open>es\<close> is \<open>length b\<close>. A command names its words by the two indices \<^verbatim>\<open>q\<close> and \<^verbatim>\<open>eq\<close>; after \<^verbatim>\<open>nulterminate\<close>
  they are the strings that start at \<^verbatim>\<open>q\<close>. \<^verbatim>\<open>panic\<close> of the shell prints its message and exits: the result
  \<open>Panic\<close>. The mutually recursive parsers take a bound on the depth of the recursion, and \<^verbatim>\<open>parsecmd\<close> starts them with one that is never
  reached.
\<close>

section \<open>Commands\<close>

datatype 'w cmd =
    EXEC "'w list"
  | REDIR "'w cmd" 'w int int
  | PIPE "'w cmd" "'w cmd"
  | LIST "'w cmd" "'w cmd"
  | BACK "'w cmd"

type_synonym span = "nat \<times> nat"

abbreviation (input) "MAXARGS \<equiv> (10 :: nat)"
abbreviation (input) "SH_RDONLY \<equiv> (0 :: int)"
abbreviation (input) "SH_CREATE \<equiv> (0x201 :: int)"

section \<open>Scanner\<close>

text \<open>The character sets, in the order of the source, and the character at a position; behind the line there is the NUL.\<close>

definition whitespace :: "uchar list" where
  "whitespace = [32, 9, 13, 10, 11]"

definition symbols :: "uchar list" where
  "symbols = [60, 124, 62, 38, 59, 40, 41]"

definition at :: "uchar list \<Rightarrow> nat \<Rightarrow> uchar" where
  "at b s = (if s < length b then b ! s else 0)"

function skip :: "(uchar \<Rightarrow> bool) \<Rightarrow> uchar list \<Rightarrow> nat \<Rightarrow> nat" where
  "skip P b s = (if s < length b \<and> P (b ! s) then skip P b (Suc s) else s)"
  by auto
termination skip
  by (relation "measure (\<lambda>(P, b, s). length b - s)") auto

abbreviation skipws :: "uchar list \<Rightarrow> nat \<Rightarrow> nat" where
  "skipws \<equiv> skip (\<lambda>c. c \<in> set whitespace)"

abbreviation wordch :: "uchar \<Rightarrow> bool" where
  "wordch c \<equiv> c \<notin> set whitespace \<and> c \<notin> set symbols"

text \<open>The token, its span, and the position behind it and the white space that follows.\<close>

definition gettoken :: "uchar list \<Rightarrow> nat \<Rightarrow> uchar \<times> span \<times> nat" where
  "gettoken b s =
     (let q = skipws b s;
          (ret, eq) =
            (if at b q = 0 then (0, q)
             else if at b q \<in> {124, 40, 41, 59, 38, 60} then (at b q, q + 1)
             else if at b q = 62 then (if at b (q + 1) = 62 then (43, q + 2) else (62, q + 1))
             else (97, skip wordch b q))
      in (ret, (q, eq), skipws b eq))"

definition peek :: "uchar list \<Rightarrow> uchar list \<Rightarrow> nat \<Rightarrow> bool \<times> nat" where
  "peek b toks s = (let s1 = skipws b s in (at b s1 \<noteq> 0 \<and> at b s1 \<in> set toks, s1))"

declare skip.simps [simp del]

lemma skip_eq [simp]: "skip P b s = s" if "\<not> (s < length b \<and> P (b ! s))"
  using that by (subst skip.simps) auto

lemma skip_step: "s < length b \<Longrightarrow> P (b ! s) \<Longrightarrow> skip P b s = skip P b (Suc s)"
  by (subst skip.simps) auto

lemma skip_le: "s \<le> skip P b s"
proof (induction P b s rule: skip.induct)
  case (1 P b s)
  then show ?case by (cases "s < length b \<and> P (b ! s)") (auto simp: skip_step)
qed

lemma skip_bound: "s \<le> length b \<Longrightarrow> skip P b s \<le> length b"
proof (induction P b s rule: skip.induct)
  case (1 P b s)
  then show ?case by (cases "s < length b \<and> P (b ! s)") (auto simp: skip_step)
qed

lemma skip_less: "s < length b \<Longrightarrow> P (b ! s) \<Longrightarrow> s < skip P b s"
  using skip_le [of "Suc s" P b] by (simp add: skip_step)

lemma at_nonzero: "at b s \<noteq> 0 \<Longrightarrow> s < length b"
  by (auto simp: at_def split: if_splits)

lemma skip_stop: "s \<le> length b \<Longrightarrow> skip P b s = length b \<or> (skip P b s < length b \<and> \<not> P (b ! skip P b s))"
proof (induction P b s rule: skip.induct)
  case (1 P b s)
  then show ?case by (cases "s < length b \<and> P (b ! s)") (auto simp: skip_step)
qed

lemma skip_idem: "skip P b (skip P b s) = skip P b s"
proof (cases "s \<le> length b")
  case True
  then show ?thesis using skip_stop [OF True, of P] by auto
qed simp

text \<open>A token is not empty, so every token that is read shortens the rest of the line.\<close>

lemma gettoken_bounds:
  assumes "gettoken b s = (t, (q, eq), s')"
  shows "s \<le> q" "q \<le> eq" "eq \<le> s'" "t \<noteq> 0 \<Longrightarrow> q < eq" "s \<le> length b \<Longrightarrow> s' \<le> length b"
proof -
  have q: "q = skipws b s" and s': "s' = skipws b eq" and
    eq: "(t, eq) = (if at b q = 0 then (0, q) else if at b q \<in> {124, 40, 41, 59, 38, 60} then (at b q, q + 1)
      else if at b q = 62 then (if at b (q + 1) = 62 then (43, q + 2) else (62, q + 1)) else (97, skip wordch b q))"
    using assms by (auto simp: gettoken_def Let_def split: if_splits)
  show "s \<le> q" unfolding q by (rule skip_le)
  show "eq \<le> s'" unfolding s' by (rule skip_le)
  have lt: "at b q \<noteq> 0 \<Longrightarrow> q < length b" by (rule at_nonzero)
  have w: "q < skip wordch b q" if "at b q \<noteq> 0" "at b q \<notin> {124, 40, 41, 59, 38, 60}" "at b q \<noteq> 62"
  proof (rule skip_less)
    show ql: "q < length b" by (rule lt [OF that(1)])
    then have "s \<le> length b" using \<open>s \<le> q\<close> by simp
    from skip_stop [OF this, of "\<lambda>c. c \<in> set whitespace", folded q] ql have "b ! q \<notin> set whitespace" by auto
    then show "wordch (b ! q)" using that ql by (auto simp: at_def symbols_def)
  qed
  show "q \<le> eq" "t \<noteq> 0 \<Longrightarrow> q < eq" using eq w by (auto split: if_splits)
  show "s' \<le> length b" if "s \<le> length b"
  proof -
    have "q \<le> length b" unfolding q by (rule skip_bound [OF that])
    then have "eq \<le> length b" using eq lt at_nonzero [of b "q + 1"] skip_bound [of q b wordch] by (auto split: if_splits)
    then show ?thesis unfolding s' by (rule skip_bound)
  qed
qed

lemma gettoken_less: "gettoken b s = (t, w, s') \<Longrightarrow> t \<noteq> 0 \<Longrightarrow> s < s' \<and> s < length b"
proof -
  assume g: "gettoken b s = (t, w, s')" and t: "t \<noteq> 0"
  obtain q eq where w: "w = (q, eq)" by (cases w)
  note gb = gettoken_bounds [OF g [unfolded w]]
  have "at b q \<noteq> 0" using g t unfolding w by (auto simp: gettoken_def Let_def split: if_splits)
  then show ?thesis using gb t at_nonzero [of b q] by auto
qed

lemma gettoken_le: "gettoken b s = (t, w, s') \<Longrightarrow> s \<le> s'" "gettoken b s = (t, w, s') \<Longrightarrow> s \<le> length b \<Longrightarrow> s' \<le> length b"
  using gettoken_bounds [of b s t "fst w" "snd w" s'] by simp_all

lemma peek_le: "peek b toks s = (f, s1) \<Longrightarrow> s \<le> s1" "peek b toks s = (f, s1) \<Longrightarrow> s \<le> length b \<Longrightarrow> s1 \<le> length b"
  using skip_le [of s] skip_bound [of s b] by (auto simp: peek_def Let_def)

lemma redir_progress:
  assumes "peek b ts s = (f, s1)" "gettoken b s1 = (t, w1, s2)" "gettoken b s2 = (97, w, s3)"
  shows "length b - s3 < length b - s"
proof -
  have "s2 < s3 \<and> s2 < length b" by (rule gettoken_less [OF assms(3)]) simp
  then show ?thesis using peek_le(1) [OF assms(1)] gettoken_le(1) [OF assms(2)] by linarith
qed

section \<open>Parser\<close>

text \<open>The constructor functions of the source only allocate; \<^verbatim>\<open>redircmd\<close> is used with the mode and the descriptor of the operator.\<close>

definition redir_op :: "uchar \<Rightarrow> 'w cmd \<Rightarrow> 'w \<Rightarrow> 'w cmd" where
  "redir_op tok c w =
     (if tok = 60 then REDIR c w SH_RDONLY 0
      else if tok = 62 then REDIR c w SH_CREATE 1
      else if tok = 43 then REDIR c w SH_CREATE 1
      else c)"

function parseredirs :: "uchar list \<Rightarrow> span cmd \<Rightarrow> nat \<Rightarrow> (span cmd \<times> nat) outcome" where
  "parseredirs b c s =
     (case peek b [60, 62] s of (found, s1) \<Rightarrow>
        if found
        then (case gettoken b s1 of (tok, _, s2) \<Rightarrow>
              case gettoken b s2 of (tok2, w, s3) \<Rightarrow>
                if tok2 \<noteq> 97 then Panic ''missing file for redirection'' else parseredirs b (redir_op tok c w) s3)
        else Ok (c, s1))"
  by pat_completeness auto
termination parseredirs
  by (relation "measure (\<lambda>(b, c, s). length b - s)") (auto simp del: zero_less_diff intro: redir_progress [OF sym sym sym])

declare parseredirs.simps [simp del]

lemma parseredirs_rec:
  assumes "peek b [60, 62] s = (found, s1)" "gettoken b s1 = (tok, w1, s2)" "gettoken b s2 = (tok2, w, s3)"
  shows "parseredirs b c s = (if found then if tok2 \<noteq> 97 then Panic ''missing file for redirection'' else parseredirs b (redir_op tok c w) s3 else Ok (c, s1))"
  using assms by (subst parseredirs.simps) simp

lemma parseredirs_le: "parseredirs b c s = Ok (c', s') \<Longrightarrow> s \<le> s'"
proof (induction "length b - s" arbitrary: c s rule: less_induct)
  case less
  obtain found s1 tok w1 s2 tok2 w s3 where g: "peek b [60, 62] s = (found, s1)" "gettoken b s1 = (tok, w1, s2)" "gettoken b s2 = (tok2, w, s3)"
    by (metis surj_pair)
  note le = peek_le(1) [OF g(1)] gettoken_le(1) [OF g(2)] gettoken_le(1) [OF g(3)]
  show ?case
  proof (cases "found \<and> tok2 = 97")
    case True
    then have "parseredirs b (redir_op tok c w) s3 = Ok (c', s')" using less.prems by (simp add: parseredirs_rec [OF g])
    then have "s3 \<le> s'" using less.hyps redir_progress [OF g(1,2)] g(3) True by blast
    then show ?thesis using le by linarith
  next
    case False
    then show ?thesis using less.prems le by (auto simp: parseredirs_rec [OF g] split: if_splits)
  qed
qed

text \<open>The words of the command that the redirections wrap: the array \<^verbatim>\<open>argv\<close> of the structure that \<^verbatim>\<open>parseexec\<close> keeps in \<^verbatim>\<open>cmd\<close>.\<close>

fun set_argv :: "'w list \<Rightarrow> 'w cmd \<Rightarrow> 'w cmd" where
  "set_argv a (REDIR c w m f) = REDIR (set_argv a c) w m f"
| "set_argv a (EXEC _) = EXEC a"
| "set_argv a c = c"

declare andthen_cong [fundef_cong]

lemma args_progress:
  assumes "peek b ts s = (f, s1)" "gettoken b s1 = (97, w, s2)" "parseredirs b c s2 = Ok (c', s3)"
  shows "length b - s3 < length b - s"
proof -
  have "s1 < s2 \<and> s1 < length b" by (rule gettoken_less [OF assms(2)]) simp
  then show ?thesis using peek_le(1) [OF assms(1)] parseredirs_le [OF assms(3)] by linarith
qed

lemma peek_token:
  assumes "peek b ts s = (True, s1)" "gettoken b s1 = (t, w, s2)"
  shows "s1 < s2" "s1 < length b" "t \<noteq> 0"
proof -
  have s1: "s1 = skipws b s" and at: "at b s1 \<noteq> 0" using assms(1) by (auto simp: peek_def Let_def)
  have "skipws b s1 = s1" unfolding s1 by (rule skip_idem)
  then show t: "t \<noteq> 0" using assms(2) at by (auto simp: gettoken_def Let_def split: if_splits)
  show "s1 < s2" "s1 < length b" using gettoken_less [OF assms(2) t] by simp_all
qed

lemma back_progress:
  assumes "peek b ts s = (True, s1)" "gettoken b s1 = (t, w, s2)"
  shows "length b - s2 < length b - s"
  using peek_token [OF assms] peek_le(1) [OF assms(1)] by linarith

function parseargs :: "uchar list \<Rightarrow> span cmd \<Rightarrow> span list \<Rightarrow> nat \<Rightarrow> (span cmd \<times> nat) outcome" where
  "parseargs b ret argv s =
     (case peek b [124, 41, 38, 59] s of (found, s1) \<Rightarrow>
        if found then Ok (set_argv argv ret, s1)
        else (case gettoken b s1 of (tok, w, s2) \<Rightarrow>
          if tok = 0 then Ok (set_argv argv ret, s2)
          else if tok \<noteq> 97 then Panic ''syntax''
          else if length argv + 1 \<ge> MAXARGS then Panic ''too many args''
          else andthen (parseredirs b ret s2) (\<lambda>(ret1, s3). parseargs b ret1 (argv @ [w]) s3)))"
  by pat_completeness auto
termination parseargs
  by (relation "measure (\<lambda>(b, ret, argv, s). length b - s)") (auto simp del: zero_less_diff intro: args_progress [OF sym sym])

declare parseargs.simps [simp del]

function parseback :: "uchar list \<Rightarrow> span cmd \<Rightarrow> nat \<Rightarrow> span cmd \<times> nat" where
  "parseback b c s =
     (case peek b [38] s of (found, s1) \<Rightarrow>
        if found then (case gettoken b s1 of (_, _, s2) \<Rightarrow> parseback b (BACK c) s2) else (c, s1))"
  by pat_completeness auto
termination parseback
  by (relation "measure (\<lambda>(b, c, s). length b - s)") (auto simp del: zero_less_diff intro: back_progress [OF sym sym])

declare parseback.simps [simp del]

function (sequential) parseline :: "nat \<Rightarrow> uchar list \<Rightarrow> nat \<Rightarrow> (span cmd \<times> nat) outcome"
  and parsepipe :: "nat \<Rightarrow> uchar list \<Rightarrow> nat \<Rightarrow> (span cmd \<times> nat) outcome"
  and parseexec :: "nat \<Rightarrow> uchar list \<Rightarrow> nat \<Rightarrow> (span cmd \<times> nat) outcome"
  and parseblock :: "nat \<Rightarrow> uchar list \<Rightarrow> nat \<Rightarrow> (span cmd \<times> nat) outcome" where
  "parseline 0 b s = Hang"
| "parseline (Suc n) b s =
     andthen (parsepipe n b s) (\<lambda>(c, s1).
       case parseback b c s1 of (c1, s2) \<Rightarrow>
       case peek b [59] s2 of (found, s3) \<Rightarrow>
         if found
         then (case gettoken b s3 of (_, _, s4) \<Rightarrow> andthen (parseline n b s4) (\<lambda>(c2, s5). Ok (LIST c1 c2, s5)))
         else Ok (c1, s3))"
| "parsepipe 0 b s = Hang"
| "parsepipe (Suc n) b s =
     andthen (parseexec n b s) (\<lambda>(c, s1).
       case peek b [124] s1 of (found, s2) \<Rightarrow>
         if found
         then (case gettoken b s2 of (_, _, s3) \<Rightarrow> andthen (parsepipe n b s3) (\<lambda>(c2, s4). Ok (PIPE c c2, s4)))
         else Ok (c, s2))"
| "parseexec 0 b s = Hang"
| "parseexec (Suc n) b s =
     (case peek b [40] s of (found, s1) \<Rightarrow>
        if found then parseblock n b s1
        else andthen (parseredirs b (EXEC []) s1) (\<lambda>(ret, s2). parseargs b ret [] s2))"
| "parseblock 0 b s = Hang"
| "parseblock (Suc n) b s =
     (case peek b [40] s of (found, s1) \<Rightarrow>
        if \<not> found then Panic ''parseblock''
        else (case gettoken b s1 of (_, _, s2) \<Rightarrow>
          andthen (parseline n b s2) (\<lambda>(c, s3).
            case peek b [41] s3 of (found2, s4) \<Rightarrow>
              if \<not> found2 then Panic ''syntax - missing )''
              else (case gettoken b s4 of (_, _, s5) \<Rightarrow> parseredirs b c s5))))"
  by pat_completeness auto
termination
  by (relation "measure (\<lambda>x. case x of Inl (Inl (n, b, s)) \<Rightarrow> n | Inl (Inr (n, b, s)) \<Rightarrow> n | Inr (Inl (n, b, s)) \<Rightarrow> n | Inr (Inr (n, b, s)) \<Rightarrow> n)") auto

declare parseline.simps(2) [simp del] parsepipe.simps(2) [simp del] parseexec.simps(2) [simp del] parseblock.simps(2) [simp del]

text \<open>\<^verbatim>\<open>nulterminate\<close> works on the line with its NUL, \<open>m\<close>.\<close>

primrec nulterminate :: "span cmd \<Rightarrow> uchar list \<Rightarrow> uchar list" where
  "nulterminate (EXEC argv) m = foldl (\<lambda>m w. m[snd w := 0]) m argv"
| "nulterminate (REDIR c w mode fd) m = (nulterminate c m)[snd w := 0]"
| "nulterminate (PIPE l r) m = nulterminate r (nulterminate l m)"
| "nulterminate (LIST l r) m = nulterminate r (nulterminate l m)"
| "nulterminate (BACK c) m = nulterminate c m"

definition parsecmd :: "uchar list \<Rightarrow> (span cmd \<times> uchar list) outcome" where
  "parsecmd b =
     andthen (parseline (4 * length b + 4) b 0) (\<lambda>(c, s).
       case peek b [] s of (_, s1) \<Rightarrow>
         if s1 \<noteq> length b then Panic ''syntax'' else Ok (c, nulterminate c (b @ [0])))"

section \<open>The parser ends\<close>

text \<open>A larger bound gives the same result, unless the smaller one was reached.\<close>

definition approx :: "'a outcome \<Rightarrow> 'a outcome \<Rightarrow> bool" where
  "approx r r' \<longleftrightarrow> r = Hang \<or> r = r'"

lemma approx_simps [simp]: "approx r r" "approx Hang r"
  by (simp_all add: approx_def)

lemma approx_andthen: "approx r r' \<Longrightarrow> (\<And>x. approx (f x) (g x)) \<Longrightarrow> approx (andthen r f) (andthen r' g)"
  by (cases r) (metis andthen.simps approx_def)+

lemma parse_approx:
  "approx (parseline n b s) (parseline (Suc n) b s) \<and> approx (parsepipe n b s) (parsepipe (Suc n) b s) \<and>
   approx (parseexec n b s) (parseexec (Suc n) b s) \<and> approx (parseblock n b s) (parseblock (Suc n) b s)"
proof (induction n arbitrary: s)
  case (Suc n)
  note ih = Suc.IH [THEN conjunct1] Suc.IH [THEN conjunct2, THEN conjunct1] Suc.IH [THEN conjunct2, THEN conjunct2, THEN conjunct1]
    Suc.IH [THEN conjunct2, THEN conjunct2, THEN conjunct2]
  have "approx (parseline (Suc n) b s) (parseline (Suc (Suc n)) b s)"
    unfolding parseline.simps(2) [of n b s] parseline.simps(2) [of "Suc n" b s] by (auto intro!: approx_andthen ih split: prod.split)
  moreover have "approx (parsepipe (Suc n) b s) (parsepipe (Suc (Suc n)) b s)"
    unfolding parsepipe.simps(2) [of n b s] parsepipe.simps(2) [of "Suc n" b s] by (auto intro!: approx_andthen ih split: prod.split)
  moreover have "approx (parseexec (Suc n) b s) (parseexec (Suc (Suc n)) b s)"
    unfolding parseexec.simps(2) [of n b s] parseexec.simps(2) [of "Suc n" b s] by (auto intro!: ih split: prod.split)
  moreover have "approx (parseblock (Suc n) b s) (parseblock (Suc (Suc n)) b s)"
    unfolding parseblock.simps(2) [of n b s] parseblock.simps(2) [of "Suc n" b s] by (auto intro!: approx_andthen ih split: prod.split)
  ultimately show ?case by blast
qed simp

lemma parseline_mono:
  assumes "parseline n b s \<noteq> Hang" and "n \<le> m"
  shows "parseline m b s = parseline n b s"
  using assms(2)
proof (induction rule: dec_induct)
  case (step i)
  then show ?case using parse_approx [of i b s] assms(1) by (auto simp: approx_def)
qed simp

text \<open>Every parser moves on in the line, and none of the loops gets stuck.\<close>

lemma parseargs_rec:
  assumes "peek b [124, 41, 38, 59] s = (found, s1)" "gettoken b s1 = (tok, w, s2)"
  shows "parseargs b ret argv s = (if found then Ok (set_argv argv ret, s1) else if tok = 0 then Ok (set_argv argv ret, s2)
    else if tok \<noteq> 97 then Panic ''syntax'' else if length argv + 1 \<ge> MAXARGS then Panic ''too many args''
    else andthen (parseredirs b ret s2) (\<lambda>(ret1, s3). parseargs b ret1 (argv @ [w]) s3))"
  using assms by (subst parseargs.simps) simp

lemma parseback_rec:
  assumes "peek b [38] s = (found, s1)" "gettoken b s1 = (tok, w, s2)"
  shows "parseback b c s = (if found then parseback b (BACK c) s2 else (c, s1))"
  using assms by (subst parseback.simps) simp

lemma parseredirs_returns: "parseredirs b c s \<noteq> Hang"
proof (induction "length b - s" arbitrary: c s rule: less_induct)
  case less
  obtain found s1 tok w1 s2 tok2 w s3 where g: "peek b [60, 62] s = (found, s1)" "gettoken b s1 = (tok, w1, s2)" "gettoken b s2 = (tok2, w, s3)"
    by (metis surj_pair)
  show ?case using less.hyps redir_progress [OF g(1,2)] g(3) by (auto simp: parseredirs_rec [OF g])
qed

lemma parseargs_returns: "parseargs b ret argv s \<noteq> Hang \<and> (\<forall>c s'. parseargs b ret argv s = Ok (c, s') \<longrightarrow> s \<le> s')"
proof (induction "length b - s" arbitrary: ret argv s rule: less_induct)
  case less
  obtain found s1 tok w s2 where g: "peek b [124, 41, 38, 59] s = (found, s1)" "gettoken b s1 = (tok, w, s2)"
    by (metis surj_pair)
  note le = peek_le(1) [OF g(1)] gettoken_le(1) [OF g(2)]
  let ?r = "andthen (parseredirs b ret s2) (\<lambda>(ret1, s3). parseargs b ret1 (argv @ [w]) s3)"
  have "?r \<noteq> Hang \<and> (\<forall>c s'. ?r = Ok (c, s') \<longrightarrow> s \<le> s')" if t: "tok = 97"
  proof (cases "parseredirs b ret s2")
    case (Ok x)
    obtain r s3 where x: "x = (r, s3)" by (cases x)
    show ?thesis using less.hyps [OF args_progress [OF g(1) _ Ok [unfolded x]], of w r "argv @ [w]"] g(2) t parseredirs_le [OF Ok [unfolded x]] le Ok x
      by (auto dest: le_trans)
  qed (use parseredirs_returns [of b ret s2] in simp_all)
  then show ?case unfolding parseargs_rec [OF g] using le by simp
qed

lemma parseback_le: "parseback b c s = (c', s') \<Longrightarrow> s \<le> s'"
proof (induction "length b - s" arbitrary: c s rule: less_induct)
  case less
  obtain found s1 tok w s2 where g: "peek b [38] s = (found, s1)" "gettoken b s1 = (tok, w, s2)" by (metis surj_pair)
  note le = peek_le(1) [OF g(1)] gettoken_le(1) [OF g(2)]
  show ?case
  proof (cases found)
    case True
    then have "s2 \<le> s'" using less.hyps [OF back_progress] g less.prems by (auto simp: parseback_rec [OF g])
    then show ?thesis using le by simp
  qed (use less.prems le in \<open>simp add: parseback_rec [OF g]\<close>)
qed

lemma parse_le:
  "(\<forall>c s'. parseline n b s = Ok (c, s') \<longrightarrow> s \<le> s') \<and> (\<forall>c s'. parsepipe n b s = Ok (c, s') \<longrightarrow> s \<le> s') \<and>
   (\<forall>c s'. parseexec n b s = Ok (c, s') \<longrightarrow> s \<le> s') \<and> (\<forall>c s'. parseblock n b s = Ok (c, s') \<longrightarrow> s \<le> s')"
proof (induction n arbitrary: s)
  case (Suc n)
  note le = peek_le(1) gettoken_le(1) parseback_le parseredirs_le parseargs_returns [THEN conjunct2, rule_format]
  note ih = Suc.IH [THEN conjunct1, rule_format] Suc.IH [THEN conjunct2, THEN conjunct1, rule_format]
    Suc.IH [THEN conjunct2, THEN conjunct2, THEN conjunct1, rule_format] Suc.IH [THEN conjunct2, THEN conjunct2, THEN conjunct2, rule_format]
  show ?case
    by (auto simp: parseline.simps(2) parsepipe.simps(2) parseexec.simps(2) parseblock.simps(2) split: prod.splits if_splits elim!: ok_elims dest!: le ih)
qed simp

lemma andthen_returns: "r \<noteq> Hang \<Longrightarrow> (\<And>x. r = Ok x \<Longrightarrow> f x \<noteq> Hang) \<Longrightarrow> andthen r f \<noteq> Hang"
  by (cases r) auto

lemma after_token:
  assumes "peek b ts s = (True, s1)" "gettoken b s1 = (t, w, s2)" "s0 \<le> s"
  shows "4 * (length b - s2) + 4 \<le> 4 * (length b - s0)"
  using peek_token(1,2) [OF assms(1,2)] peek_le(1) [OF assms(1)] assms(3) by linarith

lemma parse_returns:
  "(4 * (length b - s) + 4 \<le> n \<longrightarrow> parseline n b s \<noteq> Hang) \<and> (4 * (length b - s) + 3 \<le> n \<longrightarrow> parsepipe n b s \<noteq> Hang) \<and>
   (4 * (length b - s) + 2 \<le> n \<longrightarrow> parseexec n b s \<noteq> Hang) \<and> (4 * (length b - s) + 1 \<le> n \<longrightarrow> parseblock n b s \<noteq> Hang)"
proof (induction n arbitrary: s)
  case (Suc n)
  have line: "parseline n b t \<noteq> Hang" if "4 * (length b - t) + 4 \<le> n" for t using Suc.IH that by blast
  have pipe: "parsepipe n b t \<noteq> Hang" if "4 * (length b - t) + 3 \<le> n" for t using Suc.IH that by blast
  have exec: "parseexec n b t \<noteq> Hang" if "4 * (length b - t) + 2 \<le> n" for t using Suc.IH that by blast
  have block: "parseblock n b t \<noteq> Hang" if "4 * (length b - t) + 1 \<le> n" for t using Suc.IH that by blast
  have le: "parseline n b t = Ok (c, t') \<Longrightarrow> t \<le> t'" "parsepipe n b t = Ok (c, t') \<Longrightarrow> t \<le> t'" "parseexec n b t = Ok (c, t') \<Longrightarrow> t \<le> t'" for t c t'
    using parse_le [of n b t] by blast+
  show ?case
  proof (intro conjI impI)
    assume n: "4 * (length b - s) + 4 \<le> Suc n"
    show "parseline (Suc n) b s \<noteq> Hang"
      unfolding parseline.simps(2)
    proof (rule andthen_returns, goal_cases)
      case 1
      then show ?case using pipe n by simp
    next
      case (2 x)
      obtain c s1 where x: "x = (c, s1)" by (cases x)
      obtain c1 s2 where p: "parseback b c s1 = (c1, s2)" by (cases "parseback b c s1")
      obtain f s3 where k: "peek b [59] s2 = (f, s3)" by (cases "peek b [59] s2")
      obtain t w s4 where g: "gettoken b s3 = (t, w, s4)" by (metis surj_pair)
      have "s \<le> s2" using le(2) [OF 2 [unfolded x]] parseback_le [OF p] by simp
      then have "f \<Longrightarrow> parseline n b s4 \<noteq> Hang" using line after_token [OF _ g, of "[59]" s2 s] k n by simp
      then show ?case unfolding x by (auto simp: p k g andthen_eq_Hang)
    qed
  next
    assume n: "4 * (length b - s) + 3 \<le> Suc n"
    show "parsepipe (Suc n) b s \<noteq> Hang"
      unfolding parsepipe.simps(2)
    proof (rule andthen_returns, goal_cases)
      case 1
      then show ?case using exec n by simp
    next
      case (2 x)
      obtain c s1 where x: "x = (c, s1)" by (cases x)
      obtain f s2 where k: "peek b [124] s1 = (f, s2)" by (cases "peek b [124] s1")
      obtain t w s3 where g: "gettoken b s2 = (t, w, s3)" by (metis surj_pair)
      have "f \<Longrightarrow> parsepipe n b s3 \<noteq> Hang" using pipe after_token [OF _ g, of "[124]" s1 s] le(3) [OF 2 [unfolded x]] k n by simp
      then show ?case unfolding x by (auto simp: k g andthen_eq_Hang)
    qed
  next
    assume n: "4 * (length b - s) + 2 \<le> Suc n"
    obtain f s1 where k: "peek b [40] s = (f, s1)" by (cases "peek b [40] s")
    have "4 * (length b - s1) + 1 \<le> n" using peek_le(1) [OF k] n by linarith
    then show "parseexec (Suc n) b s \<noteq> Hang"
      unfolding parseexec.simps(2) k using block parseredirs_returns parseargs_returns by (auto simp: andthen_eq_Hang)
  next
    assume n: "4 * (length b - s) + 1 \<le> Suc n"
    obtain f s1 where k: "peek b [40] s = (f, s1)" by (cases "peek b [40] s")
    obtain t w s2 where g: "gettoken b s1 = (t, w, s2)" by (metis surj_pair)
    have "f \<Longrightarrow> parseline n b s2 \<noteq> Hang" using line after_token [OF _ g, of "[40]" s s] k n by simp
    then show "parseblock (Suc n) b s \<noteq> Hang"
      unfolding parseblock.simps(2) using parseredirs_returns by (auto simp: k g andthen_eq_Hang split: prod.splits if_splits)
  qed
qed simp

text \<open>No parser runs past the end of the line.\<close>

lemma parseredirs_bound: "parseredirs b c s = Ok (c', s') \<Longrightarrow> s \<le> length b \<Longrightarrow> s' \<le> length b"
proof (induction "length b - s" arbitrary: c s rule: less_induct)
  case less
  obtain found s1 tok w1 s2 tok2 w s3 where g: "peek b [60, 62] s = (found, s1)" "gettoken b s1 = (tok, w1, s2)" "gettoken b s2 = (tok2, w, s3)"
    by (metis surj_pair)
  have le: "s1 \<le> length b" "s3 \<le> length b" using peek_le(2) [OF g(1)] gettoken_le(2) [OF g(2)] gettoken_le(2) [OF g(3)] less.prems(2) by simp_all
  show ?case
  proof (cases "found \<and> tok2 = 97")
    case True
    then have "parseredirs b (redir_op tok c w) s3 = Ok (c', s')" using less.prems by (simp add: parseredirs_rec [OF g])
    then show ?thesis using less.hyps redir_progress [OF g(1,2)] g(3) True le(2) by blast
  next
    case False
    then show ?thesis using less.prems le by (auto simp: parseredirs_rec [OF g] split: if_splits)
  qed
qed

lemma parseargs_bound: "parseargs b ret argv s = Ok (c', s') \<Longrightarrow> s \<le> length b \<Longrightarrow> s' \<le> length b"
proof (induction "length b - s" arbitrary: ret argv s rule: less_induct)
  case less
  obtain found s1 tok w s2 where g: "peek b [124, 41, 38, 59] s = (found, s1)" "gettoken b s1 = (tok, w, s2)" by (metis surj_pair)
  have le: "s1 \<le> length b" "s2 \<le> length b" using peek_le(2) [OF g(1)] gettoken_le(2) [OF g(2)] less.prems(2) by simp_all
  show ?case
  proof (cases "\<not> found \<and> tok = 97 \<and> length argv + 1 < MAXARGS")
    case True
    then obtain r s3 where r: "parseredirs b ret s2 = Ok (r, s3)" "parseargs b r (argv @ [w]) s3 = Ok (c', s')"
      using less.prems(1) by (auto simp: parseargs_rec [OF g] elim!: ok_elims)
    show ?thesis using less.hyps [OF args_progress [OF g(1) _ r(1)] r(2) parseredirs_bound [OF r(1) le(2)]] g(2) True by auto
  next
    case False
    then show ?thesis using less.prems(1) le by (auto simp: parseargs_rec [OF g] split: if_splits)
  qed
qed

lemma parseback_bound: "parseback b c s = (c', s') \<Longrightarrow> s \<le> length b \<Longrightarrow> s' \<le> length b"
proof (induction "length b - s" arbitrary: c s rule: less_induct)
  case less
  obtain found s1 tok w s2 where g: "peek b [38] s = (found, s1)" "gettoken b s1 = (tok, w, s2)" by (metis surj_pair)
  have le: "s1 \<le> length b" "s2 \<le> length b" using peek_le(2) [OF g(1)] gettoken_le(2) [OF g(2)] less.prems(2) by simp_all
  show ?case
  proof (cases found)
    case True
    then have "parseback b (BACK c) s2 = (c', s')" using less.prems(1) by (simp add: parseback_rec [OF g])
    then show ?thesis using less.hyps [OF back_progress [OF _ g(2)]] g(1) True le by simp
  qed (use less.prems le in \<open>simp add: parseback_rec [OF g]\<close>)
qed

lemma parse_bound:
  "s \<le> length b \<Longrightarrow>
   (\<forall>c s'. parseline n b s = Ok (c, s') \<longrightarrow> s' \<le> length b) \<and> (\<forall>c s'. parsepipe n b s = Ok (c, s') \<longrightarrow> s' \<le> length b) \<and>
   (\<forall>c s'. parseexec n b s = Ok (c, s') \<longrightarrow> s' \<le> length b) \<and> (\<forall>c s'. parseblock n b s = Ok (c, s') \<longrightarrow> s' \<le> length b)"
proof (induction n arbitrary: s)
  case (Suc n)
  note bd = peek_le(2) gettoken_le(2) parseback_bound parseredirs_bound parseargs_bound
  have ih: "parseline n b t = Ok (c, t') \<Longrightarrow> t \<le> length b \<Longrightarrow> t' \<le> length b" "parsepipe n b t = Ok (c, t') \<Longrightarrow> t \<le> length b \<Longrightarrow> t' \<le> length b"
    "parseexec n b t = Ok (c, t') \<Longrightarrow> t \<le> length b \<Longrightarrow> t' \<le> length b" "parseblock n b t = Ok (c, t') \<Longrightarrow> t \<le> length b \<Longrightarrow> t' \<le> length b" for t c t'
    using Suc.IH by blast+
  show ?case using Suc.prems
    by (auto simp: parseline.simps(2) parsepipe.simps(2) parseexec.simps(2) parseblock.simps(2) split: prod.splits if_splits elim!: ok_elims dest!: bd ih)
qed simp

section \<open>The words of a command\<close>

definition word_span :: "uchar list \<Rightarrow> span \<Rightarrow> bool" where
  "word_span b w \<longleftrightarrow> fst w < snd w \<and> snd w \<le> length b \<and> (\<forall>i. fst w \<le> i \<and> i < snd w \<longrightarrow> wordch (b ! i)) \<and> (snd w < length b \<longrightarrow> \<not> wordch (b ! snd w))"

lemma skip_all: "s \<le> i \<Longrightarrow> i < skip P b s \<Longrightarrow> P (b ! i)"
proof (induction P b s rule: skip.induct)
  case (1 P b s)
  then show ?case by (cases "s < length b \<and> P (b ! s)"; cases "i = s") (auto simp: skip_step)
qed

lemma gettoken_span:
  assumes "gettoken b s = (97, w, s')"
  shows "word_span b w"
proof -
  obtain q eq where w: "w = (q, eq)" by (cases w)
  note g = gettoken_bounds [OF assms [unfolded w]]
  have eq: "eq = skip wordch b q" and at: "at b q \<noteq> 0" using assms unfolding w by (auto simp: gettoken_def Let_def split: if_splits)
  have q: "q < length b" by (rule at_nonzero [OF at])
  then have l: "eq \<le> length b" unfolding eq by (intro skip_bound) simp
  have "\<not> wordch (b ! eq)" if "eq < length b" using skip_stop [of q b wordch] that q unfolding eq by auto
  moreover have "wordch (b ! i)" if "q \<le> i" "i < eq" for i using skip_all [OF that(1), of wordch b] that(2) eq by simp
  ultimately show ?thesis using g(4) l unfolding word_span_def w by simp
qed

text \<open>What holds of every command the parser makes: its words are tokens of the line, \<^verbatim>\<open>argv\<close> has room for the null pointer behind
  the words, and a redirection is one of standard input or output.\<close>

primrec parsed :: "uchar list \<Rightarrow> span cmd \<Rightarrow> bool" where
  "parsed b (EXEC argv) \<longleftrightarrow> length argv < MAXARGS \<and> (\<forall>w \<in> set argv. word_span b w)"
| "parsed b (REDIR c w mode fd) \<longleftrightarrow> parsed b c \<and> word_span b w \<and> (mode = SH_RDONLY \<and> fd = 0 \<or> mode = SH_CREATE \<and> fd = 1)"
| "parsed b (PIPE l r) \<longleftrightarrow> parsed b l \<and> parsed b r"
| "parsed b (LIST l r) \<longleftrightarrow> parsed b l \<and> parsed b r"
| "parsed b (BACK c) \<longleftrightarrow> parsed b c"

lemma parsed_span: "parsed b c \<Longrightarrow> w \<in> set_cmd c \<Longrightarrow> word_span b w"
  by (induction c) auto

lemma parsed_redir_op: "parsed b c \<Longrightarrow> word_span b w \<Longrightarrow> parsed b (redir_op t c w)"
  by (auto simp: redir_op_def)

lemma parsed_set_argv: "parsed b c \<Longrightarrow> length a < MAXARGS \<Longrightarrow> \<forall>w \<in> set a. word_span b w \<Longrightarrow> parsed b (set_argv a c)"
  by (induction a c rule: set_argv.induct) auto

lemma parseredirs_parsed: "parseredirs b c s = Ok (c', s') \<Longrightarrow> parsed b c \<Longrightarrow> parsed b c'"
proof (induction "length b - s" arbitrary: c s rule: less_induct)
  case less
  obtain found s1 tok w1 s2 tok2 w s3 where g: "peek b [60, 62] s = (found, s1)" "gettoken b s1 = (tok, w1, s2)" "gettoken b s2 = (tok2, w, s3)"
    by (metis surj_pair)
  show ?case
  proof (cases "found \<and> tok2 = 97")
    case True
    then have "parseredirs b (redir_op tok c w) s3 = Ok (c', s')" using less.prems by (simp add: parseredirs_rec [OF g])
    moreover have "parsed b (redir_op tok c w)" using less.prems(2) gettoken_span [of b s2 w s3] g(3) True by (simp add: parsed_redir_op)
    ultimately show ?thesis using less.hyps redir_progress [OF g(1,2)] g(3) True by blast
  next
    case False
    then show ?thesis using less.prems by (auto simp: parseredirs_rec [OF g] split: if_splits)
  qed
qed

lemma parseargs_parsed: "parseargs b ret argv s = Ok (c', s') \<Longrightarrow> parsed b ret \<Longrightarrow> length argv < MAXARGS \<Longrightarrow> \<forall>w \<in> set argv. word_span b w \<Longrightarrow> parsed b c'"
proof (induction "length b - s" arbitrary: ret argv s rule: less_induct)
  case less
  obtain found s1 tok w s2 where g: "peek b [124, 41, 38, 59] s = (found, s1)" "gettoken b s1 = (tok, w, s2)" by (metis surj_pair)
  have here: "parsed b (set_argv argv ret)" by (rule parsed_set_argv [OF less.prems(2-4)])
  show ?case
  proof (cases "\<not> found \<and> tok = 97 \<and> length argv + 1 < MAXARGS")
    case True
    then obtain r s3 where r: "parseredirs b ret s2 = Ok (r, s3)" "parseargs b r (argv @ [w]) s3 = Ok (c', s')"
      using less.prems(1) by (auto simp: parseargs_rec [OF g] elim!: ok_elims)
    show ?thesis
      using less.hyps [OF args_progress [OF g(1) _ r(1)] r(2) parseredirs_parsed [OF r(1) less.prems(2)]] g(2) True gettoken_span [of b s1 w s2] less.prems(4) by auto
  next
    case False
    then show ?thesis using less.prems(1) here by (auto simp: parseargs_rec [OF g] split: if_splits)
  qed
qed

lemma parseback_parsed: "parseback b c s = (c', s') \<Longrightarrow> parsed b c \<Longrightarrow> parsed b c'"
proof (induction "length b - s" arbitrary: c s rule: less_induct)
  case less
  obtain found s1 tok w s2 where g: "peek b [38] s = (found, s1)" "gettoken b s1 = (tok, w, s2)" by (metis surj_pair)
  show ?case
  proof (cases found)
    case True
    then have "parseback b (BACK c) s2 = (c', s')" using less.prems(1) by (simp add: parseback_rec [OF g])
    then show ?thesis using less.hyps [OF back_progress [OF _ g(2)]] g(1) True less.prems(2) by simp
  qed (use less.prems in \<open>simp add: parseback_rec [OF g]\<close>)
qed

lemma parse_parsed:
  "(\<forall>c s'. parseline n b s = Ok (c, s') \<longrightarrow> parsed b c) \<and> (\<forall>c s'. parsepipe n b s = Ok (c, s') \<longrightarrow> parsed b c) \<and>
   (\<forall>c s'. parseexec n b s = Ok (c, s') \<longrightarrow> parsed b c) \<and> (\<forall>c s'. parseblock n b s = Ok (c, s') \<longrightarrow> parsed b c)"
proof (induction n arbitrary: s)
  case (Suc n)
  have line: "parsed b c" if "parseline n b t = Ok (c, t')" for t c t' using Suc.IH that by blast
  have pipe: "parsed b c" if "parsepipe n b t = Ok (c, t')" for t c t' using Suc.IH that by blast
  have exec: "parsed b c" if "parseexec n b t = Ok (c, t')" for t c t' using Suc.IH that by blast
  have block: "parsed b c" if "parseblock n b t = Ok (c, t')" for t c t' using Suc.IH that by blast
  have "parsed b c" if r: "parseline (Suc n) b s = Ok (c, s')" for c s'
  proof -
    from r obtain c0 s1 c1 s2 where "parsepipe n b s = Ok (c0, s1)" "parseback b c0 s1 = (c1, s2)"
      "c = c1 \<or> (\<exists>c2 s4 s5. parseline n b s4 = Ok (c2, s5) \<and> c = LIST c1 c2)"
      by (auto simp: parseline.simps(2) split: prod.splits if_splits elim!: ok_elims) blast+
    then show ?thesis using pipe parseback_parsed line by (metis parsed.simps(4))
  qed
  moreover have "parsed b c" if r: "parsepipe (Suc n) b s = Ok (c, s')" for c s'
  proof -
    from r obtain c1 s1 where "parseexec n b s = Ok (c1, s1)" "c = c1 \<or> (\<exists>c2 s3 s4. parsepipe n b s3 = Ok (c2, s4) \<and> c = PIPE c1 c2)"
      by (auto simp: parsepipe.simps(2) split: prod.splits if_splits elim!: ok_elims) blast+
    then show ?thesis using exec pipe by (metis parsed.simps(3))
  qed
  moreover have "parsed b c" if r: "parseexec (Suc n) b s = Ok (c, s')" for c s'
  proof -
    from r consider s1 where "parseblock n b s1 = Ok (c, s')" | s1 ret s2 where "parseredirs b (EXEC []) s1 = Ok (ret, s2)" "parseargs b ret [] s2 = Ok (c, s')"
      by (auto simp: parseexec.simps(2) split: prod.splits if_splits elim!: ok_elims)
    then show ?thesis
    proof cases
      case 2
      show ?thesis by (rule parseargs_parsed [OF 2(2) parseredirs_parsed [OF 2(1)]]) simp_all
    qed (rule block)
  qed
  moreover have "parsed b c" if r: "parseblock (Suc n) b s = Ok (c, s')" for c s'
  proof -
    from r obtain s2 c1 s3 s5 where "parseline n b s2 = Ok (c1, s3)" "parseredirs b c1 s5 = Ok (c, s')"
      by (auto simp: parseblock.simps(2) split: prod.splits if_splits elim!: ok_elims)
    then show ?thesis using line parseredirs_parsed by blast
  qed
  ultimately show ?case by blast
qed simp

end
