(* ===== verification/Sh_Parse.thy ===== *)
theory Sh_Parse
  imports Sh
begin

text \<open>
  The parser of the shell reads what a printer writes. \<open>tokens\<close> prints a command with the parentheses it needs, \<open>tokenize\<close>
  is the token structure of a line, and the parser of \<^verbatim>\<open>sh.c\<close> inverts both; its words are correct strings after \<^verbatim>\<open>nulterminate\<close>.
\<close>

section \<open>Words after nulterminate\<close>

definition word :: "uchar list \<Rightarrow> span \<Rightarrow> uchar list" where
  "word b w = take (snd w - fst w) (drop (fst w) b)"

text \<open>The string that starts at index \<open>q\<close> of a buffer.\<close>

definition cstring :: "uchar list \<Rightarrow> nat \<Rightarrow> uchar list" where
  "cstring m q = takeWhile (\<lambda>c. c \<noteq> 0) (drop q m)"

lemma foldl_zero:
  "length (foldl (\<lambda>m w. m[snd w := 0]) m ws) = length m"
  "i < length m \<Longrightarrow> foldl (\<lambda>m w. m[snd w := (0 :: uchar)]) m ws ! i = (if i \<in> snd ` set ws then 0 else m ! i)"
  by (induction ws arbitrary: m) (auto simp: nth_list_update)

lemma length_nulterminate [simp]: "length (nulterminate c m) = length m"
  by (induction c arbitrary: m) (simp_all add: foldl_zero)

lemma nulterminate_nth: "i < length m \<Longrightarrow> nulterminate c m ! i = (if i \<in> snd ` set_cmd c then 0 else m ! i)"
proof (induction c arbitrary: m)
  case (REDIR c w mode fd)
  then show ?case by (cases "i = snd w") (simp_all add: nth_list_update)
qed (simp_all add: foldl_zero image_Un)

lemma nulterminate_word:
  assumes s: "parsed b c" and z: "0 \<notin> set b" and w: "w \<in> set_cmd c"
  shows "cstring (nulterminate c (b @ [0])) (fst w) = word b w"
proof -
  let ?m = "nulterminate c (b @ [0])" and ?q = "fst w" and ?e = "snd w"
  note n = nulterminate_nth [of _ "b @ [0]" c]
  have ws: "?q < ?e" "?e \<le> length b" "\<And>i. ?q \<le> i \<Longrightarrow> i < ?e \<Longrightarrow> wordch (b ! i)" using parsed_span [OF s w] by (auto simp: word_span_def)
  have keep: "?m ! i = b ! i \<and> b ! i \<noteq> 0" if i: "?q \<le> i" "i < ?e" for i
  proof -
    have "snd w' \<noteq> i" if "w' \<in> set_cmd c" for w' using parsed_span [OF s that] ws(2,3) i by (auto simp: word_span_def)
    then have "?m ! i = b ! i" using n i ws(2) by (auto simp: nth_append)
    moreover have "b ! i \<in> set b" using i ws(2) by (intro nth_mem) simp
    ultimately show ?thesis using z by auto
  qed
  have e: "?m ! ?e = 0" using n w ws(2) by auto
  have "drop ?q ?m = take (?e - ?q) (drop ?q ?m) @ drop ?e ?m" using ws(1) by (metis append_take_drop_id drop_drop le_add_diff_inverse2 less_imp_le)
  moreover have "drop ?e ?m = 0 # drop (Suc ?e) ?m" using Cons_nth_drop_Suc [of ?e ?m] e ws(2) by simp
  moreover have t: "take (?e - ?q) (drop ?q ?m) = word b w"
    unfolding word_def by (rule nth_equalityI) (use keep n ws(1,2) in auto)
  moreover have "0 \<notin> set (word b w)" using z unfolding word_def by (meson in_set_dropD in_set_takeD)
  ultimately show ?thesis unfolding cstring_def by (simp add: takeWhile_append)
qed

section \<open>Tokens\<close>

datatype tok = Sym uchar | App | Word "uchar list"

abbreviation ws :: "uchar \<Rightarrow> bool" where
  "ws c \<equiv> c \<in> set whitespace"

text \<open>\<open>App\<close> is the operator \<^verbatim>\<open>>>\<close>.\<close>

function tokenize :: "uchar list \<Rightarrow> tok list" where
  "tokenize cs =
     (case dropWhile ws cs of
        [] \<Rightarrow> []
      | c # r \<Rightarrow>
          if c = 62 then (if r \<noteq> [] \<and> hd r = 62 then App # tokenize (tl r) else Sym 62 # tokenize r)
          else if c \<in> set symbols then Sym c # tokenize r
          else Word (takeWhile wordch (c # r)) # tokenize (dropWhile wordch (c # r)))"
  by auto
termination tokenize
proof (relation "measure length", goal_cases)
  case (2 cs c r)
  then show ?case using length_dropWhile_le [of ws cs] by (cases r) auto
next
  case (3 cs c r)
  then show ?case using length_dropWhile_le [of ws cs] by simp
next
  case (4 cs c r)
  then show ?case using length_dropWhile_le [of ws cs] by simp
next
  case (5 cs c r)
  have "\<not> ws c" using 5(1) hd_dropWhile [of ws cs] by auto
  then have "wordch c" using 5(3) by simp
  then have "length (dropWhile wordch (c # r)) \<le> length r" using length_dropWhile_le [of wordch r] by simp
  then show ?case using length_dropWhile_le [of ws cs] 5(1) by simp
qed simp

declare tokenize.simps [simp del]

lemma skip_dropWhile: "drop (skip P b s) b = dropWhile P (drop s b) \<and> take (skip P b s - s) (drop s b) = takeWhile P (drop s b)"
proof (induction P b s rule: skip.induct)
  case (1 P b s)
  show ?case
  proof (cases "s < length b \<and> P (b ! s)")
    case True
    then have d: "drop s b = b ! s # drop (Suc s) b" by (simp add: Cons_nth_drop_Suc)
    have "skip P b (Suc s) - s = Suc (skip P b (Suc s) - Suc s)" using skip_le [of "Suc s" P b] by simp
    then show ?thesis using 1 True by (simp add: skip_step d)
  next
    case False
    then show ?thesis by (cases "s < length b") (auto simp: Cons_nth_drop_Suc [symmetric])
  qed
qed

lemma tokenize_ws: "tokenize (dropWhile ws cs) = tokenize cs"
  by (subst tokenize.simps, subst (2) tokenize.simps) simp

text \<open>What \<^verbatim>\<open>gettoken\<close> and \<^verbatim>\<open>peek\<close> see of the tokens of the rest of the line.\<close>

fun tok_code :: "tok list \<Rightarrow> uchar" where
  "tok_code [] = 0"
| "tok_code (Sym c # _) = c"
| "tok_code (App # _) = 43"
| "tok_code (Word w # _) = 97"

fun tok_first :: "tok list \<Rightarrow> uchar" where
  "tok_first (Sym c # _) = c"
| "tok_first (App # _) = 62"
| "tok_first _ = 0"

lemma gettoken_tokens:
  assumes z: "0 \<notin> set b" and g: "gettoken b s = (t, w, s')"
  shows "t = tok_code (tokenize (drop s b)) \<and> tokenize (drop s' b) = tl (tokenize (drop s b)) \<and> (\<forall>x r. tokenize (drop s b) = Word x # r \<longrightarrow> word b w = x)"
proof -
  define q where "q = skipws b s"
  have d: "drop q b = dropWhile ws (drop s b)" using skip_dropWhile [of ws b s] by (simp add: q_def)
  have s': "tokenize (drop (skipws b e) b) = tokenize (drop e b)" for e using skip_dropWhile [of ws b e] tokenize_ws by simp
  show ?thesis
  proof (cases "drop q b")
    case Nil
    then have "at b q = 0" by (simp add: at_def)
    moreover have "tokenize (drop s b) = []" by (subst tokenize.simps) (simp add: d [symmetric] Nil)
    moreover have "tokenize [] = []" by (simp add: tokenize.simps)
    ultimately show ?thesis using g Nil s' by (auto simp: gettoken_def Let_def q_def [symmetric])
  next
    case (Cons c r)
    have q: "q < length b" "b ! q = c" "drop (Suc q) b = r" using Cons by (metis drop_eq_Nil leI list.distinct(1), metis hd_drop_conv_nth drop_eq_Nil leI list.distinct(1) list.sel(1), metis drop_Suc list.sel(3) tl_drop)
    have c: "at b q = c" "c \<noteq> 0" using q z nth_mem [OF q(1)] by (auto simp: at_def)
    have l: "tokenize (drop s b) = (if c = 62 then (if r \<noteq> [] \<and> hd r = 62 then App # tokenize (tl r) else Sym 62 # tokenize r)
          else if c \<in> set symbols then Sym c # tokenize r else Word (takeWhile wordch (c # r)) # tokenize (dropWhile wordch (c # r)))"
      by (subst tokenize.simps) (simp add: d [symmetric] Cons)
    have n: "at b (q + 1) = 62 \<longleftrightarrow> r \<noteq> [] \<and> hd r = 62" "drop (q + 2) b = tl r"
    proof -
      have "q + 1 < length b \<longleftrightarrow> r \<noteq> []" unfolding q(3) [symmetric] by auto
      then show "at b (q + 1) = 62 \<longleftrightarrow> r \<noteq> [] \<and> hd r = 62" using hd_drop_conv_nth [of "q + 1" b] q(3) by (auto simp: at_def)
      show "drop (q + 2) b = tl r" unfolding q(3) [symmetric] tl_drop [symmetric] by (simp add: drop_Suc [symmetric] tl_drop)
    qed
    have sy: "set symbols = {124, 40, 41, 59, 38, 60, 62}" by (auto simp: symbols_def)
    have sk: "drop (skip wordch b q) b = dropWhile wordch (c # r)" "take (skip wordch b q - q) (drop q b) = takeWhile wordch (c # r)"
      using skip_dropWhile [of wordch b q] Cons by simp_all
    have gt: "gettoken b s = (let (ret, eq) = (if c \<in> {124, 40, 41, 59, 38, 60} then (c, q + 1)
        else if c = 62 then (if r \<noteq> [] \<and> hd r = 62 then (43, q + 2) else (62, q + 1)) else (97, skip wordch b q)) in (ret, (q, eq), skipws b eq))"
      unfolding gettoken_def Let_def q_def [symmetric] c(1) n(1) using c(2) by simp
    consider "c = 62" "r \<noteq> [] \<and> hd r = 62" | "c = 62" "\<not> (r \<noteq> [] \<and> hd r = 62)" | "c \<noteq> 62" "c \<in> set symbols" | "c \<noteq> 62" "c \<notin> set symbols" by blast
    then show ?thesis
    proof cases
      case 1
      then have "gettoken b s = (43, (q, q + 2), skipws b (q + 2))" unfolding gt by simp
      then show ?thesis using g 1 l s' n(2) by simp
    next
      case 2
      then have "gettoken b s = (62, (q, q + 1), skipws b (q + 1))" unfolding gt by (simp del: de_Morgan_conj)
      then show ?thesis using g 2 l s' q(3) by (simp del: de_Morgan_conj)
    next
      case 3
      then have "gettoken b s = (c, (q, q + 1), skipws b (q + 1))" unfolding gt sy by auto
      then show ?thesis using g 3 l s' q(3) by simp
    next
      case 4
      then have "gettoken b s = (97, (q, skip wordch b q), skipws b (skip wordch b q))" unfolding gt sy by auto
      then show ?thesis using g 4 l s' sk by (simp add: word_def)
    qed
  qed
qed

lemma peek_tokens:
  assumes z: "0 \<notin> set b" and ts: "set ts \<subseteq> set symbols" and k: "peek b ts s = (f, s1)"
  shows "tokenize (drop s1 b) = tokenize (drop s b) \<and> f = (tok_first (tokenize (drop s b)) \<in> set ts)"
proof -
  have s1: "s1 = skipws b s" and f: "f \<longleftrightarrow> at b s1 \<noteq> 0 \<and> at b s1 \<in> set ts" using k by (auto simp: peek_def Let_def)
  have d: "drop s1 b = dropWhile ws (drop s b)" using skip_dropWhile [of ws b s] by (simp add: s1)
  have z0: "0 \<notin> set ts" using ts by (auto simp: symbols_def)
  have "f = (tok_first (tokenize (drop s b)) \<in> set ts)"
  proof (cases "drop s1 b")
    case Nil
    moreover have "tokenize (drop s b) = []" by (subst tokenize.simps) (simp add: d [symmetric] Nil)
    ultimately show ?thesis using f z0 by (auto simp: at_def)
  next
    case (Cons c r)
    then have "at b s1 = c" by (metis at_def drop_eq_Nil hd_drop_conv_nth leI list.distinct(1) list.sel(1))
    moreover have "c \<noteq> 0" using z Cons by (metis in_set_dropD list.set_intros(1))
    moreover have "tok_first (tokenize (drop s b)) = (if c \<in> set symbols then c else 0)"
      by (subst tokenize.simps) (auto simp: d [symmetric] Cons symbols_def)
    ultimately show ?thesis using f z0 ts by auto
  qed
  then show ?thesis using d tokenize_ws by metis
qed

section \<open>Printing\<close>

fun lev :: "'w cmd \<Rightarrow> nat" where
  "lev (PIPE _ _) = 1"
| "lev (BACK _) = 2"
| "lev (LIST _ _) = 3"
| "lev _ = 0"

definition paren :: "nat \<Rightarrow> 'w cmd \<Rightarrow> tok list \<Rightarrow> tok list" where
  "paren n c ts = (if lev c \<le> n then ts else Sym 40 # ts @ [Sym 41])"

primrec tokens :: "uchar list cmd \<Rightarrow> tok list" where
  "tokens (EXEC argv) = map Word argv"
| "tokens (REDIR c w mode fd) = paren 0 c (tokens c) @ [Sym (if fd = 0 then 60 else 62), Word w]"
| "tokens (PIPE l r) = paren 0 l (tokens l) @ Sym 124 # paren 1 r (tokens r)"
| "tokens (LIST l r) = paren 2 l (tokens l) @ Sym 59 # tokens r"
| "tokens (BACK c) = paren 2 c (tokens c) @ [Sym 38]"

abbreviation word_ok :: "uchar list \<Rightarrow> bool" where
  "word_ok w \<equiv> w \<noteq> [] \<and> (\<forall>x \<in> set w. wordch x \<and> x \<noteq> 0)"

primrec cmd_ok :: "uchar list cmd \<Rightarrow> bool" where
  "cmd_ok (EXEC argv) \<longleftrightarrow> length argv < MAXARGS \<and> (\<forall>w \<in> set argv. word_ok w)"
| "cmd_ok (REDIR c w mode fd) \<longleftrightarrow> cmd_ok c \<and> word_ok w \<and> (mode = SH_RDONLY \<and> fd = 0 \<or> mode = SH_CREATE \<and> fd = 1)"
| "cmd_ok (PIPE l r) \<longleftrightarrow> cmd_ok l \<and> cmd_ok r"
| "cmd_ok (LIST l r) \<longleftrightarrow> cmd_ok l \<and> cmd_ok r"
| "cmd_ok (BACK c) \<longleftrightarrow> cmd_ok c"

text \<open>A parser reads the command \<open>c\<close> off the tokens \<open>ts\<close> and leaves \<open>ts'\<close>.\<close>

definition parses :: "(nat \<Rightarrow> uchar list \<Rightarrow> nat \<Rightarrow> (span cmd \<times> nat) outcome) \<Rightarrow> uchar list \<Rightarrow> tok list \<Rightarrow> uchar list cmd \<Rightarrow> tok list \<Rightarrow> bool" where
  "parses f b ts c ts' \<longleftrightarrow> (\<forall>s. tokenize (drop s b) = ts \<longrightarrow>
     (\<exists>n c' s'. (\<forall>m \<ge> n. f m b s = Ok (c', s')) \<and> map_cmd (word b) c' = c \<and> tokenize (drop s' b) = ts'))"

definition follow :: "uchar set \<Rightarrow> tok list \<Rightarrow> bool" where
  "follow S ts \<longleftrightarrow> ts = [] \<or> (\<exists>x \<in> S. \<exists>r. ts = Sym x # r)"

lemma follow_first: "follow S ts \<Longrightarrow> tok_first ts = 0 \<or> tok_first ts \<in> S"
  by (auto simp: follow_def)

section \<open>Redirections and arguments\<close>

abbreviation redir_toks :: "(bool \<times> uchar list) list \<Rightarrow> tok list" where
  "redir_toks rs \<equiv> concat (map (\<lambda>(i, w). [Sym (if i then 60 else 62), Word w]) rs)"

abbreviation redirs :: "uchar list cmd \<Rightarrow> (bool \<times> uchar list) list \<Rightarrow> uchar list cmd" where
  "redirs \<equiv> foldl (\<lambda>c (i, w). redir_op (if i then 60 else 62) c w)"

lemma map_redir_op: "map_cmd f (redir_op t c w) = redir_op t (map_cmd f c) (f w)"
  by (simp add: redir_op_def)

lemma map_set_argv: "map_cmd f (set_argv a c) = set_argv (map f a) (map_cmd f c)"
  by (induction a c rule: set_argv.induct) auto

lemma parseredirs_tokens:
  assumes z: "0 \<notin> set b" and t: "tokenize (drop s b) = redir_toks rs @ ts'" and f: "follow {124, 41, 38, 59} ts' \<or> (\<exists>x r. ts' = Word x # r)"
  shows "\<exists>c' s'. parseredirs b c s = Ok (c', s') \<and> map_cmd (word b) c' = redirs (map_cmd (word b) c) rs \<and> tokenize (drop s' b) = ts'"
  using t
proof (induction rs arbitrary: c s)
  case Nil
  obtain found s1 tok w1 s2 tok2 w s3 where g: "peek b [60, 62] s = (found, s1)" "gettoken b s1 = (tok, w1, s2)" "gettoken b s2 = (tok2, w, s3)"
    by (metis surj_pair)
  have "tok_first ts' \<notin> {60, 62}" using f follow_first by fastforce
  then show ?case using Nil peek_tokens [OF z _ g(1)] by (simp add: parseredirs_rec [OF g] symbols_def)
next
  case (Cons a rs)
  obtain i x where a: "a = (i, x)" by (cases a)
  obtain found s1 tok w1 s2 tok2 w s3 where g: "peek b [60, 62] s = (found, s1)" "gettoken b s1 = (tok, w1, s2)" "gettoken b s2 = (tok2, w, s3)"
    by (metis surj_pair)
  have t0: "tokenize (drop s b) = Sym (if i then 60 else 62) # Word x # redir_toks rs @ ts'" using Cons.prems a by simp
  have p: "tokenize (drop s1 b) = tokenize (drop s b)" "found" using peek_tokens [OF z _ g(1)] t0 by (simp_all add: symbols_def)
  note g1 = gettoken_tokens [OF z g(2), unfolded p(1) t0] and g2 = gettoken_tokens [OF z g(3)]
  have t2: "tokenize (drop s2 b) = Word x # redir_toks rs @ ts'" "tok = (if i then 60 else 62)" using g1 by simp_all
  then have t3: "tokenize (drop s3 b) = redir_toks rs @ ts'" "tok2 = 97" "word b w = x" using g2 by simp_all
  from Cons.IH [OF t3(1), of "redir_op tok c w"] show ?case
    using p(2) t3(2,3) t2(2) by (simp add: parseredirs_rec [OF g] map_redir_op a)
qed

lemma set_argv_redirs: "set_argv a (redirs c rs) = redirs (set_argv a c) rs"
  by (induction rs arbitrary: c) (auto simp: redir_op_def)

lemma parseargs_tokens:
  assumes z: "0 \<notin> set b" and f: "follow {124, 41, 38, 59} ts'"
    and "tokenize (drop s b) = map Word as @ (if as = [] then [] else redir_toks rs) @ ts'" and "length argv + length as < MAXARGS"
  shows "\<exists>c' s'. parseargs b ret argv s = Ok (c', s') \<and> tokenize (drop s' b) = ts' \<and>
    map_cmd (word b) c' = redirs (set_argv (map (word b) argv @ as) (map_cmd (word b) ret)) (if as = [] then [] else rs)"
  using assms(3,4)
proof (induction as arbitrary: argv ret s)
  case Nil
  obtain found s1 tok w s2 where g: "peek b [124, 41, 38, 59] s = (found, s1)" "gettoken b s1 = (tok, w, s2)" by (metis surj_pair)
  have p: "tokenize (drop s1 b) = ts'" "found = (tok_first ts' \<in> {124, 41, 38, 59})"
    using peek_tokens [OF z _ g(1)] Nil.prems(1) by (simp_all add: symbols_def)
  have "tok = 0 \<and> tokenize (drop s2 b) = []" if "ts' = []" using gettoken_tokens [OF z g(2)] p(1) that by simp
  moreover have "found \<or> ts' = []" using f p(2) by (auto simp: follow_def)
  ultimately show ?case using p by (auto simp: parseargs_rec [OF g] map_set_argv)
next
  case (Cons x as)
  obtain found s1 tok w s2 where g: "peek b [124, 41, 38, 59] s = (found, s1)" "gettoken b s1 = (tok, w, s2)" by (metis surj_pair)
  have p: "tokenize (drop s1 b) = tokenize (drop s b)" "\<not> found" using peek_tokens [OF z _ g(1)] Cons.prems(1) by (simp_all add: symbols_def)
  have t2: "tok = 97" "word b w = x" "tokenize (drop s2 b) = map Word as @ redir_toks rs @ ts'"
    using gettoken_tokens [OF z g(2)] p(1) Cons.prems(1) by simp_all
  let ?rs = "if as = [] then rs else []" and ?ts = "map Word as @ (if as = [] then [] else redir_toks rs) @ ts'"
  have "tokenize (drop s2 b) = redir_toks ?rs @ ?ts" using t2(3) by simp
  moreover have "follow {124, 41, 38, 59} ?ts \<or> (\<exists>x r. ?ts = Word x # r)" using f by (cases as) auto
  ultimately obtain r s3 where r: "parseredirs b ret s2 = Ok (r, s3)" "map_cmd (word b) r = redirs (map_cmd (word b) ret) ?rs" "tokenize (drop s3 b) = ?ts"
    using parseredirs_tokens [OF z, of s2 ?rs ?ts ret] by blast
  from Cons.IH [OF r(3), of "argv @ [w]" r] Cons.prems(2) obtain c' s' where c': "parseargs b r (argv @ [w]) s3 = Ok (c', s')" "tokenize (drop s' b) = ts'"
    "map_cmd (word b) c' = redirs (set_argv (map (word b) (argv @ [w]) @ as) (map_cmd (word b) r)) (if as = [] then [] else rs)" by auto
  have "parseargs b ret argv s = Ok (c', s')" using p(2) t2(1) Cons.prems(2) r(1) c'(1) by (simp add: parseargs_rec [OF g])
  moreover have "map_cmd (word b) c' = redirs (set_argv (map (word b) argv @ x # as) (map_cmd (word b) ret)) rs"
    using c'(3) t2(2) by (simp add: r(2) set_argv_redirs split: if_splits)
  ultimately show ?case using c'(2) by auto
qed

section \<open>The parser inverts the printer\<close>

lemma parsesI:
  assumes "\<And>s. tokenize (drop s b) = ts \<Longrightarrow> \<exists>n c' s'. (\<forall>m \<ge> n. f m b s = Ok (c', s')) \<and> map_cmd (word b) c' = c \<and> tokenize (drop s' b) = ts'"
  shows "parses f b ts c ts'"
  using assms by (simp add: parses_def)

lemma parsesE:
  assumes "parses f b ts c ts'" and "tokenize (drop s b) = ts"
  obtains n c' s' where "\<forall>m \<ge> n. f m b s = Ok (c', s')" "map_cmd (word b) c' = c" "tokenize (drop s' b) = ts'"
  using assms unfolding parses_def by blast

lemma all_ge_Suc: "(\<And>m. n \<le> m \<Longrightarrow> P (Suc m)) \<Longrightarrow> \<forall>m \<ge> Suc n. P m"
  by (auto dest: Suc_le_D)

lemma parseexec_exec:
  assumes z: "0 \<notin> set b" and f: "follow {124, 41, 38, 59} ts'" and n: "length as < MAXARGS"
  shows "parses parseexec b (map Word as @ redir_toks rs @ ts') (redirs (EXEC as) rs) ts'"
proof (rule parsesI)
  fix s assume t: "tokenize (drop s b) = map Word as @ redir_toks rs @ ts'"
  obtain found s1 where g: "peek b [40] s = (found, s1)" by (metis surj_pair)
  have "tok_first (map Word as @ redir_toks rs @ ts') \<noteq> 40" using f by (cases as; cases rs) (auto simp: follow_def split: if_splits)
  then have p: "tokenize (drop s1 b) = map Word as @ redir_toks rs @ ts'" "\<not> found" using peek_tokens [OF z _ g] t by (simp_all add: symbols_def)
  let ?rs = "if as = [] then rs else []" and ?ts = "map Word as @ (if as = [] then [] else redir_toks rs) @ ts'"
  have "tokenize (drop s1 b) = redir_toks ?rs @ ?ts" using p(1) by simp
  moreover have "follow {124, 41, 38, 59} ?ts \<or> (\<exists>x r. ?ts = Word x # r)" using f by (cases as) auto
  ultimately obtain r s2 where r: "parseredirs b (EXEC []) s1 = Ok (r, s2)" "map_cmd (word b) r = redirs (EXEC []) ?rs" "tokenize (drop s2 b) = ?ts"
    using parseredirs_tokens [OF z, of s1 ?rs ?ts "EXEC []"] by auto
  from parseargs_tokens [OF z f r(3), of "[]" r] n obtain c' s' where c': "parseargs b r [] s2 = Ok (c', s')" "tokenize (drop s' b) = ts'"
    "map_cmd (word b) c' = redirs (set_argv as (map_cmd (word b) r)) (if as = [] then [] else rs)" by auto
  have "map_cmd (word b) c' = redirs (EXEC as) rs" using c'(3) by (simp add: r(2) set_argv_redirs)
  moreover have "\<forall>m \<ge> Suc 0. parseexec m b s = Ok (c', s')" by (rule all_ge_Suc) (simp add: parseexec.simps(2) g p(2) r(1) c'(1))
  ultimately show "\<exists>n c' s'. (\<forall>m \<ge> n. parseexec m b s = Ok (c', s')) \<and> map_cmd (word b) c' = redirs (EXEC as) rs \<and> tokenize (drop s' b) = ts'"
    using c'(2) by blast
qed

lemma parseexec_block:
  assumes z: "0 \<notin> set b" and f: "follow {124, 41, 38, 59} ts'" and l: "\<And>ts. parses parseline b (tokens c @ Sym 41 # ts) c (Sym 41 # ts)"
  shows "parses parseexec b (Sym 40 # tokens c @ Sym 41 # redir_toks rs @ ts') (redirs c rs) ts'"
proof (rule parsesI)
  fix s assume t: "tokenize (drop s b) = Sym 40 # tokens c @ Sym 41 # redir_toks rs @ ts'"
  obtain found s1 where g: "peek b [40] s = (found, s1)" by (metis surj_pair)
  have p: "tokenize (drop s1 b) = tokenize (drop s b)" "found" using peek_tokens [OF z _ g] t by (simp_all add: symbols_def)
  obtain found2 s2 where g2: "peek b [40] s1 = (found2, s2)" by (metis surj_pair)
  have p2: "tokenize (drop s2 b) = tokenize (drop s b)" "found2" using peek_tokens [OF z _ g2] t p(1) by (simp_all add: symbols_def)
  obtain tok w s3 where g3: "gettoken b s2 = (tok, w, s3)" by (metis surj_pair)
  have t3: "tokenize (drop s3 b) = tokens c @ Sym 41 # redir_toks rs @ ts'" using gettoken_tokens [OF z g3] p2(1) t by simp
  obtain n c1 s4 where c1: "\<forall>m \<ge> n. parseline m b s3 = Ok (c1, s4)" "map_cmd (word b) c1 = c" "tokenize (drop s4 b) = Sym 41 # redir_toks rs @ ts'"
    by (rule parsesE [OF l t3])
  obtain found5 s5 where g5: "peek b [41] s4 = (found5, s5)" by (metis surj_pair)
  have p5: "tokenize (drop s5 b) = tokenize (drop s4 b)" "found5" using peek_tokens [OF z _ g5] c1(3) by (simp_all add: symbols_def)
  obtain tok6 w6 s6 where g6: "gettoken b s5 = (tok6, w6, s6)" by (metis surj_pair)
  have t6: "tokenize (drop s6 b) = redir_toks rs @ ts'" using gettoken_tokens [OF z g6] p5(1) c1(3) by simp
  obtain r s7 where r: "parseredirs b c1 s6 = Ok (r, s7)" "map_cmd (word b) r = redirs c rs" "tokenize (drop s7 b) = ts'"
    using parseredirs_tokens [OF z t6, of c1] f c1(2) by auto
  have "\<forall>m \<ge> Suc (Suc n). parseexec m b s = Ok (r, s7)"
  proof (rule all_ge_Suc)
    fix m assume "Suc n \<le> m"
    then obtain m' where "m = Suc m'" "n \<le> m'" by (metis Suc_le_D Suc_le_mono)
    then show "parseexec (Suc m) b s = Ok (r, s7)"
      using c1(1) p(2) p2(2) p5(2) r(1) by (simp add: parseexec.simps(2) parseblock.simps(2) g g2 g3 g5 g6)
  qed
  then show "\<exists>n c' s'. (\<forall>m \<ge> n. parseexec m b s = Ok (c', s')) \<and> map_cmd (word b) c' = redirs c rs \<and> tokenize (drop s' b) = ts'"
    using r(2,3) by blast
qed

lemma parsepipe_one:
  assumes z: "0 \<notin> set b" and f: "follow {41, 38, 59} ts'" and e: "parses parseexec b ts c ts'"
  shows "parses parsepipe b ts c ts'"
proof (rule parsesI)
  fix s assume t: "tokenize (drop s b) = ts"
  obtain n c1 s1 where c1: "\<forall>m \<ge> n. parseexec m b s = Ok (c1, s1)" "map_cmd (word b) c1 = c" "tokenize (drop s1 b) = ts'" by (rule parsesE [OF e t])
  obtain found s2 where g: "peek b [124] s1 = (found, s2)" by (metis surj_pair)
  have p: "tokenize (drop s2 b) = ts'" "\<not> found" using peek_tokens [OF z _ g] c1(3) follow_first [OF f] by (auto simp: symbols_def)
  have "\<forall>m \<ge> Suc n. parsepipe m b s = Ok (c1, s2)" by (rule all_ge_Suc) (simp add: parsepipe.simps(2) c1(1) g p(2))
  then show "\<exists>n c' s'. (\<forall>m \<ge> n. parsepipe m b s = Ok (c', s')) \<and> map_cmd (word b) c' = c \<and> tokenize (drop s' b) = ts'" using c1(2) p(1) by blast
qed

lemma parsepipe_pipe:
  assumes z: "0 \<notin> set b" and e: "parses parseexec b (ts @ Sym 124 # us) l (Sym 124 # us)" and p: "parses parsepipe b us r ts'"
  shows "parses parsepipe b (ts @ Sym 124 # us) (PIPE l r) ts'"
proof (rule parsesI)
  fix s assume t: "tokenize (drop s b) = ts @ Sym 124 # us"
  obtain n c1 s1 where c1: "\<forall>m \<ge> n. parseexec m b s = Ok (c1, s1)" "map_cmd (word b) c1 = l" "tokenize (drop s1 b) = Sym 124 # us" by (rule parsesE [OF e t])
  obtain found s2 where g: "peek b [124] s1 = (found, s2)" by (metis surj_pair)
  obtain tok w s3 where g3: "gettoken b s2 = (tok, w, s3)" by (metis surj_pair)
  have k: "tokenize (drop s2 b) = Sym 124 # us" "found" using peek_tokens [OF z _ g] c1(3) by (simp_all add: symbols_def)
  have "tokenize (drop s3 b) = us" using gettoken_tokens [OF z g3] k(1) by simp
  then obtain n2 c2 s4 where c2: "\<forall>m \<ge> n2. parsepipe m b s3 = Ok (c2, s4)" "map_cmd (word b) c2 = r" "tokenize (drop s4 b) = ts'" by (rule parsesE [OF p])
  have "\<forall>m \<ge> Suc (max n n2). parsepipe m b s = Ok (PIPE c1 c2, s4)"
    by (rule all_ge_Suc) (simp add: parsepipe.simps(2) c1(1) g k(2) g3 c2(1))
  then show "\<exists>n c' s'. (\<forall>m \<ge> n. parsepipe m b s = Ok (c', s')) \<and> map_cmd (word b) c' = PIPE l r \<and> tokenize (drop s' b) = ts'"
    using c1(2) c2(2,3) by (intro exI [of _ "Suc (max n n2)"] exI [of _ "PIPE c1 c2"] exI [of _ s4]) simp
qed

text \<open>A pipeline and the ampersands behind it: the first part of \<^verbatim>\<open>parseline\<close>.\<close>

definition parsepart :: "nat \<Rightarrow> uchar list \<Rightarrow> nat \<Rightarrow> (span cmd \<times> nat) outcome" where
  "parsepart n b s = andthen (parsepipe n b s) (\<lambda>(c, s1). Ok (parseback b c s1))"

lemma parseback_tokens:
  assumes z: "0 \<notin> set b" and f: "follow {41, 59} ts'" and "tokenize (drop s b) = replicate k (Sym 38) @ ts'"
  shows "\<exists>s'. parseback b c s = ((BACK ^^ k) c, s') \<and> tokenize (drop s' b) = ts'"
  using assms(3)
proof (induction k arbitrary: c s)
  case 0
  obtain found s1 tok w s2 where g: "peek b [38] s = (found, s1)" "gettoken b s1 = (tok, w, s2)" by (metis surj_pair)
  have "\<not> found" "tokenize (drop s1 b) = ts'" using peek_tokens [OF z _ g(1)] 0 follow_first [OF f] by (auto simp: symbols_def)
  then show ?case by (simp add: parseback_rec [OF g])
next
  case (Suc k)
  obtain found s1 tok w s2 where g: "peek b [38] s = (found, s1)" "gettoken b s1 = (tok, w, s2)" by (metis surj_pair)
  have p: "found" "tokenize (drop s1 b) = tokenize (drop s b)" using peek_tokens [OF z _ g(1)] Suc.prems by (simp_all add: symbols_def)
  have "tokenize (drop s2 b) = replicate k (Sym 38) @ ts'" using gettoken_tokens [OF z g(2)] p(2) Suc.prems by simp
  from Suc.IH [OF this, of "BACK c"] show ?case using p(1) by (simp add: parseback_rec [OF g] funpow_swap1)
qed

lemma map_BACK: "map_cmd f ((BACK ^^ k) c) = (BACK ^^ k) (map_cmd f c)"
  by (induction k) auto

lemma parsepart_back:
  assumes z: "0 \<notin> set b" and f: "follow {41, 59} ts'" and p: "parses parsepipe b (ts @ replicate k (Sym 38) @ ts') c (replicate k (Sym 38) @ ts')"
  shows "parses parsepart b (ts @ replicate k (Sym 38) @ ts') ((BACK ^^ k) c) ts'"
proof (rule parsesI)
  fix s assume t: "tokenize (drop s b) = ts @ replicate k (Sym 38) @ ts'"
  obtain n c1 s1 where c1: "\<forall>m \<ge> n. parsepipe m b s = Ok (c1, s1)" "map_cmd (word b) c1 = c" "tokenize (drop s1 b) = replicate k (Sym 38) @ ts'"
    by (rule parsesE [OF p t])
  obtain s2 where s2: "parseback b c1 s1 = ((BACK ^^ k) c1, s2)" "tokenize (drop s2 b) = ts'" using parseback_tokens [OF z f c1(3)] by blast
  have "\<forall>m \<ge> n. parsepart m b s = Ok ((BACK ^^ k) c1, s2)" using c1(1) s2(1) by (simp add: parsepart_def)
  then show "\<exists>n c' s'. (\<forall>m \<ge> n. parsepart m b s = Ok (c', s')) \<and> map_cmd (word b) c' = (BACK ^^ k) c \<and> tokenize (drop s' b) = ts'"
    using s2(2) c1(2) map_BACK by metis
qed

lemma parseline_part:
  "parseline (Suc n) b s = andthen (parsepart n b s) (\<lambda>(c1, s2). case peek b [59] s2 of (found, s3) \<Rightarrow>
     if found then (case gettoken b s3 of (_, _, s4) \<Rightarrow> andthen (parseline n b s4) (\<lambda>(c2, s5). Ok (LIST c1 c2, s5))) else Ok (c1, s3))"
  unfolding parseline.simps(2) parsepart_def by (cases "parsepipe n b s") (auto split: prod.split)

lemma parseline_one:
  assumes z: "0 \<notin> set b" and f: "follow {41} ts'" and e: "parses parsepart b ts c ts'"
  shows "parses parseline b ts c ts'"
proof (rule parsesI)
  fix s assume t: "tokenize (drop s b) = ts"
  obtain n c1 s1 where c1: "\<forall>m \<ge> n. parsepart m b s = Ok (c1, s1)" "map_cmd (word b) c1 = c" "tokenize (drop s1 b) = ts'" by (rule parsesE [OF e t])
  obtain found s2 where g: "peek b [59] s1 = (found, s2)" by (metis surj_pair)
  have p: "tokenize (drop s2 b) = ts'" "\<not> found" using peek_tokens [OF z _ g] c1(3) follow_first [OF f] by (auto simp: symbols_def)
  have "\<forall>m \<ge> Suc n. parseline m b s = Ok (c1, s2)" by (rule all_ge_Suc) (simp add: parseline_part c1(1) g p(2))
  then show "\<exists>n c' s'. (\<forall>m \<ge> n. parseline m b s = Ok (c', s')) \<and> map_cmd (word b) c' = c \<and> tokenize (drop s' b) = ts'" using c1(2) p(1) by blast
qed

lemma parseline_list:
  assumes z: "0 \<notin> set b" and e: "parses parsepart b (ts @ Sym 59 # us) l (Sym 59 # us)" and p: "parses parseline b us r ts'"
  shows "parses parseline b (ts @ Sym 59 # us) (LIST l r) ts'"
proof (rule parsesI)
  fix s assume t: "tokenize (drop s b) = ts @ Sym 59 # us"
  obtain n c1 s1 where c1: "\<forall>m \<ge> n. parsepart m b s = Ok (c1, s1)" "map_cmd (word b) c1 = l" "tokenize (drop s1 b) = Sym 59 # us" by (rule parsesE [OF e t])
  obtain found s2 where g: "peek b [59] s1 = (found, s2)" by (metis surj_pair)
  obtain tok w s3 where g3: "gettoken b s2 = (tok, w, s3)" by (metis surj_pair)
  have k: "tokenize (drop s2 b) = Sym 59 # us" "found" using peek_tokens [OF z _ g] c1(3) by (simp_all add: symbols_def)
  have "tokenize (drop s3 b) = us" using gettoken_tokens [OF z g3] k(1) by simp
  then obtain n2 c2 s4 where c2: "\<forall>m \<ge> n2. parseline m b s3 = Ok (c2, s4)" "map_cmd (word b) c2 = r" "tokenize (drop s4 b) = ts'" by (rule parsesE [OF p])
  have "\<forall>m \<ge> Suc (max n n2). parseline m b s = Ok (LIST c1 c2, s4)"
    by (rule all_ge_Suc) (simp add: parseline_part c1(1) g k(2) g3 c2(1))
  then show "\<exists>n c' s'. (\<forall>m \<ge> n. parseline m b s = Ok (c', s')) \<and> map_cmd (word b) c' = LIST l r \<and> tokenize (drop s' b) = ts'"
    using c1(2) c2(2,3) by (intro exI [of _ "Suc (max n n2)"] exI [of _ "LIST c1 c2"] exI [of _ s4]) simp
qed

lemma strip_redirs:
  assumes "lev c = 0" and "cmd_ok c"
  shows "\<exists>base rs. c = redirs base rs \<and> cmd_ok base \<and> ((\<exists>as. base = EXEC as \<and> tokens c = map Word as @ redir_toks rs) \<or>
    (0 < lev base \<and> size base < size c \<and> tokens c = Sym 40 # tokens base @ Sym 41 # redir_toks rs))"
  using assms
proof (induction c)
  case (EXEC argv)
  then show ?case by (intro exI [of _ "EXEC argv"] exI [of _ "[]"]) simp
next
  case (REDIR c w mode fd)
  have op: "REDIR c w mode fd = redir_op (if fd = 0 then 60 else 62) c w" using REDIR.prems(2) by (auto simp: redir_op_def)
  show ?case
  proof (cases "lev c = 0")
    case True
    with REDIR obtain base rs where b: "c = redirs base rs" "cmd_ok base" "(\<exists>as. base = EXEC as \<and> tokens c = map Word as @ redir_toks rs) \<or>
      (0 < lev base \<and> size base < size c \<and> tokens c = Sym 40 # tokens base @ Sym 41 # redir_toks rs)" by auto
    let ?rs = "rs @ [(fd = 0, w)]"
    have "tokens (REDIR c w mode fd) = tokens c @ redir_toks [(fd = 0, w)]" "size c < size (REDIR c w mode fd)" using True by (simp_all add: paren_def)
    moreover have "REDIR c w mode fd = redirs base ?rs" unfolding op by (simp add: b(1))
    ultimately show ?thesis using b(2,3) by (intro exI [of _ base] exI [of _ ?rs]) (auto simp del: tokens.simps)
  next
    case False
    have "tokens (REDIR c w mode fd) = Sym 40 # tokens c @ Sym 41 # redir_toks [(fd = 0, w)]" "size c < size (REDIR c w mode fd)" "cmd_ok c"
      using False REDIR.prems(2) by (simp_all add: paren_def)
    moreover have "REDIR c w mode fd = redirs c [(fd = 0, w)]" unfolding op by simp
    ultimately show ?thesis using False by (intro exI [of _ c] exI [of _ "[(fd = 0, w)]"]) (auto simp del: tokens.simps)
  qed
qed auto

lemma strip_back:
  "cmd_ok c \<Longrightarrow> \<exists>k d. c = (BACK ^^ k) d \<and> lev d \<noteq> 2 \<and> cmd_ok d \<and> paren 2 c (tokens c) = paren 1 d (tokens d) @ replicate k (Sym 38) \<and> (lev c = 2 \<longrightarrow> size d < size c)"
proof (induction c)
  case (BACK c)
  then obtain k d where d: "c = (BACK ^^ k) d" "lev d \<noteq> 2" "cmd_ok d" "paren 2 c (tokens c) = paren 1 d (tokens d) @ replicate k (Sym 38)" "lev c = 2 \<longrightarrow> size d < size c" by auto
  have "size d \<le> size ((BACK ^^ k) d)" by (induction k) auto
  then show ?case using d
    by (intro exI [of _ "Suc k"] exI [of _ d]) (auto simp: paren_def [of 2 "BACK c" for c] replicate_append_same)
qed (rule exI [of _ 0], force simp: paren_def)+

definition reads :: "uchar list \<Rightarrow> uchar list cmd \<Rightarrow> bool" where
  "reads b c \<longleftrightarrow>
     (\<forall>ts'. follow {124, 41, 38, 59} ts' \<longrightarrow> parses parseexec b (paren 0 c (tokens c) @ ts') c ts') \<and>
     (\<forall>ts'. follow {41, 38, 59} ts' \<longrightarrow> parses parsepipe b (paren 1 c (tokens c) @ ts') c ts') \<and>
     (\<forall>ts'. follow {41, 59} ts' \<longrightarrow> parses parsepart b (paren 2 c (tokens c) @ ts') c ts') \<and>
     (\<forall>ts'. follow {41} ts' \<longrightarrow> parses parseline b (tokens c @ ts') c ts')"

lemma follow_mono: "follow S ts \<Longrightarrow> S \<subseteq> T \<Longrightarrow> follow T ts"
  by (auto simp: follow_def)

lemma reads_cmd:
  assumes z: "0 \<notin> set b"
  shows "cmd_ok c \<Longrightarrow> reads b c"
proof (induction "size c" arbitrary: c rule: less_induct)
  case less
  let ?E = "\<forall>ts'. follow {124, 41, 38, 59} ts' \<longrightarrow> parses parseexec b (paren 0 c (tokens c) @ ts') c ts'"
    and ?P = "\<forall>ts'. follow {41, 38, 59} ts' \<longrightarrow> parses parsepipe b (paren 1 c (tokens c) @ ts') c ts'"
    and ?B = "\<forall>ts'. follow {41, 59} ts' \<longrightarrow> parses parsepart b (paren 2 c (tokens c) @ ts') c ts'"
    and ?L = "\<forall>ts'. follow {41} ts' \<longrightarrow> parses parseline b (tokens c @ ts') c ts'"
  have ih: "reads b d" if "size d < size c" "cmd_ok d" for d using less.hyps that by blast
  have line: "parses parseline b (tokens d @ Sym 41 # ts) d (Sym 41 # ts)" if "size d < size c" "cmd_ok d" for d ts
    using ih [OF that] by (simp add: reads_def follow_def)
  have E_L: ?E if "0 < lev c" ?L
  proof (intro allI impI)
    fix ts' assume "follow {124, 41, 38, 59} ts'"
    moreover have "\<And>ts. parses parseline b (tokens c @ Sym 41 # ts) c (Sym 41 # ts)" using that(2) by (simp add: follow_def)
    ultimately show "parses parseexec b (paren 0 c (tokens c) @ ts') c ts'"
      using parseexec_block [OF z, of ts' c "[]"] that(1) by (simp add: paren_def)
  qed
  have P_E: ?P if "lev c \<noteq> 1" ?E
  proof (intro allI impI)
    fix ts' assume f: "follow {41, 38, 59} ts'"
    have "paren 1 c (tokens c) = paren 0 c (tokens c)" using that(1) by (simp add: paren_def)
    then show "parses parsepipe b (paren 1 c (tokens c) @ ts') c ts'" using parsepipe_one [OF z f] that(2) follow_mono [OF f, of "{124, 41, 38, 59}"] by auto
  qed
  have B_P: ?B if "lev c \<noteq> 2" ?P
  proof (intro allI impI)
    fix ts' assume f: "follow {41, 59} ts'"
    have "paren 2 c (tokens c) = paren 1 c (tokens c)" using that(1) by (simp add: paren_def)
    then show "parses parsepart b (paren 2 c (tokens c) @ ts') c ts'"
      using parsepart_back [OF z f, of "paren 1 c (tokens c)" 0 c] that(2) follow_mono [OF f, of "{41, 38, 59}"] by auto
  qed
  have L_B: ?L if "lev c \<noteq> 3" ?B
  proof (intro allI impI)
    fix ts' assume f: "follow {41} ts'"
    have "lev c \<le> 2" using that(1) by (cases c) auto
    then have "paren 2 c (tokens c) = tokens c" by (simp add: paren_def)
    then show "parses parseline b (tokens c @ ts') c ts'" using parseline_one [OF z f] that(2) follow_mono [OF f, of "{41, 59}"] by auto
  qed
  consider "lev c = 0" | l r where "c = PIPE l r" | d where "c = BACK d" | l r where "c = LIST l r" by (cases c) auto
  then show "reads b c"
  proof cases
    case 1
    have ?E
    proof (intro allI impI)
      fix ts' assume f: "follow {124, 41, 38, 59} ts'"
      from strip_redirs [OF 1 less.prems] obtain base rs where b: "c = redirs base rs" "cmd_ok base" "(\<exists>as. base = EXEC as \<and> tokens c = map Word as @ redir_toks rs) \<or>
        (0 < lev base \<and> size base < size c \<and> tokens c = Sym 40 # tokens base @ Sym 41 # redir_toks rs)" by blast
      from b(3) show "parses parseexec b (paren 0 c (tokens c) @ ts') c ts'"
      proof (elim disjE exE conjE)
        fix as assume "base = EXEC as" "tokens c = map Word as @ redir_toks rs"
        then show ?thesis using parseexec_exec [OF z f, of as rs] b(1,2) 1 by (simp add: paren_def)
      next
        assume "size base < size c" "tokens c = Sym 40 # tokens base @ Sym 41 # redir_toks rs"
        then show ?thesis using parseexec_block [OF z f line, of base rs] b(1,2) 1 by (simp add: paren_def)
      qed
    qed
    moreover have "lev c \<noteq> 1" "lev c \<noteq> 2" "lev c \<noteq> 3" using 1 by simp_all
    ultimately show ?thesis using P_E B_P L_B unfolding reads_def by blast
  next
    case 2
    have r: "reads b l" "reads b r" using ih less.prems 2 by simp_all
    have ?P
    proof (intro allI impI)
      fix ts' assume f: "follow {41, 38, 59} ts'"
      have "follow {124, 41, 38, 59} (Sym 124 # paren 1 r (tokens r) @ ts')" by (simp add: follow_def)
      then have "parses parseexec b (paren 0 l (tokens l) @ Sym 124 # paren 1 r (tokens r) @ ts') l (Sym 124 # paren 1 r (tokens r) @ ts')"
        using r(1) unfolding reads_def by blast
      moreover have "paren 1 c (tokens c) = paren 0 l (tokens l) @ Sym 124 # paren 1 r (tokens r)" by (simp add: 2 paren_def [of _ "PIPE l r"])
      moreover have "parses parsepipe b (paren 1 r (tokens r) @ ts') r ts'" using r(2) f unfolding reads_def by blast
      ultimately show "parses parsepipe b (paren 1 c (tokens c) @ ts') c ts'" using parsepipe_pipe [OF z] 2 by simp
    qed
    moreover have "lev c \<noteq> 2" "lev c \<noteq> 3" "0 < lev c" using 2 by simp_all
    ultimately show ?thesis using E_L B_P L_B unfolding reads_def by blast
  next
    case 3
    have ?B
    proof (intro allI impI)
      fix ts' assume f: "follow {41, 59} ts'"
      have "lev c = 2" using 3 by simp
      with strip_back [OF less.prems] obtain k e where e: "c = (BACK ^^ k) e" "cmd_ok e" "paren 2 c (tokens c) = paren 1 e (tokens e) @ replicate k (Sym 38)" "size e < size c"
        by blast
      have "follow {41, 38, 59} (replicate k (Sym 38) @ ts')" using f by (cases k) (auto simp: follow_def)
      then have "parses parsepipe b (paren 1 e (tokens e) @ replicate k (Sym 38) @ ts') e (replicate k (Sym 38) @ ts')"
        using ih [OF e(4,2)] by (simp add: reads_def)
      from parsepart_back [OF z f this] show "parses parsepart b (paren 2 c (tokens c) @ ts') c ts'" using e(1,3) by simp
    qed
    moreover have "lev c \<noteq> 1" "lev c \<noteq> 3" "0 < lev c" using 3 by simp_all
    ultimately show ?thesis using E_L P_E L_B unfolding reads_def by blast
  next
    case 4
    have r: "reads b l" "reads b r" using ih less.prems 4 by simp_all
    have ?L
    proof (intro allI impI)
      fix ts' assume f: "follow {41} ts'"
      have "follow {41, 59} (Sym 59 # tokens r @ ts')" by (simp add: follow_def)
      then have "parses parsepart b (paren 2 l (tokens l) @ Sym 59 # tokens r @ ts') l (Sym 59 # tokens r @ ts')" using r(1) unfolding reads_def by blast
      from parseline_list [OF z this] r(2) f show "parses parseline b (tokens c @ ts') c ts'" by (simp add: reads_def 4)
    qed
    moreover have "lev c \<noteq> 1" "lev c \<noteq> 2" "0 < lev c" using 4 by simp_all
    ultimately show ?thesis using E_L P_E B_P unfolding reads_def by blast
  qed
qed

section \<open>The text of a command\<close>

fun tok_text :: "tok \<Rightarrow> uchar list" where
  "tok_text (Sym c) = [c]"
| "tok_text App = [62, 62]"
| "tok_text (Word w) = w"

text \<open>Every token is followed by a space.\<close>

definition render :: "tok list \<Rightarrow> uchar list" where
  "render ts = concat (map (\<lambda>t. tok_text t @ [32]) ts)"

fun tok_ok :: "tok \<Rightarrow> bool" where
  "tok_ok (Sym c) \<longleftrightarrow> c \<in> set symbols"
| "tok_ok App \<longleftrightarrow> True"
| "tok_ok (Word w) \<longleftrightarrow> word_ok w"

lemma space: "ws 32" "\<not> wordch 32"
  by (simp_all add: whitespace_def)

lemma tokenize_space: "tokenize (32 # cs) = tokenize cs"
  using tokenize_ws [of "32 # cs"] tokenize_ws [of cs] space(1) by simp

lemma tokenize_tok:
  assumes "tok_ok t"
  shows "tokenize (tok_text t @ 32 # cs) = t # tokenize cs"
proof (cases t)
  case (Sym c)
  have "\<not> ws c" using assms Sym by (auto simp: symbols_def whitespace_def)
  then show ?thesis using assms Sym by (subst tokenize.simps) (auto simp: tokenize_space)
next
  case App
  have "\<not> ws 62" by (simp add: whitespace_def)
  then show ?thesis using App by (subst tokenize.simps) (auto simp: tokenize_space)
next
  case (Word w)
  then obtain c r where w: "w = c # r" "wordch c" "\<forall>x \<in> set r. wordch x" using assms by (cases w) auto
  have "takeWhile wordch (w @ 32 # cs) = w" "dropWhile wordch (w @ 32 # cs) = 32 # cs" using w space(2) by (auto simp: takeWhile_append dropWhile_append)
  moreover have "c \<noteq> 62" using w(2) by (auto simp: symbols_def)
  ultimately show ?thesis using w Word by (subst tokenize.simps) (auto simp: tokenize_space)
qed

lemma tokenize_render: "\<forall>t \<in> set ts. tok_ok t \<Longrightarrow> tokenize (render ts) = ts"
proof (induction ts)
  case Nil
  then show ?case by (simp add: render_def tokenize.simps)
next
  case (Cons t ts)
  then show ?case using tokenize_tok [of t "render ts"] by (simp add: render_def)
qed

lemma tokens_ok: "cmd_ok c \<Longrightarrow> \<forall>t \<in> set (tokens c). tok_ok t"
  by (induction c) (auto simp: paren_def symbols_def)

lemma render_nonzero: "\<forall>t \<in> set ts. tok_ok t \<Longrightarrow> 0 \<notin> set (render ts)"
proof (induction ts)
  case (Cons t ts)
  have "0 \<notin> set (tok_text t)" using Cons.prems by (cases t) (auto simp: symbols_def)
  then show ?case using Cons by (simp add: render_def)
qed (simp add: render_def)


text \<open>\<^verbatim>\<open>( ls | wc ) > out ; sleep &\<close>\<close>

definition demo_cmd :: "uchar list cmd" where
  "demo_cmd = LIST (REDIR (PIPE (EXEC [[108, 115]]) (EXEC [[119, 99]])) [111, 117, 116] SH_CREATE 1) (BACK (EXEC [[115, 108, 101, 101, 112]]))"


end
