(* ===== verification/Sh_Run.thy ===== *)
theory Sh_Run
  imports Sh_Parse
begin

text \<open>
  \<^verbatim>\<open>runcmd\<close> and the main loop of the shell. The system calls on descriptors are interpreted on the table of
  open files of the process; what is left is the tree of the processes: \<open>BFork\<close> has the child and the
  continuation of the parent. Whether a file can be opened, a program executed, a process or a pipe made is up to the kernel
  and is given by the environment.
\<close>

section \<open>Processes\<close>

text \<open>A pipe is named by the place of its \<^verbatim>\<open>PIPE\<close> command in the line.\<close>

datatype object = Inherited nat | Opened "uchar list" int | PipeRead "nat list" | PipeWrite "nat list"

type_synonym fdtable = "nat \<Rightarrow> object option"

datatype behaviour =
    BExit
  | BPrint "uchar list" behaviour
  | BExec "uchar list list" fdtable
  | BWait fdtable behaviour
  | BFork behaviour behaviour

record sysenv =
  can_exec :: "uchar list \<Rightarrow> bool"
  can_open :: "uchar list \<Rightarrow> int \<Rightarrow> bool"
  can_fork :: "nat list \<Rightarrow> bool"
  can_pipe :: "nat list \<Rightarrow> bool"

definition lowest_fd :: "fdtable \<Rightarrow> nat option" where
  "lowest_fd t = find (\<lambda>fd. t fd = None) [0..<16]"

definition sh_close :: "nat \<Rightarrow> fdtable \<Rightarrow> fdtable" where
  "sh_close fd t = t(fd := None)"

definition sh_open :: "object \<Rightarrow> fdtable \<Rightarrow> fdtable option" where
  "sh_open x t = map_option (\<lambda>fd. t(fd := Some x)) (lowest_fd t)"

definition sh_dup :: "nat \<Rightarrow> fdtable \<Rightarrow> fdtable" where
  "sh_dup fd t = (case (t fd, lowest_fd t) of (Some x, Some n) \<Rightarrow> t(n := Some x) | _ \<Rightarrow> t)"

definition sh_pipe :: "nat list \<Rightarrow> fdtable \<Rightarrow> (nat \<times> nat \<times> fdtable) option" where
  "sh_pipe path t =
     (case lowest_fd t of
        None \<Rightarrow> None
      | Some p0 \<Rightarrow>
          let t1 = t(p0 := Some (PipeRead path))
          in map_option (\<lambda>p1. (p0, p1, t1(p1 := Some (PipeWrite path)))) (lowest_fd t1))"

section \<open>runcmd\<close>

text \<open>The messages of the source, without the file names that are printed into them.\<close>

abbreviation (input) "msg_exec \<equiv> [101, 120, 101, 99, 32] :: uchar list"
abbreviation (input) "msg_open \<equiv> [111, 112, 101, 110, 32] :: uchar list"
abbreviation (input) "msg_failed \<equiv> [32, 102, 97, 105, 108, 101, 100, 10] :: uchar list"
abbreviation (input) "msg_fork \<equiv> [102, 111, 114, 107, 10] :: uchar list"
abbreviation (input) "msg_pipe \<equiv> [112, 105, 112, 101, 10] :: uchar list"

definition fork1 :: "sysenv \<Rightarrow> nat list \<Rightarrow> behaviour \<Rightarrow> behaviour \<Rightarrow> behaviour" where
  "fork1 env path child parent = (if can_fork env path then BFork child parent else BPrint msg_fork BExit)"

primrec runcmd :: "sysenv \<Rightarrow> uchar list cmd \<Rightarrow> nat list \<Rightarrow> fdtable \<Rightarrow> behaviour" where
  "runcmd env (EXEC argv) path t =
     (if argv = [] then BExit
      else if can_exec env (hd argv) then BExec argv t
      else BPrint (msg_exec @ hd argv @ msg_failed) BExit)"
| "runcmd env (REDIR c file mode fd) path t =
     (let t1 = sh_close (nat fd) t
      in case (if can_open env file mode then sh_open (Opened file mode) t1 else None) of
           None \<Rightarrow> BPrint (msg_open @ file @ msg_failed) BExit
         | Some t2 \<Rightarrow> runcmd env c (path @ [0]) t2)"
| "runcmd env (LIST l r) path t =
     fork1 env (path @ [2]) (runcmd env l (path @ [0]) t) (BWait t (runcmd env r (path @ [1]) t))"
| "runcmd env (PIPE l r) path t =
     (case (if can_pipe env path then sh_pipe path t else None) of
        None \<Rightarrow> BPrint msg_pipe BExit
      | Some (p0, p1, t1) \<Rightarrow>
          fork1 env (path @ [2])
            (runcmd env l (path @ [0]) (sh_close p1 (sh_close p0 (sh_dup p1 (sh_close 1 t1)))))
            (fork1 env (path @ [3])
              (runcmd env r (path @ [1]) (sh_close p1 (sh_close p0 (sh_dup p0 (sh_close 0 t1)))))
              (let t2 = sh_close p1 (sh_close p0 t1) in BWait t2 (BWait t2 BExit))))"
| "runcmd env (BACK c) path t = fork1 env (path @ [2]) (runcmd env c (path @ [0]) t) BExit"

section \<open>main\<close>

text \<open>The command with the strings that its pointers stand for.\<close>

definition strings :: "uchar list \<Rightarrow> span cmd \<Rightarrow> uchar list cmd" where
  "strings m c = map_cmd (\<lambda>w. cstring m (fst w)) c"

text \<open>The loop that opens the console until three descriptors are in use. It runs at most four times.\<close>

fun open_console :: "nat \<Rightarrow> fdtable \<Rightarrow> fdtable" where
  "open_console 0 t = t"
| "open_console (Suc n) t =
     (case lowest_fd t of
        None \<Rightarrow> t
      | Some fd \<Rightarrow> if fd \<ge> 3 then t else open_console n (t(fd := Some (Inherited fd))))"

datatype action = Chdir "uchar list" | Job behaviour | Syntax string

text \<open>\<open>lines\<close> are the strings that \<^verbatim>\<open>gets\<close> puts into \<^verbatim>\<open>buf\<close>; an empty one is the end of the input.\<close>

fun sh_main :: "sysenv \<Rightarrow> fdtable \<Rightarrow> uchar list list \<Rightarrow> action list" where
  "sh_main env t [] = []"
| "sh_main env t (buf # bufs) =
     (if buf = [] then []
      else if take 3 buf = [99, 100, 32] then Chdir (drop 3 (butlast buf)) # sh_main env t bufs
      else
        (case parsecmd buf of
           Ok (c, m) \<Rightarrow> Job (fork1 env [0] (runcmd env (strings m c) [] t) (BWait t BExit))
         | Panic msg \<Rightarrow> Syntax msg
         | Hang \<Rightarrow> Syntax []) # sh_main env t bufs)"

section \<open>Where the descriptors point\<close>

text \<open>What a command line means: the programs it runs, each with its standard input and output.\<close>

primrec plumbing :: "uchar list cmd \<Rightarrow> nat list \<Rightarrow> object \<Rightarrow> object \<Rightarrow> (uchar list list \<times> object \<times> object) list" where
  "plumbing (EXEC argv) path i out = (if argv = [] then [] else [(argv, i, out)])"
| "plumbing (REDIR c file mode fd) path i out =
     (if fd = 0 then plumbing c (path @ [0]) (Opened file mode) out else plumbing c (path @ [0]) i (Opened file mode))"
| "plumbing (LIST l r) path i out = plumbing l (path @ [0]) i out @ plumbing r (path @ [1]) i out"
| "plumbing (PIPE l r) path i out = plumbing l (path @ [0]) i (PipeWrite path) @ plumbing r (path @ [1]) (PipeRead path) out"
| "plumbing (BACK c) path i out = plumbing c (path @ [0]) i out"

primrec execs :: "behaviour \<Rightarrow> (uchar list list \<times> fdtable) list" where
  "execs BExit = []"
| "execs (BPrint m b) = execs b"
| "execs (BExec argv t) = [(argv, t)]"
| "execs (BWait t b) = execs b"
| "execs (BFork c p) = execs c @ execs p"

primrec waits :: "behaviour \<Rightarrow> fdtable list" where
  "waits BExit = []"
| "waits (BPrint m b) = waits b"
| "waits (BExec argv t) = []"
| "waits (BWait t b) = t # waits b"
| "waits (BFork c p) = waits c @ waits p"

lemma lowest_fdI:
  assumes "n < 16" "t n = None" "\<And>k. k < n \<Longrightarrow> t k \<noteq> None"
  shows "lowest_fd t = Some n"
  unfolding lowest_fd_def find_Some_iff using assms by (intro exI [of _ n]) auto

lemma lowest_fdD:
  assumes "lowest_fd t = Some n"
  shows "n < 16" "t n = None" "\<And>k. k < n \<Longrightarrow> t k \<noteq> None"
  using assms unfolding lowest_fd_def find_Some_iff by auto

definition std :: "fdtable \<Rightarrow> object \<Rightarrow> object \<Rightarrow> fdtable" where
  "std t i out = t(0 := Some i, 1 := Some out)"

definition willing :: "sysenv \<Rightarrow> bool" where
  "willing env \<longleftrightarrow> (\<forall>x. can_exec env x) \<and> (\<forall>x m. can_open env x m) \<and> (\<forall>p. can_fork env p) \<and> (\<forall>p. can_pipe env p)"

text \<open>The two lowest free descriptors above standard output.\<close>

definition free_pair :: "fdtable \<Rightarrow> nat \<Rightarrow> nat \<Rightarrow> bool" where
  "free_pair t p0 p1 \<longleftrightarrow> 1 < p0 \<and> p0 < p1 \<and> p1 < 16 \<and> t p0 = None \<and> t p1 = None \<and> (\<forall>k < p1. 1 < k \<and> k \<noteq> p0 \<longrightarrow> t k \<noteq> None)"

lemma free_pair_exists:
  assumes "1 < p" "p < q" "q < 16" "t p = None" "t q = None"
  shows "\<exists>p0 p1. free_pair t p0 p1"
proof -
  let ?P = "\<lambda>k. 1 < k \<and> t k = None"
  define p0 where "p0 = (LEAST k. ?P k)"
  have p0: "?P p0" "p0 \<le> p" "\<And>k. k < p0 \<Longrightarrow> \<not> ?P k" unfolding p0_def using LeastI [of ?P p] Least_le [of ?P p] not_less_Least [of _ ?P] assms by auto
  let ?Q = "\<lambda>k. p0 < k \<and> t k = None"
  define p1 where "p1 = (LEAST k. ?Q k)"
  have "?Q q" using p0(2) assms by simp
  then have p1: "?Q p1" "p1 \<le> q" "\<And>k. k < p1 \<Longrightarrow> \<not> ?Q k" unfolding p1_def using LeastI [of ?Q q] Least_le [of ?Q q] not_less_Least [of _ ?Q] by auto
  have "t k \<noteq> None" if "k < p1" "1 < k" "k \<noteq> p0" for k using p0(3) [of k] p1(3) [of k] that by (cases "k < p0") auto
  then show ?thesis using p0(1) p1(1,2) assms(3) unfolding free_pair_def by (intro exI [of _ p0] exI [of _ p1]) auto
qed

lemma lowest_std0: "lowest_fd (sh_close 0 (std t i out)) = Some 0"
  by (rule lowest_fdI) (auto simp: sh_close_def std_def)

lemma open_std:
  "fd = 0 \<or> fd = 1 \<Longrightarrow> sh_open x (sh_close fd (std t i out)) = Some (if fd = 0 then std t x out else std t i x)"
proof -
  assume "fd = 0 \<or> fd = 1"
  moreover have "lowest_fd (sh_close 1 (std t i out)) = Some 1" by (rule lowest_fdI) (auto simp: sh_close_def std_def)
  ultimately show ?thesis using lowest_std0 [of t i out] by (auto simp: sh_open_def sh_close_def std_def fun_eq_iff)
qed

lemma pipe_std:
  assumes "free_pair t p0 p1"
  shows "sh_pipe path (std t i out) = Some (p0, p1, (std t i out)(p0 := Some (PipeRead path), p1 := Some (PipeWrite path)))"
proof -
  have "lowest_fd (std t i out) = Some p0" by (rule lowest_fdI) (use assms in \<open>auto simp: std_def free_pair_def\<close>)
  moreover have "lowest_fd ((std t i out)(p0 := Some (PipeRead path))) = Some p1" by (rule lowest_fdI) (use assms in \<open>auto simp: std_def free_pair_def\<close>)
  ultimately show ?thesis by (simp add: sh_pipe_def)
qed

text \<open>The three processes of a pipe have closed the ends that are not theirs.\<close>

lemma pipe_ends:
  fixes i out path
  assumes "free_pair t p0 p1"
  defines "t1 \<equiv> (std t i out)(p0 := Some (PipeRead path), p1 := Some (PipeWrite path))"
  shows "sh_close p1 (sh_close p0 (sh_dup p1 (sh_close 1 t1))) = std t i (PipeWrite path)"
    "sh_close p1 (sh_close p0 (sh_dup p0 (sh_close 0 t1))) = std t (PipeRead path) out"
    "sh_close p1 (sh_close p0 t1) = std t i out"
proof -
  have p: "1 < p0" "p0 < p1" "t p0 = None" "t p1 = None" using assms by (auto simp: free_pair_def)
  have "lowest_fd (sh_close 1 t1) = Some 1" by (rule lowest_fdI) (use p in \<open>auto simp: sh_close_def t1_def std_def\<close>)
  then show "sh_close p1 (sh_close p0 (sh_dup p1 (sh_close 1 t1))) = std t i (PipeWrite path)"
    using p by (auto simp: sh_dup_def sh_close_def t1_def std_def fun_eq_iff)
  have "lowest_fd (sh_close 0 t1) = Some 0" by (rule lowest_fdI) (use p in \<open>auto simp: sh_close_def t1_def std_def\<close>)
  then show "sh_close p1 (sh_close p0 (sh_dup p0 (sh_close 0 t1))) = std t (PipeRead path) out"
    using p by (auto simp: sh_dup_def sh_close_def t1_def std_def fun_eq_iff)
  show "sh_close p1 (sh_close p0 t1) = std t i out" using p by (auto simp: sh_close_def t1_def std_def fun_eq_iff)
qed

primrec std_redirs :: "'w cmd \<Rightarrow> bool" where
  "std_redirs (EXEC argv) \<longleftrightarrow> True"
| "std_redirs (REDIR c w mode fd) \<longleftrightarrow> std_redirs c \<and> (fd = 0 \<or> fd = 1)"
| "std_redirs (PIPE l r) \<longleftrightarrow> std_redirs l \<and> std_redirs r"
| "std_redirs (LIST l r) \<longleftrightarrow> std_redirs l \<and> std_redirs r"
| "std_redirs (BACK c) \<longleftrightarrow> std_redirs c"

lemma runcmd_plumbing:
  assumes "willing env" and "free_pair t p0 p1"
  shows "std_redirs c \<Longrightarrow>
    execs (runcmd env c path (std t i out)) = map (\<lambda>(argv, i', out'). (argv, std t i' out')) (plumbing c path i out) \<and>
    (\<forall>w \<in> set (waits (runcmd env c path (std t i out))). \<exists>i' out'. w = std t i' out')"
proof (induction c arbitrary: path i out)
  case (EXEC argv)
  then show ?case using assms(1) by (simp add: willing_def)
next
  case (REDIR c f mode fd)
  then have fd: "nat fd = 0 \<or> nat fd = 1" "(nat fd = 0) = (fd = 0)" by auto
  show ?case using REDIR assms(1) open_std [OF fd(1), of "Opened f mode" t i out] fd(2) by (simp add: willing_def)
next
  case (PIPE l r)
  then show ?case using assms(1) by (simp add: willing_def fork1_def pipe_std [OF assms(2)] pipe_ends [OF assms(2)] Let_def del: One_nat_def) blast
next
  case (LIST l r)
  then show ?case using assms(1) by (simp add: willing_def fork1_def) blast
next
  case (BACK c)
  then show ?case using assms(1) by (simp add: willing_def fork1_def)
qed

lemma parsed_std: "parsed b c \<Longrightarrow> std_redirs (map_cmd f c)"
  by (induction c) auto

text \<open>C24: Every program that a command line starts has exactly the descriptors that the line says. For every line the parser
  accepts, when the shell has its three standard descriptors, two more are free and the kernel grants its requests, the programs that are
  executed, in order, are those of the line, each with its standard input and output taken from the enclosing
  redirections and pipes, and with no other descriptor opened or closed: no program and no waiting shell keeps
  an end of a pipe open.\<close>

theorem sh_run_plumbing:
  assumes "parsecmd b = Ok (c, m)" and "willing env" and "t 0 = Some i" and "t 1 = Some out"
    and "1 < p" and "p < q" and "q < 16" and "t p = None" and "t q = None"
  shows "execs (runcmd env (strings m c) [] t) = map (\<lambda>(argv, i', out'). (argv, t(0 := Some i', 1 := Some out'))) (plumbing (strings m c) [] i out) \<and>
    (\<forall>w \<in> set (waits (runcmd env (strings m c) [] t)). \<forall>fd. 1 < fd \<longrightarrow> w fd = t fd)"
proof -
  obtain p0 p1 where fp: "free_pair t p0 p1" using free_pair_exists [of p q t] assms by blast
  have t: "std t i out = t" using assms(3,4) by (auto simp: std_def fun_eq_iff)
  have "parsed b c" using assms(1) parse_parsed [of "4 * length b + 4" b 0] by (auto simp: parsecmd_def split: if_splits prod.splits elim!: ok_elims)
  then have "std_redirs (strings m c)" unfolding strings_def by (rule parsed_std)
  note r = runcmd_plumbing [OF assms(2) fp this, of "[]" i out, unfolded t]
  have "\<forall>fd. 1 < fd \<longrightarrow> w fd = t fd" if "w \<in> set (waits (runcmd env (strings m c) [] t))" for w
  proof -
    from that r obtain i' out' where "w = std t i' out'" by blast
    then show ?thesis by (simp add: std_def)
  qed
  then show ?thesis using r by (auto simp: std_def)
qed

definition demo_fds :: fdtable where
  "demo_fds = (\<lambda>_. None)(0 := Some (Inherited 0), 1 := Some (Inherited 1), 2 := Some (Inherited 2))"

definition demo_env :: sysenv where
  "demo_env = \<lparr>can_exec = \<lambda>_. True, can_open = \<lambda>_ _. True, can_fork = \<lambda>_. True, can_pipe = \<lambda>_. True\<rparr>"

text \<open>\<^verbatim>\<open>a|b>f\<close>\<close>

theorem sh_run_plumbing_witness:
  "\<exists>c m. parsecmd [97, 124, 98, 62, 102] = Ok (c, m) \<and>
     execs (runcmd demo_env (strings m c) [] demo_fds) =
       [([[97]], demo_fds(1 := Some (PipeWrite []))), ([[98]], demo_fds(0 := Some (PipeRead []), 1 := Some (Opened [102] 0x201)))]"
proof -
  have run: "parsecmd [97, 124, 98, 62, 102] = Ok (PIPE (EXEC [(0, 1)]) (REDIR (EXEC [(2, 3)]) (4, 5) 0x201 1), [97, 0, 98, 0, 102, 0])"
    by code_simp
  let ?c = "PIPE (EXEC [(0, 1)]) (REDIR (EXEC [(2, 3)]) (4, 5) 0x201 1) :: span cmd" and ?m = "[97, 0, 98, 0, 102, 0] :: uchar list"
  have "strings ?m ?c = PIPE (EXEC [[97]]) (REDIR (EXEC [[98]]) [102] 0x201 1)" by (simp add: strings_def cstring_def)
  moreover have "demo_fds(0 := Some (Inherited 0)) = demo_fds" by (auto simp: demo_fds_def fun_eq_iff)
  ultimately show ?thesis
    using run sh_run_plumbing [OF run, of demo_env demo_fds "Inherited 0" "Inherited 1" 3 4] by (auto simp: willing_def demo_env_def demo_fds_def)
qed

end
