(* ===== verification/Grep.thy ===== *)
theory Grep
  imports Prelude
begin

text \<open>
  The programs \<^verbatim>\<open>grep.c\<close> and \<^verbatim>\<open>wc.c\<close>. C strings are lists of bytes without the terminating NUL; \<^verbatim>\<open>read\<close> is the list of
  the chunks that its calls return until it returns 0. Characters are written as codes:
  36 is \<^verbatim>\<open>$\<close>, 42 \<^verbatim>\<open>*\<close>, 46 \<^verbatim>\<open>.\<close>, 94 \<^verbatim>\<open>^\<close> and 10 the newline.
\<close>

section \<open>The matcher\<close>

text \<open>\<^verbatim>\<open>matchhere\<close> and the loop of \<^verbatim>\<open>matchstar\<close>.\<close>

function (sequential) matchhere :: "uchar list \<Rightarrow> uchar list \<Rightarrow> bool"
  and matchstar :: "uchar \<Rightarrow> uchar list \<Rightarrow> uchar list \<Rightarrow> bool" where
  "matchhere [] text = True"
| "matchhere (c # re) text =
     (if re \<noteq> [] \<and> hd re = 42 then matchstar c (tl re) text
      else if c = 36 \<and> re = [] then text = []
      else (case text of [] \<Rightarrow> False | x # text' \<Rightarrow> if c = 46 \<or> c = x then matchhere re text' else False))"
| "matchstar c re text =
     (matchhere re text \<or> (case text of [] \<Rightarrow> False | x # text' \<Rightarrow> (x = c \<or> c = 46) \<and> matchstar c re text'))"
  by pat_completeness auto
termination
  by (relation "measures [\<lambda>x. case x of Inl (re, t) \<Rightarrow> length re | Inr (c, re, t) \<Rightarrow> length re + 1,
      \<lambda>x. case x of Inl (re, t) \<Rightarrow> length t | Inr (c, re, t) \<Rightarrow> length t]") (auto simp: neq_Nil_conv)

declare matchhere.simps(2) [simp del] matchstar.simps [simp del]

text \<open>The loop of \<^verbatim>\<open>match\<close> looks at every suffix of the text, the empty one included.\<close>

fun match_loop :: "uchar list \<Rightarrow> uchar list \<Rightarrow> bool" where
  "match_loop re [] = matchhere re []"
| "match_loop re (x # text) = (matchhere re (x # text) \<or> match_loop re text)"

definition match :: "uchar list \<Rightarrow> uchar list \<Rightarrow> bool" where
  "match re text = (if re \<noteq> [] \<and> hd re = 94 then matchhere (tl re) text else match_loop re text)"

section \<open>What a pattern means\<close>

text \<open>A pattern is a sequence of characters, each once or any number of times, and perhaps a final \<^verbatim>\<open>$\<close>. Its meaning is the set of the
  strings it describes.\<close>

datatype atom = One uchar | Many uchar

fun atoms :: "uchar list \<Rightarrow> atom list \<times> bool" where
  "atoms [] = ([], False)"
| "atoms [c] = (if c = 36 then ([], True) else ([One c], False))"
| "atoms (c # d # re) =
     (if d = 42 then (case atoms re of (as, e) \<Rightarrow> (Many c # as, e)) else (case atoms (d # re) of (as, e) \<Rightarrow> (One c # as, e)))"

definition fits :: "uchar \<Rightarrow> uchar \<Rightarrow> bool" where
  "fits c x \<longleftrightarrow> c = 46 \<or> c = x"

fun lang :: "atom list \<Rightarrow> uchar list set" where
  "lang [] = {[]}"
| "lang (One c # as) = {x # w |x w. fits c x \<and> w \<in> lang as}"
| "lang (Many c # as) = {u @ w |u w. (\<forall>x \<in> set u. fits c x) \<and> w \<in> lang as}"

text \<open>\<open>text\<close> starts with a string of the pattern, and is one if the pattern ends in \<^verbatim>\<open>$\<close>.\<close>

definition starts :: "atom list \<times> bool \<Rightarrow> uchar list \<Rightarrow> bool" where
  "starts p text \<longleftrightarrow> (\<exists>w r. text = w @ r \<and> w \<in> lang (fst p) \<and> (snd p \<longrightarrow> r = []))"

lemma startsI: "text = w @ r \<Longrightarrow> w \<in> lang as \<Longrightarrow> (e \<Longrightarrow> r = []) \<Longrightarrow> starts (as, e) text"
  unfolding starts_def by auto

lemma startsE:
  assumes "starts (as, e) text"
  obtains w r where "text = w @ r" "w \<in> lang as" "e \<longrightarrow> r = []"
  using assms unfolding starts_def by auto

lemma starts_One: "starts (One c # as, e) text \<longleftrightarrow> (\<exists>x t. text = x # t \<and> fits c x \<and> starts (as, e) t)"
proof
  assume "starts (One c # as, e) text"
  then obtain w r where w: "text = w @ r" "w \<in> lang (One c # as)" "e \<longrightarrow> r = []" by (rule startsE)
  then obtain x v where "w = x # v" "fits c x" "v \<in> lang as" by auto
  then show "\<exists>x t. text = x # t \<and> fits c x \<and> starts (as, e) t" using w by (auto intro!: startsI)
next
  assume "\<exists>x t. text = x # t \<and> fits c x \<and> starts (as, e) t"
  then obtain x w r where "text = x # w @ r" "fits c x" "w \<in> lang as" "e \<longrightarrow> r = []" by (auto elim!: startsE)
  then show "starts (One c # as, e) text" by (intro startsI [of _ "x # w" r]) auto
qed

lemma starts_ManyI: "text = u @ t \<Longrightarrow> \<forall>x \<in> set u. fits c x \<Longrightarrow> starts (as, e) t \<Longrightarrow> starts (Many c # as, e) text"
proof (elim startsE)
  fix w r assume "text = u @ t" "\<forall>x \<in> set u. fits c x" "t = w @ r" "w \<in> lang as" "e \<longrightarrow> r = []"
  then show ?thesis by (intro startsI [of _ "u @ w" r]) auto
qed

lemma starts_ManyE:
  assumes "starts (Many c # as, e) text"
  obtains u t where "text = u @ t" "\<forall>x \<in> set u. fits c x" "starts (as, e) t"
proof -
  from assms obtain w r where w: "text = w @ r" "w \<in> lang (Many c # as)" "e \<longrightarrow> r = []" by (rule startsE)
  then obtain u v where u: "w = u @ v" "\<forall>x \<in> set u. fits c x" "v \<in> lang as" by auto
  show ?thesis by (rule that [of u "v @ r"]) (use w u in \<open>auto intro!: startsI\<close>)
qed

lemma starts_Many: "starts (Many c # as, e) text \<longleftrightarrow> starts (as, e) text \<or> (\<exists>x t. text = x # t \<and> fits c x \<and> starts (Many c # as, e) t)"
proof
  assume "starts (Many c # as, e) text"
  then obtain u t where u: "text = u @ t" "\<forall>x \<in> set u. fits c x" "starts (as, e) t" by (rule starts_ManyE)
  show "starts (as, e) text \<or> (\<exists>x t. text = x # t \<and> fits c x \<and> starts (Many c # as, e) t)"
  proof (cases u)
    case (Cons x v)
    then have "starts (Many c # as, e) (v @ t)" using u by (intro starts_ManyI) auto
    then show ?thesis using u Cons by auto
  qed (use u in simp)
next
  assume "starts (as, e) text \<or> (\<exists>x t. text = x # t \<and> fits c x \<and> starts (Many c # as, e) t)"
  then show "starts (Many c # as, e) text"
  proof (elim disjE exE conjE)
    assume "starts (as, e) text"
    then show ?thesis by (rule starts_ManyI [of _ "[]", rotated 2]) auto
  next
    fix x t assume x: "text = x # t" "fits c x" "starts (Many c # as, e) t"
    from x(3) obtain u v where "t = u @ v" "\<forall>x \<in> set u. fits c x" "starts (as, e) v" by (rule starts_ManyE)
    then show ?thesis using x by (intro starts_ManyI [of _ "x # u" v]) auto
  qed
qed

lemma starts_none: "starts ([], e) text \<longleftrightarrow> (e \<longrightarrow> text = [])"
  by (auto simp: starts_def)

lemma matchhere_starts: "matchhere re t \<longleftrightarrow> starts (atoms re) t"
  and matchstar_starts: "matchstar c re t \<longleftrightarrow> starts (Many c # fst (atoms re), snd (atoms re)) t"
proof (induction re t and c re t rule: matchhere_matchstar.induct)
  case (1 t)
  then show ?case by (simp add: starts_none)
next
  case (2 c re t)
  consider "re \<noteq> []" "hd re = 42" | "c = 36" "re = []" | "\<not> (re \<noteq> [] \<and> hd re = 42)" "\<not> (c = 36 \<and> re = [])" by blast
  then show ?case
  proof cases
    case 1
    then obtain re' where "re = 42 # re'" by (cases re) auto
    then show ?thesis using 2(1) by (auto simp: matchhere.simps(2) split: prod.split)
  next
    case 2
    then show ?thesis by (simp add: matchhere.simps(2) starts_none)
  next
    case 3
    then have a: "atoms (c # re) = (One c # fst (atoms re), snd (atoms re))" by (cases re) (auto split: prod.split)
    show ?thesis unfolding a starts_One using 3 2(2) by (auto simp: matchhere.simps(2) fits_def split: list.split)
  qed
next
  case (3 c re t)
  show ?case
    by (subst matchstar.simps, subst starts_Many) (use 3 in \<open>auto simp: fits_def split: list.split\<close>)
qed

lemma match_loop_suffix: "match_loop re l \<longleftrightarrow> (\<exists>pre t. l = pre @ t \<and> matchhere re t)"
proof (induction re l rule: match_loop.induct)
  case (2 re x t)
  have "(\<exists>pre u. x # t = pre @ u \<and> matchhere re u) \<longleftrightarrow> matchhere re (x # t) \<or> (\<exists>pre u. t = pre @ u \<and> matchhere re u)"
    by (auto simp: Cons_eq_append_conv)
  then show ?case using 2 by simp
qed simp

text \<open>C39: The matcher of \<^verbatim>\<open>grep\<close> decides the meaning of the pattern: the three routines that work back and forth on the two strings
  accept a line exactly if some part of it is a string the pattern describes, at the start of the line after
  a leading \<^verbatim>\<open>^\<close> and at its end before a final \<^verbatim>\<open>$\<close>. A \<^verbatim>\<open>.\<close> is any character, a character before \<^verbatim>\<open>*\<close> may occur any number of times.\<close>

theorem grep_match_decides:
  "match re line \<longleftrightarrow>
     (let anchored = (re \<noteq> [] \<and> hd re = 94); p = atoms (if anchored then tl re else re)
      in \<exists>pre w post. line = pre @ w @ post \<and> w \<in> lang (fst p) \<and> (anchored \<longrightarrow> pre = []) \<and> (snd p \<longrightarrow> post = []))"
proof (cases "re \<noteq> [] \<and> hd re = 94")
  case True
  then have "match re line \<longleftrightarrow> starts (atoms (tl re)) line" by (simp add: match_def matchhere_starts)
  then show ?thesis using True unfolding starts_def Let_def by auto
next
  case False
  then have "match re line \<longleftrightarrow> (\<exists>pre t. line = pre @ t \<and> starts (atoms re) t)" by (auto simp: match_def match_loop_suffix matchhere_starts)
  then show ?thesis using False unfolding starts_def Let_def by auto
qed

theorem grep_match_decides_witness:
  "match [94, 97, 98, 42, 36] [97, 98, 98]
   \<and> (\<exists>w. [97, 98, 98] = w \<and> w \<in> lang [One 97, Many 98])"
proof -
  have m: "match [94, 97, 98, 42, 36] [97, 98, 98]" by code_simp
  then show ?thesis using grep_match_decides [of "[94, 97, 98, 42, 36]" "[97, 98, 98]"] by simp
qed

section \<open>grep\<close>

text \<open>\<^verbatim>\<open>strchr(p, '\n')\<close>: the first newline in front of any NUL.\<close>

definition newline_at :: "uchar list \<Rightarrow> nat option" where
  "newline_at b = (let n = length (takeWhile (\<lambda>c. c \<noteq> 0 \<and> c \<noteq> 10) b) in if n < length b \<and> b ! n = 10 then Some n else None)"

function grep_lines :: "uchar list \<Rightarrow> uchar list \<Rightarrow> uchar list \<times> uchar list" where
  "grep_lines re b =
     (case newline_at b of
        None \<Rightarrow> ([], b)
      | Some i \<Rightarrow>
          case grep_lines re (drop (i + 1) b) of (out, rest) \<Rightarrow> ((if match re (take i b) then take (i + 1) b else []) @ out, rest))"
  by auto
termination grep_lines
  by (relation "measure (\<lambda>(re, b). length b)") (auto simp: newline_at_def Let_def split: if_splits)

declare grep_lines.simps [simp del]

text \<open>\<open>b\<close> are the bytes in \<^verbatim>\<open>buf\<close>; \<^verbatim>\<open>p == buf\<close> says that no line was found.\<close>

fun grep_loop :: "uchar list \<Rightarrow> uchar list \<Rightarrow> uchar list list \<Rightarrow> uchar list" where
  "grep_loop re b [] = []"
| "grep_loop re b (ch # chs) =
     (case grep_lines re (b @ ch) of (out, rest) \<Rightarrow>
        out @ grep_loop re (if length rest = length (b @ ch) then [] else rest) chs)"

definition grep :: "uchar list \<Rightarrow> uchar list list \<Rightarrow> uchar list" where
  "grep re chunks = grep_loop re [] chunks"

text \<open>The complete lines of a text, after the start \<open>acc\<close> of the first, and what follows the last of them.\<close>

fun full_lines :: "uchar list \<Rightarrow> uchar list \<Rightarrow> uchar list list" where
  "full_lines acc [] = []"
| "full_lines acc (c # cs) = (if c = 10 then (acc @ [10]) # full_lines [] cs else full_lines (acc @ [c]) cs)"

fun last_part :: "uchar list \<Rightarrow> uchar list \<Rightarrow> uchar list" where
  "last_part acc [] = acc"
| "last_part acc (c # cs) = (if c = 10 then last_part [] cs else last_part (acc @ [c]) cs)"

definition selected :: "uchar list \<Rightarrow> uchar list list \<Rightarrow> uchar list" where
  "selected re ls = concat (filter (\<lambda>l. match re (butlast l)) ls)"

lemma full_lines_append: "full_lines acc (a @ b) = full_lines acc a @ full_lines (last_part acc a) b" "last_part acc (a @ b) = last_part (last_part acc a) b"
  by (induction a arbitrary: acc) auto

lemma full_lines_none: "10 \<notin> set b \<Longrightarrow> full_lines acc b = [] \<and> last_part acc b = acc @ b"
  by (induction b arbitrary: acc) auto

lemma last_part_short: "10 \<in> set b \<Longrightarrow> length (last_part acc b) < length b"
proof (induction b arbitrary: acc)
  case (Cons c b)
  have "length (last_part [] b) \<le> length b" using Cons.IH [of "[]"] full_lines_none [of b "[]"] by (cases "10 \<in> set b") (auto simp: less_imp_le)
  then show ?case using Cons.prems Cons.IH by (auto simp: less_Suc_eq)
qed simp

lemma last_part_set: "set (last_part acc b) \<subseteq> set acc \<union> set b" "10 \<notin> set acc \<Longrightarrow> 10 \<notin> set (last_part acc b)"
proof -
  show "set (last_part acc b) \<subseteq> set acc \<union> set b"
  proof (induction b arbitrary: acc)
    case (Cons c b)
    show ?case using Cons [of "[]"] Cons [of "acc @ [c]"] by auto
  qed simp
  show "10 \<notin> set (last_part acc b)" if "10 \<notin> set acc" using that by (induction b arbitrary: acc) auto
qed

lemma newline_split:
  assumes "0 \<notin> set b"
  shows "case newline_at b of None \<Rightarrow> 10 \<notin> set b
    | Some i \<Rightarrow> i < length b \<and> b ! i = 10 \<and> 10 \<notin> set (take i b)"
proof -
  let ?P = "\<lambda>c. c \<noteq> 0 \<and> c \<noteq> (10 :: uchar)" and ?n = "length (takeWhile (\<lambda>c. c \<noteq> 0 \<and> c \<noteq> (10 :: uchar)) b)"
  have t: "take ?n b = takeWhile ?P b" by (metis takeWhile_eq_take)
  show ?thesis
  proof (cases "10 \<in> set b")
    case True
    then have "takeWhile ?P b \<noteq> b" by (auto simp: takeWhile_eq_all_conv)
    then have "?n \<noteq> length b" using t by (auto simp del: takeWhile_eq_all_conv)
    then have "?n < length b" using length_takeWhile_le [of ?P b] by linarith
    moreover have "\<not> ?P (b ! ?n)" using nth_length_takeWhile [OF calculation] .
    moreover have "b ! ?n \<noteq> 0" using assms nth_mem [OF calculation(1)] by metis
    ultimately have n: "?n < length b" "b ! ?n = 10" by auto
    have "10 \<notin> set (take ?n b)" unfolding t by (auto dest: set_takeWhileD)
    then show ?thesis using n by (simp add: newline_at_def Let_def)
  next
    case False
    then have "\<not> (?n < length b \<and> b ! ?n = 10)" by (auto simp: in_set_conv_nth)
    then show ?thesis using False by (auto simp: newline_at_def Let_def)
  qed
qed

lemma grep_lines_selected: "0 \<notin> set b \<Longrightarrow> grep_lines re b = (selected re (full_lines [] b), last_part [] b)"
proof (induction re b rule: grep_lines.induct)
  case (1 re b)
  note ns = newline_split [OF 1(2)]
  show ?case
  proof (cases "newline_at b")
    case None
    then show ?thesis using ns full_lines_none [of b "[]"] by (simp add: grep_lines.simps selected_def)
  next
    case (Some i)
    define l r where "l = take i b" and "r = drop (i + 1) b"
    have b: "b = l @ 10 # r" "10 \<notin> set l" "take (i + 1) b = l @ [10]"
      using ns Some id_take_nth_drop [of i b] by (auto simp: l_def r_def take_Suc_conv_app_nth)
    have "0 \<notin> set r" using 1(2) unfolding r_def by (meson in_set_dropD)
    from 1(1) [OF Some] this have r: "grep_lines re r = (selected re (full_lines [] r), last_part [] r)" by (simp add: r_def)
    have "full_lines [] b = (l @ [10]) # full_lines [] r" "last_part [] b = last_part [] r"
      unfolding b(1) full_lines_append using full_lines_none [OF b(2), of "[]"] by simp_all
    then show ?thesis using r b(3) by (subst grep_lines.simps) (simp add: Some l_def [symmetric] r_def [simplified, symmetric] selected_def)
  qed
qed

text \<open>When every chunk that \<^verbatim>\<open>read\<close> returns contains a newline, \<^verbatim>\<open>grep\<close> prints exactly the complete lines of its input that match the
  pattern, in order, however the input is cut into chunks.\<close>

theorem grep_prints_matching_lines:
  assumes "\<forall>ch \<in> set chunks. 10 \<in> set ch" and "0 \<notin> set (concat chunks)"
  shows "grep re chunks = selected re (full_lines [] (concat chunks))"
proof -
  have "grep_loop re b chunks = selected re (full_lines b (concat chunks))" if "0 \<notin> set b" "10 \<notin> set b" for b
    using assms that
  proof (induction chunks arbitrary: b)
    case (Cons ch chs)
    let ?b = "b @ ch"
    have z: "0 \<notin> set ?b" using Cons.prems by simp
    have nl: "10 \<in> set ?b" "10 \<in> set ch" using Cons.prems(1) by simp_all
    have fb: "full_lines [] b = []" "last_part [] b = b" using full_lines_none [OF Cons.prems(4), of "[]"] by simp_all
    have "10 \<notin> set (last_part b ch)" "0 \<notin> set (last_part b ch)" using last_part_set [of b ch] Cons.prems(3,4) z by auto
    then have "grep_loop re (last_part b ch) chs = selected re (full_lines (last_part b ch) (concat chs))" using Cons by auto
    then show ?case using grep_lines_selected [OF z, of re] last_part_short [OF nl(1), of "[]"]
      by (simp add: fb full_lines_append selected_def)
  qed (simp add: selected_def)
  then show ?thesis by (simp add: grep_def)
qed

theorem grep_prints_matching_lines_witness:
  "grep [97, 36] [[98, 97, 10, 97], [98, 10, 97, 10]] = [98, 97, 10, 97, 10]"
  using grep_prints_matching_lines [of "[[98, 97, 10, 97], [98, 10, 97, 10]]" "[97, 36]"]
  by (simp add: selected_def match_def matchhere.simps(2))

text \<open>C40: A chunk without a newline is lost. When a call of \<^verbatim>\<open>read\<close> returns only a part of a line, \<^verbatim>\<open>grep\<close> forgets it together with
  what it had kept of the line before, and goes on as if the line started with the next chunk.\<close>

theorem grep_drops_partial_line:
  assumes "10 \<notin> set b" and "10 \<notin> set ch"
  shows "grep_loop re b (ch # chs) = grep_loop re [] chs"
proof -
  have "newline_at (b @ ch) = None"
  proof (rule ccontr)
    let ?n = "length (takeWhile (\<lambda>c. c \<noteq> 0 \<and> c \<noteq> (10 :: uchar)) (b @ ch))"
    assume "newline_at (b @ ch) \<noteq> None"
    then have "?n < length (b @ ch)" "(b @ ch) ! ?n = 10" by (auto simp: newline_at_def Let_def split: if_splits)
    then have "10 \<in> set (b @ ch)" using nth_mem [of ?n "b @ ch"] by simp
    then show False using assms by simp
  qed
  then show ?thesis by (simp add: grep_lines.simps)
qed

text \<open>The line \<^verbatim>\<open>abc\<close> in two parts: the pattern \<^verbatim>\<open>a\<close> is not found.\<close>

theorem grep_drops_partial_line_witness:
  "grep [97] [[97, 98], [99, 10]] = [] \<and> selected [97] (full_lines [] (concat [[97, 98], [99, 10]])) = [97, 98, 99, 10]"
proof -
  have "grep [97] [[97, 98], [99, 10]] = grep_loop [97] [] [[99, 10]]"
    unfolding grep_def by (rule grep_drops_partial_line) simp_all
  then show ?thesis by (simp add: grep_lines.simps newline_at_def selected_def match_def matchhere.simps(2))
qed

section \<open>wc\<close>

text \<open>The string \<^verbatim>\<open>" \r\t\n\v"\<close>, the state of the loop and one round of it. The counters do not overflow on files that exist: a file has at most
  71680 bytes.\<close>

definition wc_space :: "uchar \<Rightarrow> bool" where
  "wc_space x \<longleftrightarrow> x \<in> {32, 13, 9, 10, 11}"

record wcstate =
  wc_l :: nat
  wc_w :: nat
  wc_c :: nat
  inword :: bool

definition wc_byte :: "wcstate \<Rightarrow> uchar \<Rightarrow> wcstate" where
  "wc_byte s x =
     (let s1 = s\<lparr>wc_c := wc_c s + 1, wc_l := (if x = 10 then wc_l s + 1 else wc_l s)\<rparr>
      in if wc_space x then s1\<lparr>inword := False\<rparr>
         else if \<not> inword s then s1\<lparr>wc_w := wc_w s + 1, inword := True\<rparr>
         else s1)"

definition wc :: "uchar list list \<Rightarrow> wcstate" where
  "wc chunks = foldl (\<lambda>s ch. foldl wc_byte s ch) \<lparr>wc_l = 0, wc_w = 0, wc_c = 0, inword = False\<rparr> chunks"

text \<open>A word starts at a byte that is no white space and has none of a word in front of it.\<close>

definition word_starts :: "uchar list \<Rightarrow> nat set" where
  "word_starts b = {i. i < length b \<and> \<not> wc_space (b ! i) \<and> (i = 0 \<or> wc_space (b ! (i - 1)))}"

lemma foldl_concat: "foldl (\<lambda>s ch. foldl f s ch) s chs = foldl f s (concat chs)"
  by (induction chs arbitrary: s) auto

lemma word_starts_snoc:
  "word_starts (b @ [x]) = word_starts b \<union> (if \<not> wc_space x \<and> (b = [] \<or> wc_space (last b)) then {length b} else {})"
  by (cases "b = []") (auto simp: word_starts_def nth_append last_conv_nth less_Suc_eq)

lemma finite_word_starts [simp]: "finite (word_starts b)" "length b \<notin> word_starts b"
  by (auto simp: word_starts_def)

text \<open>\<^verbatim>\<open>wc\<close> counts the newlines, the words and the bytes of its input, however \<^verbatim>\<open>read\<close> cuts it into chunks: a word that goes on in the next
  chunk counts once.\<close>

theorem wc_counts:
  "wc_l (wc chunks) = count_list (concat chunks) 10 \<and> wc_w (wc chunks) = card (word_starts (concat chunks)) \<and> wc_c (wc chunks) = length (concat chunks)"
proof -
  let ?s0 = "\<lparr>wc_l = 0, wc_w = 0, wc_c = 0, inword = False\<rparr>"
  have "let s = foldl wc_byte ?s0 b in wc_l s = count_list b 10 \<and> wc_w s = card (word_starts b) \<and> wc_c s = length b \<and>
      inword s = (b \<noteq> [] \<and> \<not> wc_space (last b))" for b
  proof (induction b rule: rev_induct)
    case Nil
    then show ?case by (simp add: word_starts_def)
  next
    case (snoc x b)
    then show ?case by (auto simp: Let_def wc_byte_def word_starts_snoc)
  qed
  then show ?thesis unfolding wc_def foldl_concat Let_def by blast
qed

end
