(* ===== verification/Console.thy ===== *)
theory Console
  imports Fs Ulib
begin

text \<open>
  The console, \<^verbatim>\<open>console.c\<close>, and the serial line below it, \<^verbatim>\<open>uart.c\<close>: formatted output, the text screen, the ring buffer with the line
  editor, and the read and write routines of the device.

  Each routine that holds \<^verbatim>\<open>cons.lock\<close> is one transition. Input reaches \<^verbatim>\<open>consoleintr\<close> as the list of the codes that \<^verbatim>\<open>getc\<close>
  returns until it is negative. \<open>Hang\<close> is the loop in which \<^verbatim>\<open>consputc\<close> stops a processor after a panic, and the wait of \<^verbatim>\<open>consoleread\<close> for a line.
  The indices of the ring are words that wrap around.
\<close>

section \<open>State\<close>

abbreviation (input) "INPUT_BUF \<equiv> (128 :: nat)"
abbreviation (input) "BACKSPACE \<equiv> (0x100 :: int)"

record cga =
  crtpos :: nat
  crt :: "nat \<Rightarrow> ushort"

record console =
  panicked :: bool
  locking :: bool
  uart :: bool
  serial :: "uchar list"
  screen :: cga
  ibuf :: "nat \<Rightarrow> uchar"
  ir :: uint
  iw :: uint
  ie :: uint

section \<open>Output\<close>

text \<open>\<^verbatim>\<open>uartputc\<close> waits at most 128 rounds for the transmitter and then sends in any case.\<close>

definition uartputc :: "int \<Rightarrow> console \<Rightarrow> console" where
  "uartputc c s = (if uart s then s\<lparr>serial := serial s @ [of_int c]\<rparr> else s)"

text \<open>The cursor is kept in the registers 14 and 15 of the display; \<^verbatim>\<open>crt\<close> is the screen of 25 lines of 80 cells.\<close>

definition cgaputc :: "int \<Rightarrow> cga \<Rightarrow> cga outcome" where
  "cgaputc c g =
     (let pos = crtpos g;
          (pos1, m1) =
            (if c = 10 then (pos + (80 - pos mod 80), crt g)
             else if c = BACKSPACE then (if pos > 0 then pos - 1 else pos, crt g)
             else (pos + 1, (crt g)(pos := (of_int c AND 0xff) OR 0x0700)))
      in if pos1 > 25 * 80 then Panic ''pos under/overflow''
         else
           let (pos2, m2) =
             (if pos1 div 80 \<ge> 24
              then (pos1 - 80, \<lambda>i. if pos1 - 80 \<le> i \<and> i < 24 * 80 then 0 else if i < 23 * 80 then m1 (i + 80) else m1 i)
              else (pos1, m1))
           in Ok \<lparr>crtpos = pos2 mod 2 ^ 16, crt = m2(pos2 := 0x0720)\<rparr>)"

definition consputc :: "int \<Rightarrow> console \<Rightarrow> console outcome" where
  "consputc c s =
     (if panicked s then Hang
      else
        let s1 = (if c = BACKSPACE then uartputc 8 (uartputc 32 (uartputc 8 s)) else uartputc c s)
        in andthen (cgaputc c (screen s1)) (\<lambda>g. Ok (s1\<lparr>screen := g\<rparr>)))"

primrec consputs :: "int list \<Rightarrow> console \<Rightarrow> console outcome" where
  "consputs [] s = Ok s"
| "consputs (c # cs) s = andthen (consputc c s) (consputs cs)"

text \<open>\<^verbatim>\<open>printint\<close> and \<^verbatim>\<open>cprintf\<close> of the kernel give the characters they pass to \<^verbatim>\<open>consputc\<close>; \<open>m\<close> is the memory, \<open>argp\<close> the address of the
  next argument.\<close>

definition kdigits :: "uchar list" where
  "kdigits = [48, 49, 50, 51, 52, 53, 54, 55, 56, 57, 97, 98, 99, 100, 101, 102]"

partial_function (option) kprintint_loop :: "uint \<Rightarrow> uint \<Rightarrow> uchar list \<Rightarrow> uchar list option" where
  "kprintint_loop x base buf =
     (let buf1 = buf @ [kdigits ! unat (x mod base)]; x1 = x div base
      in if x1 \<noteq> 0 then kprintint_loop x1 base buf1 else Some buf1)"

definition kprintint :: "uint \<Rightarrow> uint \<Rightarrow> bool \<Rightarrow> uchar list option" where
  "kprintint xx base sg =
     (let neg = (sg \<and> sint xx < 0);
          x = (if neg then - xx else xx)
      in map_option (\<lambda>buf. rev (if neg then buf @ [45] else buf)) (kprintint_loop x base []))"

definition cprintf_conv :: "bytes \<Rightarrow> uchar \<Rightarrow> uint \<Rightarrow> uchar list \<Rightarrow> (uint \<times> uchar list) option" where
  "cprintf_conv m c argp out =
     (if c = 100 then map_option (\<lambda>o1. (argp + 4, out @ o1)) (kprintint (load32 m argp) 10 True)
      else if c = 120 \<or> c = 112 then map_option (\<lambda>o1. (argp + 4, out @ o1)) (kprintint (load32 m argp) 16 False)
      else if c = 115 then
        (if load32 m argp = 0 then Some (argp + 4, out @ [40, 110, 117, 108, 108, 41])
         else map_option (\<lambda>o1. (argp + 4, o1)) (puts_loop m (load32 m argp) out))
      else if c = 37 then Some (argp, out @ [37])
      else Some (argp, out @ [37, c]))"

partial_function (option) cprintf_loop :: "bytes \<Rightarrow> uint \<Rightarrow> uint \<Rightarrow> uchar list \<Rightarrow> uchar list option" where
  "cprintf_loop m fmt argp out =
     (if m fmt = 0 then Some out
      else if m fmt \<noteq> 37 then cprintf_loop m (fmt + 1) argp (out @ [m fmt])
      else if m (fmt + 1) = 0 then Some out
      else Option.bind (cprintf_conv m (m (fmt + 1)) argp out) (\<lambda>r. cprintf_loop m (fmt + 2) (fst r) (snd r)))"

text \<open>The lock is taken only when \<^verbatim>\<open>cons.locking\<close> is set; a null format is a panic.\<close>

definition cprintf :: "bytes \<Rightarrow> uint \<Rightarrow> uint \<Rightarrow> console \<Rightarrow> console outcome" where
  "cprintf m fmt argp s =
     (if fmt = 0 then Panic ''null fmt''
      else (case cprintf_loop m fmt argp [] of None \<Rightarrow> Hang | Some out \<Rightarrow> consputs (map uint out) s))"

text \<open>What \<^verbatim>\<open>panic\<close> leaves behind: no locking of the console any more, its message on the screen, and every later \<^verbatim>\<open>consputc\<close> stops its
  processor. \<open>fmt\<close> is its argument, which it passes to \<^verbatim>\<open>cprintf\<close> as a format, with the stack at \<open>argp\<close> for arguments; \<open>callers\<close> is what
  \<^verbatim>\<open>getcallerpcs\<close> finds.\<close>

definition put_int :: "uchar list \<Rightarrow> uint \<Rightarrow> uint \<Rightarrow> bool \<Rightarrow> uchar list \<Rightarrow> console \<Rightarrow> console outcome" where
  "put_int before x base sg behind s =
     (case kprintint x base sg of None \<Rightarrow> Hang | Some out \<Rightarrow> consputs (map uint (before @ out @ behind)) s)"

primrec put_pcs :: "uint list \<Rightarrow> console \<Rightarrow> console outcome" where
  "put_pcs [] s = Ok s"
| "put_pcs (pc # callers) s = andthen (put_int [32] pc 16 False [] s) (put_pcs callers)"

definition panic :: "bytes \<Rightarrow> uint \<Rightarrow> uint \<Rightarrow> uint \<Rightarrow> uint \<Rightarrow> uint list \<Rightarrow> console \<Rightarrow> console outcome" where
  "panic m fmt argp lapicid apicid callers s =
     andthen (put_int [108, 97, 112, 105, 99, 105, 100, 32] lapicid 10 True [58, 32, 112, 97, 110, 105, 99, 58, 32] (s\<lparr>locking := False\<rparr>)) (\<lambda>s1.
     andthen (put_int [99, 112, 117, 32, 119, 105, 116, 104, 32, 97, 112, 105, 99, 105, 100, 32] apicid 10 True [58, 32, 112, 97, 110, 105, 99, 58, 32] s1) (\<lambda>s2.
     andthen (cprintf m fmt argp s2) (\<lambda>s3.
     andthen (consputs [10] s3) (\<lambda>s4.
     andthen (put_pcs callers s4) (\<lambda>s5. Ok (s5\<lparr>panicked := True\<rparr>))))))"

section \<open>Input\<close>

declare andthen_cong [fundef_cong]

lemma uartputc_fields [simp]:
  "ie (uartputc c s) = ie s" "iw (uartputc c s) = iw s" "ir (uartputc c s) = ir s" "ibuf (uartputc c s) = ibuf s" "panicked (uartputc c s) = panicked s"
  "screen (uartputc c s) = screen s" "locking (uartputc c s) = locking s"
  by (simp_all add: uartputc_def)

lemma consputc_fields:
  assumes "consputc c s = Ok s'"
  shows "ie s' = ie s" "iw s' = iw s" "ir s' = ir s" "ibuf s' = ibuf s" "panicked s' = panicked s"
  using assms by (auto simp: consputc_def Let_def split: if_splits elim!: ok_elims)

lemma unat_pred_less: "x \<noteq> 0 \<Longrightarrow> unat (x - 1 :: uint) < unat x"
  by (simp add: unat_minus_one unat_gt_0)

text \<open>Control-U: erase characters up to the last newline that was typed.\<close>

function kill_line :: "console \<Rightarrow> console outcome" where
  "kill_line s =
     (if ie s \<noteq> iw s \<and> ibuf s (unat (ie s - 1) mod INPUT_BUF) \<noteq> 10
      then andthen (consputc BACKSPACE (s\<lparr>ie := ie s - 1\<rparr>)) (\<lambda>s1. kill_line s1)
      else Ok s)"
  by auto
termination kill_line
proof (relation "measure (\<lambda>s. unat (ie s - iw s))", goal_cases)
  case (2 s s1)
  then have "ie s - iw s \<noteq> 0" by simp
  then have "unat (ie s - iw s - 1) < unat (ie s - iw s)" by (rule unat_pred_less)
  moreover have "ie s1 - iw s1 = ie s - iw s - 1" using consputc_fields [OF 2(2)] by simp
  ultimately show ?case by simp
qed simp

declare kill_line.simps [simp del]

text \<open>One character: \<open>Some True\<close> asks for the process listing, \<open>Some False\<close> wakes the readers up.\<close>

definition consoleintr_char :: "int \<Rightarrow> console \<Rightarrow> (bool option \<times> console) outcome" where
  "consoleintr_char c s =
     (if c = 16 then Ok (Some True, s)
      else if c = 21 then andthen (kill_line s) (\<lambda>s1. Ok (None, s1))
      else if c = 8 \<or> c = 127 then
        (if ie s \<noteq> iw s then andthen (consputc BACKSPACE (s\<lparr>ie := ie s - 1\<rparr>)) (\<lambda>s1. Ok (None, s1)) else Ok (None, s))
      else if c \<noteq> 0 \<and> ie s - ir s < of_nat INPUT_BUF then
        let c1 = (if c = 13 then 10 else c);
            s1 = s\<lparr>ibuf := (ibuf s)(unat (ie s) mod INPUT_BUF := of_int c1), ie := ie s + 1\<rparr>
        in andthen (consputc c1 s1) (\<lambda>s2.
             if c1 = 10 \<or> c1 = 4 \<or> ie s2 = ir s2 + of_nat INPUT_BUF
             then Ok (Some False, s2\<lparr>iw := ie s2\<rparr>)
             else Ok (None, s2))
      else Ok (None, s))"

fun consoleintr :: "int list \<Rightarrow> console \<Rightarrow> ((bool \<times> bool) \<times> console) outcome" where
  "consoleintr [] s = Ok ((False, False), s)"
| "consoleintr (c # cs) s =
     andthen (consoleintr_char c s) (\<lambda>(act, s1).
     andthen (consoleintr cs s1) (\<lambda>((dump, wake), s2). Ok ((dump \<or> act = Some True, wake \<or> act = Some False), s2)))"

text \<open>\<^verbatim>\<open>uartgetc\<close> gives the received bytes, none without a serial port.\<close>

definition uartintr :: "uchar list \<Rightarrow> console \<Rightarrow> ((bool \<times> bool) \<times> console) outcome" where
  "uartintr received s = consoleintr (if uart s then map uint received else []) s"

section \<open>The device\<close>

text \<open>The loop of \<^verbatim>\<open>consoleread\<close>: \<open>n\<close> bytes are still wanted out of \<open>target\<close>. \<open>Inr\<close> is its end, with the bytes it has copied and \<^verbatim>\<open>n\<close>;
  \<open>Inl\<close> is the point where it finds no complete line and sleeps.\<close>

fun consoleread_loop :: "nat \<Rightarrow> nat \<Rightarrow> uchar list \<Rightarrow> console \<Rightarrow> (nat \<times> uchar list + nat \<times> uchar list) \<times> console" where
  "consoleread_loop 0 target got s = (Inr (0, got), s)"
| "consoleread_loop (Suc n) target got s =
     (if ir s = iw s then (Inl (Suc n, got), s)
      else
        let c = ibuf s (unat (ir s) mod INPUT_BUF); s1 = s\<lparr>ir := ir s + 1\<rparr>
        in if c = 4 then (if Suc n < target then (Inr (Suc n, got), s1\<lparr>ir := ir s1 - 1\<rparr>) else (Inr (Suc n, got), s1))
           else if c = 10 then (Inr (n, got @ [c]), s1)
           else consoleread_loop n target (got @ [c]) s1)"

text \<open>A count that is not positive reads nothing, and the result is 0. \<open>killed\<close> is the flag of the process, which is looked at when it has to
  wait.\<close>

definition consoleread :: "bool \<Rightarrow> int \<Rightarrow> nat \<Rightarrow> uint \<Rightarrow> console fs \<Rightarrow> ((int \<times> uchar list) \<times> console fs) outcome" where
  "consoleread killed p ip n s =
     andthen (iunlock p (Some ip) s) (\<lambda>s1.
       if sint n \<le> 0 then andthen (ilock p (Some ip) s1) (\<lambda>s2. Ok ((0, []), s2))
       else
         (case consoleread_loop (unat n) (unat n) [] (devs s1) of
            (Inl (k, got), d) \<Rightarrow>
              if killed then andthen (ilock p (Some ip) (s1\<lparr>devs := d\<rparr>)) (\<lambda>s2. Ok ((-1, got), s2)) else Hang
          | (Inr (k, got), d) \<Rightarrow> andthen (ilock p (Some ip) (s1\<lparr>devs := d\<rparr>)) (\<lambda>s2. Ok ((sint n - int k, got), s2))))"

definition consolewrite :: "int \<Rightarrow> nat \<Rightarrow> uchar list \<Rightarrow> console fs \<Rightarrow> (int \<times> console fs) outcome" where
  "consolewrite p ip buf s =
     andthen (iunlock p (Some ip) s) (\<lambda>s1.
     andthen (consputs (map uint buf) (devs s1)) (\<lambda>d.
     andthen (ilock p (Some ip) (s1\<lparr>devs := d\<rparr>)) (\<lambda>s2. Ok (int (length buf), s2))))"

text \<open>\<^verbatim>\<open>consoleinit\<close>: the entry of the device table and the flag.\<close>

definition console_devsw :: "(int \<Rightarrow> bool) \<Rightarrow> console devsw" where
  "console_devsw killed major =
     (if major = 1 then (Some (\<lambda>p ip n s. consoleread (killed p) p ip n s), Some consolewrite) else (None, None))"

definition consoleinit :: "console \<Rightarrow> console" where
  "consoleinit s = s\<lparr>locking := True\<rparr>"

section \<open>The screen\<close>

lemma cgaputc_pos:
  assumes "crtpos g < 24 * 80"
  shows "\<exists>g'. cgaputc c g = Ok g' \<and> crtpos g' < 24 * 80"
proof -
  have "crtpos g div 80 * 80 + crtpos g mod 80 = crtpos g" "crtpos g mod 80 < 80" by (rule div_mult_mod_eq, simp)
  then have "crtpos g + (80 - crtpos g mod 80) = Suc (crtpos g div 80) * 80" unfolding mult_Suc by linarith
  moreover have "crtpos g div 80 < 24" using assms by (simp add: div_less_iff_less_mult)
  then have "Suc (crtpos g div 80) * 80 \<le> 24 * 80" by (intro mult_le_mono1) simp
  ultimately have nl: "crtpos g + (80 - crtpos g mod 80) \<le> 24 * 80" by simp
  let ?adv = "if c = 10 then (crtpos g + (80 - crtpos g mod 80), crt g)
    else if c = BACKSPACE then (if crtpos g > 0 then crtpos g - 1 else crtpos g, crt g)
    else (crtpos g + 1, (crt g)(crtpos g := (of_int c AND 0xff) OR 0x0700))"
  obtain pos1 m1 where e: "?adv = (pos1, m1)" by (metis surj_pair)
  then have le: "pos1 \<le> 24 * 80" using nl assms by (auto split: if_splits)
  show ?thesis
  proof (cases "pos1 = 24 * 80")
    case True
    then show ?thesis unfolding cgaputc_def Let_def e by simp
  next
    case False
    then have "pos1 < 24 * 80" using le by simp
    then have "\<not> pos1 div 80 \<ge> 24" by (simp add: div_less_iff_less_mult not_le)
    then show ?thesis unfolding cgaputc_def Let_def e using \<open>pos1 < 24 * 80\<close> by simp
  qed
qed

lemma consputc_ok:
  assumes "\<not> panicked s" and "crtpos (screen s) < 24 * 80"
  shows "\<exists>s'. consputc c s = Ok s' \<and> crtpos (screen s') < 24 * 80"
proof -
  let ?s = "if c = BACKSPACE then uartputc 8 (uartputc 32 (uartputc 8 s)) else uartputc c s"
  have "screen ?s = screen s" by simp
  with cgaputc_pos [OF assms(2), of c] obtain g where "cgaputc c (screen ?s) = Ok g" "crtpos g < 24 * 80" by auto
  then show ?thesis using assms(1) by (auto simp: consputc_def Let_def)
qed

section \<open>The ring buffer\<close>

lemma ring_index: "unat (a + of_nat k :: uint) mod INPUT_BUF = (unat a + k) mod INPUT_BUF"
proof -
  have d: "INPUT_BUF dvd 4294967296" by simp
  have "unat (a + of_nat k) mod INPUT_BUF = (unat a + k mod 4294967296) mod 4294967296 mod INPUT_BUF"
    by (simp add: unat_word_ariths unat_of_nat)
  also have "\<dots> = (unat a + k) mod INPUT_BUF" unfolding mod_add_right_eq by (rule mod_mod_cancel [OF d])
  finally show ?thesis .
qed

lemma ring_distinct:
  fixes a i j :: nat
  assumes "i < INPUT_BUF" "j < INPUT_BUF" "(a + i) mod INPUT_BUF = (a + j) mod INPUT_BUF"
  shows "i = j"
proof -
  have "i \<le> j" if "i < INPUT_BUF" "(a + i) mod INPUT_BUF = (a + j) mod INPUT_BUF" for i j
  proof (rule ccontr)
    assume "\<not> i \<le> j"
    then have "INPUT_BUF dvd (a + i) - (a + j)" using that(2) by (simp add: mod_eq_dvd_iff_nat)
    then have "INPUT_BUF dvd i - j" by simp
    then show False using \<open>\<not> i \<le> j\<close> that(1) by (auto dest: dvd_imp_le)
  qed
  from this [OF assms(1,3)] this [OF assms(2) assms(3) [symmetric]] show ?thesis by (rule le_antisym)
qed

text \<open>The bytes between two indices of the ring.\<close>

definition ring :: "(nat \<Rightarrow> uchar) \<Rightarrow> uint \<Rightarrow> uint \<Rightarrow> uchar list" where
  "ring b r w = map (\<lambda>k. b ((unat r + k) mod INPUT_BUF)) [0..<unat (w - r)]"

definition committed :: "console \<Rightarrow> uchar list" where
  "committed s = ring (ibuf s) (ir s) (iw s)"

definition edited :: "console \<Rightarrow> uchar list" where
  "edited s = ring (ibuf s) (iw s) (ie s)"

definition input_ok :: "console \<Rightarrow> bool" where
  "input_ok s \<longleftrightarrow> unat (iw s - ir s) + unat (ie s - iw s) \<le> INPUT_BUF \<and> 10 \<notin> set (edited s)"

lemma length_ring [simp]: "length (ring b r w) = unat (w - r)"
  by (simp add: ring_def)

lemma ring_pos: "(unat (w :: uint) + k) mod INPUT_BUF = (unat (r :: uint) + unat (w - r) + k) mod INPUT_BUF"
proof -
  have "unat w mod INPUT_BUF = (unat r + unat (w - r)) mod INPUT_BUF" using ring_index [of r "unat (w - r)"] by simp
  then show ?thesis by (metis mod_add_left_eq)
qed

lemma unat_inc: "unat x < 4294967295 \<Longrightarrow> unat (x + 1 :: uint) = Suc (unat x)"
  by (simp add: unat_word_ariths)

lemma unat_sum: "unat (w - r :: uint) + unat (e - w) < 4294967296 \<Longrightarrow> unat (e - r) = unat (w - r) + unat (e - w)"
  using unat_word_ariths(1) [of "w - r" "e - w"] by simp

lemma ring_append:
  assumes "unat (w - r) + unat (e - w) < 4294967296"
  shows "ring b r e = ring b r w @ ring b w e"
proof -
  have "[0..<unat (w - r) + unat (e - w)] = [0..<unat (w - r)] @ map (\<lambda>k. unat (w - r) + k) [0..<unat (e - w)]"
    using upt_add_eq_append [of 0 "unat (w - r)" "unat (e - w)"] map_add_upt [of "unat (w - r)" "unat (e - w)"] by (simp add: add.commute)
  moreover have "map (\<lambda>k. b ((unat r + (unat (w - r) + k)) mod INPUT_BUF)) [0..<unat (e - w)] = map (\<lambda>k. b ((unat w + k) mod INPUT_BUF)) [0..<unat (e - w)]"
    using ring_pos [of w _ r] by (simp add: add.assoc)
  ultimately show ?thesis by (simp add: ring_def unat_sum [OF assms] o_def)
qed

lemma ring_single: "ring b w (w + 1) = [b (unat w mod INPUT_BUF)]"
  by (simp add: ring_def)

lemma ring_other:
  assumes "unat (w - r) \<le> n" "n < INPUT_BUF" "unat e mod INPUT_BUF = (unat r + n) mod INPUT_BUF"
  shows "ring (b(unat e mod INPUT_BUF := c)) r w = ring b r w"
proof -
  have "(unat r + k) mod INPUT_BUF \<noteq> unat e mod INPUT_BUF" if "k < unat (w - r)" for k
    using ring_distinct [of k n "unat r"] assms that by auto
  then show ?thesis by (auto simp: ring_def)
qed

lemma ring_snoc:
  assumes "unat (w - r) < INPUT_BUF"
  shows "ring (b(unat w mod INPUT_BUF := c)) r (w + 1) = ring b r w @ [c]"
proof -
  have "unat (w - r) + unat (w + 1 - w) < 4294967296" using assms by simp
  from ring_append [OF this] show ?thesis
    using ring_other [of w r "unat (w - r)" w b c] assms ring_pos [of w 0 r] by (simp add: ring_single)
qed

lemma ring_butlast:
  assumes "e \<noteq> w"
  shows "ring b w e = ring b w (e - 1) @ [b (unat (e - 1) mod INPUT_BUF)]"
proof -
  have "unat (e - 1 - w) < unat (e - w)" using unat_pred_less [of "e - w"] assms by (simp add: algebra_simps)
  then have "unat (e - 1 - w) + unat (e - (e - 1)) < 4294967296" using unat_uint_bound [of "e - w"] by simp
  from ring_append [OF this] show ?thesis using ring_single [of b "e - 1"] by simp
qed

lemma ring_tl:
  assumes "r \<noteq> w"
  shows "ring b r w = b (unat r mod INPUT_BUF) # ring b (r + 1) w"
proof -
  have "unat (w - (r + 1)) < unat (w - r)" using unat_pred_less [of "w - r"] assms by (simp add: algebra_simps)
  then have "unat (r + 1 - r) + unat (w - (r + 1)) < 4294967296" using unat_uint_bound [of "w - r"] by simp
  from ring_append [OF this] show ?thesis by (simp add: ring_single)
qed

section \<open>The line editor as operations on lists\<close>

text \<open>What a key does to the bytes ready for a reader and to the line being edited.\<close>

definition key :: "int \<Rightarrow> uchar list \<times> uchar list \<Rightarrow> uchar list \<times> uchar list" where
  "key c ql =
     (case ql of (q, l) \<Rightarrow>
        if c = 16 then (q, l)
        else if c = 21 then (q, [])
        else if c = 8 \<or> c = 127 then (q, butlast l)
        else if c = 0 \<or> length q + length l \<ge> INPUT_BUF then (q, l)
        else
          let d = (if c = 13 then 10 else of_int c); l1 = l @ [d]
          in if d = 10 \<or> d = 4 \<or> length q + length l1 = INPUT_BUF then (q @ l1, []) else (q, l1))"

definition tty_lists :: "console \<Rightarrow> uchar list \<times> uchar list" where
  "tty_lists s = (committed s, edited s)"

definition tty_ok :: "console \<Rightarrow> bool" where
  "tty_ok s \<longleftrightarrow> \<not> panicked s \<and> crtpos (screen s) < 24 * 80 \<and> input_ok s"

lemma ring_self [simp]: "ring b r r = []"
  by (simp add: ring_def)

lemma ring_empty: "ring b r w = [] \<longleftrightarrow> r = w"
  by (metis length_0_conv length_ring right_minus_eq unat_eq_zero)

lemma echo:
  assumes "\<not> panicked s" and "crtpos (screen s) < 24 * 80"
  obtains s' where "consputc c s = Ok s'" "\<not> panicked s'" "crtpos (screen s') < 24 * 80"
    "ie s' = ie s" "iw s' = iw s" "ir s' = ir s" "ibuf s' = ibuf s"
  using consputc_ok [OF assms, of c] consputc_fields [of c s] assms(1) by metis

lemma same_ring:
  assumes "ie s' = ie s" "iw s' = iw s" "ir s' = ir s" "ibuf s' = ibuf s"
  shows "tty_lists s' = tty_lists s" "input_ok s' = input_ok s"
  using assms by (simp_all add: tty_lists_def committed_def edited_def input_ok_def)

text \<open>Taking back the last character.\<close>

lemma erase:
  assumes "tty_ok s" and "ie s \<noteq> iw s"
  obtains s' where "consputc BACKSPACE (s\<lparr>ie := ie s - 1\<rparr>) = Ok s'" "tty_ok s'" "ie s' = ie s - 1" "iw s' = iw s" "ir s' = ir s" "ibuf s' = ibuf s"
    "tty_lists s' = (committed s, butlast (edited s))"
proof -
  let ?s = "s\<lparr>ie := ie s - 1\<rparr>"
  have split: "edited s = edited ?s @ [ibuf s (unat (ie s - 1) mod INPUT_BUF)]" using ring_butlast [OF assms(2)] by (simp add: edited_def)
  have "unat (ie s - 1 - iw s) < unat (ie s - iw s)" using unat_pred_less [of "ie s - iw s"] assms(2) by (simp add: algebra_simps)
  then have "input_ok ?s" using assms(1) split by (auto simp: tty_ok_def input_ok_def)
  moreover have "tty_lists ?s = (committed s, butlast (edited s))" using split by (simp add: tty_lists_def committed_def)
  moreover from assms(1) have "\<not> panicked ?s" "crtpos (screen ?s) < 24 * 80" by (simp_all add: tty_ok_def)
  then obtain s' where "consputc BACKSPACE ?s = Ok s'" "\<not> panicked s'" "crtpos (screen s') < 24 * 80"
    "ie s' = ie ?s" "iw s' = iw ?s" "ir s' = ir ?s" "ibuf s' = ibuf ?s" by (rule echo)
  ultimately show thesis using that [of s'] same_ring [of s' ?s] by (simp add: tty_ok_def)
qed

lemma kill_line_lists:
  assumes "tty_ok s"
  shows "\<exists>s'. kill_line s = Ok s' \<and> tty_ok s' \<and> tty_lists s' = (committed s, [])"
  using assms
proof (induction "length (edited s)" arbitrary: s)
  case 0
  then have "edited s = []" by simp
  then have "ie s = iw s" using ring_empty unfolding edited_def by metis
  then show ?case using 0 by (subst kill_line.simps) (simp add: tty_lists_def edited_def)
next
  case (Suc n)
  then have ne: "ie s \<noteq> iw s" by (auto simp: edited_def)
  have "ibuf s (unat (ie s - 1) mod INPUT_BUF) \<in> set (edited s)" using ring_butlast [OF ne, of "ibuf s"] by (simp add: edited_def)
  then have nl: "ibuf s (unat (ie s - 1) mod INPUT_BUF) \<noteq> 10" using Suc.prems by (auto simp: tty_ok_def input_ok_def)
  obtain s1 where s1: "consputc BACKSPACE (s\<lparr>ie := ie s - 1\<rparr>) = Ok s1" "tty_ok s1" "tty_lists s1 = (committed s, butlast (edited s))"
    using erase [OF Suc.prems ne] by metis
  then have "n = length (edited s1)" using Suc.hyps(2) by (simp add: tty_lists_def)
  from Suc.hyps(1) [OF this s1(2)] s1(3) show ?case by (subst kill_line.simps) (simp add: ne nl s1(1) tty_lists_def)
qed

text \<open>An ordinary character is added to the line, unless the ring is full.\<close>

lemma insert_key:
  assumes ok: "tty_ok s" and room: "length (committed s) + length (edited s) < INPUT_BUF"
  shows "\<exists>s'. consputc c (s\<lparr>ibuf := (ibuf s)(unat (ie s) mod INPUT_BUF := d), ie := ie s + 1\<rparr>) = Ok s' \<and> \<not> panicked s' \<and> crtpos (screen s') < 24 * 80
    \<and> iw s' = iw s \<and> ir s' = ir s \<and> ie s' = ie s + 1 \<and> tty_lists s' = (committed s, edited s @ [d])"
proof -
  let ?b = "(ibuf s)(unat (ie s) mod INPUT_BUF := d)"
  let ?s = "s\<lparr>ibuf := ?b, ie := ie s + 1\<rparr>"
  have room': "unat (iw s - ir s) + unat (ie s - iw s) < INPUT_BUF" using room by (simp add: committed_def edited_def)
  then have "unat (ie s - iw s) < INPUT_BUF" by simp
  from ring_snoc [OF this] have e: "edited ?s = edited s @ [d]" by (simp add: edited_def)
  have n: "unat (ie s - ir s) = unat (iw s - ir s) + unat (ie s - iw s)" using room' by (intro unat_sum) simp
  have "ring ?b (ir s) (iw s) = ring (ibuf s) (ir s) (iw s)"
    using room' n ring_pos [of "ie s" 0 "ir s"] by (intro ring_other [of _ _ "unat (ie s - ir s)"]) simp_all
  then have q: "committed ?s = committed s" by (simp add: committed_def)
  from ok have "\<not> panicked ?s" "crtpos (screen ?s) < 24 * 80" by (simp_all add: tty_ok_def)
  then obtain s' where "consputc c ?s = Ok s'" "\<not> panicked s'" "crtpos (screen s') < 24 * 80"
    "ie s' = ie ?s" "iw s' = iw ?s" "ir s' = ir ?s" "ibuf s' = ibuf ?s" by (rule echo)
  then show ?thesis using same_ring(1) [of s' ?s] e q by (simp add: tty_lists_def)
qed

text \<open>The test for a full ring compares wrapped differences; it agrees with the lengths.\<close>

lemma full_test:
  assumes "unat (iw s - ir s) + unat (ie s - iw s) \<le> INPUT_BUF"
  shows "ie s - ir s < of_nat INPUT_BUF \<longleftrightarrow> length (committed s) + length (edited s) < INPUT_BUF"
    and "ie s = ir s + of_nat INPUT_BUF \<longleftrightarrow> length (committed s) + length (edited s) = INPUT_BUF"
proof -
  have n: "unat (ie s - ir s) = unat (iw s - ir s) + unat (ie s - iw s)" using assms by (intro unat_sum) simp
  then show "ie s - ir s < of_nat INPUT_BUF \<longleftrightarrow> length (committed s) + length (edited s) < INPUT_BUF"
    by (simp add: committed_def edited_def word_less_nat_alt)
  have "ie s = ir s + of_nat INPUT_BUF \<longleftrightarrow> ie s - ir s = of_nat INPUT_BUF" by (auto simp: algebra_simps)
  also have "\<dots> \<longleftrightarrow> unat (ie s - ir s) = INPUT_BUF" by (simp add: word_unat_eq_iff)
  finally show "ie s = ir s + of_nat INPUT_BUF \<longleftrightarrow> length (committed s) + length (edited s) = INPUT_BUF"
    using n by (simp add: committed_def edited_def)
qed

text \<open>A complete line is handed to the readers.\<close>

lemma commit_lists:
  assumes "unat (iw s - ir s) + unat (ie s - iw s) \<le> INPUT_BUF"
  shows "tty_lists (s\<lparr>iw := ie s\<rparr>) = (committed s @ edited s, [])" and "input_ok (s\<lparr>iw := ie s\<rparr>)"
proof -
  have lt: "unat (iw s - ir s) + unat (ie s - iw s) < 4294967296" using assms by simp
  show "tty_lists (s\<lparr>iw := ie s\<rparr>) = (committed s @ edited s, [])"
    using ring_append [OF lt] by (simp add: tty_lists_def committed_def edited_def)
  show "input_ok (s\<lparr>iw := ie s\<rparr>)" using assms unat_sum [OF lt] by (simp add: input_ok_def edited_def)
qed

lemma byte_code:
  assumes "0 \<le> c" "c < 256"
  shows "(of_int c :: uchar) = 10 \<longleftrightarrow> c = 10" and "(of_int c :: uchar) = 4 \<longleftrightarrow> c = 4"
proof -
  have "uint (of_int c :: uchar) = c" using assms by (simp add: uint_word_of_int)
  then show "(of_int c :: uchar) = 10 \<longleftrightarrow> c = 10" "(of_int c :: uchar) = 4 \<longleftrightarrow> c = 4" by (auto simp: word_uint_eq_iff)
qed

lemma consoleintr_typed:
  assumes ok: "tty_ok s" and c: "0 \<le> c" "c < 256" "c \<notin> {0, 8, 16, 21, 127}"
    and room: "length (committed s) + length (edited s) < INPUT_BUF"
  shows "\<exists>a s'. consoleintr_char c s = Ok (a, s') \<and> tty_ok s' \<and> tty_lists s' = key c (tty_lists s)"
proof -
  define c1 where "c1 = (if c = 13 then 10 else c)"
  define d :: uchar where "d = of_int c1"
  have d: "d = 10 \<longleftrightarrow> c1 = 10" "d = 4 \<longleftrightarrow> c1 = 4" using byte_code [of c1] c(1,2) by (simp_all add: c1_def d_def)
  obtain s2 where s2: "consputc c1 (s\<lparr>ibuf := (ibuf s)(unat (ie s) mod INPUT_BUF := d), ie := ie s + 1\<rparr>) = Ok s2"
    "\<not> panicked s2" "crtpos (screen s2) < 24 * 80" "committed s2 = committed s" "edited s2 = edited s @ [d]"
    using insert_key [OF ok room, of c1 d] by (auto simp: tty_lists_def)
  have sum: "unat (iw s2 - ir s2) + unat (ie s2 - iw s2) = Suc (length (committed s) + length (edited s))"
    using arg_cong [OF s2(4), of length] arg_cong [OF s2(5), of length] by (simp add: committed_def edited_def)
  then have le: "unat (iw s2 - ir s2) + unat (ie s2 - iw s2) \<le> INPUT_BUF" using room by simp
  let ?stop = "c1 = 10 \<or> c1 = 4 \<or> ie s2 = ir s2 + of_nat INPUT_BUF"
  have run: "consoleintr_char c s = (if ?stop then Ok (Some False, s2\<lparr>iw := ie s2\<rparr>) else Ok (None, s2))"
    using c(3) full_test(1) [of s] ok room s2(1) unfolding consoleintr_char_def Let_def c1_def [symmetric] d_def [symmetric]
    by (simp add: tty_ok_def input_ok_def)
  have kd: "(if c = 13 then 10 else of_int c) = d" by (simp add: d_def c1_def)
  have key: "key c (tty_lists s) = (if ?stop then (committed s @ edited s @ [d], []) else (committed s, edited s @ [d]))"
    using c(3) room d full_test(2) [OF le] s2(4,5) unfolding key_def tty_lists_def Let_def kd by simp
  show ?thesis
  proof (cases ?stop)
    case True
    then show ?thesis using commit_lists [OF le] s2 run key by (simp add: tty_ok_def)
  next
    case False
    then have "10 \<notin> set (edited s2)" using s2(5) d ok by (auto simp: tty_ok_def input_ok_def)
    then show ?thesis using False le s2 run key by (simp add: tty_ok_def input_ok_def tty_lists_def)
  qed
qed

lemma consoleintr_char_lists:
  assumes ok: "tty_ok s" and c: "0 \<le> c" "c < 256"
  shows "\<exists>a s'. consoleintr_char c s = Ok (a, s') \<and> tty_ok s' \<and> tty_lists s' = key c (tty_lists s)"
proof -
  consider "c = 16" | "c = 21" | "c = 8 \<or> c = 127" | "c = 0" | "c \<notin> {0, 8, 16, 21, 127}" by auto
  then show ?thesis
  proof cases
    case 2
    then show ?thesis using kill_line_lists [OF ok] by (auto simp: consoleintr_char_def key_def tty_lists_def)
  next
    case 3
    show ?thesis
    proof (cases "ie s = iw s")
      case True
      then show ?thesis using 3 ok by (auto simp: consoleintr_char_def key_def tty_lists_def edited_def)
    next
      case False
      then obtain s' where "consputc BACKSPACE (s\<lparr>ie := ie s - 1\<rparr>) = Ok s'" "tty_ok s'" "tty_lists s' = (committed s, butlast (edited s))"
        using erase [OF ok] by metis
      then show ?thesis using 3 False by (auto simp: consoleintr_char_def key_def tty_lists_def)
    qed
  next
    case 5
    show ?thesis
    proof (cases "length (committed s) + length (edited s) < INPUT_BUF")
      case True
      from consoleintr_typed [OF ok c 5 True] show ?thesis .
    next
      case False
      then have "\<not> ie s - ir s < of_nat INPUT_BUF" using full_test(1) [of s] ok by (simp add: tty_ok_def input_ok_def)
      then show ?thesis using 5 False ok by (simp add: consoleintr_char_def key_def tty_lists_def)
    qed
  qed (use ok in \<open>auto simp: consoleintr_char_def key_def tty_lists_def\<close>)
qed

lemma consoleintr_lists:
  assumes "tty_ok s" and "\<forall>c\<in>set cs. 0 \<le> c \<and> c < 256"
  shows "\<exists>events s'. consoleintr cs s = Ok (events, s') \<and> tty_ok s' \<and> tty_lists s' = fold key cs (tty_lists s)"
  using assms
proof (induction cs arbitrary: s)
  case Nil
  then show ?case by (intro exI [of _ "(False, False)"]) simp
next
  case (Cons c cs)
  then obtain a s1 where s1: "consoleintr_char c s = Ok (a, s1)" "tty_ok s1" "tty_lists s1 = key c (tty_lists s)"
    using consoleintr_char_lists [of s c] by auto
  from Cons.IH [OF s1(2)] Cons.prems(2) obtain dump wake s2
    where "consoleintr cs s1 = Ok ((dump, wake), s2)" "tty_ok s2" "tty_lists s2 = fold key cs (tty_lists s1)" by auto
  then show ?case using s1 by simp
qed

text \<open>C31: the line editor of the console works on two lists, the bytes that wait for a reader and the line being typed. From a state in which
  the console is in order, with no panic, the cursor on the screen and no newline in the line being edited, \<^verbatim>\<open>consoleintr\<close> handles any sequence
  of key codes without a panic, leaves the console in order, and changes the two lists key by key as \<open>key\<close> says: a character is appended unless
  128 bytes are held, backspace takes the last one, control-U the whole line, and a newline, control-D or the last free place of the ring hands the
  line to the readers. The indices of the ring may wrap around at any moment.\<close>

theorem console_line_editor:
  assumes "tty_ok s" and "\<forall>c\<in>set cs. 0 \<le> c \<and> c < 256"
  shows "\<exists>events s'. consoleintr cs s = Ok (events, s') \<and> tty_ok s' \<and> tty_lists s' = fold key cs (tty_lists s)"
  by (rule consoleintr_lists [OF assms])

theorem console_line_editor_witness:
  "\<exists>events s'. consoleintr [108, 120, 8, 115, 13] \<lparr>panicked = False, locking = True, uart = True, serial = [], screen = \<lparr>crtpos = 0, crt = \<lambda>_. 0\<rparr>,
      ibuf = (\<lambda>_. 0), ir = - 2, iw = - 2, ie = - 2\<rparr> = Ok (events, s') \<and> tty_ok s' \<and> tty_lists s' = ([108, 115, 10], [])"
  using console_line_editor [of "\<lparr>panicked = False, locking = True, uart = True, serial = [], screen = \<lparr>crtpos = 0, crt = \<lambda>_. 0\<rparr>,
      ibuf = (\<lambda>_. 0), ir = - 2, iw = - 2, ie = - 2\<rparr>" "[108, 120, 8, 115, 13]"]
  by (simp add: tty_ok_def input_ok_def tty_lists_def committed_def edited_def key_def)

section \<open>Readers\<close>

lemma committed_tl:
  assumes "committed s = c # q"
  shows "ir s \<noteq> iw s" "ibuf s (unat (ir s) mod INPUT_BUF) = c" "committed (s\<lparr>ir := ir s + 1\<rparr>) = q"
proof -
  show ne: "ir s \<noteq> iw s" using assms by (auto simp: committed_def)
  show "ibuf s (unat (ir s) mod INPUT_BUF) = c" "committed (s\<lparr>ir := ir s + 1\<rparr>) = q"
    using ring_tl [OF ne, of "ibuf s"] assms by (simp_all add: committed_def)
qed

lemma consoleread_loop_line:
  assumes "0 < n" "n + length got = t" "committed s = l @ c # q" "\<forall>x\<in>set l. x \<noteq> 4 \<and> x \<noteq> 10" "c = 4 \<or> c = 10"
  shows "\<exists>s' out. consoleread_loop n t got s = (Inr (t - length out, out), s') \<and> s' = s\<lparr>ir := ir s'\<rparr>
    \<and> out = got @ (if n \<le> length l then take n l else if c = 10 then l @ [10] else l)
    \<and> committed s' = (if n \<le> length l then drop n l @ c # q else if c = 10 \<or> got @ l = [] then q else c # q)"
  using assms
proof (induction n arbitrary: got s l)
  case 0
  then show ?case by simp
next
  case (Suc n)
  show ?case
  proof (cases l)
    case Nil
    note tl = committed_tl [of s c q]
    from Suc.prems(3) Nil have q: "committed s = c # q" by simp
    consider "c = 10" | "c = 4" "got = []" | "c = 4" "got \<noteq> []" using Suc.prems(5) by blast
    then show ?thesis using tl [OF q] q Nil Suc.prems(2) [symmetric] by cases (simp_all add: Let_def)
  next
    case (Cons x xs)
    with Suc.prems(3) have "committed s = x # xs @ c # q" by simp
    note tl = committed_tl [OF this]
    have x: "x \<noteq> 4" "x \<noteq> 10" using Suc.prems(4) Cons by auto
    have run: "consoleread_loop (Suc n) t got s = consoleread_loop n t (got @ [x]) (s\<lparr>ir := ir s + 1\<rparr>)"
      using tl x by simp
    show ?thesis
    proof (cases n)
      case 0
      then show ?thesis using run tl Cons Suc.prems(2) by simp
    next
      case (Suc m)
      have "n + length (got @ [x]) = t" "\<forall>x\<in>set xs. x \<noteq> 4 \<and> x \<noteq> 10" "0 < n" using Suc.prems Cons Suc by auto
      from Suc.IH [OF this(3,1) tl(3) this(2) Suc.prems(5)] show ?thesis unfolding run using Cons by auto
    qed
  qed
qed

text \<open>C32: a read of the console returns at most one line. When the bytes ready for readers begin with the characters \<open>l\<close> followed by a newline or
  a control-D, a read of \<open>n\<close> bytes returns the first \<open>n\<close> characters of \<open>l\<close> if there are that many and leaves the rest; otherwise it returns \<open>l\<close>,
  with the newline if there is one. A control-D ends the read and is kept for the next one, unless nothing was read before it: then it is used up
  and the read returns no byte, which is the end of file. The line being edited is not touched, and the console stays in order.\<close>

theorem console_read_line:
  assumes "tty_ok s" and "0 < n" and "committed s = l @ c # q" and "\<forall>x\<in>set l. x \<noteq> 4 \<and> x \<noteq> 10" and "c = 4 \<or> c = 10"
  shows "\<exists>s' out. consoleread_loop n n [] s = (Inr (n - length out, out), s')
    \<and> out = (if n \<le> length l then take n l else if c = 10 then l @ [10] else l)
    \<and> committed s' = (if n \<le> length l then drop n l @ c # q else if c = 10 \<or> l = [] then q else c # q)
    \<and> edited s' = edited s \<and> tty_ok s'"
proof -
  obtain s' out where r: "consoleread_loop n n [] s = (Inr (n - length out, out), s')" "s' = s\<lparr>ir := ir s'\<rparr>"
    "out = (if n \<le> length l then take n l else if c = 10 then l @ [10] else l)"
    "committed s' = (if n \<le> length l then drop n l @ c # q else if c = 10 \<or> l = [] then q else c # q)"
    using consoleread_loop_line [of n "[]" n s l c q] assms(2-5) by auto
  from r(2) obtain r' where s': "s' = s\<lparr>ir := r'\<rparr>" by blast
  have "length (committed s') \<le> length (committed s)" using assms(3) r(4) by auto
  then have "unat (iw s - r') \<le> unat (iw s - ir s)" by (simp add: committed_def s')
  then have "tty_ok s'" "edited s' = edited s" using assms(1) by (auto simp: tty_ok_def input_ok_def edited_def s')
  with r show ?thesis by blast
qed

theorem console_read_line_witness:
  "\<exists>s' out. consoleread_loop 5 5 [] \<lparr>panicked = False, locking = True, uart = True, serial = [], screen = \<lparr>crtpos = 0, crt = \<lambda>_. 0\<rparr>,
      ibuf = (\<lambda>_. 0)(126 := 108, 127 := 115, 0 := 10, 1 := 97), ir = - 2, iw = 1, ie = 2\<rparr> = (Inr (2, out), s')
    \<and> out = [108, 115, 10] \<and> committed s' = [] \<and> edited s' = [97] \<and> tty_ok s'"
proof -
  let ?s = "\<lparr>panicked = False, locking = True, uart = True, serial = [], screen = \<lparr>crtpos = 0, crt = \<lambda>_. 0\<rparr>,
      ibuf = (\<lambda>_. 0)(126 := 108, 127 := 115, 0 := 10, 1 := 97), ir = - 2, iw = 1, ie = 2\<rparr>"
  have e: "edited ?s = [97]" by (simp add: edited_def ring_def)
  then have "tty_ok ?s" by (simp add: tty_ok_def input_ok_def)
  moreover have "committed ?s = [108, 115] @ 10 # []" by (simp add: committed_def ring_def upt_rec)
  ultimately have "\<exists>s' out. consoleread_loop 5 5 [] ?s = (Inr (5 - length out, out), s') \<and> out = [108, 115, 10] \<and> committed s' = []
      \<and> edited s' = edited ?s \<and> tty_ok s'"
    using console_read_line [of ?s 5 "[108, 115]" 10 "[]"] by simp
  then show ?thesis unfolding e by auto
qed

end
