(* ===== verification/Spec2Isabelle.thy ===== *)
theory Spec2Isabelle
  imports Vm_Props Ulib Sched_Props Fs_File Sh_Run Grep Console
begin

text \<open>
  A verification of the xv6 kernel with copy-on-write fork: the physical page allocator and the
  virtual memory system.
\<close>

end
